(* ===== verification/Prelude.thy ===== *)
theory Prelude
  imports Main "HOL-Library.Word"
begin

text \<open>
  Shared vocabulary of the development: names for Rust's fixed-width integers, the saturating
  and wrapping \<open>u32\<close> arithmetic the resource analyses use, the result type of fallible code,
  and the generic lemmas and theorem collections that the component theories build on.

  Operands of instructions are kept at their width (\<open>8 word\<close>, \<open>16 word\<close>, \<open>32 word\<close>) and read
  with \<open>unat\<close> where the code casts them to \<open>usize\<close>.  Accumulators of type \<open>u32\<close> that the code
  only ever combines by saturating operations are natural numbers bounded by \<open>u32_max\<close>, with the
  saturation written out.  Positions of type \<open>usize\<close> are natural numbers.
\<close>

section \<open>Machine integers\<close>

type_synonym u8 = "8 word"
type_synonym u16 = "16 word"
type_synonym u32 = "32 word"
type_synonym u64 = "64 word"

definition u32_max :: nat where
  "u32_max = 4294967295"

text \<open>Rust's \<open>u32::saturating_add\<close> and \<open>u32::saturating_mul\<close>.\<close>

definition sat_add :: "nat \<Rightarrow> nat \<Rightarrow> nat" where
  "sat_add a b = min (a + b) u32_max"

definition sat_mul :: "nat \<Rightarrow> nat \<Rightarrow> nat" where
  "sat_mul a b = min (a * b) u32_max"

text \<open>Plain \<open>u32\<close> addition and multiplication of a release build: they wrap around.\<close>

definition wrap_add32 :: "nat \<Rightarrow> nat \<Rightarrow> nat" where
  "wrap_add32 a b = (a + b) mod 2 ^ 32"

definition wrap_mul32 :: "nat \<Rightarrow> nat \<Rightarrow> nat" where
  "wrap_mul32 a b = (a * b) mod 2 ^ 32"

text \<open>The cast \<open>x as i32\<close> of a \<open>u32\<close>.\<close>

definition as_i32 :: "nat \<Rightarrow> int" where
  "as_i32 n = (if n < 2 ^ 31 then int n else int n - 2 ^ 32)"

named_theorems sat_simps \<open>rewrite rules for the saturating operations\<close>
named_theorems sat_mono \<open>monotonicity of the saturating operations\<close>

lemma sat_add_le [simp]: "sat_add a b \<le> u32_max"
  by (simp add: sat_add_def)

lemma sat_mul_le [simp]: "sat_mul a b \<le> u32_max"
  by (simp add: sat_mul_def)

lemma sat_add_mono [sat_mono]: "a \<le> a' \<Longrightarrow> b \<le> b' \<Longrightarrow> sat_add a b \<le> sat_add a' b'"
  by (simp add: sat_add_def min_def)

lemma sat_mul_mono [sat_mono]: "a \<le> a' \<Longrightarrow> b \<le> b' \<Longrightarrow> sat_mul a b \<le> sat_mul a' b'"
  by (simp add: sat_mul_def min.coboundedI1 mult_le_mono min.mono)

lemma sat_add_assoc [sat_simps]: "sat_add (sat_add a b) c = sat_add a (sat_add b c)"
  by (simp add: sat_add_def min_def)

lemma sat_add_0 [simp]: "a \<le> u32_max \<Longrightarrow> sat_add a 0 = a" "a \<le> u32_max \<Longrightarrow> sat_add 0 a = a"
  by (simp_all add: sat_add_def)

lemma sat_add_exact: "sat_add a b < u32_max \<Longrightarrow> sat_add a b = a + b"
  by (simp add: sat_add_def min_def split: if_splits)

lemma sat_mul_exact: "sat_mul a b < u32_max \<Longrightarrow> sat_mul a b = a * b"
  by (simp add: sat_mul_def min_def split: if_splits)

lemma sat_add_ge1: "a \<le> u32_max \<Longrightarrow> a \<le> sat_add a b"
  by (simp add: sat_add_def)

text \<open>
  A saturated accumulator is either exact or at the top: the form in which the analyses'
  bounds are stated, since a result of \<open>u32::MAX\<close> bounds nothing.
\<close>

lemma sat_add_lower: "sat_add a b \<ge> min (a + b) u32_max"
  by (simp add: sat_add_def)

lemma min_sat_add: "x \<le> min (a + b) u32_max \<longleftrightarrow> x \<le> sat_add a b"
  by (simp add: sat_add_def)

section \<open>Results\<close>

text \<open>\<open>Result<T, E>\<close> is \<open>'e + 'a\<close> with \<open>Inl\<close> for \<open>Err\<close>; \<open>bindR\<close> is the \<open>?\<close> operator.\<close>

definition bindR :: "'e + 'a \<Rightarrow> ('a \<Rightarrow> 'e + 'b) \<Rightarrow> 'e + 'b" where
  "bindR r f = (case r of Inl e \<Rightarrow> Inl e | Inr x \<Rightarrow> f x)"

lemma bindR_simps [simp]: "bindR (Inl e) f = Inl e" "bindR (Inr x) f = f x"
  by (simp_all add: bindR_def)

lemma bindR_Inr: "bindR r f = Inr y \<longleftrightarrow> (\<exists>x. r = Inr x \<and> f x = Inr y)"
  by (cases r) auto

text \<open>
  A fallible recursion that may also diverge has type \<open>('e + 'a) option\<close>: \<open>None\<close> is "does not
  return".  \<open>bindOR\<close> sequences two such computations.
\<close>

definition bindOR :: "('e + 'a) option \<Rightarrow> ('a \<Rightarrow> ('e + 'b) option) \<Rightarrow> ('e + 'b) option" where
  "bindOR m f = Option.bind m (\<lambda>r. case r of Inl e \<Rightarrow> Some (Inl e) | Inr x \<Rightarrow> f x)"

lemma bindOR_simps [simp]:
  "bindOR None f = None"
  "bindOR (Some (Inl e)) f = Some (Inl e)"
  "bindOR (Some (Inr x)) f = f x"
  by (simp_all add: bindOR_def)

lemma bindOR_Some_Inr:
  "bindOR m f = Some (Inr y) \<longleftrightarrow> (\<exists>x. m = Some (Inr x) \<and> f x = Some (Inr y))"
proof (cases m)
  case (Some r)
  then show ?thesis by (cases r) auto
qed simp

lemma bindOR_total:
  assumes "\<exists>r. m = Some r" and "\<And>x. m = Some (Inr x) \<Longrightarrow> \<exists>r. f x = Some r"
  shows "\<exists>r. bindOR m f = Some r"
  using assms by (auto simp: bindOR_def split: sum.splits)

section \<open>Lists\<close>

text \<open>\<open>slice::get\<close>: the element at a position, if there is one.\<close>

definition nth_opt :: "'a list \<Rightarrow> nat \<Rightarrow> 'a option" where
  "nth_opt xs i = (if i < length xs then Some (xs ! i) else None)"

lemma nth_opt_Some [simp]: "nth_opt xs i = Some x \<longleftrightarrow> i < length xs \<and> xs ! i = x"
  by (auto simp: nth_opt_def)

lemma nth_opt_None [simp]: "nth_opt xs i = None \<longleftrightarrow> length xs \<le> i"
  by (auto simp: nth_opt_def)

text \<open>\<open>iter().position(p)\<close>: the least position whose element satisfies \<open>p\<close>.\<close>

fun position :: "('a \<Rightarrow> bool) \<Rightarrow> 'a list \<Rightarrow> nat option" where
  "position p [] = None"
| "position p (x # xs) = (if p x then Some 0 else map_option Suc (position p xs))"

lemma position_None: "position p xs = None \<longleftrightarrow> (\<forall>x \<in> set xs. \<not> p x)"
  by (induction xs) auto

lemma position_Some:
  "position p xs = Some i \<longleftrightarrow> i < length xs \<and> p (xs ! i) \<and> (\<forall>j < i. \<not> p (xs ! j))"
proof (induction xs arbitrary: i)
  case Nil
  then show ?case by simp
next
  case (Cons x xs)
  then show ?case
    by (cases i) (auto simp: less_Suc_eq_0_disj)
qed

text \<open>The maximum of a list with a default, as \<open>iter().max().unwrap_or(d)\<close>.\<close>

definition max_or :: "nat \<Rightarrow> nat list \<Rightarrow> nat" where
  "max_or d xs = (if xs = [] then d else Max (set xs))"

lemma max_or_ge: "x \<in> set xs \<Longrightarrow> x \<le> max_or d xs"
  by (auto simp: max_or_def)

lemma max_or_simps [simp]: "max_or d [] = d" "max_or 0 (x # xs) = max x (max_or 0 xs)"
  by (auto simp: max_or_def)

end
