(* ===== verification/Bytecode.thy ===== *)
theory Bytecode
  imports Prelude
begin

text \<open>
  The instruction set and the module data model of \<open>src/src/bytecode.rs\<close>, with the layout kinds
  of \<open>src/src/value_layout.rs\<close> that instruction operands carry.  The configuration modelled is
  the default one, with the \<open>floats\<close> feature on.  A constructor whose source name would clash
  with a constant of HOL carries the suffix \<open>_op\<close>; the variants of the small operand enums carry
  a short prefix, since Rust qualifies them by their type.
\<close>

section \<open>Layout kinds\<close>

datatype scalar_kind = SK_Unit | SK_Bool | SK_Byte | SK_Int | SK_Fixed | SK_Float | SK_Text | SK_Opaque

text \<open>\<open>ScalarKind::size_in_bytes\<close>: the width of a scalar under the runtime's widths.\<close>

fun size_in_bytes :: "scalar_kind \<Rightarrow> nat \<Rightarrow> nat \<Rightarrow> nat \<Rightarrow> nat" where
  "size_in_bytes SK_Unit word_bytes float_bytes addr_bytes = 0"
| "size_in_bytes SK_Bool word_bytes float_bytes addr_bytes = 1"
| "size_in_bytes SK_Byte word_bytes float_bytes addr_bytes = 1"
| "size_in_bytes SK_Int word_bytes float_bytes addr_bytes = word_bytes"
| "size_in_bytes SK_Fixed word_bytes float_bytes addr_bytes = word_bytes"
| "size_in_bytes SK_Float word_bytes float_bytes addr_bytes = float_bytes"
| "size_in_bytes SK_Text word_bytes float_bytes addr_bytes = 2 * word_bytes"
| "size_in_bytes SK_Opaque word_bytes float_bytes addr_bytes = addr_bytes"

fun scalar_to_tag :: "scalar_kind \<Rightarrow> u8" where
  "scalar_to_tag SK_Unit = 0"
| "scalar_to_tag SK_Bool = 1"
| "scalar_to_tag SK_Byte = 2"
| "scalar_to_tag SK_Int = 3"
| "scalar_to_tag SK_Fixed = 4"
| "scalar_to_tag SK_Float = 5"
| "scalar_to_tag SK_Text = 6"
| "scalar_to_tag SK_Opaque = 7"

definition scalar_from_tag :: "u8 \<Rightarrow> scalar_kind option" where
  "scalar_from_tag tag =
     (if tag = 0 then Some SK_Unit
      else if tag = 1 then Some SK_Bool
      else if tag = 2 then Some SK_Byte
      else if tag = 3 then Some SK_Int
      else if tag = 4 then Some SK_Fixed
      else if tag = 5 then Some SK_Float
      else if tag = 6 then Some SK_Text
      else if tag = 7 then Some SK_Opaque
      else None)"

datatype composite_kind = CK_Tuple | CK_Array | CK_Struct | CK_Enum

fun composite_to_tag :: "composite_kind \<Rightarrow> u8" where
  "composite_to_tag CK_Tuple = 0"
| "composite_to_tag CK_Array = 1"
| "composite_to_tag CK_Struct = 2"
| "composite_to_tag CK_Enum = 3"

definition composite_from_tag :: "u8 \<Rightarrow> composite_kind option" where
  "composite_from_tag tag =
     (if tag = 0 then Some CK_Tuple
      else if tag = 1 then Some CK_Array
      else if tag = 2 then Some CK_Struct
      else if tag = 3 then Some CK_Enum
      else None)"

section \<open>Constants, block types and trap kinds\<close>

text \<open>Integers of a constant pool are \<open>i64\<close>; a \<open>Float\<close> constant is kept as its 64 bits.\<close>

datatype const_value =
    CV_Unit
  | CV_Bool bool
  | CV_Int "64 word"
  | CV_Byte u8
  | CV_Fixed "64 word"
  | CV_Float "64 word"
  | CV_StaticStr string
  | CV_Tuple "const_value list"
  | CV_Array "const_value list"
  | CV_Struct string "(string \<times> const_value) list"
  | CV_Enum string string "(64 word) option" "const_value list"
  | CV_None

datatype block_type = BT_Func | BT_Reentrant | BT_Stream

datatype trap_kind =
    RefinementFailed | NoMatchingHead | NoMatchingArm | CheckedArithNoArm | EnumVariantUnmapped
  | ZeroDivisor | AssertionFailed | LoopLimitExceeded | IndexOutOfBounds | HostError

fun trap_code :: "trap_kind \<Rightarrow> u16" where
  "trap_code RefinementFailed = 0"
| "trap_code NoMatchingHead = 1"
| "trap_code NoMatchingArm = 2"
| "trap_code CheckedArithNoArm = 3"
| "trap_code EnumVariantUnmapped = 4"
| "trap_code ZeroDivisor = 5"
| "trap_code AssertionFailed = 6"
| "trap_code LoopLimitExceeded = 7"
| "trap_code IndexOutOfBounds = 8"
| "trap_code HostError = 9"

definition trap_from_code :: "u16 \<Rightarrow> trap_kind option" where
  "trap_from_code code =
     (if code = 0 then Some RefinementFailed
      else if code = 1 then Some NoMatchingHead
      else if code = 2 then Some NoMatchingArm
      else if code = 3 then Some CheckedArithNoArm
      else if code = 4 then Some EnumVariantUnmapped
      else if code = 5 then Some ZeroDivisor
      else if code = 6 then Some AssertionFailed
      else if code = 7 then Some LoopLimitExceeded
      else if code = 8 then Some IndexOutOfBounds
      else if code = 9 then Some HostError
      else None)"

section \<open>Instruction operands\<close>

text \<open>Baked access operands: an offset and a kind, a nested body, or a boxed position.\<close>

datatype tuple_field =
    TF_Flat u16 scalar_kind | TF_FlatNested u16 u16 composite_kind | TF_Boxed u8

datatype struct_field =
    SF_Flat u16 scalar_kind | SF_FlatNested u16 u16 composite_kind | SF_Boxed u16

datatype enum_field =
    EF_Flat u16 scalar_kind | EF_FlatNested u16 u16 composite_kind | EF_Boxed u8

datatype array_elem = AE_Flat scalar_kind | AE_FlatNested u16 composite_kind | AE_Boxed

fun has_bounds_outcome :: "array_elem \<Rightarrow> bool" where
  "has_bounds_outcome (AE_Flat kind) = (kind = SK_Int \<or> kind = SK_Byte)"
| "has_bounds_outcome (AE_FlatNested sz variant) = True"
| "has_bounds_outcome AE_Boxed = True"

text \<open>\<open>Flat kind count byte_size\<close> and \<open>Boxed kind count meta\<close>.\<close>

datatype new_composite_operand =
    NC_Flat composite_kind u16 u16 | NC_Boxed composite_kind u16 u16

fun nc_kind :: "new_composite_operand \<Rightarrow> composite_kind" where
  "nc_kind (NC_Flat kind n byte_size) = kind"
| "nc_kind (NC_Boxed kind n meta) = kind"

fun nc_count :: "new_composite_operand \<Rightarrow> u16" where
  "nc_count (NC_Flat kind n byte_size) = n"
| "nc_count (NC_Boxed kind n meta) = n"

fun alloc_bytes :: "new_composite_operand \<Rightarrow> nat" where
  "alloc_bytes (NC_Flat kind n byte_size) = unat byte_size"
| "alloc_bytes (NC_Boxed kind n meta) = 0"

section \<open>Instructions\<close>

datatype (plugins only: code size) op =
    Const u16
  | GetLocal u16
  | SetLocal u16
  | GetData u32
  | SetData u32
  | GetDataIndexed u32 u32
  | SetDataIndexed u32 u32
  | BoundsCheck u16
  | Add
  | Sub
  | Mul
  | Div
  | Mod
  | Neg
  | CmpEq
  | CmpNe
  | CmpLt
  | CmpGt
  | CmpLe
  | CmpGe
  | Not_op
  | If_op u16
  | Else_op u16
  | EndIf
  | Loop u16
  | EndLoop u16
  | Break u16
  | BreakIf u16
  | Stream
  | Reset
  | Call u16 u8
  | Return
  | Yield
  | Dup
  | NewComposite new_composite_operand
  | GetField struct_field
  | GetIndex array_elem
  | GetTupleField tuple_field
  | GetEnumField enum_field
  | Len
  | IsEnum u16 u16 u16
  | IsStruct u16
  | IntToFloat
  | FloatToInt
  | WordToByte
  | ByteToWord
  | WordToFixed u8
  | FixedToWord u8
  | FixedMul u8
  | FixedDiv u8
  | Trap u16
  | CheckedAdd
  | CheckedSub
  | CheckedMul u8
  | CheckedNeg
  | CheckedDiv u8
  | CheckedMod
  | PushImmediate u8
  | PopN u8
  | BitAnd
  | BitOr
  | BitXor
  | Shl
  | Shr
  | CallVerifiedNative u16 u8
  | CallExternalNative u16 u8

section \<open>Chunks and modules\<close>

record struct_template =
  st_type_name :: string
  st_field_names :: "string list"

datatype wire_shape = WS_Top | WS_Scalar u8 | WS_Flat u8 u32

record chunk_signature =
  sig_params :: "wire_shape list"
  sig_ret :: wire_shape
  sig_resume :: wire_shape

datatype slot_visibility = Shared | Private

record data_slot =
  slot_name :: string
  slot_visibility :: slot_visibility

record shared_slot_layout =
  ssl_offset :: u32
  ssl_kind :: u8
  ssl_len :: u16

text \<open>The high bit of \<open>SharedSlotLayout::kind\<close> marks a flat composite slot.\<close>

definition shared_slot_is_composite :: "shared_slot_layout \<Rightarrow> bool" where
  "shared_slot_is_composite e = (and (ssl_kind e) 0x80 \<noteq> 0)"

record private_composite_slot =
  pcs_slot :: u16
  pcs_offset :: u32

record data_layout =
  dl_slots :: "data_slot list"
  dl_shared_layout :: "shared_slot_layout list"
  dl_private_composite_layout :: "private_composite_slot list"
  dl_private_init :: "const_value list"

text \<open>A chunk.  The optional debug pool, which no analysis reads, is left out.\<close>

datatype type_tag =
  TT_Composite | TT_Byte | TT_Word | TT_Fixed | TT_Float | TT_Bool | TT_Unit | TT_Text

record chunk =
  ch_name :: string
  ch_ops :: "op list"
  ch_constants :: "const_value list"
  ch_struct_templates :: "struct_template list"
  ch_local_count :: u16
  ch_param_count :: u8
  ch_block_type :: block_type
  ch_param_types :: "type_tag list"

text \<open>
  A module, with the fields the verifier reads: the chunk table, the native names, the entry
  point, the data layout, the widths and the chunk signatures.
\<close>

record kmodule =
  m_chunks :: "chunk list"
  m_native_names :: "string list"
  m_entry_point :: "nat option"
  m_data_layout :: "data_layout option"
  m_word_bits_log2 :: u8
  m_addr_bits_log2 :: u8
  m_float_bits_log2 :: u8
  m_signatures :: "chunk_signature list"
  m_shared_data_bytes :: u32

text \<open>The length of the data-slot table, zero when the module declares no data layout.\<close>

definition data_len :: "kmodule \<Rightarrow> nat" where
  "data_len m = (case m_data_layout m of None \<Rightarrow> 0 | Some dl \<Rightarrow> length (dl_slots dl))"

section \<open>Round trips of the operand tags\<close>

lemma scalar_tag_roundtrip [simp]: "scalar_from_tag (scalar_to_tag k) = Some k"
  by (cases k) (simp_all add: scalar_from_tag_def)

lemma scalar_from_tag_sound: "scalar_from_tag t = Some k \<Longrightarrow> scalar_to_tag k = t"
  by (auto simp: scalar_from_tag_def split: if_splits)

lemma composite_tag_roundtrip [simp]: "composite_from_tag (composite_to_tag k) = Some k"
  by (cases k) (simp_all add: composite_from_tag_def)

lemma composite_from_tag_sound: "composite_from_tag t = Some k \<Longrightarrow> composite_to_tag k = t"
  by (auto simp: composite_from_tag_def split: if_splits)

lemma trap_code_roundtrip [simp]: "trap_from_code (trap_code k) = Some k"
  by (cases k) (simp_all add: trap_from_code_def)

lemma trap_from_code_sound: "trap_from_code c = Some k \<Longrightarrow> trap_code k = c"
  by (auto simp: trap_from_code_def split: if_splits)

end
