(* ===== verification/Op_Tables.thy ===== *)
theory Op_Tables
  imports Bytecode
begin

text \<open>
  The per-instruction tables: the nominal cycle table and the operand-stack peak model of
  \<open>src/src/bytecode.rs\<close>, and the pop/push table \<open>op_depth_effect\<close> of \<open>src/src/verify.rs\<close>.  The
  tables are written out constructor by constructor, as the Rust matches are.  The lemmas show
  that the two independently maintained stack models agree on every instruction, so that the
  depth check and the memory bound speak about the same machine.
\<close>

section \<open>Cost models\<close>

text \<open>\<open>VALUE_SLOT_SIZE_BYTES\<close> on a 64-bit host, where the source asserts the size to be 32.\<close>

definition VALUE_SLOT_SIZE_BYTES :: nat where
  "VALUE_SLOT_SIZE_BYTES = 32"

text \<open>
  A cost model: slot size, cycle table, cycles per text byte.  The cycle table is the host's
  function pointer, hence a field holding a function.
\<close>

record cost_model =
  value_slot_bytes :: nat
  op_cycles :: "op \<Rightarrow> nat"
  text_byte_cycles :: nat

definition cycles :: "cost_model \<Rightarrow> op \<Rightarrow> nat" where
  "cycles m x = op_cycles m x"

definition slots_to_bytes :: "cost_model \<Rightarrow> nat \<Rightarrow> nat" where
  "slots_to_bytes m slots = sat_mul slots (value_slot_bytes m)"

text \<open>Heap allocation costs: fixed, or a function of the operands' text lengths.\<close>

record op_cost_context =
  lhs_text_len :: nat
  rhs_text_len :: nat

datatype op_cost = OC_Fixed nat | OC_Dynamic "op_cost_context \<Rightarrow> nat"

fun op_cost_evaluate :: "op_cost \<Rightarrow> op_cost_context \<Rightarrow> nat" where
  "op_cost_evaluate (OC_Fixed n) ctx = n"
| "op_cost_evaluate (OC_Dynamic f) ctx = f ctx"

definition add_text_heap_alloc_bytes :: "op_cost_context \<Rightarrow> nat" where
  "add_text_heap_alloc_bytes ctx = sat_add (lhs_text_len ctx) (rhs_text_len ctx)"

fun heap_alloc_cost :: "op \<Rightarrow> op_cost" where
  "heap_alloc_cost (NewComposite c) = OC_Fixed (alloc_bytes c)"
| "heap_alloc_cost (GetIndex (AE_FlatNested sz variant)) = OC_Fixed (unat sz)"
| "heap_alloc_cost Add = OC_Dynamic add_text_heap_alloc_bytes"
| "heap_alloc_cost _ = OC_Fixed 0"

definition heap_alloc_bytes :: "op \<Rightarrow> nat" where
  "heap_alloc_bytes x = (case heap_alloc_cost x of OC_Fixed n \<Rightarrow> n | OC_Dynamic f \<Rightarrow> 0)"

section \<open>The instruction tables\<close>

text \<open>\<open>nominal_op_cycles\<close>.\<close>

primrec nominal_op_cycles :: "op \<Rightarrow> nat" where
  "nominal_op_cycles (Const s) = 1"
| "nominal_op_cycles (GetLocal s) = 1"
| "nominal_op_cycles (SetLocal s) = 1"
| "nominal_op_cycles (GetData s) = 1"
| "nominal_op_cycles (SetData s) = 1"
| "nominal_op_cycles (GetDataIndexed b l) = 8"
| "nominal_op_cycles (SetDataIndexed b l) = 8"
| "nominal_op_cycles (BoundsCheck b) = 7"
| "nominal_op_cycles Add = 2"
| "nominal_op_cycles Sub = 2"
| "nominal_op_cycles Mul = 2"
| "nominal_op_cycles Div = 5"
| "nominal_op_cycles Mod = 5"
| "nominal_op_cycles Neg = 2"
| "nominal_op_cycles CmpEq = 2"
| "nominal_op_cycles CmpNe = 2"
| "nominal_op_cycles CmpLt = 2"
| "nominal_op_cycles CmpGt = 2"
| "nominal_op_cycles CmpLe = 2"
| "nominal_op_cycles CmpGe = 2"
| "nominal_op_cycles Not_op = 1"
| "nominal_op_cycles (If_op t) = 1"
| "nominal_op_cycles (Else_op t) = 1"
| "nominal_op_cycles EndIf = 1"
| "nominal_op_cycles (Loop t) = 1"
| "nominal_op_cycles (EndLoop t) = 1"
| "nominal_op_cycles (Break t) = 1"
| "nominal_op_cycles (BreakIf t) = 1"
| "nominal_op_cycles Stream = 1"
| "nominal_op_cycles Reset = 1"
| "nominal_op_cycles (Call c n) = 10"
| "nominal_op_cycles Return = 2"
| "nominal_op_cycles Yield = 1"
| "nominal_op_cycles Dup = 1"
| "nominal_op_cycles (NewComposite c) = 5"
| "nominal_op_cycles (GetField f) = 3"
| "nominal_op_cycles (GetIndex elem) = (if has_bounds_outcome elem then 8 else 2)"
| "nominal_op_cycles (GetTupleField f) = 2"
| "nominal_op_cycles (GetEnumField f) = 2"
| "nominal_op_cycles Len = 2"
| "nominal_op_cycles (IsEnum e v d) = 3"
| "nominal_op_cycles (IsStruct t) = 3"
| "nominal_op_cycles IntToFloat = 2"
| "nominal_op_cycles FloatToInt = 2"
| "nominal_op_cycles WordToByte = 2"
| "nominal_op_cycles ByteToWord = 2"
| "nominal_op_cycles (WordToFixed fb) = 2"
| "nominal_op_cycles (FixedToWord fb) = 2"
| "nominal_op_cycles (FixedMul fb) = 2"
| "nominal_op_cycles (FixedDiv fb) = 2"
| "nominal_op_cycles (Trap kind) = (if kind = trap_code IndexOutOfBounds then 6 else 1)"
| "nominal_op_cycles CheckedAdd = 2"
| "nominal_op_cycles CheckedSub = 2"
| "nominal_op_cycles (CheckedMul fb) = 2"
| "nominal_op_cycles CheckedNeg = 2"
| "nominal_op_cycles (CheckedDiv fb) = 2"
| "nominal_op_cycles CheckedMod = 2"
| "nominal_op_cycles (PushImmediate v) = 1"
| "nominal_op_cycles (PopN n) = 1"
| "nominal_op_cycles BitAnd = 2"
| "nominal_op_cycles BitOr = 2"
| "nominal_op_cycles BitXor = 2"
| "nominal_op_cycles Shl = 2"
| "nominal_op_cycles Shr = 2"
| "nominal_op_cycles (CallVerifiedNative i n) = 10"
| "nominal_op_cycles (CallExternalNative i n) = 10"

definition NOMINAL_COST_MODEL :: cost_model where
  "NOMINAL_COST_MODEL =
     \<lparr> value_slot_bytes = VALUE_SLOT_SIZE_BYTES, op_cycles = nominal_op_cycles, text_byte_cycles = 1 \<rparr>"

definition op_cost_cycles :: "op \<Rightarrow> nat" where
  "op_cost_cycles x = cycles NOMINAL_COST_MODEL x"

text \<open>\<open>Op::heap_alloc\<close>.\<close>

definition heap_alloc :: "op \<Rightarrow> nat" where
  "heap_alloc x = heap_alloc_bytes x"

text \<open>\<open>Op::stack_growth\<close>: how far the stack rises above its depth during the instruction.\<close>

primrec stack_growth :: "op \<Rightarrow> nat" where
  "stack_growth (Const s) = 1"
| "stack_growth (GetLocal s) = 1"
| "stack_growth (SetLocal s) = 0"
| "stack_growth (GetData s) = 1"
| "stack_growth (SetData s) = 0"
| "stack_growth (GetDataIndexed b l) = 5"
| "stack_growth (SetDataIndexed b l) = 4"
| "stack_growth (BoundsCheck b) = 5"
| "stack_growth Add = 0"
| "stack_growth Sub = 0"
| "stack_growth Mul = 0"
| "stack_growth Div = 1"
| "stack_growth Mod = 1"
| "stack_growth Neg = 0"
| "stack_growth CmpEq = 0"
| "stack_growth CmpNe = 0"
| "stack_growth CmpLt = 0"
| "stack_growth CmpGt = 0"
| "stack_growth CmpLe = 0"
| "stack_growth CmpGe = 0"
| "stack_growth Not_op = 0"
| "stack_growth (If_op t) = 0"
| "stack_growth (Else_op t) = 0"
| "stack_growth EndIf = 0"
| "stack_growth (Loop t) = 0"
| "stack_growth (EndLoop t) = 0"
| "stack_growth (Break t) = 0"
| "stack_growth (BreakIf t) = 0"
| "stack_growth Stream = 0"
| "stack_growth Reset = 0"
| "stack_growth (Call c n) = 1"
| "stack_growth Return = 0"
| "stack_growth Yield = 0"
| "stack_growth Dup = 1"
| "stack_growth (NewComposite c) = 1"
| "stack_growth (GetField f) = 0"
| "stack_growth (GetIndex elem) = (if has_bounds_outcome elem then 5 else 0)"
| "stack_growth (GetTupleField f) = 0"
| "stack_growth (GetEnumField f) = 0"
| "stack_growth Len = 0"
| "stack_growth (IsEnum e v d) = 1"
| "stack_growth (IsStruct t) = 1"
| "stack_growth IntToFloat = 0"
| "stack_growth FloatToInt = 0"
| "stack_growth WordToByte = 0"
| "stack_growth ByteToWord = 0"
| "stack_growth (WordToFixed fb) = 0"
| "stack_growth (FixedToWord fb) = 0"
| "stack_growth (FixedMul fb) = 0"
| "stack_growth (FixedDiv fb) = 1"
| "stack_growth (Trap kind) = 0"
| "stack_growth CheckedAdd = 1"
| "stack_growth CheckedSub = 1"
| "stack_growth (CheckedMul fb) = 1"
| "stack_growth CheckedNeg = 2"
| "stack_growth (CheckedDiv fb) = 1"
| "stack_growth CheckedMod = 1"
| "stack_growth (PushImmediate v) = 1"
| "stack_growth (PopN n) = 0"
| "stack_growth BitAnd = 0"
| "stack_growth BitOr = 0"
| "stack_growth BitXor = 0"
| "stack_growth Shl = 0"
| "stack_growth Shr = 0"
| "stack_growth (CallVerifiedNative i n) = (if and n 0x80 \<noteq> 0 then 2 else 1)"
| "stack_growth (CallExternalNative i n) = (if and n 0x80 \<noteq> 0 then 2 else 1)"

text \<open>\<open>Op::stack_shrink\<close>: the subtrahend of the net effect.\<close>

primrec stack_shrink :: "op \<Rightarrow> nat" where
  "stack_shrink (Const s) = 0"
| "stack_shrink (GetLocal s) = 0"
| "stack_shrink (SetLocal s) = 1"
| "stack_shrink (GetData s) = 0"
| "stack_shrink (SetData s) = 1"
| "stack_shrink (GetDataIndexed b l) = 0"
| "stack_shrink (SetDataIndexed b l) = 0"
| "stack_shrink (BoundsCheck b) = 0"
| "stack_shrink Add = 1"
| "stack_shrink Sub = 1"
| "stack_shrink Mul = 1"
| "stack_shrink Div = 0"
| "stack_shrink Mod = 0"
| "stack_shrink Neg = 0"
| "stack_shrink CmpEq = 1"
| "stack_shrink CmpNe = 1"
| "stack_shrink CmpLt = 1"
| "stack_shrink CmpGt = 1"
| "stack_shrink CmpLe = 1"
| "stack_shrink CmpGe = 1"
| "stack_shrink Not_op = 0"
| "stack_shrink (If_op t) = 1"
| "stack_shrink (Else_op t) = 0"
| "stack_shrink EndIf = 0"
| "stack_shrink (Loop t) = 0"
| "stack_shrink (EndLoop t) = 0"
| "stack_shrink (Break t) = 0"
| "stack_shrink (BreakIf t) = 1"
| "stack_shrink Stream = 0"
| "stack_shrink Reset = 0"
| "stack_shrink (Call c n) = unat n"
| "stack_shrink Return = 0"
| "stack_shrink Yield = 0"
| "stack_shrink Dup = 0"
| "stack_shrink (NewComposite c) = unat (nc_count c)"
| "stack_shrink (GetField f) = 0"
| "stack_shrink (GetIndex elem) = (if has_bounds_outcome elem then 0 else 1)"
| "stack_shrink (GetTupleField f) = 0"
| "stack_shrink (GetEnumField f) = 0"
| "stack_shrink Len = 0"
| "stack_shrink (IsEnum e v d) = 0"
| "stack_shrink (IsStruct t) = 0"
| "stack_shrink IntToFloat = 0"
| "stack_shrink FloatToInt = 0"
| "stack_shrink WordToByte = 0"
| "stack_shrink ByteToWord = 0"
| "stack_shrink (WordToFixed fb) = 0"
| "stack_shrink (FixedToWord fb) = 0"
| "stack_shrink (FixedMul fb) = 1"
| "stack_shrink (FixedDiv fb) = 0"
| "stack_shrink (Trap kind) = (if kind = trap_code IndexOutOfBounds then 5 else if kind = trap_code HostError then 1 else 0)"
| "stack_shrink CheckedAdd = 0"
| "stack_shrink CheckedSub = 0"
| "stack_shrink (CheckedMul fb) = 0"
| "stack_shrink CheckedNeg = 0"
| "stack_shrink (CheckedDiv fb) = 0"
| "stack_shrink CheckedMod = 0"
| "stack_shrink (PushImmediate v) = 0"
| "stack_shrink (PopN n) = unat n"
| "stack_shrink BitAnd = 1"
| "stack_shrink BitOr = 1"
| "stack_shrink BitXor = 1"
| "stack_shrink Shl = 1"
| "stack_shrink Shr = 1"
| "stack_shrink (CallVerifiedNative i n) = unat (and n 0x7F)"
| "stack_shrink (CallExternalNative i n) = unat (and n 0x7F)"

text \<open>\<open>verify::op_depth_effect\<close>: operands required on entry, and the net change.\<close>

primrec op_depth_effect :: "op \<Rightarrow> int \<times> int" where
  "op_depth_effect (Const s) = (0, 1)"
| "op_depth_effect (GetLocal s) = (0, 1)"
| "op_depth_effect (SetLocal s) = (1, -1)"
| "op_depth_effect (GetData s) = (0, 1)"
| "op_depth_effect (SetData s) = (1, -1)"
| "op_depth_effect (GetDataIndexed b l) = (2, 5)"
| "op_depth_effect (SetDataIndexed b l) = (2, 4)"
| "op_depth_effect (BoundsCheck b) = (1, 5)"
| "op_depth_effect Add = (2, -1)"
| "op_depth_effect Sub = (2, -1)"
| "op_depth_effect Mul = (2, -1)"
| "op_depth_effect Div = (2, 1)"
| "op_depth_effect Mod = (2, 1)"
| "op_depth_effect Neg = (1, 0)"
| "op_depth_effect CmpEq = (2, -1)"
| "op_depth_effect CmpNe = (2, -1)"
| "op_depth_effect CmpLt = (2, -1)"
| "op_depth_effect CmpGt = (2, -1)"
| "op_depth_effect CmpLe = (2, -1)"
| "op_depth_effect CmpGe = (2, -1)"
| "op_depth_effect Not_op = (1, 0)"
| "op_depth_effect (If_op t) = (1, -1)"
| "op_depth_effect (Else_op t) = (0, 0)"
| "op_depth_effect EndIf = (0, 0)"
| "op_depth_effect (Loop t) = (0, 0)"
| "op_depth_effect (EndLoop t) = (0, 0)"
| "op_depth_effect (Break t) = (0, 0)"
| "op_depth_effect (BreakIf t) = (1, -1)"
| "op_depth_effect Stream = (0, 0)"
| "op_depth_effect Reset = (0, 0)"
| "op_depth_effect (Call c n) = (int (unat n), 1 - int (unat n))"
| "op_depth_effect Return = (0, 0)"
| "op_depth_effect Yield = (1, 0)"
| "op_depth_effect Dup = (1, 1)"
| "op_depth_effect (NewComposite c) = (int (unat (nc_count c)), 1 - int (unat (nc_count c)))"
| "op_depth_effect (GetField f) = (1, 0)"
| "op_depth_effect (GetIndex elem) = (if has_bounds_outcome elem then (2, 5) else (2, -1))"
| "op_depth_effect (GetTupleField f) = (1, 0)"
| "op_depth_effect (GetEnumField f) = (1, 0)"
| "op_depth_effect Len = (1, 0)"
| "op_depth_effect (IsEnum e v d) = (1, 1)"
| "op_depth_effect (IsStruct t) = (1, 1)"
| "op_depth_effect IntToFloat = (1, 0)"
| "op_depth_effect FloatToInt = (1, 0)"
| "op_depth_effect WordToByte = (1, 0)"
| "op_depth_effect ByteToWord = (1, 0)"
| "op_depth_effect (WordToFixed fb) = (1, 0)"
| "op_depth_effect (FixedToWord fb) = (1, 0)"
| "op_depth_effect (FixedMul fb) = (2, -1)"
| "op_depth_effect (FixedDiv fb) = (2, 1)"
| "op_depth_effect (Trap kind) = (if kind = trap_code IndexOutOfBounds then (5, -5) else if kind = trap_code HostError then (1, -1) else (0, 0))"
| "op_depth_effect CheckedAdd = (2, 1)"
| "op_depth_effect CheckedSub = (2, 1)"
| "op_depth_effect (CheckedMul fb) = (2, 1)"
| "op_depth_effect CheckedNeg = (1, 2)"
| "op_depth_effect (CheckedDiv fb) = (2, 1)"
| "op_depth_effect CheckedMod = (2, 1)"
| "op_depth_effect (PushImmediate v) = (0, 1)"
| "op_depth_effect (PopN n) = (int (unat n), - int (unat n))"
| "op_depth_effect BitAnd = (2, -1)"
| "op_depth_effect BitOr = (2, -1)"
| "op_depth_effect BitXor = (2, -1)"
| "op_depth_effect Shl = (2, -1)"
| "op_depth_effect Shr = (2, -1)"
| "op_depth_effect (CallVerifiedNative i n) = (int (unat (and n 0x7F)), (if and n 0x80 \<noteq> 0 then 2 else 1) - int (unat (and n 0x7F)))"
| "op_depth_effect (CallExternalNative i n) = (int (unat (and n 0x7F)), (if and n 0x80 \<noteq> 0 then 2 else 1) - int (unat (and n 0x7F)))"

section \<open>Agreement of the stack models\<close>

lemma nominal_op_cycles_pos: "1 \<le> nominal_op_cycles x \<and> nominal_op_cycles x \<le> 10"
  by (cases x) auto

text \<open>The net of the peak model is the net of the depth model, on the whole instruction set.\<close>

lemma stack_models_agree: "int (stack_growth x) - int (stack_shrink x) = snd (op_depth_effect x)"
  by (cases x) auto

lemma op_depth_required_nonneg: "0 \<le> fst (op_depth_effect x)"
  by (cases x) auto

text \<open>
  An instruction never pushes the stack below what it required: it pops at most the operands it
  declares, and the growth entry covers the whole rise.
\<close>

lemma op_depth_net_ge: "0 \<le> fst (op_depth_effect x) + snd (op_depth_effect x)"
  by (cases x) auto

lemma stack_growth_covers_net: "snd (op_depth_effect x) \<le> int (stack_growth x)"
  using stack_models_agree [of x] by linarith

lemma heap_alloc_zero:
  "heap_alloc x = (case x of NewComposite c \<Rightarrow> alloc_bytes c
     | GetIndex e \<Rightarrow> (case e of AE_FlatNested sz v \<Rightarrow> unat sz | _ \<Rightarrow> 0) | _ \<Rightarrow> 0)"
  by (cases x) (auto simp: heap_alloc_def heap_alloc_bytes_def split: array_elem.split)

end
