(* ===== verification/Control_Flow.thy ===== *)
theory Control_Flow
  imports Op_Tables
begin

text \<open>
  The control skeleton of a chunk.  \<open>ctl_of\<close> is the view through which every region walk of
  \<open>src/src/verify.rs\<close> reads an instruction: the structured control-flow instructions with their
  targets as positions, and everything else.  \<open>frame_succs\<close> is what the dispatch loop of
  \<open>src/src/vm.rs\<close> does to the instruction pointer of the current frame; \<open>fpath\<close> are the control
  paths it admits, with conditions left open, so that every run of the machine inside one frame
  is one of these paths.
\<close>

section \<open>The control view of an instruction\<close>

datatype ctl =
    C_If nat | C_Else nat | C_EndIf
  | C_Loop nat | C_EndLoop nat | C_Break nat | C_BreakIf nat
  | C_Stream | C_Reset | C_Call nat nat | C_Return | C_Yield | C_Trap
  | C_Native nat | C_Other

fun ctl_of :: "op \<Rightarrow> ctl" where
  "ctl_of (If_op t) = C_If (unat t)"
| "ctl_of (Else_op t) = C_Else (unat t)"
| "ctl_of EndIf = C_EndIf"
| "ctl_of (Loop t) = C_Loop (unat t)"
| "ctl_of (EndLoop t) = C_EndLoop (unat t)"
| "ctl_of (Break t) = C_Break (unat t)"
| "ctl_of (BreakIf t) = C_BreakIf (unat t)"
| "ctl_of Stream = C_Stream"
| "ctl_of Reset = C_Reset"
| "ctl_of (Call c n) = C_Call (unat c) (unat n)"
| "ctl_of Return = C_Return"
| "ctl_of Yield = C_Yield"
| "ctl_of (Trap k) = C_Trap"
| "ctl_of (CallVerifiedNative i n) = C_Native (unat i)"
| "ctl_of (CallExternalNative i n) = C_Native (unat i)"
| "ctl_of _ = C_Other"

text \<open>Instructions that leave the frame, and those that always continue at the next position.\<close>

fun ctl_exits :: "ctl \<Rightarrow> bool" where
  "ctl_exits C_Return = True"
| "ctl_exits C_Trap = True"
| "ctl_exits C_Reset = True"
| "ctl_exits _ = False"

fun ctl_linear :: "ctl \<Rightarrow> bool" where
  "ctl_linear C_Stream = True"
| "ctl_linear (C_Call c n) = True"
| "ctl_linear C_Yield = True"
| "ctl_linear (C_Native i) = True"
| "ctl_linear C_Other = True"
| "ctl_linear _ = False"

lemma ctl_linear_not_exits [simp]: "ctl_linear c \<Longrightarrow> \<not> ctl_exits c"
  by (cases c) auto

section \<open>Successors inside a frame\<close>

text \<open>
  The instruction pointer after dispatching the instruction at \<open>ip\<close>.  A conditional has both
  successors; \<open>Return\<close>, \<open>Trap\<close> and \<open>Reset\<close> leave the dispatch loop for this frame; a call or a
  yield continues at the next instruction when it returns or is resumed.
\<close>

fun frame_succs :: "ctl \<Rightarrow> nat \<Rightarrow> nat list" where
  "frame_succs (C_If t) ip = [Suc ip, t]"
| "frame_succs (C_Else t) ip = [t]"
| "frame_succs (C_EndLoop t) ip = [t]"
| "frame_succs (C_Break t) ip = [t]"
| "frame_succs (C_BreakIf t) ip = [t, Suc ip]"
| "frame_succs C_Return ip = []"
| "frame_succs C_Trap ip = []"
| "frame_succs C_Reset ip = []"
| "frame_succs _ ip = [Suc ip]"

lemma frame_succs_exits [simp]: "ctl_exits c \<Longrightarrow> frame_succs c ip = []"
  by (cases c) auto

lemma frame_succs_linear [simp]: "ctl_linear c \<Longrightarrow> frame_succs c ip = [Suc ip]"
  by (cases c) auto

text \<open>
  \<open>fpath ops i tr j\<close>: control can go from \<open>i\<close> to \<open>j\<close>, dispatching the instructions at the
  positions \<open>tr\<close> in this order.  Control that has left the frame counts as past the last
  instruction.
\<close>

inductive fpath :: "op list \<Rightarrow> nat \<Rightarrow> nat list \<Rightarrow> nat \<Rightarrow> bool" for ops where
  fp_nil: "fpath ops i [] i"
| fp_step: "i < length ops \<Longrightarrow> i' \<in> set (frame_succs (ctl_of (ops ! i)) i) \<Longrightarrow>
     fpath ops i' tr j \<Longrightarrow> fpath ops i (i # tr) j"
| fp_exit: "i < length ops \<Longrightarrow> ctl_exits (ctl_of (ops ! i)) \<Longrightarrow> fpath ops i [i] (length ops)"

inductive_cases fpath_NilE: "fpath ops i [] j"
inductive_cases fpath_ConsE: "fpath ops i (k # tr) j"
inductive_simps fpath_Cons_iff: "fpath ops i (k # tr) j"

lemma fpath_Nil_iff [simp]: "fpath ops i [] j \<longleftrightarrow> i = j"
  by (auto elim: fpath_NilE intro: fp_nil)

lemma fpath_append:
  "fpath ops i tr j \<Longrightarrow> fpath ops j tr' k \<Longrightarrow> fpath ops i (tr @ tr') k"
proof (induction rule: fpath.induct)
  case (fp_exit i)
  from fp_exit(3) have "tr' = [] \<and> k = length ops" by (cases tr') (auto elim: fpath_ConsE)
  with fp_exit(1,2) show ?case by (auto intro: fpath.fp_exit)
qed (auto intro: fp_step)

lemma fpath_in_range: "fpath ops i tr j \<Longrightarrow> k \<in> set tr \<Longrightarrow> k < length ops"
  by (induction rule: fpath.induct) auto

text \<open>An executable check that a list of positions is a control path.\<close>

fun is_fpath :: "op list \<Rightarrow> nat \<Rightarrow> nat list \<Rightarrow> nat \<Rightarrow> bool" where
  "is_fpath ops i [] j = (i = j)"
| "is_fpath ops i (k # tr) j =
     (k = i \<and> i < length ops \<and>
      (list_ex (\<lambda>i'. is_fpath ops i' tr j) (frame_succs (ctl_of (ops ! i)) i)
       \<or> ctl_exits (ctl_of (ops ! i)) \<and> tr = [] \<and> j = length ops))"

lemma is_fpath_iff: "is_fpath ops i tr j \<longleftrightarrow> fpath ops i tr j"
  by (induction tr arbitrary: i) (auto simp: fpath_Cons_iff list_ex_iff)

end
