(* ===== verification/Region_Walks.thy ===== *)
theory Region_Walks
  imports Control_Flow
begin

text \<open>
  The recursive region walks of \<open>src/src/verify.rs\<close>: yield coverage, worst-case execution time and
  operand-stack depth, with the loop-bound extraction they share.  Each Rust walk is a \<open>while\<close> loop
  over positions that calls itself on the sub-regions of an \<open>If\<close> or a \<open>Loop\<close>; the model is one
  tail-recursive function whose loop variables (position and accumulator) are parameters.  The walks
  jump to positions read from the code, so on hostile code they need not end: each takes the number
  of steps it may make (\<open>fuel\<close>) and returns \<open>None\<close> when that runs out.  The entry points grant one
  step per position and one more (\<open>walk_fuel\<close>); on a chunk whose structured targets all point
  forward, which every caller checks first, that is enough (\<open>Walk_Termination\<close>), and more fuel never
  changes a result.  The nesting
  test, which Rust makes once per call, is made at every step; the nesting level does not change
  inside a call.  An error is a constructor of \<open>verify_error\<close> in place of the message text.
\<close>

section \<open>Errors\<close>

datatype (plugins only: code size) verify_error =
    VE_NotForward nat nat
  | VE_RegionTooDeep
  | VE_TextUnbounded nat
  | VE_LoopUnbounded nat
  | VE_DepthUnderflow nat int int
  | VE_RunsOffEnd int
  | VE_NotStreamBlock
  | VE_StreamBlock
  | VE_MissingStream
  | VE_MissingReset
  | VE_IfTargetOutOfBounds nat nat
  | VE_ElseWithoutIf nat
  | VE_IfTargetNotElseBody nat nat
  | VE_ElseTargetOutOfBounds nat nat
  | VE_ElseTargetNotEndIf nat nat
  | VE_IfTargetNotEndIf nat nat
  | VE_EndIfWithoutIf nat
  | VE_EndIfExpectedEndLoop nat
  | VE_LoopTargetOutOfBounds nat nat
  | VE_BackEdge nat nat
  | VE_LoopExit nat nat
  | VE_EndLoopExpectedEndIf nat
  | VE_EndLoopWithoutLoop nat
  | VE_BreakOutsideLoop nat
  | VE_BreakTargetOutOfBounds nat nat
  | VE_BreakTargetNotExit nat nat
  | VE_NoDataLayout nat
  | VE_DataSlotOutOfRange nat
  | VE_DataRangeOutOfRange nat
  | VE_ConstantOutOfRange nat
  | VE_CallTarget nat
  | VE_CallArity nat
  | VE_NativeIndex nat
  | VE_FracBits nat
  | VE_LocalSlot nat
  | VE_StructTemplate nat
  | VE_Unclosed nat
  | VE_BlockType block_type
  | VE_NoYield block_type
  | VE_NotProductive
  | VE_RecursiveCall nat
  | VE_NoSuchChunk nat
  | VE_CallCycle
  | VE_ExceedsCapacity nat nat

definition MAX_REGION_DEPTH :: nat where
  "MAX_REGION_DEPTH = 256"

definition walk_fuel :: "op list \<Rightarrow> nat" where
  "walk_fuel ops = Suc (length ops)"

section \<open>Shared readings of the code\<close>

text \<open>
  \<open>target > 0 && target <= ops.len() && matches!(&ops[target - 1], Op::Else(_))\<close>, together with
  the \<open>Else\<close> instruction's own target, the position of the \<open>EndIf\<close>.
\<close>

definition else_target :: "op list \<Rightarrow> nat \<Rightarrow> nat option" where
  "else_target ops target =
     (if 0 < target \<and> target \<le> length ops
      then (case ctl_of (ops ! (target - 1)) of C_Else e \<Rightarrow> Some e | _ \<Rightarrow> None)
      else None)"

text \<open>\<open>check_forward_control_flow_targets\<close>: the first offending instruction is the error.\<close>

fun check_forward_from :: "nat \<Rightarrow> op list \<Rightarrow> nat \<Rightarrow> verify_error + unit" where
  "check_forward_from n [] ip = Inr ()"
| "check_forward_from n (x # xs) ip =
     (case (case ctl_of x of C_If t \<Rightarrow> Some t | C_Else t \<Rightarrow> Some t | C_Loop t \<Rightarrow> Some t | _ \<Rightarrow> None) of
        None \<Rightarrow> check_forward_from n xs (Suc ip)
      | Some target \<Rightarrow>
          if target \<le> ip \<or> n < target then Inl (VE_NotForward ip target)
          else check_forward_from n xs (Suc ip))"

definition check_forward_control_flow_targets :: "chunk \<Rightarrow> verify_error + unit" where
  "check_forward_control_flow_targets chunk =
     check_forward_from (length (ch_ops chunk)) (ch_ops chunk) 0"

section \<open>Yield coverage\<close>

text \<open>
  \<open>analyze_yield_coverage_at\<close>.  The result pairs the coverage (\<open>None\<close>: no path falls through)
  with the states pushed for the enclosing loop.  \<open>coverage_join\<close> is the match on the two branch
  results of an \<open>If\<close> with an \<open>Else\<close>, \<open>coverage_skip\<close> that of an \<open>If\<close> without one.
\<close>

fun coverage_join :: "bool option \<Rightarrow> bool option \<Rightarrow> bool option" where
  "coverage_join (Some a) (Some b) = Some (a \<and> b)"
| "coverage_join (Some a) None = Some a"
| "coverage_join None (Some b) = Some b"
| "coverage_join None None = None"

fun coverage_skip :: "bool \<Rightarrow> bool option \<Rightarrow> bool" where
  "coverage_skip has_yielded (Some a) = (a \<and> has_yielded)"
| "coverage_skip has_yielded None = has_yielded"

fun analyze_yield_coverage_at ::
  "nat \<Rightarrow> op list \<Rightarrow> nat \<Rightarrow> nat \<Rightarrow> bool \<Rightarrow> nat set \<Rightarrow> bool list \<Rightarrow> nat \<Rightarrow> (bool option \<times> bool list) option"
where
  "analyze_yield_coverage_at 0 ops ip end_ip has_yielded always break_states depth = None"
| "analyze_yield_coverage_at (Suc fuel) ops ip end_ip has_yielded always break_states depth =
     (if depth > MAX_REGION_DEPTH then Some (Some False, break_states)
      else if ip < min end_ip (length ops) then
        (case ctl_of (ops ! ip) of
           C_Yield \<Rightarrow> analyze_yield_coverage_at fuel ops (Suc ip) end_ip True always break_states depth
         | C_Break t \<Rightarrow> Some (None, break_states @ [has_yielded])
         | C_BreakIf t \<Rightarrow>
             analyze_yield_coverage_at fuel ops (Suc ip) end_ip has_yielded always
               (break_states @ [has_yielded]) depth
         | C_If target \<Rightarrow>
             (case else_target ops target of
                Some endif_pos \<Rightarrow>
                  Option.bind (analyze_yield_coverage_at fuel ops (Suc ip) (target - 1) has_yielded always
                                 break_states (Suc depth)) (\<lambda>then_res.
                  Option.bind (analyze_yield_coverage_at fuel ops target endif_pos has_yielded always
                                 (snd then_res) (Suc depth)) (\<lambda>else_res.
                    case coverage_join (fst then_res) (fst else_res) of
                      Some hy \<Rightarrow>
                        analyze_yield_coverage_at fuel ops (Suc endif_pos) end_ip hy always (snd else_res) depth
                    | None \<Rightarrow> Some (None, snd else_res)))
              | None \<Rightarrow>
                  Option.bind (analyze_yield_coverage_at fuel ops (Suc ip) target has_yielded always
                                 break_states (Suc depth)) (\<lambda>then_res.
                    analyze_yield_coverage_at fuel ops (Suc target) end_ip
                      (coverage_skip has_yielded (fst then_res)) always (snd then_res) depth))
         | C_Loop loop_exit_target \<Rightarrow>
             Option.bind (analyze_yield_coverage_at fuel ops (Suc ip) (loop_exit_target - 1) has_yielded
                            always [] (Suc depth)) (\<lambda>body_res.
               if snd body_res = [] then Some (None, break_states)
               else analyze_yield_coverage_at fuel ops loop_exit_target end_ip (list_all id (snd body_res))
                      always break_states depth)
         | C_Call callee n \<Rightarrow>
             analyze_yield_coverage_at fuel ops (Suc ip) end_ip (has_yielded \<or> callee \<in> always) always
               break_states depth
         | _ \<Rightarrow> analyze_yield_coverage_at fuel ops (Suc ip) end_ip has_yielded always break_states depth)
      else Some (Some has_yielded, break_states))"

definition analyze_yield_coverage ::
  "op list \<Rightarrow> nat \<Rightarrow> nat \<Rightarrow> bool \<Rightarrow> nat set \<Rightarrow> bool list \<Rightarrow> (bool option \<times> bool list) option" where
  "analyze_yield_coverage ops start end_ip initial always break_states =
     analyze_yield_coverage_at (walk_fuel ops) ops start end_ip initial always break_states 0"

text \<open>
  \<open>loop_body_all_paths_yield_no_inner_loop\<close>; the bounds of the slice are clamped as in the code.
\<close>

definition loop_body_all_paths_yield_no_inner_loop :: "op list \<Rightarrow> nat \<Rightarrow> nat \<Rightarrow> bool option" where
  "loop_body_all_paths_yield_no_inner_loop ops start0 end0 =
     (let start = min start0 (length ops); end_ip = min (max end0 start) (length ops) in
      if list_ex (\<lambda>x. case ctl_of x of C_Loop t \<Rightarrow> True | _ \<Rightarrow> False) (take (end_ip - start) (drop start ops))
      then Some False
      else map_option (\<lambda>(res, breaks). res = Some True)
             (analyze_yield_coverage ops start end_ip False {} []))"

text \<open>
  \<open>compute_always_yielding\<close>: rounds over the chunk table, each using the set as it grows, until a
  round adds nothing.  A productive round adds an index, so one round per chunk and one more suffice.
\<close>

fun always_yielding_round :: "chunk list \<Rightarrow> nat \<Rightarrow> nat set \<Rightarrow> bool \<Rightarrow> (nat set \<times> bool) option" where
  "always_yielding_round [] i always changed = Some (always, changed)"
| "always_yielding_round (c # cs) i always changed =
     (if i \<in> always then always_yielding_round cs (Suc i) always changed
      else Option.bind (analyze_yield_coverage (ch_ops c) 0 (length (ch_ops c)) False always [])
             (\<lambda>(res, breaks).
                if res = Some True then always_yielding_round cs (Suc i) (insert i always) True
                else always_yielding_round cs (Suc i) always changed))"

fun always_yielding_loop :: "nat \<Rightarrow> chunk list \<Rightarrow> nat set \<Rightarrow> nat set option" where
  "always_yielding_loop 0 chunks always = None"
| "always_yielding_loop (Suc fuel) chunks always =
     Option.bind (always_yielding_round chunks 0 always False) (\<lambda>(always', changed).
       if changed then always_yielding_loop fuel chunks always' else Some always')"

definition compute_always_yielding :: "kmodule \<Rightarrow> nat set option" where
  "compute_always_yielding m = always_yielding_loop (Suc (length (m_chunks m))) (m_chunks m) {}"

section \<open>Loop bounds\<close>

text \<open>\<open>trace_literal_array_length\<close>: the search runs downwards from \<open>before_ip\<close>.\<close>

fun trace_literal_array_length :: "chunk \<Rightarrow> nat \<Rightarrow> u16 \<Rightarrow> int option" where
  "trace_literal_array_length chunk 0 arr_slot = None"
| "trace_literal_array_length chunk (Suc ip) arr_slot =
     (if ch_ops chunk ! ip = SetLocal arr_slot then
        (if ip = 0 then None
         else (case ch_ops chunk ! (ip - 1) of
                 NewComposite c \<Rightarrow> if nc_kind c = CK_Array then Some (int (unat (nc_count c))) else None
               | GetLocal other_slot \<Rightarrow> trace_literal_array_length chunk (ip - 1) other_slot
               | _ \<Rightarrow> None))
      else trace_literal_array_length chunk ip arr_slot)"

text \<open>\<open>trace_const_set_local\<close>: a constant, or the length of a literal array.\<close>

definition const_int_at :: "chunk \<Rightarrow> u16 \<Rightarrow> (64 word) option" where
  "const_int_at chunk idx =
     (case nth_opt (ch_constants chunk) (unat idx) of Some (CV_Int n) \<Rightarrow> Some n | _ \<Rightarrow> None)"

fun trace_const_set_local :: "chunk \<Rightarrow> nat \<Rightarrow> u16 \<Rightarrow> int option" where
  "trace_const_set_local chunk 0 slot = None"
| "trace_const_set_local chunk (Suc ip) slot =
     (if ch_ops chunk ! ip = SetLocal slot then
        (if ip = 0 then None
         else (case ch_ops chunk ! (ip - 1) of
                 Const idx \<Rightarrow> map_option sint (const_int_at chunk idx)
               | Len \<Rightarrow>
                   (if 2 \<le> ip
                    then (case ch_ops chunk ! (ip - 2) of
                            GetLocal arr_slot \<Rightarrow> trace_literal_array_length chunk (ip - 2) arr_slot
                          | _ \<Rightarrow> None)
                    else None)
               | _ \<Rightarrow> None))
      else trace_const_set_local chunk ip slot)"

text \<open>
  \<open>loop_body_advances_induction\<close>: exactly one assignment of the induction variable in the body,
  the five-instruction increment at its tail, and none of the bound.
\<close>

definition loop_body_advances_induction :: "chunk \<Rightarrow> nat \<Rightarrow> u16 \<Rightarrow> u16 \<Rightarrow> bool" where
  "loop_body_advances_induction chunk loop_ip var_slot end_slot =
     (let ops = ch_ops chunk in
      case map_option ctl_of (nth_opt ops loop_ip) of
        Some (C_Loop exit) \<Rightarrow>
          if exit = 0 \<or> length ops < exit then False
          else let endloop = exit - 1; body = loop_ip + 5 in
            if \<not> (case ctl_of (ops ! endloop) of C_EndLoop t \<Rightarrow> True | _ \<Rightarrow> False) then False
            else if endloop < 5 \<or> endloop - 5 < body then False
            else let body_ops = take (endloop - body) (drop body ops) in
              if SetLocal end_slot \<in> set body_ops then False
              else if length (filter (\<lambda>x. x = SetLocal var_slot) body_ops) \<noteq> 1 then False
              else if ops ! (endloop - 5) = GetLocal var_slot
                    \<and> ops ! (endloop - 3) = CheckedAdd
                    \<and> ops ! (endloop - 2) = PopN 2
                    \<and> ops ! (endloop - 1) = SetLocal var_slot
              then (case ops ! (endloop - 4) of
                      Const c \<Rightarrow> (case const_int_at chunk c of Some n \<Rightarrow> 0 < sint n | None \<Rightarrow> False)
                    | _ \<Rightarrow> False)
              else False
      | _ \<Rightarrow> False)"

text \<open>
  \<open>extract_loop_iteration_bound\<close>.  The subtraction is \<open>i64::checked_sub\<close>; the count must fit a
  \<open>u32\<close>.
\<close>

definition extract_loop_iteration_bound :: "chunk \<Rightarrow> nat \<Rightarrow> nat option" where
  "extract_loop_iteration_bound chunk loop_ip =
     (let ops = ch_ops chunk in
      if length ops \<le> loop_ip + 4 then None
      else (case ops ! (loop_ip + 1) of
        GetLocal var_slot \<Rightarrow>
          (case ops ! (loop_ip + 2) of
            GetLocal end_slot \<Rightarrow>
              if ops ! (loop_ip + 3) \<noteq> CmpGe then None
              else if \<not> (case ctl_of (ops ! (loop_ip + 4)) of C_BreakIf t \<Rightarrow> True | _ \<Rightarrow> False) then None
              else Option.bind (trace_const_set_local chunk loop_ip end_slot) (\<lambda>end_val.
                   Option.bind (trace_const_set_local chunk loop_ip var_slot) (\<lambda>start_val.
                     if \<not> loop_body_advances_induction chunk loop_ip var_slot end_slot then None
                     else if start_val \<le> end_val then
                       (if end_val - start_val < 2 ^ 63
                        then (if end_val - start_val \<le> int u32_max then Some (nat (end_val - start_val)) else None)
                        else None)
                     else Some 0))
          | _ \<Rightarrow> None)
      | _ \<Rightarrow> None))"

section \<open>Worst-case execution time\<close>

text \<open>\<open>op_wcet_cycles\<close>: the flat cost plus the per-instruction extra; \<open>u32::MAX\<close> is "unbounded".\<close>

definition op_wcet_cycles :: "chunk \<Rightarrow> nat \<Rightarrow> cost_model \<Rightarrow> nat list \<Rightarrow> verify_error + nat" where
  "op_wcet_cycles chunk ip cm wcet_extra =
     (let extra = (case nth_opt wcet_extra ip of Some e \<Rightarrow> e | None \<Rightarrow> 0) in
      if extra = u32_max then Inl (VE_TextUnbounded ip)
      else Inr (sat_add (cycles cm (ch_ops chunk ! ip)) extra))"

record wcet_outcome =
  wo_cost :: nat
  wo_falls_through :: bool

definition wcet_exits :: "nat \<Rightarrow> wcet_outcome" where
  "wcet_exits c = \<lparr> wo_cost = c, wo_falls_through = False \<rparr>"

text \<open>The cost of an \<open>If\<close> with an \<open>Else\<close>: the dearer branch, the then-branch with its \<open>Else\<close>.\<close>

definition wcet_else_join :: "nat \<Rightarrow> nat \<Rightarrow> nat \<Rightarrow> nat \<Rightarrow> nat" where
  "wcet_else_join cost then_cost else_op else_cost =
     sat_add cost (let then_total = sat_add then_cost else_op in
                   if else_cost < then_total then then_total else else_cost)"

text \<open>The cost of a loop: a single pass, or all its counted passes and the header that leaves it.\<close>

definition wcet_loop_cost :: "nat \<Rightarrow> bool \<Rightarrow> nat \<Rightarrow> nat \<Rightarrow> nat \<Rightarrow> nat list \<Rightarrow> nat" where
  "wcet_loop_cost cost single_pass body_cost endloop iter_count loop_break_costs =
     (let body_cost_total = sat_mul (sat_add body_cost endloop) iter_count;
          max_break = max_or 0 loop_break_costs
      in sat_add cost (if single_pass then max max_break body_cost_total
                       else sat_add body_cost_total max_break))"

definition wcet_iter_count :: "chunk \<Rightarrow> nat \<Rightarrow> bool \<Rightarrow> verify_error + nat" where
  "wcet_iter_count chunk ip single_pass =
     (if single_pass then Inr 1
      else (case extract_loop_iteration_bound chunk ip of
              Some n \<Rightarrow> Inr n
            | None \<Rightarrow> Inl (VE_LoopUnbounded ip)))"

definition wcet_endloop_cost :: "chunk \<Rightarrow> nat \<Rightarrow> bool \<Rightarrow> cost_model \<Rightarrow> nat list \<Rightarrow> verify_error + nat" where
  "wcet_endloop_cost chunk endloop_ip falls_through cm wcet_extra =
     (if falls_through \<and> endloop_ip < length (ch_ops chunk)
         \<and> (case ctl_of (ch_ops chunk ! endloop_ip) of C_EndLoop t \<Rightarrow> True | _ \<Rightarrow> False)
      then op_wcet_cycles chunk endloop_ip cm wcet_extra
      else Inr 0)"

text \<open>An instruction charged only when the position is inside the chunk.\<close>

definition op_wcet_cycles_at :: "chunk \<Rightarrow> nat \<Rightarrow> cost_model \<Rightarrow> nat list \<Rightarrow> verify_error + nat" where
  "op_wcet_cycles_at chunk ip cm wcet_extra =
     (if ip < length (ch_ops chunk) then op_wcet_cycles chunk ip cm wcet_extra else Inr 0)"

text \<open>
  Whether a loop is costed as one pass: its body never falls through, or, under the clamp for a
  resumable chunk, every path through its body yields.
\<close>

definition wcet_single_pass :: "op list \<Rightarrow> nat \<Rightarrow> nat \<Rightarrow> bool \<Rightarrow> bool \<Rightarrow> bool option" where
  "wcet_single_pass ops ip endloop_ip falls_through clamp =
     (if \<not> falls_through then Some True
      else if clamp then loop_body_all_paths_yield_no_inner_loop ops (Suc ip) endloop_ip
      else Some False)"

fun wcet_region_at ::
  "nat \<Rightarrow> chunk \<Rightarrow> nat \<Rightarrow> nat \<Rightarrow> nat \<Rightarrow> nat list \<Rightarrow> cost_model \<Rightarrow> bool \<Rightarrow> nat list \<Rightarrow> nat \<Rightarrow>
   (verify_error + (wcet_outcome \<times> nat list)) option"
where
  "wcet_region_at 0 chunk ip end_ip cost break_costs cm clamp wcet_extra nest = None"
| "wcet_region_at (Suc fuel) chunk ip end_ip cost break_costs cm clamp wcet_extra nest =
     (if nest > MAX_REGION_DEPTH then Some (Inl VE_RegionTooDeep)
      else if ip < min end_ip (length (ch_ops chunk)) then
        bindOR (Some (op_wcet_cycles chunk ip cm wcet_extra)) (\<lambda>c.
        (case ctl_of (ch_ops chunk ! ip) of
           C_Break t \<Rightarrow> Some (Inr (wcet_exits (sat_add cost c), break_costs @ [sat_add cost c]))
         | C_Trap \<Rightarrow> Some (Inr (wcet_exits (sat_add cost c), break_costs))
         | C_Return \<Rightarrow> Some (Inr (wcet_exits (sat_add cost c), break_costs))
         | C_BreakIf t \<Rightarrow>
             wcet_region_at fuel chunk (Suc ip) end_ip (sat_add cost c) (break_costs @ [sat_add cost c])
               cm clamp wcet_extra nest
         | C_If target \<Rightarrow>
             (case else_target (ch_ops chunk) target of
                Some endif_pos \<Rightarrow>
                  bindOR (wcet_region_at fuel chunk (Suc ip) (target - 1) 0 break_costs cm clamp wcet_extra
                            (Suc nest)) (\<lambda>(then_cost, breaks1).
                  bindOR (wcet_region_at fuel chunk target endif_pos 0 breaks1 cm clamp wcet_extra
                            (Suc nest)) (\<lambda>(else_cost, breaks2).
                  bindOR (Some (op_wcet_cycles chunk (target - 1) cm wcet_extra)) (\<lambda>else_op.
                  bindOR (Some (op_wcet_cycles_at chunk endif_pos cm wcet_extra)) (\<lambda>endif_op.
                    let cost' = sat_add (wcet_else_join (sat_add cost c) (wo_cost then_cost) else_op
                                           (wo_cost else_cost)) endif_op in
                    if \<not> wo_falls_through then_cost \<and> \<not> wo_falls_through else_cost
                    then Some (Inr (wcet_exits cost', breaks2))
                    else wcet_region_at fuel chunk (Suc endif_pos) end_ip cost' breaks2 cm clamp wcet_extra
                           nest))))
              | None \<Rightarrow>
                  bindOR (wcet_region_at fuel chunk (Suc ip) target 0 break_costs cm clamp wcet_extra
                            (Suc nest)) (\<lambda>(then_cost, breaks1).
                  bindOR (Some (op_wcet_cycles_at chunk target cm wcet_extra)) (\<lambda>endif_op.
                    wcet_region_at fuel chunk (Suc target) end_ip
                      (sat_add (sat_add (sat_add cost c) (wo_cost then_cost)) endif_op) breaks1 cm clamp
                      wcet_extra nest)))
         | C_Loop loop_exit_target \<Rightarrow>
             bindOR (wcet_region_at fuel chunk (Suc ip) (loop_exit_target - 1) 0 [] cm clamp wcet_extra
                       (Suc nest)) (\<lambda>(body_cost, loop_break_costs).
               if loop_break_costs = [] \<and> \<not> wo_falls_through body_cost
               then Some (Inr (wcet_exits (sat_add (sat_add cost c) (wo_cost body_cost)), break_costs))
               else
                 Option.bind (wcet_single_pass (ch_ops chunk) ip (loop_exit_target - 1)
                                (wo_falls_through body_cost) clamp) (\<lambda>single_pass.
                 bindOR (Some (wcet_iter_count chunk ip single_pass)) (\<lambda>iter_count.
                 bindOR (Some (wcet_endloop_cost chunk (loop_exit_target - 1)
                                 (wo_falls_through body_cost) cm wcet_extra)) (\<lambda>endloop.
                   wcet_region_at fuel chunk loop_exit_target end_ip
                     (wcet_loop_cost (sat_add cost c) single_pass (wo_cost body_cost) endloop iter_count
                        loop_break_costs) break_costs cm clamp wcet_extra nest))))
         | _ \<Rightarrow> wcet_region_at fuel chunk (Suc ip) end_ip (sat_add cost c) break_costs cm clamp wcet_extra nest))
      else Some (Inr (\<lparr> wo_cost = cost, wo_falls_through = True \<rparr>, break_costs)))"

definition wcet_region ::
  "chunk \<Rightarrow> nat \<Rightarrow> nat \<Rightarrow> nat list \<Rightarrow> cost_model \<Rightarrow> bool \<Rightarrow> nat list \<Rightarrow>
   (verify_error + (wcet_outcome \<times> nat list)) option" where
  "wcet_region chunk start end_ip break_costs cm clamp wcet_extra =
     wcet_region_at (walk_fuel (ch_ops chunk)) chunk start end_ip 0 break_costs cm clamp wcet_extra 0"

section \<open>Operand-stack depth\<close>

definition depth_underflow :: "nat \<Rightarrow> op \<Rightarrow> int \<Rightarrow> verify_error" where
  "depth_underflow ip x have_depth = VE_DepthUnderflow ip (fst (op_depth_effect x)) have_depth"

fun depth_join :: "int option \<Rightarrow> int option \<Rightarrow> int option" where
  "depth_join (Some a) (Some b) = Some (max a b)"
| "depth_join (Some a) None = Some a"
| "depth_join None (Some b) = Some b"
| "depth_join None None = None"

text \<open>The depth after a loop: the deepest break, else the end of the body, else the entry.\<close>

definition depth_after_loop :: "int list \<Rightarrow> int option \<Rightarrow> int \<Rightarrow> int" where
  "depth_after_loop loop_breaks body_end depth =
     (if loop_breaks \<noteq> [] then Max (set loop_breaks)
      else (case body_end of Some d \<Rightarrow> d | None \<Rightarrow> depth))"

fun verify_depth_region_at ::
  "nat \<Rightarrow> op list \<Rightarrow> nat \<Rightarrow> nat \<Rightarrow> int \<Rightarrow> int list \<Rightarrow> nat \<Rightarrow> (verify_error + (int option \<times> int list)) option"
where
  "verify_depth_region_at 0 ops ip end_ip depth breaks nest = None"
| "verify_depth_region_at (Suc fuel) ops ip end_ip depth breaks nest =
     (if nest > MAX_REGION_DEPTH then Some (Inl VE_RegionTooDeep)
      else if ip < min end_ip (length ops) then
        (let x = ops ! ip; req = fst (op_depth_effect x); net = snd (op_depth_effect x) in
         case ctl_of x of
           C_Break t \<Rightarrow> Some (Inr (None, breaks @ [depth]))
         | C_Loop exit \<Rightarrow>
             bindOR (verify_depth_region_at fuel ops (Suc ip) (exit - 1) depth [] (Suc nest))
               (\<lambda>(body_end, loop_breaks).
                  verify_depth_region_at fuel ops exit end_ip (depth_after_loop loop_breaks body_end depth)
                    breaks nest)
         | C_Trap \<Rightarrow> if depth < req then Some (Inl (depth_underflow ip x depth)) else Some (Inr (None, breaks))
         | C_Return \<Rightarrow> if depth < req then Some (Inl (depth_underflow ip x depth)) else Some (Inr (None, breaks))
         | C_Reset \<Rightarrow> if depth < req then Some (Inl (depth_underflow ip x depth)) else Some (Inr (None, breaks))
         | C_BreakIf t \<Rightarrow>
             if depth < req then Some (Inl (depth_underflow ip x depth))
             else verify_depth_region_at fuel ops (Suc ip) end_ip (depth + net) (breaks @ [depth + net]) nest
         | C_If target \<Rightarrow>
             if depth < req then Some (Inl (depth_underflow ip x depth))
             else (case else_target ops target of
                     Some endif \<Rightarrow>
                       bindOR (verify_depth_region_at fuel ops (Suc ip) (target - 1) (depth + net) breaks (Suc nest))
                         (\<lambda>(then_end, breaks1).
                       bindOR (verify_depth_region_at fuel ops target endif (depth + net) breaks1 (Suc nest))
                         (\<lambda>(else_end, breaks2).
                          case depth_join then_end else_end of
                            Some d \<Rightarrow> verify_depth_region_at fuel ops (Suc endif) end_ip d breaks2 nest
                          | None \<Rightarrow> Some (Inr (None, breaks2))))
                   | None \<Rightarrow>
                       bindOR (verify_depth_region_at fuel ops (Suc ip) target (depth + net) breaks (Suc nest))
                         (\<lambda>(then_end, breaks1).
                          verify_depth_region_at fuel ops (Suc target) end_ip
                            (case then_end of Some a \<Rightarrow> max (depth + net) a | None \<Rightarrow> depth + net)
                            breaks1 nest))
         | _ \<Rightarrow>
             if depth < req then Some (Inl (depth_underflow ip x depth))
             else verify_depth_region_at fuel ops (Suc ip) end_ip (depth + net) breaks nest)
      else Some (Inr (Some depth, breaks)))"

text \<open>\<open>verify_stack_depth\<close>: no underflow, and no path runs off the end of the chunk.\<close>

definition verify_stack_depth :: "chunk \<Rightarrow> (verify_error + unit) option" where
  "verify_stack_depth chunk =
     bindOR (verify_depth_region_at (walk_fuel (ch_ops chunk)) (ch_ops chunk) 0 (length (ch_ops chunk)) 0 [] 0)
       (\<lambda>(terminal, breaks). case terminal of None \<Rightarrow> Some (Inr ()) | Some d \<Rightarrow> Some (Inl (VE_RunsOffEnd d)))"

declare analyze_yield_coverage_at.simps(2) [simp del]
  and wcet_region_at.simps(2) [simp del]
  and verify_depth_region_at.simps(2) [simp del]
  and always_yielding_loop.simps(2) [simp del]

end
