(* ===== verification/Walk_Termination.thy ===== *)
theory Walk_Termination
  imports Region_Walks
begin

text \<open>
  What \<open>check_forward_control_flow_targets\<close> buys: on a chunk it accepts, every region walk returns,
  and the fuel granted by the entry points is enough.  The check and the property it establishes
  are related both ways, so the walks' termination rests on nothing else.
\<close>

section \<open>Forward targets\<close>

definition forward_target :: "op list \<Rightarrow> nat \<Rightarrow> bool" where
  "forward_target ops ip =
     (case ctl_of (ops ! ip) of
        C_If t \<Rightarrow> ip < t \<and> t \<le> length ops
      | C_Else t \<Rightarrow> ip < t \<and> t \<le> length ops
      | C_Loop t \<Rightarrow> ip < t \<and> t \<le> length ops
      | _ \<Rightarrow> True)"

definition forward_targets :: "op list \<Rightarrow> bool" where
  "forward_targets ops = (\<forall>ip < length ops. forward_target ops ip)"

lemma check_forward_from_iff:
  assumes "n = length ops" and "ip \<le> n"
  shows "check_forward_from n (drop ip ops) ip = Inr () \<longleftrightarrow> (\<forall>j. ip \<le> j \<longrightarrow> j < n \<longrightarrow> forward_target ops j)"
  using assms
proof (induction "n - ip" arbitrary: ip)
  case 0
  then show ?case by simp
next
  case (Suc k)
  then have lt: "ip < length ops" by simp
  have IH: "check_forward_from n (drop (Suc ip) ops) (Suc ip) = Inr ()
      \<longleftrightarrow> (\<forall>j. Suc ip \<le> j \<longrightarrow> j < n \<longrightarrow> forward_target ops j)"
    using Suc by simp
  have split: "(\<forall>j. ip \<le> j \<longrightarrow> j < n \<longrightarrow> forward_target ops j)
      \<longleftrightarrow> forward_target ops ip \<and> (\<forall>j. Suc ip \<le> j \<longrightarrow> j < n \<longrightarrow> forward_target ops j)"
    using lt Suc.prems(1) by (auto simp: Suc_le_eq dest: le_neq_implies_less)
  show ?case
    unfolding split IH [symmetric] Cons_nth_drop_Suc [OF lt, symmetric]
    using lt Suc.prems(1)
    by (auto simp: forward_target_def split: ctl.splits)
qed

lemma check_forward_iff:
  "check_forward_control_flow_targets chunk = Inr () \<longleftrightarrow> forward_targets (ch_ops chunk)"
  using check_forward_from_iff [of "length (ch_ops chunk)" "ch_ops chunk" 0]
  by (simp add: check_forward_control_flow_targets_def forward_targets_def)

lemma forward_targetsD:
  assumes "forward_targets ops" and "ip < length ops"
  shows "ctl_of (ops ! ip) = C_If t \<Longrightarrow> ip < t \<and> t \<le> length ops"
    and "ctl_of (ops ! ip) = C_Else t \<Longrightarrow> ip < t \<and> t \<le> length ops"
    and "ctl_of (ops ! ip) = C_Loop t \<Longrightarrow> ip < t \<and> t \<le> length ops"
  using assms by (auto simp: forward_targets_def forward_target_def)

lemma else_target_Some:
  "else_target ops t = Some e \<longleftrightarrow> 0 < t \<and> t \<le> length ops \<and> ctl_of (ops ! (t - 1)) = C_Else e"
  by (auto simp: else_target_def split: ctl.splits)

lemma else_target_forward:
  "forward_targets ops \<Longrightarrow> else_target ops t = Some e \<Longrightarrow> t \<le> e \<and> e \<le> length ops"
  using forward_targetsD(2) [of ops "t - 1" e] by (cases t) (auto simp: else_target_Some)

section \<open>Termination of the walks\<close>

text \<open>A computation returns; a sequence of computations returns when each of them does.\<close>

definition returns :: "'a option \<Rightarrow> bool" where
  "returns m = (m \<noteq> None)"

lemma returns_Some [simp, intro!]: "returns (Some x)"
  by (simp add: returns_def)

lemma returns_iff: "returns m \<longleftrightarrow> (\<exists>r. m = Some r)"
  by (auto simp: returns_def)

lemma returns_bind [intro!]: "returns m \<Longrightarrow> (\<And>x. returns (f x)) \<Longrightarrow> returns (Option.bind m f)"
  by (cases m) (auto simp: returns_def)

lemma returns_bindOR [intro!]: "returns m \<Longrightarrow> (\<And>x. returns (f x)) \<Longrightarrow> returns (bindOR m f)"
  by (cases m) (auto simp: returns_def bindOR_def split: sum.splits)

lemma returns_map_option [simp]: "returns (map_option f m) = returns m"
  by (simp add: returns_def)

lemma yield_coverage_terminates:
  assumes fwd: "forward_targets ops"
  shows "length ops < fuel + ip \<Longrightarrow> 0 < fuel \<Longrightarrow>
     returns (analyze_yield_coverage_at fuel ops ip end_ip hy always brs depth)"
proof (induction fuel arbitrary: ip end_ip hy brs depth)
  case 0
  then show ?case by simp
next
  case (Suc fuel)
  show ?case
  proof (cases "depth > MAX_REGION_DEPTH \<or> \<not> ip < min end_ip (length ops)")
    case True
    then show ?thesis by (auto simp: analyze_yield_coverage_at.simps(2))
  next
    case False
    then have ip: "ip < length ops" and d: "\<not> depth > MAX_REGION_DEPTH" and m: "ip < min end_ip (length ops)"
      by auto
    then have fuel: "0 < fuel" using Suc.prems by simp
    have IH: "returns (analyze_yield_coverage_at fuel ops ip' e h always b dd)" if "ip < ip'" for ip' e h b dd
      using Suc.IH [of ip'] that Suc.prems fuel by simp
    note fw = forward_targetsD [OF fwd ip] and el = else_target_forward [OF fwd]
    show ?thesis
      unfolding analyze_yield_coverage_at.simps(2) if_not_P [OF d] if_P [OF m]
      by (cases "ctl_of (ops ! ip)")
        (auto dest!: fw el intro!: IH split: option.split)
  qed
qed

lemma wcet_single_pass_terminates:
  assumes "forward_targets ops"
  shows "returns (wcet_single_pass ops ip e ft clamp)"
  using yield_coverage_terminates [OF assms, of "walk_fuel ops"]
  by (simp add: wcet_single_pass_def loop_body_all_paths_yield_no_inner_loop_def
      analyze_yield_coverage_def Let_def walk_fuel_def)

lemma wcet_region_terminates:
  assumes fwd: "forward_targets (ch_ops chunk)"
  shows "length (ch_ops chunk) < fuel + ip \<Longrightarrow> 0 < fuel \<Longrightarrow>
     returns (wcet_region_at fuel chunk ip end_ip cost brs cm clamp extra nest)"
proof (induction fuel arbitrary: ip end_ip cost brs nest)
  case 0
  then show ?case by simp
next
  case (Suc fuel)
  let ?ops = "ch_ops chunk"
  show ?case
  proof (cases "nest > MAX_REGION_DEPTH \<or> \<not> ip < min end_ip (length ?ops)")
    case True
    then show ?thesis by (auto simp: wcet_region_at.simps(2))
  next
    case False
    then have ip: "ip < length ?ops" and d: "\<not> nest > MAX_REGION_DEPTH" and m: "ip < min end_ip (length ?ops)"
      by auto
    then have fuel: "0 < fuel" using Suc.prems by simp
    have IH: "returns (wcet_region_at fuel chunk ip' e c b cm clamp extra dd)" if "ip < ip'" for ip' e c b dd
      using Suc.IH [of ip'] that Suc.prems fuel by simp
    note fw = forward_targetsD [OF fwd ip] and el = else_target_forward [OF fwd]
      and sp = wcet_single_pass_terminates [OF fwd]
    show ?thesis
      unfolding wcet_region_at.simps(2) if_not_P [OF d] if_P [OF m]
      by (rule returns_bindOR, simp, cases "ctl_of (?ops ! ip)")
        (auto simp: Let_def dest!: fw el intro!: IH sp split: option.split prod.split)
  qed
qed

lemma depth_region_terminates:
  assumes fwd: "forward_targets ops"
  shows "length ops < fuel + ip \<Longrightarrow> 0 < fuel \<Longrightarrow>
     returns (verify_depth_region_at fuel ops ip end_ip depth brs nest)"
proof (induction fuel arbitrary: ip end_ip depth brs nest)
  case 0
  then show ?case by simp
next
  case (Suc fuel)
  show ?case
  proof (cases "nest > MAX_REGION_DEPTH \<or> \<not> ip < min end_ip (length ops)")
    case True
    then show ?thesis by (auto simp: verify_depth_region_at.simps(2))
  next
    case False
    then have ip: "ip < length ops" and d: "\<not> nest > MAX_REGION_DEPTH" and m: "ip < min end_ip (length ops)"
      by auto
    then have fuel: "0 < fuel" using Suc.prems by simp
    have IH: "returns (verify_depth_region_at fuel ops ip' e dep b dd)" if "ip < ip'" for ip' e dep b dd
      using Suc.IH [of ip'] that Suc.prems fuel by simp
    note fw = forward_targetsD [OF fwd ip] and el = else_target_forward [OF fwd]
    show ?thesis
      unfolding verify_depth_region_at.simps(2) if_not_P [OF d] if_P [OF m] Let_def
      by (cases "ctl_of (ops ! ip)")
        (auto dest!: fw el intro!: IH split: option.split prod.split)
  qed
qed

section \<open>The always-yielding fixpoint\<close>

lemma analyze_yield_coverage_returns:
  "forward_targets ops \<Longrightarrow> returns (analyze_yield_coverage ops s e h a b)"
  by (simp add: analyze_yield_coverage_def yield_coverage_terminates walk_fuel_def)

lemma always_round_returns:
  "\<forall>c \<in> set cs. forward_targets (ch_ops c) \<Longrightarrow> returns (always_yielding_round cs i a ch)"
proof (induction cs arbitrary: i a ch)
  case (Cons c cs)
  then have "returns (analyze_yield_coverage (ch_ops c) 0 (length (ch_ops c)) False a [])"
    by (auto intro: analyze_yield_coverage_returns)
  with Cons show ?case by (auto split: prod.split)
qed simp

text \<open>A round only adds indices of the table, and reports a change exactly when it added one.\<close>

lemma always_round_grows:
  assumes "always_yielding_round cs i a ch = Some (a', ch')"
  shows "a \<subseteq> a' \<and> a' \<subseteq> a \<union> {i..<i + length cs} \<and> (ch' \<longleftrightarrow> ch \<or> a' \<noteq> a)"
  using assms
proof (induction cs arbitrary: i a ch)
  case (Cons c cs)
  show ?case
  proof (cases "i \<in> a")
    case True
    with Cons.prems have "always_yielding_round cs (Suc i) a ch = Some (a', ch')" by simp
    from Cons.IH [OF this] show ?thesis by fastforce
  next
    case False
    with Cons.prems obtain res brs where
      "analyze_yield_coverage (ch_ops c) 0 (length (ch_ops c)) False a [] = Some (res, brs)"
      and r: "(if res = Some True then always_yielding_round cs (Suc i) (insert i a) True
               else always_yielding_round cs (Suc i) a ch) = Some (a', ch')"
      by (auto simp: bind_eq_Some_conv)
    show ?thesis
    proof (cases "res = Some True")
      case True
      with r have "always_yielding_round cs (Suc i) (insert i a) True = Some (a', ch')" by simp
      from Cons.IH [OF this] False show ?thesis by fastforce
    next
      case False
      with r have "always_yielding_round cs (Suc i) a ch = Some (a', ch')" by simp
      from Cons.IH [OF this] show ?thesis by fastforce
    qed
  qed
qed simp

lemma always_loop_returns:
  assumes "\<forall>c \<in> set cs. forward_targets (ch_ops c)"
  shows "a \<subseteq> {..<length cs} \<Longrightarrow> length cs - card a < fuel \<Longrightarrow> returns (always_yielding_loop fuel cs a)"
proof (induction fuel arbitrary: a)
  case (Suc fuel)
  obtain a' ch' where r: "always_yielding_round cs 0 a False = Some (a', ch')"
    using always_round_returns [OF assms, of 0 a False] by (auto simp: returns_iff)
  note g = always_round_grows [OF r]
  show ?case
  proof (cases ch')
    case True
    then have ss: "a \<subset> a'" and bd: "a' \<subseteq> {..<length cs}" using g Suc.prems(1) by auto
    then have "card a < card a'" by (meson finite_lessThan finite_subset psubset_card_mono)
    moreover have "card a' \<le> length cs" using bd by (metis card_lessThan card_mono finite_lessThan)
    ultimately have "length cs - card a' < fuel" using Suc.prems(2) by linarith
    from Suc.IH [OF bd this] r True show ?thesis by (simp add: always_yielding_loop.simps(2))
  qed (simp add: always_yielding_loop.simps(2) r)
qed simp

text \<open>The final set is stable: no chunk outside it is classified as always yielding by it.\<close>

lemma always_round_stable:
  assumes "always_yielding_round cs i a ch = Some (a, False)" and "j < length cs" and "i + j \<notin> a"
  shows "\<exists>res brs. analyze_yield_coverage (ch_ops (cs ! j)) 0 (length (ch_ops (cs ! j))) False a []
           = Some (res, brs) \<and> res \<noteq> Some True"
  using assms
proof (induction cs arbitrary: i j ch)
  case (Cons c cs)
  show ?case
  proof (cases "i \<in> a")
    case True
    with Cons.prems have "always_yielding_round cs (Suc i) a ch = Some (a, False)" and "j \<noteq> 0"
      by (auto intro!: gr0I)
    with Cons.IH [OF this(1), of "j - 1"] Cons.prems show ?thesis by (cases j) auto
  next
    case False
    with Cons.prems(1) obtain res brs where
      an: "analyze_yield_coverage (ch_ops c) 0 (length (ch_ops c)) False a [] = Some (res, brs)"
      and r: "(if res = Some True then always_yielding_round cs (Suc i) (insert i a) True
               else always_yielding_round cs (Suc i) a ch) = Some (a, False)"
      by (auto simp: bind_eq_Some_conv)
    have nt: "res \<noteq> Some True"
      using r always_round_grows [of cs "Suc i" "insert i a" True a False] by auto
    show ?thesis
    proof (cases j)
      case 0
      with an nt show ?thesis by auto
    next
      case (Suc j')
      with r nt Cons.IH [of "Suc i" ch j'] Cons.prems(2,3) show ?thesis by simp
    qed
  qed
qed simp

lemma always_loop_stable:
  assumes "always_yielding_loop fuel cs a = Some r"
  shows "\<exists>ch. always_yielding_round cs 0 r ch = Some (r, False)"
  using assms
proof (induction fuel arbitrary: a)
  case (Suc fuel)
  then obtain a' ch where rd: "always_yielding_round cs 0 a False = Some (a', ch)"
    and rest: "(if ch then always_yielding_loop fuel cs a' else Some a') = Some r"
    by (auto simp: always_yielding_loop.simps(2) bind_eq_Some_conv)
  show ?case
  proof (cases ch)
    case True
    with rest Suc.IH show ?thesis by simp
  next
    case False
    with rest have "a' = r" by simp
    moreover from always_round_grows [OF rd] False have "a' = a" by simp
    ultimately show ?thesis using rd False by auto
  qed
qed simp

end
