(* ===== verification/Structured.thy ===== *)
theory Structured
  imports Walk_Termination
begin

text \<open>
  Structured code.  \<open>region ops lx d s e\<close> says that the instructions of \<open>[s, e)\<close> are a well-nested
  sequence of blocks, nested at depth \<open>d\<close>, whose breaks target \<open>lx\<close>, the exit of the innermost
  enclosing loop: this is what the block-nesting pass of the verifier is meant to establish.
  \<open>rexec\<close> runs such a region block by block and records the positions dispatched.  The
  decomposition theorem shows that every control path of the machine that starts in a structured
  region is such a run, so that a property of runs is a property of control paths.
\<close>

section \<open>Well-nested regions\<close>

inductive region :: "op list \<Rightarrow> nat option \<Rightarrow> nat \<Rightarrow> nat \<Rightarrow> nat \<Rightarrow> bool" for ops where
  rg_nil: "s \<le> length ops \<Longrightarrow> region ops lx d s s"
| rg_lin: "s < length ops \<Longrightarrow> ctl_linear (ctl_of (ops ! s)) \<or> ctl_exits (ctl_of (ops ! s)) \<Longrightarrow>
     region ops lx d (Suc s) e \<Longrightarrow> region ops lx d s e"
| rg_break: "s < length ops \<Longrightarrow> ctl_of (ops ! s) = C_Break t \<or> ctl_of (ops ! s) = C_BreakIf t \<Longrightarrow>
     lx = Some t \<Longrightarrow> region ops lx d (Suc s) e \<Longrightarrow> region ops lx d s e"
| rg_if: "s < length ops \<Longrightarrow> ctl_of (ops ! s) = C_If t \<Longrightarrow> d < MAX_REGION_DEPTH \<Longrightarrow>
     region ops lx (Suc d) (Suc s) t \<Longrightarrow> t < length ops \<Longrightarrow> ctl_of (ops ! t) = C_EndIf \<Longrightarrow>
     region ops lx d (Suc t) e \<Longrightarrow> region ops lx d s e"
| rg_ifelse: "s < length ops \<Longrightarrow> ctl_of (ops ! s) = C_If (Suc m) \<Longrightarrow> d < MAX_REGION_DEPTH \<Longrightarrow>
     region ops lx (Suc d) (Suc s) m \<Longrightarrow> m < length ops \<Longrightarrow> ctl_of (ops ! m) = C_Else q \<Longrightarrow>
     region ops lx (Suc d) (Suc m) q \<Longrightarrow> q < length ops \<Longrightarrow> ctl_of (ops ! q) = C_EndIf \<Longrightarrow>
     region ops lx d (Suc q) e \<Longrightarrow> region ops lx d s e"
| rg_loop: "s < length ops \<Longrightarrow> ctl_of (ops ! s) = C_Loop (Suc b) \<Longrightarrow> d < MAX_REGION_DEPTH \<Longrightarrow>
     region ops (Some (Suc b)) (Suc d) (Suc s) b \<Longrightarrow> b < length ops \<Longrightarrow>
     ctl_of (ops ! b) = C_EndLoop (Suc s) \<Longrightarrow>
     region ops lx d (Suc b) e \<Longrightarrow> region ops lx d s e"

lemma region_bounds: "region ops lx d s e \<Longrightarrow> s \<le> e \<and> e \<le> length ops"
  by (induction rule: region.induct) auto

lemma region_lt: "region ops lx d (Suc s) e \<Longrightarrow> s < e"
  by (drule region_bounds) simp

text \<open>Regions compose, and grow at their end by a linear instruction or a whole block.\<close>

lemma region_append:
  "region ops lx d s m \<Longrightarrow> region ops lx d m e \<Longrightarrow> region ops lx d s e"
proof (induction rule: region.induct)
  case (rg_if s t d lx e)
  then show ?case using region.rg_if by blast
next
  case (rg_ifelse s m d lx q e)
  then show ?case using region.rg_ifelse by blast
next
  case (rg_loop s b d lx e)
  then show ?case using region.rg_loop by blast
qed (auto intro: region.intros)

text \<open>No region ends in an \<open>Else\<close>: the position before its end is never one.\<close>

lemma region_last_not_else:
  "region ops lx d s e \<Longrightarrow> s < e \<Longrightarrow> ctl_of (ops ! (e - 1)) \<noteq> C_Else q"
proof (induction rule: region.induct)
  case (rg_nil s lx d)
  then show ?case by simp
next
  case (rg_lin s lx d e)
  then have "s < e \<and> (Suc s = e \<or> Suc s < e)" using region_bounds by fastforce
  with rg_lin show ?case by (cases "ctl_of (ops ! s)") auto
next
  case (rg_break s t lx d e)
  then have "Suc s = e \<or> Suc s < e" using region_bounds by fastforce
  with rg_break show ?case by auto
next
  case (rg_if s t d lx e)
  then have "Suc t = e \<or> Suc t < e" using region_bounds by fastforce
  with rg_if show ?case by auto
next
  case (rg_ifelse s m d lx q' e)
  then have "Suc q' = e \<or> Suc q' < e" using region_bounds by fastforce
  with rg_ifelse show ?case by auto
next
  case (rg_loop s b d lx e)
  then have "Suc b = e \<or> Suc b < e" using region_bounds by fastforce
  with rg_loop show ?case by auto
qed

text \<open>Hence the walks recognise an \<open>If\<close> without an \<open>Else\<close> as such.\<close>

lemma else_target_no_else:
  assumes "region ops lx d (Suc s) t" and "t < length ops" and "ctl_of (ops ! s) = C_If t"
  shows "else_target ops t = None"
proof -
  have "Suc s \<le> t" using region_bounds [OF assms(1)] by simp
  then consider "t = Suc s" | "Suc s < t" by linarith
  then show ?thesis
  proof cases
    case 1
    then show ?thesis using assms by (simp add: else_target_def)
  next
    case 2
    then show ?thesis
      using region_last_not_else [OF assms(1)] by (auto simp: else_target_def split: ctl.split)
  qed
qed

lemma else_target_else:
  "m < length ops \<Longrightarrow> ctl_of (ops ! m) = C_Else q \<Longrightarrow> else_target ops (Suc m) = Some q"
  by (simp add: else_target_def)

section \<open>Runs of a region\<close>

text \<open>
  How a run of a region ends: at the region's end, by a break of the enclosing loop, or before
  either (it returned, trapped, reset, or is observed part-way).
\<close>

datatype outcome = Fall | Brk | Part

definition stopped :: "outcome \<Rightarrow> outcome" where
  "stopped oc = (if oc = Fall then Part else oc)"

lemma stopped_simps [simp]: "stopped Fall = Part" "stopped Brk = Brk" "stopped Part = Part"
  by (simp_all add: stopped_def)

lemma stopped_Brk_iff [simp]: "stopped oc = Brk \<longleftrightarrow> oc = Brk" "stopped oc \<noteq> Fall"
  by (cases oc; simp)+

text \<open>
  \<open>lexec s x k fin tr oc\<close>: a run of the loop at \<open>s\<close> with exit \<open>x\<close> that completed \<open>k\<close> passes (each
  ended by the back edge) and then ran the positions \<open>fin\<close> of one more.  The parameter \<open>ok\<close> can
  restrict how many passes a loop may make; without restriction it is constantly true.
\<close>

inductive rexec :: "op list \<Rightarrow> (nat \<Rightarrow> nat \<Rightarrow> nat list \<Rightarrow> bool) \<Rightarrow> nat \<Rightarrow> nat \<Rightarrow> nat list \<Rightarrow> outcome \<Rightarrow> bool"
  and lexec :: "op list \<Rightarrow> (nat \<Rightarrow> nat \<Rightarrow> nat list \<Rightarrow> bool) \<Rightarrow> nat \<Rightarrow> nat \<Rightarrow> nat \<Rightarrow> nat list \<Rightarrow> nat list \<Rightarrow> outcome \<Rightarrow> bool"
  for ops ok where
  rx_start: "rexec ops ok s e [] Part"
| rx_end: "rexec ops ok s s [] Fall"
| rx_lin: "s < e \<Longrightarrow> ctl_linear (ctl_of (ops ! s)) \<Longrightarrow> rexec ops ok (Suc s) e tr oc \<Longrightarrow> rexec ops ok s e (s # tr) oc"
| rx_endif: "s < e \<Longrightarrow> ctl_of (ops ! s) = C_EndIf \<Longrightarrow> rexec ops ok (Suc s) e tr oc \<Longrightarrow> rexec ops ok s e (s # tr) oc"
| rx_exit: "s < e \<Longrightarrow> ctl_exits (ctl_of (ops ! s)) \<Longrightarrow> rexec ops ok s e [s] Part"
| rx_break: "s < e \<Longrightarrow> ctl_of (ops ! s) = C_Break t \<or> ctl_of (ops ! s) = C_BreakIf t \<Longrightarrow> rexec ops ok s e [s] Brk"
| rx_nobreak: "s < e \<Longrightarrow> ctl_of (ops ! s) = C_BreakIf t \<Longrightarrow> rexec ops ok (Suc s) e tr oc \<Longrightarrow> rexec ops ok s e (s # tr) oc"
| rx_if_stop: "s < e \<Longrightarrow> ctl_of (ops ! s) = C_If t \<Longrightarrow> else_target ops t = None \<Longrightarrow>
     rexec ops ok (Suc s) t tr oc \<Longrightarrow> rexec ops ok s e (s # tr) (stopped oc)"
| rx_if_then: "s < e \<Longrightarrow> ctl_of (ops ! s) = C_If t \<Longrightarrow> else_target ops t = None \<Longrightarrow>
     rexec ops ok (Suc s) t tr Fall \<Longrightarrow> rexec ops ok t e tr' oc \<Longrightarrow> rexec ops ok s e (s # tr @ tr') oc"
| rx_if_skip: "s < e \<Longrightarrow> ctl_of (ops ! s) = C_If t \<Longrightarrow> else_target ops t = None \<Longrightarrow>
     rexec ops ok t e tr' oc \<Longrightarrow> rexec ops ok s e (s # tr') oc"
| rx_then_stop: "s < e \<Longrightarrow> ctl_of (ops ! s) = C_If (Suc m) \<Longrightarrow> else_target ops (Suc m) = Some q \<Longrightarrow>
     rexec ops ok (Suc s) m tr oc \<Longrightarrow> rexec ops ok s e (s # tr) (stopped oc)"
| rx_then: "s < e \<Longrightarrow> ctl_of (ops ! s) = C_If (Suc m) \<Longrightarrow> else_target ops (Suc m) = Some q \<Longrightarrow>
     rexec ops ok (Suc s) m tr Fall \<Longrightarrow> rexec ops ok q e tr' oc \<Longrightarrow> rexec ops ok s e (s # tr @ m # tr') oc"
| rx_else_stop: "s < e \<Longrightarrow> ctl_of (ops ! s) = C_If (Suc m) \<Longrightarrow> else_target ops (Suc m) = Some q \<Longrightarrow>
     rexec ops ok (Suc m) q tr oc \<Longrightarrow> rexec ops ok s e (s # tr) (stopped oc)"
| rx_else: "s < e \<Longrightarrow> ctl_of (ops ! s) = C_If (Suc m) \<Longrightarrow> else_target ops (Suc m) = Some q \<Longrightarrow>
     rexec ops ok (Suc m) q tr Fall \<Longrightarrow> rexec ops ok q e tr' oc \<Longrightarrow> rexec ops ok s e (s # tr @ tr') oc"
| rx_loop_stop: "s < e \<Longrightarrow> ctl_of (ops ! s) = C_Loop (Suc b) \<Longrightarrow> lexec ops ok s (Suc b) k fin tr Part \<Longrightarrow> ok s k fin \<Longrightarrow>
     rexec ops ok s e (s # tr) Part"
| rx_loop: "s < e \<Longrightarrow> ctl_of (ops ! s) = C_Loop (Suc b) \<Longrightarrow> lexec ops ok s (Suc b) k fin tr Brk \<Longrightarrow> ok s k fin \<Longrightarrow>
     rexec ops ok (Suc b) e tr' oc \<Longrightarrow> rexec ops ok s e (s # tr @ tr') oc"
| lx_last: "rexec ops ok (Suc s) b tr oc \<Longrightarrow> lexec ops ok s (Suc b) 0 tr tr (stopped oc)"
| lx_more: "rexec ops ok (Suc s) b tr Fall \<Longrightarrow> lexec ops ok s (Suc b) k fin tr' oc \<Longrightarrow>
     lexec ops ok s (Suc b) (Suc k) fin (tr @ b # tr') oc"

abbreviation any_passes :: "nat \<Rightarrow> nat \<Rightarrow> nat list \<Rightarrow> bool" where
  "any_passes \<equiv> \<lambda>s k fin. True"


section \<open>Control paths are runs\<close>

text \<open>
  A path from the start of a region either is itself a run of it, or passes its end, or leaves it
  by a break to \<open>lx\<close>; in the latter two cases the part up to there is a run.
\<close>

definition splits_at :: "op list \<Rightarrow> nat option \<Rightarrow> nat \<Rightarrow> nat \<Rightarrow> nat list \<Rightarrow> nat \<Rightarrow> bool" where
  "splits_at ops lx s e tr j \<longleftrightarrow>
     rexec ops any_passes s e tr Part
   \<or> (\<exists>tr1 tr2. tr = tr1 @ tr2 \<and> rexec ops any_passes s e tr1 Fall \<and> fpath ops e tr2 j)
   \<or> (\<exists>tr1 tr2 x. tr = tr1 @ tr2 \<and> lx = Some x \<and> rexec ops any_passes s e tr1 Brk \<and> fpath ops x tr2 j)"

lemma splits_part: "rexec ops any_passes s e tr Part \<Longrightarrow> splits_at ops lx s e tr j"
  by (simp add: splits_at_def)

lemma splits_fall:
  "rexec ops any_passes s e tr1 Fall \<Longrightarrow> fpath ops e tr2 j \<Longrightarrow> splits_at ops lx s e (tr1 @ tr2) j"
  by (auto simp: splits_at_def)

lemma splits_brk:
  "rexec ops any_passes s e tr1 Brk \<Longrightarrow> fpath ops x tr2 j \<Longrightarrow> splits_at ops (Some x) s e (tr1 @ tr2) j"
  by (auto simp: splits_at_def)

lemma splitsE:
  assumes "splits_at ops lx s e tr j"
  obtains (part) "rexec ops any_passes s e tr Part"
    | (fall) tr1 tr2 where "tr = tr1 @ tr2" "rexec ops any_passes s e tr1 Fall" "fpath ops e tr2 j"
    | (brk) tr1 tr2 x where "tr = tr1 @ tr2" "lx = Some x" "rexec ops any_passes s e tr1 Brk" "fpath ops x tr2 j"
  using assms unfolding splits_at_def by blast

text \<open>Prefixing one step that keeps the run going.\<close>

lemma splits_step:
  assumes "splits_at ops lx s' e tr j"
    and "\<And>t oc. rexec ops any_passes s' e t oc \<Longrightarrow> rexec ops any_passes s e (pre @ t) oc"
  shows "splits_at ops lx s e (pre @ tr) j"
  using assms(1)
proof (cases rule: splitsE)
  case part
  then show ?thesis by (intro splits_part assms(2))
next
  case (fall tr1 tr2)
  then have "splits_at ops lx s e ((pre @ tr1) @ tr2) j" by (intro splits_fall assms(2))
  with fall show ?thesis by simp
next
  case (brk tr1 tr2 x)
  then have "splits_at ops (Some x) s e ((pre @ tr1) @ tr2) j" by (intro splits_brk assms(2))
  with brk show ?thesis by simp
qed

text \<open>The passes of a loop, given the claim for its body on paths that are no longer.\<close>

lemma loop_splits:
  assumes body: "\<And>tr j. length tr \<le> n \<Longrightarrow> fpath ops (Suc s) tr j \<Longrightarrow> splits_at ops (Some (Suc b)) (Suc s) b tr j"
    and bedge: "ctl_of (ops ! b) = C_EndLoop (Suc s)" "b < length ops"
  shows "length tr \<le> n \<Longrightarrow> fpath ops (Suc s) tr j \<Longrightarrow>
     (\<exists>k fin. lexec ops any_passes s (Suc b) k fin tr Part)
   \<or> (\<exists>k fin tr1 tr2. tr = tr1 @ tr2 \<and> lexec ops any_passes s (Suc b) k fin tr1 Brk \<and> fpath ops (Suc b) tr2 j)"
proof (induction "length tr" arbitrary: tr rule: less_induct)
  case less
  from body [OF less.prems] show ?case
  proof (cases rule: splitsE)
    case part
    then show ?thesis using lx_last [OF part] by auto
  next
    case (brk tr1 tr2 x)
    then show ?thesis using lx_last [OF brk(3)] by auto
  next
    case (fall tr1 tr2)
    show ?thesis
    proof (cases tr2)
      case Nil
      then show ?thesis using fall lx_last [OF fall(2)] by auto
    next
      case (Cons p tr3)
      with fall(3) bedge have p: "p = b" and f3: "fpath ops (Suc s) tr3 j"
        by (auto elim!: fpath_ConsE)
      from less.hyps [of tr3] less.prems(1) fall(1) Cons f3
      consider (a) k fin where "lexec ops any_passes s (Suc b) k fin tr3 Part"
        | (b) k fin t1 t2 where "tr3 = t1 @ t2" "lexec ops any_passes s (Suc b) k fin t1 Brk" "fpath ops (Suc b) t2 j"
        by auto
      then show ?thesis
      proof cases
        case a
        then show ?thesis using lx_more [OF fall(2) a] fall(1) Cons p by auto
      next
        case b
        then have "tr = (tr1 @ b # t1) @ t2" using fall(1) Cons p by simp
        then show ?thesis using lx_more [OF fall(2) b(2)] b(3) by blast
      qed
    qed
  qed
qed

text \<open>Passing an \<open>EndIf\<close>.\<close>

lemma endif_splits:
  assumes rest: "\<And>tr' j. length tr' < n \<Longrightarrow> fpath ops (Suc t) tr' j \<Longrightarrow> splits_at ops lx (Suc t) e tr' j"
    and endif: "ctl_of (ops ! t) = C_EndIf" and lt: "t < e"
    and path: "fpath ops t tr j" "length tr \<le> n"
  shows "splits_at ops lx t e tr j"
proof (cases tr)
  case Nil
  then show ?thesis by (auto intro: splits_part rx_start)
next
  case (Cons p tr')
  with path(1) endif have "p = t" "fpath ops (Suc t) tr' j" by (auto elim!: fpath_ConsE)
  moreover have "splits_at ops lx t e ([t] @ tr') j"
    using rest [of tr' j] calculation path(2) Cons by (intro splits_step [of ops lx "Suc t"]) (auto intro: rx_endif lt endif)
  ultimately show ?thesis using Cons by simp
qed

text \<open>
  A branch: its run is stopped inside the block, or reaches the block's end, where the path goes on
  as \<open>cont\<close> describes.
\<close>

lemma branch_splits:
  assumes branch: "splits_at ops lx s' e' tr j"
    and stop: "\<And>t oc. rexec ops any_passes s' e' t oc \<Longrightarrow> rexec ops any_passes s e (s # t) (stopped oc)"
    and cont: "\<And>tr1 tr2. tr = tr1 @ tr2 \<Longrightarrow> rexec ops any_passes s' e' tr1 Fall \<Longrightarrow> fpath ops e' tr2 j \<Longrightarrow>
                 splits_at ops lx s e (s # tr1 @ tr2) j"
  shows "splits_at ops lx s e (s # tr) j"
  using branch
proof (cases rule: splitsE)
  case part
  then show ?thesis using stop [OF part] by (auto intro: splits_part)
next
  case (fall tr1 tr2)
  then show ?thesis using cont by simp
next
  case (brk tr1 tr2 x)
  then show ?thesis using splits_brk [of ops s e "s # tr1" x tr2 j] stop [OF brk(3)] by simp
qed

text \<open>
  The decomposition, one lemma per kind of block, for a path that starts by dispatching the block's
  first instruction; \<open>shorter\<close> is the claim for the shorter paths.
\<close>

definition shorter_split :: "op list \<Rightarrow> nat \<Rightarrow> bool" where
  "shorter_split ops n \<longleftrightarrow>
     (\<forall>lx d s e tr j. region ops lx d s e \<longrightarrow> fpath ops s tr j \<longrightarrow> length tr < n \<longrightarrow> splits_at ops lx s e tr j)"

lemma shorter_splitD:
  "shorter_split ops n \<Longrightarrow> region ops lx d s e \<Longrightarrow> fpath ops s tr j \<Longrightarrow> length tr < n \<Longrightarrow> splits_at ops lx s e tr j"
  unfolding shorter_split_def by blast

lemma splits_break:
  assumes shorter: "shorter_split ops (Suc (length tr))"
    and c: "ctl_of (ops ! s) = C_Break t \<or> ctl_of (ops ! s) = C_BreakIf t"
    and rest: "region ops (Some t) d (Suc s) e"
    and path: "s' \<in> set (frame_succs (ctl_of (ops ! s)) s)" "fpath ops s' tr j"
  shows "splits_at ops (Some t) s e (s # tr) j"
proof (cases "s' = t")
  case True
  with path c show ?thesis
    using splits_brk [OF rx_break [OF region_lt [OF rest]], of ops t t tr j] by simp
next
  case False
  with path c have c': "ctl_of (ops ! s) = C_BreakIf t" "s' = Suc s" by auto
  have "splits_at ops (Some t) s e ([s] @ tr) j"
    using shorter_splitD [OF shorter rest] path c'
    by (intro splits_step [of ops "Some t" "Suc s"]) (auto intro: rx_nobreak region_lt [OF rest])
  then show ?thesis by simp
qed

lemma splits_if:
  assumes shorter: "shorter_split ops (Suc (length tr))"
    and c: "ctl_of (ops ! s) = C_If t" and body: "region ops lx (Suc d) (Suc s) t"
    and t: "t < length ops" "ctl_of (ops ! t) = C_EndIf" and rest: "region ops lx d (Suc t) e"
    and path: "s' \<in> set (frame_succs (ctl_of (ops ! s)) s)" "fpath ops s' tr j"
  shows "splits_at ops lx s e (s # tr) j"
proof -
  note ne = else_target_no_else [OF body t(1) c]
  have lt: "s < e" using region_lt [OF body] region_lt [OF rest] by simp
  have after: "splits_at ops lx t e tr2 j" if "fpath ops t tr2 j" "length tr2 \<le> length tr" for tr2
    using that by (intro endif_splits [of "Suc (length tr)" ops t lx e])
      (auto intro: t region_lt [OF rest] shorter_splitD [OF shorter rest])
  from path c consider "s' = Suc s" | "s' = t" by auto
  then show ?thesis
  proof cases
    case 1
    show ?thesis
    proof (rule branch_splits [of ops lx "Suc s" t])
      show "splits_at ops lx (Suc s) t tr j" using shorter_splitD [OF shorter body] path 1 by simp
      show "rexec ops any_passes s e (s # u) (stopped oc)" if "rexec ops any_passes (Suc s) t u oc" for u oc
        by (rule rx_if_stop [OF lt c ne that])
      show "splits_at ops lx s e (s # tr1 @ tr2) j"
        if "tr = tr1 @ tr2" "rexec ops any_passes (Suc s) t tr1 Fall" "fpath ops t tr2 j" for tr1 tr2
        using splits_step [of ops lx t e tr2 j s "s # tr1", OF after] that rx_if_then [OF lt c ne that(2)] by simp
    qed
  next
    case 2
    have "splits_at ops lx t e tr j" using after path 2 by simp
    then show ?thesis
      using splits_step [of ops lx t e tr j s "[s]"] rx_if_skip [OF lt c ne] by simp
  qed
qed

lemma splits_ifelse:
  assumes shorter: "shorter_split ops (Suc (length tr))"
    and c: "ctl_of (ops ! s) = C_If (Suc m)" and thn: "region ops lx (Suc d) (Suc s) m"
    and m: "m < length ops" "ctl_of (ops ! m) = C_Else q" and els: "region ops lx (Suc d) (Suc m) q"
    and q: "q < length ops" "ctl_of (ops ! q) = C_EndIf" and rest: "region ops lx d (Suc q) e"
    and path: "s' \<in> set (frame_succs (ctl_of (ops ! s)) s)" "fpath ops s' tr j"
  shows "splits_at ops lx s e (s # tr) j"
proof -
  note ei = else_target_else [OF m]
  have lt: "s < e" using region_lt [OF thn] region_lt [OF els] region_lt [OF rest] by simp
  have after: "splits_at ops lx q e tr2 j" if "fpath ops q tr2 j" "length tr2 \<le> length tr" for tr2
    using that by (intro endif_splits [of "Suc (length tr)" ops q lx e])
      (auto intro: q region_lt [OF rest] shorter_splitD [OF shorter rest])
  have then_end: "splits_at ops lx s e (s # tr1 @ tr2) j"
    if a: "tr = tr1 @ tr2" "rexec ops any_passes (Suc s) m tr1 Fall" "fpath ops m tr2 j" for tr1 tr2
  proof (cases tr2)
    case Nil
    then show ?thesis using rx_then_stop [OF lt c ei a(2)] by (auto intro: splits_part)
  next
    case (Cons p' tr3)
    with a(3) m(2) have "p' = m" "fpath ops q tr3 j" by (auto elim!: fpath_ConsE)
    with Cons a after show ?thesis
      using splits_step [of ops lx q e tr3 j s "s # tr1 @ [m]"] rx_then [OF lt c ei a(2)] by simp
  qed
  from path c consider "s' = Suc s" | "s' = Suc m" by auto
  then show ?thesis
  proof cases
    case 1
    then have "splits_at ops lx (Suc s) m tr j" using shorter_splitD [OF shorter thn] path by simp
    then show ?thesis by (rule branch_splits) (auto intro: rx_then_stop [OF lt c ei] then_end)
  next
    case 2
    show ?thesis
    proof (rule branch_splits [of ops lx "Suc m" q])
      show "splits_at ops lx (Suc m) q tr j" using shorter_splitD [OF shorter els] path 2 by simp
      show "rexec ops any_passes s e (s # u) (stopped oc)" if "rexec ops any_passes (Suc m) q u oc" for u oc
        by (rule rx_else_stop [OF lt c ei that])
      show "splits_at ops lx s e (s # tr1 @ tr2) j"
        if "tr = tr1 @ tr2" "rexec ops any_passes (Suc m) q tr1 Fall" "fpath ops q tr2 j" for tr1 tr2
        using splits_step [of ops lx q e tr2 j s "s # tr1", OF after] that rx_else [OF lt c ei that(2)] by simp
    qed
  qed
qed

lemma splits_loop:
  assumes shorter: "shorter_split ops (Suc (length tr))"
    and c: "ctl_of (ops ! s) = C_Loop (Suc b)" and body: "region ops (Some (Suc b)) (Suc d) (Suc s) b"
    and b: "b < length ops" "ctl_of (ops ! b) = C_EndLoop (Suc s)" and rest: "region ops lx d (Suc b) e"
    and path: "fpath ops (Suc s) tr j"
  shows "splits_at ops lx s e (s # tr) j"
proof -
  have lt: "s < e" using region_lt [OF body] region_lt [OF rest] by simp
  have once: "splits_at ops (Some (Suc b)) (Suc s) b u i" if "length u \<le> length tr" "fpath ops (Suc s) u i" for u i
    using shorter_splitD [OF shorter body that(2)] that(1) by simp
  from loop_splits [of "length tr", OF once b(2,1) _ path]
  consider (a) k fin where "lexec ops any_passes s (Suc b) k fin tr Part"
    | (b) k fin tr1 tr2 where "tr = tr1 @ tr2" "lexec ops any_passes s (Suc b) k fin tr1 Brk" "fpath ops (Suc b) tr2 j"
    by auto
  then show ?thesis
  proof cases
    case a
    then show ?thesis using rx_loop_stop [OF lt c a] by (auto intro: splits_part)
  next
    case b
    then have "splits_at ops lx (Suc b) e tr2 j" using shorter_splitD [OF shorter rest] by simp
    then show ?thesis
      using splits_step [of ops lx "Suc b" e tr2 j s "s # tr1"] rx_loop [OF lt c b(2)] b(1) by simp
  qed
qed

lemma splits_first:
  assumes reg: "region ops lx d s e" and shorter: "shorter_split ops (Suc (length tr))" and path: "fpath ops s (s # tr) j"
    and s': "s' \<in> set (frame_succs (ctl_of (ops ! s)) s)" and f': "fpath ops s' tr j"
  shows "splits_at ops lx s e (s # tr) j"
  using reg
proof (cases rule: region.cases)
  case rg_nil
  then show ?thesis using splits_fall [OF rx_end path] by simp
next
  case rg_lin
  from rg_lin(2) s' have "ctl_linear (ctl_of (ops ! s))" "s' = Suc s" by auto
  then have "splits_at ops lx s e ([s] @ tr) j"
    using shorter_splitD [OF shorter rg_lin(3)] f'
    by (intro splits_step [of ops lx "Suc s"]) (auto intro: rx_lin region_lt [OF rg_lin(3)])
  then show ?thesis by simp
next
  case (rg_break t)
  then show ?thesis using splits_break [OF shorter rg_break(2) _ s' f'] by blast
next
  case (rg_if t)
  show ?thesis by (rule splits_if [OF shorter rg_if(2,4-7) s' f'])
next
  case (rg_ifelse m q)
  show ?thesis by (rule splits_ifelse [OF shorter rg_ifelse(2,4-10) s' f'])
next
  case (rg_loop b)
  then show ?thesis using splits_loop [OF shorter rg_loop(2,4-7)] s' f' by simp
qed

text \<open>A path that leaves the frame at once.\<close>

lemma splits_exit:
  assumes reg: "region ops lx d s e" and c: "ctl_exits (ctl_of (ops ! s))" and path: "fpath ops s [s] j"
  shows "splits_at ops lx s e [s] j"
  using reg
proof (cases rule: region.cases)
  case rg_nil
  then show ?thesis using splits_fall [OF rx_end path] by simp
next
  case rg_lin
  show ?thesis by (rule splits_part [OF rx_exit [OF region_lt [OF rg_lin(3)] c]])
qed (use c in auto)

theorem region_splits:
  "region ops lx d s e \<Longrightarrow> fpath ops s tr j \<Longrightarrow> splits_at ops lx s e tr j"
proof (induction "length tr" arbitrary: tr lx d s e j rule: less_induct)
  case less
  show ?case
  proof (cases tr)
    case Nil
    then show ?thesis by (auto intro: splits_part rx_start)
  next
    case (Cons p tr')
    then have shorter: "shorter_split ops (Suc (length tr'))"
      unfolding shorter_split_def using less.hyps by auto
    from less.prems(2) Cons consider
      (step) s' where "p = s" "s' \<in> set (frame_succs (ctl_of (ops ! s)) s)" "fpath ops s' tr' j"
      | (leave) "p = s" "tr' = []" "ctl_exits (ctl_of (ops ! s))" by (auto elim!: fpath_ConsE)
    then show ?thesis
    proof cases
      case step
      then show ?thesis using splits_first [OF less.prems(1) shorter _ step(2,3)] less.prems(2) Cons by simp
    next
      case leave
      then show ?thesis using splits_exit [OF less.prems(1) leave(3)] less.prems(2) Cons by simp
    qed
  qed
qed

section \<open>Inverting runs\<close>

text \<open>What a run that starts at a given instruction looks like, one lemma per kind of instruction.\<close>

lemma rexec_nil_inv: "rexec ops ok s s tr oc \<Longrightarrow> tr = [] \<and> oc \<noteq> Brk"
  by (erule rexec.cases) auto

lemma rexec_lin_inv:
  assumes "rexec ops ok s e tr oc" "ctl_linear (ctl_of (ops ! s)) \<or> ctl_of (ops ! s) = C_EndIf" "s \<noteq> e"
  shows "tr = [] \<and> oc = Part \<or> (\<exists>tr'. tr = s # tr' \<and> rexec ops ok (Suc s) e tr' oc)"
  using assms by (auto elim!: rexec.cases [of _ _ s])

lemma rexec_exit_inv:
  assumes "rexec ops ok s e tr oc" "ctl_exits (ctl_of (ops ! s))" "s \<noteq> e"
  shows "oc = Part \<and> (tr = [] \<or> tr = [s])"
  using assms by (auto elim!: rexec.cases [of _ _ s])

lemma rexec_break_inv:
  assumes "rexec ops ok s e tr oc" "ctl_of (ops ! s) = C_Break t" "s \<noteq> e"
  shows "tr = [] \<and> oc = Part \<or> tr = [s] \<and> oc = Brk"
  using assms by (auto elim!: rexec.cases [of _ _ s])

lemma rexec_breakif_inv:
  assumes "rexec ops ok s e tr oc" "ctl_of (ops ! s) = C_BreakIf t" "s \<noteq> e"
  shows "tr = [] \<and> oc = Part \<or> tr = [s] \<and> oc = Brk
    \<or> (\<exists>tr'. tr = s # tr' \<and> rexec ops ok (Suc s) e tr' oc)"
  using assms by (auto elim!: rexec.cases [of _ _ s])

lemma rexec_if_inv:
  assumes "rexec ops ok s e tr oc" "ctl_of (ops ! s) = C_If t" "else_target ops t = None" "s \<noteq> e"
  obtains (start) "tr = []" "oc = Part"
    | (stop) tr1 oc1 where "tr = s # tr1" "rexec ops ok (Suc s) t tr1 oc1" "oc = stopped oc1"
    | (thn) tr1 tr2 where "tr = s # tr1 @ tr2" "rexec ops ok (Suc s) t tr1 Fall" "rexec ops ok t e tr2 oc"
    | (skip) tr2 where "tr = s # tr2" "rexec ops ok t e tr2 oc"
  using assms by (auto elim!: rexec.cases [of _ _ s])

lemma rexec_ifelse_inv:
  assumes "rexec ops ok s e tr oc" "ctl_of (ops ! s) = C_If (Suc m)" "else_target ops (Suc m) = Some q" "s \<noteq> e"
  obtains (start) "tr = []" "oc = Part"
    | (tstop) tr1 oc1 where "tr = s # tr1" "rexec ops ok (Suc s) m tr1 oc1" "oc = stopped oc1"
    | (thn) tr1 tr2 where "tr = s # tr1 @ m # tr2" "rexec ops ok (Suc s) m tr1 Fall" "rexec ops ok q e tr2 oc"
    | (estop) tr1 oc1 where "tr = s # tr1" "rexec ops ok (Suc m) q tr1 oc1" "oc = stopped oc1"
    | (els) tr1 tr2 where "tr = s # tr1 @ tr2" "rexec ops ok (Suc m) q tr1 Fall" "rexec ops ok q e tr2 oc"
  using assms by (auto elim!: rexec.cases [of _ _ s])

lemma rexec_loop_inv:
  assumes "rexec ops ok s e tr oc" "ctl_of (ops ! s) = C_Loop (Suc b)" "s \<noteq> e"
  obtains (start) "tr = []" "oc = Part"
    | (stop) tr1 k fin where "tr = s # tr1" "lexec ops ok s (Suc b) k fin tr1 Part" "ok s k fin" "oc = Part"
    | (leave) tr1 tr2 k fin where "tr = s # tr1 @ tr2" "lexec ops ok s (Suc b) k fin tr1 Brk" "ok s k fin"
        "rexec ops ok (Suc b) e tr2 oc"
  using assms by (auto elim!: rexec.cases [of _ _ s])

text \<open>
  The last pass of a loop run is a run of the body that did not reach its end, or was observed
  there; a loop is left by a break of its last pass.
\<close>

lemma lexec_0_inv:
  "lexec ops ok s (Suc b) 0 fin tr oc \<Longrightarrow> fin = tr \<and> (\<exists>oc'. rexec ops ok (Suc s) b tr oc' \<and> oc = stopped oc')"
  by (erule lexec.cases) auto

lemma lexec_Suc_inv:
  "lexec ops ok s (Suc b) (Suc k) fin tr oc \<Longrightarrow>
     \<exists>tr1 tr2. tr = tr1 @ b # tr2 \<and> rexec ops ok (Suc s) b tr1 Fall \<and> lexec ops ok s (Suc b) k fin tr2 oc"
  by (erule lexec.cases) auto

lemma lexec_last:
  assumes "lexec ops ok s (Suc b) k fin tr oc"
  shows "\<exists>oc'. rexec ops ok (Suc s) b fin oc' \<and> oc = stopped oc' \<and> set fin \<subseteq> set tr"
  using assms
proof (induction k arbitrary: tr)
  case 0
  then show ?case by (auto dest!: lexec_0_inv)
next
  case (Suc k)
  then obtain tr1 tr2 where "tr = tr1 @ b # tr2" "lexec ops ok s (Suc b) k fin tr2 oc"
    by (auto dest!: lexec_Suc_inv)
  with Suc.IH [OF this(2)] show ?case by auto
qed

text \<open>A run dispatches only instructions of its region.\<close>

lemma lexec_within:
  assumes "\<And>tr oc. rexec ops ok (Suc s) b tr oc \<Longrightarrow> set tr \<subseteq> {Suc s..<b}"
  shows "lexec ops ok s (Suc b) k fin tr oc \<Longrightarrow> set tr \<subseteq> {Suc s..b}"
proof (induction k arbitrary: tr)
  case 0
  then obtain oc' where "rexec ops ok (Suc s) b tr oc'" by (auto dest: lexec_0_inv)
  from assms [OF this] show ?case by auto
next
  case (Suc k)
  then obtain tr1 tr2 where t: "tr = tr1 @ b # tr2" "rexec ops ok (Suc s) b tr1 Fall" "lexec ops ok s (Suc b) k fin tr2 oc"
    by (auto dest!: lexec_Suc_inv)
  have "Suc s \<le> b \<or> tr1 = []" using assms [OF t(2)] by (cases tr1) auto
  moreover have "Suc s \<le> b"
    using t(2) by (cases rule: rexec.cases) auto
  ultimately show ?case using Suc.IH [OF t(3)] assms [OF t(2)] t(1) by auto
qed

lemma rexec_endif_within:
  assumes "rexec ops ok t e tr oc" "ctl_of (ops ! t) = C_EndIf" "t < e"
    and "\<And>tr oc. rexec ops ok (Suc t) e tr oc \<Longrightarrow> set tr \<subseteq> {Suc t..<e}"
  shows "set tr \<subseteq> {t..<e}"
  using rexec_lin_inv [OF assms(1)] assms(2-) by fastforce

lemma rexec_within:
  "region ops lx d s e \<Longrightarrow> rexec ops ok s e tr oc \<Longrightarrow> set tr \<subseteq> {s..<e}"
proof (induction arbitrary: tr oc rule: region.induct)
  case (rg_nil s lx d)
  then show ?case by (auto dest: rexec_nil_inv)
next
  case (rg_lin s lx d e)
  note lt = region_lt [OF rg_lin(3)]
  then show ?case using rg_lin(2) rexec_lin_inv [OF rg_lin(5)] rexec_exit_inv [OF rg_lin(5)] rg_lin.IH by fastforce
next
  case (rg_break s t lx d e)
  note lt = region_lt [OF rg_break(4)]
  then show ?case
    using rg_break(2) rexec_break_inv [OF rg_break(6)] rexec_breakif_inv [OF rg_break(6)] rg_break.IH by fastforce
next
  case (rg_if s t d lx e)
  note lt = region_lt [OF rg_if(4)] region_lt [OF rg_if(7)]
  have rest: "set u \<subseteq> {t..<e}" if "rexec ops ok t e u oc'" for u oc'
    using that rg_if(6) lt(2) rg_if.IH(2) by (rule rexec_endif_within)
  have ne: "s \<noteq> e" using lt by simp
  from rg_if(10,2) else_target_no_else [OF rg_if(4,5,2)] ne show ?case
  proof (cases rule: rexec_if_inv)
    case (stop tr1 oc1)
    show ?thesis using rg_if.IH(1) [OF stop(2)] stop(1) lt by auto
  next
    case (thn tr1 tr2)
    show ?thesis using rg_if.IH(1) [OF thn(2)] rest [OF thn(3)] thn(1) lt by auto
  next
    case (skip tr2)
    show ?thesis using rest [OF skip(2)] skip(1) lt by auto
  qed (use lt in auto)
next
  case (rg_ifelse s m d lx q e)
  note lt = region_lt [OF rg_ifelse(4)] region_lt [OF rg_ifelse(7)] region_lt [OF rg_ifelse(10)]
  have rest: "set u \<subseteq> {q..<e}" if "rexec ops ok q e u oc'" for u oc'
    using that rg_ifelse(9) lt(3) rg_ifelse.IH(3) by (rule rexec_endif_within)
  have ne: "s \<noteq> e" using lt by simp
  from rg_ifelse(14,2) else_target_else [OF rg_ifelse(5,6)] ne show ?case
  proof (cases rule: rexec_ifelse_inv)
    case (tstop tr1 oc1)
    show ?thesis using rg_ifelse.IH(1) [OF tstop(2)] tstop(1) lt by auto
  next
    case (thn tr1 tr2)
    show ?thesis using rg_ifelse.IH(1) [OF thn(2)] rest [OF thn(3)] thn(1) lt by auto
  next
    case (estop tr1 oc1)
    show ?thesis using rg_ifelse.IH(2) [OF estop(2)] estop(1) lt by auto
  next
    case (els tr1 tr2)
    show ?thesis using rg_ifelse.IH(2) [OF els(2)] rest [OF els(3)] els(1) lt by auto
  qed (use lt in auto)
next
  case (rg_loop s b d lx e)
  note lt = region_lt [OF rg_loop(4)] region_lt [OF rg_loop(7)]
  have body: "set u \<subseteq> {Suc s..b}" if "lexec ops ok s (Suc b) k fin u oc'" for k fin u oc'
    using rg_loop.IH(1) that by (rule lexec_within)
  have ne: "s \<noteq> e" using lt by simp
  from rg_loop(10,2) ne show ?case
  proof (cases rule: rexec_loop_inv)
    case (stop tr1 k fin)
    show ?thesis using body [OF stop(2)] stop(1) lt by auto
  next
    case (leave tr1 tr2 k fin)
    show ?thesis using body [OF leave(2)] rg_loop.IH(2) [OF leave(4)] leave(1) lt by auto
  qed (use lt in auto)
qed

end
