(* ===== verification/Productivity.thy ===== *)
theory Productivity
  imports Structured
begin

text \<open>
  Soundness of the yield-coverage walk on structured code: what \<open>analyze_yield_coverage_at\<close> claims
  of a region holds of every run of it.  A position counts as yielding when it is a \<open>Yield\<close> or a
  call of a chunk in the set \<open>always\<close>, as in the walk.
\<close>

section \<open>Yielding runs\<close>

definition yieldish :: "op list \<Rightarrow> nat set \<Rightarrow> nat \<Rightarrow> bool" where
  "yieldish ops always i =
     (case ctl_of (ops ! i) of C_Yield \<Rightarrow> True | C_Call c n \<Rightarrow> c \<in> always | _ \<Rightarrow> False)"

definition yields_on :: "op list \<Rightarrow> nat set \<Rightarrow> nat list \<Rightarrow> bool" where
  "yields_on ops always tr = list_ex (yieldish ops always) tr"

lemma yields_on_simps [simp]:
  "\<not> yields_on ops always []"
  "yields_on ops always (i # tr) \<longleftrightarrow> yieldish ops always i \<or> yields_on ops always tr"
  "yields_on ops always (tr @ tr') \<longleftrightarrow> yields_on ops always tr \<or> yields_on ops always tr'"
  by (auto simp: yields_on_def)

lemma yields_on_mono: "set tr \<subseteq> set tr' \<Longrightarrow> yields_on ops always tr \<Longrightarrow> yields_on ops always tr'"
  by (auto simp: yields_on_def list_ex_iff)

text \<open>
  The meaning of a coverage result for a region entered with \<open>hy\<close>: a run that falls through yields
  when the result says so, and a run that breaks has its state among those recorded.
\<close>

definition covers ::
  "op list \<Rightarrow> nat set \<Rightarrow> nat \<Rightarrow> nat \<Rightarrow> bool \<Rightarrow> bool option \<Rightarrow> bool set \<Rightarrow> bool" where
  "covers ops always s e hy res brs \<longleftrightarrow>
     (\<forall>tr. rexec ops any_passes s e tr Fall \<longrightarrow> (\<exists>b. res = Some b \<and> (b \<longrightarrow> hy \<or> yields_on ops always tr)))
   \<and> (\<forall>tr. rexec ops any_passes s e tr Brk \<longrightarrow> (\<exists>b \<in> brs. b \<longrightarrow> hy \<or> yields_on ops always tr))"

lemma coversD_fall:
  "covers ops always s e hy res brs \<Longrightarrow> rexec ops any_passes s e tr Fall \<Longrightarrow>
     \<exists>b. res = Some b \<and> (b \<longrightarrow> hy \<or> yields_on ops always tr)"
  by (simp add: covers_def)

lemma coversD_brk:
  "covers ops always s e hy res brs \<Longrightarrow> rexec ops any_passes s e tr Brk \<Longrightarrow>
     \<exists>b \<in> brs. b \<longrightarrow> hy \<or> yields_on ops always tr"
  by (simp add: covers_def)

lemma covers_mono: "covers ops always s e hy res brs \<Longrightarrow> brs \<subseteq> brs' \<Longrightarrow> covers ops always s e hy res brs'"
  unfolding covers_def by (meson subsetD)

text \<open>Covering is inherited by the region that starts one linear instruction, or \<open>EndIf\<close>, earlier.\<close>

lemma covers_lin:
  assumes "covers ops always (Suc s) e hy' res brs"
    and "ctl_linear (ctl_of (ops ! s)) \<or> ctl_of (ops ! s) = C_EndIf" and "s \<noteq> e"
    and "hy' \<Longrightarrow> hy \<or> yieldish ops always s"
  shows "covers ops always s e hy res brs"
  unfolding covers_def
proof (intro conjI allI impI)
  fix tr assume "rexec ops any_passes s e tr Fall"
  from rexec_lin_inv [OF this assms(2,3)] obtain tr' where "tr = s # tr'" "rexec ops any_passes (Suc s) e tr' Fall"
    by auto
  with coversD_fall [OF assms(1) this(2)] assms(4)
  show "\<exists>b. res = Some b \<and> (b \<longrightarrow> hy \<or> yields_on ops always tr)" by auto
next
  fix tr assume "rexec ops any_passes s e tr Brk"
  from rexec_lin_inv [OF this assms(2,3)] obtain tr' where "tr = s # tr'" "rexec ops any_passes (Suc s) e tr' Brk"
    by auto
  with coversD_brk [OF assms(1) this(2)] assms(4)
  show "\<exists>b\<in>brs. b \<longrightarrow> hy \<or> yields_on ops always tr" by auto
qed

lemma covers_exit:
  "ctl_exits (ctl_of (ops ! s)) \<Longrightarrow> s \<noteq> e \<Longrightarrow> covers ops always s e hy res brs"
  by (auto simp: covers_def dest: rexec_exit_inv)

lemma covers_break:
  "ctl_of (ops ! s) = C_Break t \<Longrightarrow> s \<noteq> e \<Longrightarrow> hy \<in> brs \<Longrightarrow> covers ops always s e hy res brs"
  by (auto simp: covers_def dest!: rexec_break_inv)

lemma covers_breakif:
  assumes rest: "covers ops always (Suc s) e hy res brs" and c: "ctl_of (ops ! s) = C_BreakIf t" "s \<noteq> e"
    and hy: "hy \<in> brs"
  shows "covers ops always s e hy res brs"
  unfolding covers_def
proof (intro conjI allI impI)
  fix tr assume "rexec ops any_passes s e tr Fall"
  from rexec_breakif_inv [OF this c] obtain tr' where "tr = s # tr'" "rexec ops any_passes (Suc s) e tr' Fall"
    by auto
  with coversD_fall [OF rest this(2)] show "\<exists>b. res = Some b \<and> (b \<longrightarrow> hy \<or> yields_on ops always tr)" by auto
next
  fix tr assume "rexec ops any_passes s e tr Brk"
  from rexec_breakif_inv [OF this c] consider "tr = [s]"
    | tr' where "tr = s # tr'" "rexec ops any_passes (Suc s) e tr' Brk" by auto
  then show "\<exists>b\<in>brs. b \<longrightarrow> hy \<or> yields_on ops always tr"
  proof cases
    case 1
    then show ?thesis using hy by auto
  next
    case 2
    with coversD_brk [OF rest 2(2)] show ?thesis by auto
  qed
qed

lemma covers_if:
  assumes body: "covers ops always (Suc s) t hy r1 brs" and rest: "covers ops always t e (coverage_skip hy r1) res brs"
    and c: "ctl_of (ops ! s) = C_If t" "else_target ops t = None" "s \<noteq> e"
  shows "covers ops always s e hy res brs"
  unfolding covers_def
proof (intro conjI allI impI)
  fix tr assume "rexec ops any_passes s e tr Fall"
  from this c show "\<exists>b. res = Some b \<and> (b \<longrightarrow> hy \<or> yields_on ops always tr)"
  proof (cases rule: rexec_if_inv)
    case (thn tr1 tr2)
    obtain a where "r1 = Some a" "a \<longrightarrow> hy \<or> yields_on ops always tr1" using coversD_fall [OF body thn(2)] by auto
    then show ?thesis using coversD_fall [OF rest thn(3)] thn(1) by auto
  next
    case (skip tr2)
    show ?thesis using coversD_fall [OF rest skip(2)] skip(1) by (cases r1) auto
  qed (auto simp: stopped_def split: if_splits)
next
  fix tr assume "rexec ops any_passes s e tr Brk"
  from this c show "\<exists>b\<in>brs. b \<longrightarrow> hy \<or> yields_on ops always tr"
  proof (cases rule: rexec_if_inv)
    case (stop tr1 oc1)
    then have "oc1 = Brk" by (cases oc1) auto
    then show ?thesis using coversD_brk [OF body, of tr1] stop by auto
  next
    case (thn tr1 tr2)
    obtain a where "r1 = Some a" "a \<longrightarrow> hy \<or> yields_on ops always tr1" using coversD_fall [OF body thn(2)] by auto
    then show ?thesis using coversD_brk [OF rest thn(3)] thn(1) by auto
  next
    case (skip tr2)
    show ?thesis using coversD_brk [OF rest skip(2)] skip(1) by (cases r1) auto
  qed simp
qed

lemma covers_ifelse:
  assumes thn: "covers ops always (Suc s) m hy r1 brs" and els: "covers ops always (Suc m) q hy r2 brs"
    and rest: "\<And>hy'. coverage_join r1 r2 = Some hy' \<Longrightarrow> covers ops always q e hy' res brs"
    and c: "ctl_of (ops ! s) = C_If (Suc m)" "else_target ops (Suc m) = Some q" "s \<noteq> e"
  shows "covers ops always s e hy res brs"
proof -
  have r1: "\<exists>hy'. coverage_join r1 r2 = Some hy' \<and> (hy' \<longrightarrow> hy \<or> yields_on ops always tr)"
    if "rexec ops any_passes (Suc s) m tr Fall" for tr
    using coversD_fall [OF thn that] by (cases r2) auto
  have r2: "\<exists>hy'. coverage_join r1 r2 = Some hy' \<and> (hy' \<longrightarrow> hy \<or> yields_on ops always tr)"
    if "rexec ops any_passes (Suc m) q tr Fall" for tr
    using coversD_fall [OF els that] by (cases r1) auto
  show ?thesis
    unfolding covers_def
  proof (intro conjI allI impI)
    fix tr assume "rexec ops any_passes s e tr Fall"
    from this c show "\<exists>b. res = Some b \<and> (b \<longrightarrow> hy \<or> yields_on ops always tr)"
    proof (cases rule: rexec_ifelse_inv)
      case (thn tr1 tr2)
      obtain h where "coverage_join r1 r2 = Some h" "h \<longrightarrow> hy \<or> yields_on ops always tr1" using r1 [OF thn(2)] by auto
      then show ?thesis using coversD_fall [OF rest thn(3)] thn(1) by auto
    next
      case (els tr1 tr2)
      obtain h where "coverage_join r1 r2 = Some h" "h \<longrightarrow> hy \<or> yields_on ops always tr1" using r2 [OF els(2)] by auto
      then show ?thesis using coversD_fall [OF rest els(3)] els(1) by auto
    qed (auto simp: stopped_def split: if_splits)
  next
    fix tr assume "rexec ops any_passes s e tr Brk"
    from this c show "\<exists>b\<in>brs. b \<longrightarrow> hy \<or> yields_on ops always tr"
    proof (cases rule: rexec_ifelse_inv)
      case (tstop tr1 oc1)
      then have "oc1 = Brk" by (cases oc1) auto
      then show ?thesis using coversD_brk [OF thn, of tr1] tstop by auto
    next
      case (estop tr1 oc1)
      then have "oc1 = Brk" by (cases oc1) auto
      then show ?thesis using coversD_brk [OF els, of tr1] estop by auto
    next
      case (thn tr1 tr2)
      obtain h where "coverage_join r1 r2 = Some h" "h \<longrightarrow> hy \<or> yields_on ops always tr1" using r1 [OF thn(2)] by auto
      then show ?thesis using coversD_brk [OF rest thn(3)] thn(1) by auto
    next
      case (els tr1 tr2)
      obtain h where "coverage_join r1 r2 = Some h" "h \<longrightarrow> hy \<or> yields_on ops always tr1" using r2 [OF els(2)] by auto
      then show ?thesis using coversD_brk [OF rest els(3)] els(1) by auto
    qed simp
  qed
qed

lemma covers_loop:
  assumes body: "covers ops always (Suc s) b hy r1 lbrs"
    and rest: "lbrs \<noteq> {} \<Longrightarrow> covers ops always (Suc b) e (\<forall>x \<in> lbrs. x) res brs"
    and c: "ctl_of (ops ! s) = C_Loop (Suc b)" "s \<noteq> e"
  shows "covers ops always s e hy res brs"
proof -
  have left: "lbrs \<noteq> {} \<and> ((\<forall>x \<in> lbrs. x) \<longrightarrow> hy \<or> yields_on ops always tr)"
    if run: "lexec ops any_passes s (Suc b) k fin tr Brk" for k fin tr
  proof -
    from lexec_last [OF run] have "rexec ops any_passes (Suc s) b fin Brk" "set fin \<subseteq> set tr"
      by (auto simp: stopped_def split: if_splits)
    with coversD_brk [OF body this(1)] show ?thesis by (auto dest: yields_on_mono)
  qed
  show ?thesis
    unfolding covers_def
  proof (intro conjI allI impI)
    fix tr assume "rexec ops any_passes s e tr Fall"
    from this c show "\<exists>b. res = Some b \<and> (b \<longrightarrow> hy \<or> yields_on ops always tr)"
    proof (cases rule: rexec_loop_inv)
      case (leave tr1 tr2 k fin)
      note l = left [OF leave(2)]
      show ?thesis using coversD_fall [OF rest leave(4)] l leave(1) by auto
    qed auto
  next
    fix tr assume "rexec ops any_passes s e tr Brk"
    from this c show "\<exists>b\<in>brs. b \<longrightarrow> hy \<or> yields_on ops always tr"
    proof (cases rule: rexec_loop_inv)
      case (leave tr1 tr2 k fin)
      note l = left [OF leave(2)]
      show ?thesis using coversD_brk [OF rest leave(4)] l leave(1) by auto
    qed auto
  qed
qed

section \<open>The walk covers every run\<close>

text \<open>
  One step of the walk inside a region, per kind of instruction; the sub-walks of a block report
  their break states at the end of the list they are given.
\<close>

definition walk_covers :: "op list \<Rightarrow> nat set \<Rightarrow> nat \<Rightarrow> nat \<Rightarrow> nat \<Rightarrow> bool" where
  "walk_covers ops always d s e \<longleftrightarrow>
     (\<forall>fuel hy brs res brs'.
        analyze_yield_coverage_at fuel ops s e hy always brs d = Some (res, brs') \<longrightarrow>
        (\<exists>new. brs' = brs @ new \<and> covers ops always s e hy res (set new)))"

lemma walk_coversD:
  assumes "walk_covers ops always d s e" "analyze_yield_coverage_at fuel ops s e hy always brs d = Some (res, brs')"
  obtains new where "brs' = brs @ new" "covers ops always s e hy res (set new)"
  using assms unfolding walk_covers_def by blast

lemma walk_coversI:
  assumes "\<And>fuel hy brs res brs'.
     analyze_yield_coverage_at (Suc fuel) ops s e hy always brs d = Some (res, brs') \<Longrightarrow>
     \<exists>new. brs' = brs @ new \<and> covers ops always s e hy res (set new)"
  shows "walk_covers ops always d s e"
  unfolding walk_covers_def
proof (intro allI impI)
  fix fuel hy brs res brs'
  assume "analyze_yield_coverage_at fuel ops s e hy always brs d = Some (res, brs')"
  with assms show "\<exists>new. brs' = brs @ new \<and> covers ops always s e hy res (set new)" by (cases fuel) auto
qed

lemma walk_covers_nil:
  assumes "d \<le> MAX_REGION_DEPTH"
  shows "walk_covers ops always d s s"
proof (rule walk_coversI)
  fix fuel hy brs res brs'
  assume "analyze_yield_coverage_at (Suc fuel) ops s s hy always brs d = Some (res, brs')"
  with assms have "res = Some hy" "brs' = brs" by (auto simp: analyze_yield_coverage_at.simps(2))
  moreover have "covers ops always s s hy (Some hy) {}"
    by (auto simp: covers_def dest: rexec_nil_inv)
  ultimately show "\<exists>new. brs' = brs @ new \<and> covers ops always s s hy res (set new)" by auto
qed

text \<open>What one step of the walk returns, given that the region goes on.\<close>

lemma walk_step:
  assumes "s < e" "e \<le> length ops" "d \<le> MAX_REGION_DEPTH"
    and "analyze_yield_coverage_at (Suc fuel) ops s e hy always brs d = Some (res, brs')"
  shows "ctl_linear (ctl_of (ops ! s)) \<or> ctl_exits (ctl_of (ops ! s)) \<Longrightarrow>
           analyze_yield_coverage_at fuel ops (Suc s) e (hy \<or> yieldish ops always s) always brs d = Some (res, brs')"
    and "ctl_of (ops ! s) = C_Break t \<Longrightarrow> brs' = brs @ [hy]"
    and "ctl_of (ops ! s) = C_BreakIf t \<Longrightarrow>
           analyze_yield_coverage_at fuel ops (Suc s) e hy always (brs @ [hy]) d = Some (res, brs')"
  using assms
  by (auto simp: analyze_yield_coverage_at.simps(2) yieldish_def split: ctl.splits)

lemma walk_covers_lin:
  assumes rest: "walk_covers ops always d (Suc s) e" and lt: "s < e" "e \<le> length ops" "d \<le> MAX_REGION_DEPTH"
    and c: "ctl_linear (ctl_of (ops ! s)) \<or> ctl_exits (ctl_of (ops ! s))"
  shows "walk_covers ops always d s e"
proof (rule walk_coversI)
  fix fuel hy brs res brs'
  assume "analyze_yield_coverage_at (Suc fuel) ops s e hy always brs d = Some (res, brs')"
  from walk_step(1) [OF lt this c] rest obtain new where n: "brs' = brs @ new"
    "covers ops always (Suc s) e (hy \<or> yieldish ops always s) res (set new)" by (auto elim: walk_coversD)
  from c n(2) lt(1) have "covers ops always s e hy res (set new)"
    by (auto intro: covers_lin covers_exit)
  with n show "\<exists>new. brs' = brs @ new \<and> covers ops always s e hy res (set new)" by auto
qed

lemma walk_covers_break:
  assumes rest: "walk_covers ops always d (Suc s) e" and lt: "s < e" "e \<le> length ops" "d \<le> MAX_REGION_DEPTH"
    and c: "ctl_of (ops ! s) = C_Break t \<or> ctl_of (ops ! s) = C_BreakIf t"
  shows "walk_covers ops always d s e"
proof (rule walk_coversI)
  fix fuel hy brs res brs'
  assume w: "analyze_yield_coverage_at (Suc fuel) ops s e hy always brs d = Some (res, brs')"
  from c consider "ctl_of (ops ! s) = C_Break t" | "ctl_of (ops ! s) = C_BreakIf t" by blast
  then show "\<exists>new. brs' = brs @ new \<and> covers ops always s e hy res (set new)"
  proof cases
    case 1
    then show ?thesis using walk_step(2) [OF lt w 1] lt by (auto intro!: covers_break)
  next
    case 2
    from walk_step(3) [OF lt w 2] rest obtain new where "brs' = (brs @ [hy]) @ new"
      "covers ops always (Suc s) e hy res (set new)" by (auto elim: walk_coversD)
    with 2 lt show ?thesis
      by (intro exI [of _ "hy # new"]) (auto intro!: covers_breakif [OF _ 2] intro: covers_mono)
  qed
qed

lemma walk_covers_if:
  assumes body: "walk_covers ops always (Suc d) (Suc s) t" and rest: "walk_covers ops always d (Suc t) e"
    and lt: "s < e" "t < e" "e \<le> length ops" "d \<le> MAX_REGION_DEPTH"
    and c: "ctl_of (ops ! s) = C_If t" "else_target ops t = None" "ctl_of (ops ! t) = C_EndIf"
  shows "walk_covers ops always d s e"
proof (rule walk_coversI)
  fix fuel hy brs res brs'
  assume "analyze_yield_coverage_at (Suc fuel) ops s e hy always brs d = Some (res, brs')"
  with lt c obtain r1 brs1 where w1: "analyze_yield_coverage_at fuel ops (Suc s) t hy always brs (Suc d) = Some (r1, brs1)"
    and w2: "analyze_yield_coverage_at fuel ops (Suc t) e (coverage_skip hy r1) always brs1 d = Some (res, brs')"
    by (auto simp: analyze_yield_coverage_at.simps(2) bind_eq_Some_conv)
  obtain n1 where n1: "brs1 = brs @ n1" "covers ops always (Suc s) t hy r1 (set n1)"
    using walk_coversD [OF body w1] .
  obtain n2 where n2: "brs' = brs1 @ n2" "covers ops always (Suc t) e (coverage_skip hy r1) res (set n2)"
    using walk_coversD [OF rest w2] .
  have "covers ops always t e (coverage_skip hy r1) res (set n2)"
    using covers_lin [OF n2(2)] c lt by auto
  then have cov2: "covers ops always t e (coverage_skip hy r1) res (set (n1 @ n2))" by (rule covers_mono) auto
  have cov1: "covers ops always (Suc s) t hy r1 (set (n1 @ n2))" using n1(2) by (rule covers_mono) auto
  have "covers ops always s e hy res (set (n1 @ n2))"
    using covers_if [OF cov1 cov2 c(1,2)] lt by simp
  with n1 n2 show "\<exists>new. brs' = brs @ new \<and> covers ops always s e hy res (set new)" by (metis append.assoc)
qed

lemma walk_covers_ifelse:
  assumes thn: "walk_covers ops always (Suc d) (Suc s) m" and els: "walk_covers ops always (Suc d) (Suc m) q"
    and rest: "walk_covers ops always d (Suc q) e"
    and lt: "s < e" "q < e" "e \<le> length ops" "d \<le> MAX_REGION_DEPTH"
    and c: "ctl_of (ops ! s) = C_If (Suc m)" "else_target ops (Suc m) = Some q" "ctl_of (ops ! q) = C_EndIf"
  shows "walk_covers ops always d s e"
proof (rule walk_coversI)
  fix fuel hy brs res brs'
  assume "analyze_yield_coverage_at (Suc fuel) ops s e hy always brs d = Some (res, brs')"
  with lt c obtain r1 brs1 r2 brs2 where
      w1: "analyze_yield_coverage_at fuel ops (Suc s) m hy always brs (Suc d) = Some (r1, brs1)"
    and w2: "analyze_yield_coverage_at fuel ops (Suc m) q hy always brs1 (Suc d) = Some (r2, brs2)"
    and w3: "case coverage_join r1 r2 of
               Some hy' \<Rightarrow> analyze_yield_coverage_at fuel ops (Suc q) e hy' always brs2 d = Some (res, brs')
             | None \<Rightarrow> brs' = brs2"
    by (auto simp: analyze_yield_coverage_at.simps(2) bind_eq_Some_conv split: option.splits)
  obtain n1 where n1: "brs1 = brs @ n1" "covers ops always (Suc s) m hy r1 (set n1)"
    using walk_coversD [OF thn w1] .
  obtain n2 where n2: "brs2 = brs1 @ n2" "covers ops always (Suc m) q hy r2 (set n2)"
    using walk_coversD [OF els w2] .
  have "\<exists>n3. brs' = brs2 @ n3 \<and> (\<forall>hy'. coverage_join r1 r2 = Some hy' \<longrightarrow> covers ops always q e hy' res (set n3))"
  proof (cases "coverage_join r1 r2")
    case None
    then show ?thesis using w3 by auto
  next
    case (Some hy')
    with w3 have "analyze_yield_coverage_at fuel ops (Suc q) e hy' always brs2 d = Some (res, brs')" by simp
    from walk_coversD [OF rest this] obtain n3 where n3: "brs' = brs2 @ n3"
      "covers ops always (Suc q) e hy' res (set n3)" .
    then show ?thesis using covers_lin [OF n3(2)] Some c lt by auto
  qed
  then obtain n3 where n3: "brs' = brs2 @ n3"
    "\<And>hy'. coverage_join r1 r2 = Some hy' \<Longrightarrow> covers ops always q e hy' res (set n3)" by blast
  have "covers ops always s e hy res (set (n1 @ n2 @ n3))"
  proof (rule covers_ifelse [OF _ _ _ c(1,2)])
    show "covers ops always (Suc s) m hy r1 (set (n1 @ n2 @ n3))" using n1(2) by (rule covers_mono) auto
    show "covers ops always (Suc m) q hy r2 (set (n1 @ n2 @ n3))" using n2(2) by (rule covers_mono) auto
    show "covers ops always q e hy' res (set (n1 @ n2 @ n3))" if "coverage_join r1 r2 = Some hy'" for hy'
      using n3(2) [OF that] by (rule covers_mono) auto
  qed (use lt in simp)
  with n1 n2 n3 show "\<exists>new. brs' = brs @ new \<and> covers ops always s e hy res (set new)" by auto
qed

lemma walk_covers_loop:
  assumes body: "walk_covers ops always (Suc d) (Suc s) b" and rest: "walk_covers ops always d (Suc b) e"
    and lt: "s < e" "e \<le> length ops" "d \<le> MAX_REGION_DEPTH"
    and c: "ctl_of (ops ! s) = C_Loop (Suc b)"
  shows "walk_covers ops always d s e"
proof (rule walk_coversI)
  fix fuel hy brs res brs'
  assume "analyze_yield_coverage_at (Suc fuel) ops s e hy always brs d = Some (res, brs')"
  with lt c obtain r1 lbrs where w1: "analyze_yield_coverage_at fuel ops (Suc s) b hy always [] (Suc d) = Some (r1, lbrs)"
    and w2: "if lbrs = [] then brs' = brs
             else analyze_yield_coverage_at fuel ops (Suc b) e (list_all id lbrs) always brs d = Some (res, brs')"
    by (auto simp: analyze_yield_coverage_at.simps(2) bind_eq_Some_conv split: if_splits)
  have b1: "covers ops always (Suc s) b hy r1 (set lbrs)" using walk_coversD [OF body w1] by auto
  have "\<exists>new. brs' = brs @ new \<and>
      (set lbrs \<noteq> {} \<longrightarrow> covers ops always (Suc b) e (\<forall>x \<in> set lbrs. x) res (set new))"
  proof (cases "lbrs = []")
    case True
    then show ?thesis using w2 by simp
  next
    case False
    with w2 have "analyze_yield_coverage_at fuel ops (Suc b) e (list_all id lbrs) always brs d = Some (res, brs')" by simp
    from walk_coversD [OF rest this] show ?thesis by (auto simp: list_all_iff)
  qed
  then obtain new where new: "brs' = brs @ new"
    "set lbrs \<noteq> {} \<Longrightarrow> covers ops always (Suc b) e (\<forall>x \<in> set lbrs. x) res (set new)" by blast
  have "covers ops always s e hy res (set new)"
    using lt by (intro covers_loop [OF b1 new(2) c]) auto
  with new(1) show "\<exists>new. brs' = brs @ new \<and> covers ops always s e hy res (set new)" by auto
qed

theorem region_walk_covers:
  "region ops lx d s e \<Longrightarrow> d \<le> MAX_REGION_DEPTH \<Longrightarrow> walk_covers ops always d s e"
proof (induction rule: region.induct)
  case (rg_nil s lx d)
  show ?case by (rule walk_covers_nil [OF rg_nil(2)])
next
  case (rg_lin s lx d e)
  show ?case
    using region_bounds [OF rg_lin(3)] rg_lin(5) by (intro walk_covers_lin [OF rg_lin.IH _ _ _ rg_lin(2)]) auto
next
  case (rg_break s t lx d e)
  show ?case
    using region_bounds [OF rg_break(4)] rg_break(6) by (intro walk_covers_break [OF rg_break.IH _ _ _ rg_break(2)]) auto
next
  case (rg_if s t d lx e)
  have "walk_covers ops always (Suc d) (Suc s) t" "walk_covers ops always d (Suc t) e"
    using rg_if.IH rg_if(3,10) by simp_all
  then show ?case
    by (rule walk_covers_if [OF _ _ _ _ _ rg_if(10,2) else_target_no_else [OF rg_if(4,5,2)] rg_if(6)])
      (use region_bounds [OF rg_if(4)] region_bounds [OF rg_if(7)] in auto)
next
  case (rg_ifelse s m d lx q e)
  have "walk_covers ops always (Suc d) (Suc s) m" "walk_covers ops always (Suc d) (Suc m) q"
    "walk_covers ops always d (Suc q) e"
    using rg_ifelse.IH rg_ifelse(3,14) by simp_all
  then show ?case
    by (rule walk_covers_ifelse [OF _ _ _ _ _ _ rg_ifelse(14,2) else_target_else [OF rg_ifelse(5,6)] rg_ifelse(9)])
      (use region_bounds [OF rg_ifelse(4)] region_bounds [OF rg_ifelse(7)] region_bounds [OF rg_ifelse(10)] in auto)
next
  case (rg_loop s b d lx e)
  have "walk_covers ops always (Suc d) (Suc s) b" "walk_covers ops always d (Suc b) e"
    using rg_loop.IH rg_loop(3,10) by simp_all
  then show ?case
    by (rule walk_covers_loop [OF _ _ _ _ rg_loop(10,2)])
      (use region_bounds [OF rg_loop(4)] region_bounds [OF rg_loop(7)] in auto)
qed

text \<open>
  Hence the verifier's question, whether the region from \<open>s\<close> to \<open>e\<close> always yields, is answered
  truly for control paths: in a region without an enclosing loop, a path that dispatches the
  instruction at the end \<open>e\<close> has yielded before.
\<close>

theorem coverage_of_paths:
  assumes reg: "region ops None 0 s e" and walk: "analyze_yield_coverage ops s e False always [] = Some (res, brs)"
    and res: "res \<noteq> Some False" and path: "fpath ops s (tr @ e # tr') j"
  shows "yields_on ops always tr"
proof -
  from walk have walk0: "analyze_yield_coverage_at (walk_fuel ops) ops s e False always [] 0 = Some (res, brs)"
    by (simp add: analyze_yield_coverage_def)
  from walk_coversD [OF region_walk_covers [OF reg le0] walk0] obtain new
    where cov: "covers ops always s e False res (set new)" .
  from region_splits [OF reg path] show ?thesis
  proof (cases rule: splitsE)
    case part
    from rexec_within [OF reg part] show ?thesis by auto
  next
    case (fall tr1 tr2)
    have "e \<notin> set tr1" using rexec_within [OF reg fall(2)] by auto
    with fall(1) have "set tr1 \<subseteq> set tr" by (auto simp: append_eq_append_conv2 Cons_eq_append_conv)
    then show ?thesis using coversD_fall [OF cov fall(2)] res by (auto dest: yields_on_mono)
  qed simp
qed

end
