(* ===== verification/Verify_Chunk.thy ===== *)
theory Verify_Chunk
  imports Productivity
begin

text \<open>
  The structural verifier: \<open>verify_chunk\<close> of \<open>src/src/verify.rs\<close> with its three passes, and the
  part of \<open>verify\<close> that drives it.  Pass 1 is one step per instruction over the state of the three
  Rust locals \<open>block_stack\<close>, \<open>loop_depth\<close> and \<open>if_stack\<close>; the two stacks have their top at the
  head of the list.  The verdict is modelled, with no obligation sink.
\<close>

section \<open>Pass 1: the state\<close>

datatype block_kind = BK_If | BK_Loop

record nest_state =
  block_stack :: "(block_kind \<times> nat) list"
  loop_depth :: nat
  if_stack :: "(nat \<times> nat \<times> bool) list"

definition nest_init :: nest_state where
  "nest_init = \<lparr> block_stack = [], loop_depth = 0, if_stack = [] \<rparr>"

section \<open>Pass 1: control-flow instructions\<close>

definition pass1_if :: "op list \<Rightarrow> nat \<Rightarrow> nat \<Rightarrow> nest_state \<Rightarrow> verify_error + nest_state" where
  "pass1_if ops ip t st =
     (if length ops < t then Inl (VE_IfTargetOutOfBounds ip t)
      else Inr (st \<lparr> block_stack := (BK_If, ip) # block_stack st,
                     if_stack := (ip, t, False) # if_stack st \<rparr>))"

definition pass1_else :: "op list \<Rightarrow> nat \<Rightarrow> nat \<Rightarrow> nest_state \<Rightarrow> verify_error + nest_state" where
  "pass1_else ops ip t st =
     (case block_stack st of
        (BK_If, i) # bs \<Rightarrow>
          (case if_stack st of
             [] \<Rightarrow> Inl (VE_ElseWithoutIf ip)
           | (if_ip, if_target, seen) # ifs \<Rightarrow>
               if if_target \<noteq> Suc ip then Inl (VE_IfTargetNotElseBody if_ip ip)
               else if length ops \<le> t then Inl (VE_ElseTargetOutOfBounds ip t)
               else if ops ! t \<noteq> EndIf then Inl (VE_ElseTargetNotEndIf ip t)
               else Inr (st \<lparr> if_stack := (if_ip, if_target, True) # ifs \<rparr>))
      | _ \<Rightarrow> Inl (VE_ElseWithoutIf ip))"

definition pass1_endif :: "nat \<Rightarrow> nest_state \<Rightarrow> verify_error + nest_state" where
  "pass1_endif ip st =
     (case if_stack st of
        [] \<Rightarrow> Inl (VE_EndIfWithoutIf ip)
      | (if_ip, if_target, else_seen) # ifs \<Rightarrow>
          if \<not> else_seen \<and> if_target \<noteq> ip then Inl (VE_IfTargetNotEndIf if_ip ip)
          else (case block_stack st of
                  (BK_If, i) # bs \<Rightarrow> Inr (st \<lparr> if_stack := ifs, block_stack := bs \<rparr>)
                | (BK_Loop, i) # bs \<Rightarrow> Inl (VE_EndIfExpectedEndLoop ip)
                | [] \<Rightarrow> Inl (VE_EndIfWithoutIf ip)))"

definition pass1_loop :: "op list \<Rightarrow> nat \<Rightarrow> nat \<Rightarrow> nest_state \<Rightarrow> verify_error + nest_state" where
  "pass1_loop ops ip t st =
     (if length ops < t then Inl (VE_LoopTargetOutOfBounds ip t)
      else Inr (st \<lparr> block_stack := (BK_Loop, ip) # block_stack st, loop_depth := Suc (loop_depth st) \<rparr>))"

definition pass1_endloop :: "op list \<Rightarrow> nat \<Rightarrow> nat \<Rightarrow> nest_state \<Rightarrow> verify_error + nest_state" where
  "pass1_endloop ops ip t st =
     (case block_stack st of
        (BK_Loop, loop_ip) # bs \<Rightarrow>
          if t \<noteq> Suc loop_ip then Inl (VE_BackEdge ip t)
          else if (case ctl_of (ops ! loop_ip) of C_Loop x \<Rightarrow> x \<noteq> Suc ip | _ \<Rightarrow> False)
          then Inl (VE_LoopExit loop_ip ip)
          else Inr (st \<lparr> block_stack := bs, loop_depth := loop_depth st - 1 \<rparr>)
      | (BK_If, i) # bs \<Rightarrow> Inl (VE_EndLoopExpectedEndIf ip)
      | [] \<Rightarrow> Inl (VE_EndLoopWithoutLoop ip))"

text \<open>The exit of the innermost open loop: \<open>block_stack.iter().rev().find_map(...)\<close>.\<close>

fun enclosing_loop_exit :: "op list \<Rightarrow> (block_kind \<times> nat) list \<Rightarrow> nat option" where
  "enclosing_loop_exit ops [] = None"
| "enclosing_loop_exit ops ((k, lip) # bs) =
     (case (k, ctl_of (ops ! lip)) of
        (BK_Loop, C_Loop x) \<Rightarrow> Some x
      | _ \<Rightarrow> enclosing_loop_exit ops bs)"

text \<open>The arms of \<open>Break\<close> and \<open>BreakIf\<close> make the same checks.\<close>

definition pass1_break :: "op list \<Rightarrow> nat \<Rightarrow> nat \<Rightarrow> nest_state \<Rightarrow> verify_error + nest_state" where
  "pass1_break ops ip t st =
     (if loop_depth st = 0 then Inl (VE_BreakOutsideLoop ip)
      else if length ops < t then Inl (VE_BreakTargetOutOfBounds ip t)
      else (case enclosing_loop_exit ops (block_stack st) of
              Some x \<Rightarrow> if t \<noteq> x then Inl (VE_BreakTargetNotExit ip t) else Inr st
            | None \<Rightarrow> Inr st))"

section \<open>Pass 1: operand ranges\<close>

definition require :: "bool \<Rightarrow> 'e \<Rightarrow> 'e + unit" where
  "require b e = (if b then Inr () else Inl e)"

lemma require_Inr [simp]: "require b e = Inr u \<longleftrightarrow> b"
  by (simp add: require_def)

definition check_data_slot :: "kmodule \<Rightarrow> nat \<Rightarrow> u32 \<Rightarrow> verify_error + unit" where
  "check_data_slot m ip slot =
     (if data_len m = 0 then Inl (VE_NoDataLayout ip)
      else if data_len m \<le> unat slot then Inl (VE_DataSlotOutOfRange ip)
      else Inr ())"

text \<open>A \<open>usize\<close> of 64 bits: the sum of two \<open>u32\<close> operands does not saturate.\<close>

definition check_data_range :: "kmodule \<Rightarrow> nat \<Rightarrow> u32 \<Rightarrow> u32 \<Rightarrow> verify_error + unit" where
  "check_data_range m ip base len =
     require (unat base + unat len \<le> data_len m) (VE_DataRangeOutOfRange ip)"

definition check_call :: "kmodule \<Rightarrow> nat \<Rightarrow> u16 \<Rightarrow> u8 \<Rightarrow> verify_error + unit" where
  "check_call m ip callee arg_count =
     (if length (m_chunks m) \<le> unat callee then Inl (VE_CallTarget ip)
      else if (ucast arg_count :: u16) > ch_local_count (m_chunks m ! unat callee) then Inl (VE_CallArity ip)
      else Inr ())"

text \<open>\<open>1usize << word_bits_log2\<close>: the shift amount is taken modulo the width of \<open>usize\<close>.\<close>

definition word_bits :: "kmodule \<Rightarrow> nat" where
  "word_bits m = 2 ^ (unat (m_word_bits_log2 m) mod 64)"

definition check_frac_bits :: "kmodule \<Rightarrow> nat \<Rightarrow> u8 \<Rightarrow> verify_error + unit" where
  "check_frac_bits m ip fb = require (unat fb < word_bits m) (VE_FracBits ip)"

definition check_constant :: "chunk \<Rightarrow> nat \<Rightarrow> u16 \<Rightarrow> verify_error + unit" where
  "check_constant chunk ip idx = require (unat idx < length (ch_constants chunk)) (VE_ConstantOutOfRange ip)"

definition check_local :: "chunk \<Rightarrow> nat \<Rightarrow> u16 \<Rightarrow> verify_error + unit" where
  "check_local chunk ip slot = require (slot < ch_local_count chunk) (VE_LocalSlot ip)"

definition check_new_composite :: "chunk \<Rightarrow> nat \<Rightarrow> new_composite_operand \<Rightarrow> verify_error + unit" where
  "check_new_composite chunk ip operand =
     (case operand of
        NC_Boxed kind n meta \<Rightarrow>
          if kind = CK_Struct \<or> kind = CK_Enum
          then require (unat meta < length (ch_struct_templates chunk)) (VE_StructTemplate ip)
          else Inr ()
      | NC_Flat kind n byte_size \<Rightarrow> Inr ())"

definition pass1_operands :: "kmodule \<Rightarrow> chunk \<Rightarrow> nat \<Rightarrow> op \<Rightarrow> verify_error + unit" where
  "pass1_operands m chunk ip x =
     (case x of
        GetData slot \<Rightarrow> check_data_slot m ip slot
      | SetData slot \<Rightarrow> check_data_slot m ip slot
      | GetDataIndexed base len \<Rightarrow> check_data_range m ip base len
      | SetDataIndexed base len \<Rightarrow> check_data_range m ip base len
      | Const idx \<Rightarrow> check_constant chunk ip idx
      | IsStruct idx \<Rightarrow> check_constant chunk ip idx
      | GetField f \<Rightarrow> (case f of SF_Boxed idx \<Rightarrow> check_constant chunk ip idx | _ \<Rightarrow> Inr ())
      | IsEnum e v d \<Rightarrow>
          require (unat e < length (ch_constants chunk) \<and> unat v < length (ch_constants chunk)
                   \<and> unat d < length (ch_constants chunk)) (VE_ConstantOutOfRange ip)
      | Call callee n \<Rightarrow> check_call m ip callee n
      | CallVerifiedNative native n \<Rightarrow> require (unat native < length (m_native_names m)) (VE_NativeIndex ip)
      | CallExternalNative native n \<Rightarrow> require (unat native < length (m_native_names m)) (VE_NativeIndex ip)
      | WordToFixed fb \<Rightarrow> check_frac_bits m ip fb
      | FixedToWord fb \<Rightarrow> check_frac_bits m ip fb
      | FixedMul fb \<Rightarrow> check_frac_bits m ip fb
      | FixedDiv fb \<Rightarrow> check_frac_bits m ip fb
      | CheckedMul fb \<Rightarrow> check_frac_bits m ip fb
      | CheckedDiv fb \<Rightarrow> check_frac_bits m ip fb
      | GetLocal slot \<Rightarrow> check_local chunk ip slot
      | SetLocal slot \<Rightarrow> check_local chunk ip slot
      | NewComposite operand \<Rightarrow> check_new_composite chunk ip operand
      | _ \<Rightarrow> Inr ())"

section \<open>Pass 1: the loop\<close>

definition pass1_step :: "kmodule \<Rightarrow> chunk \<Rightarrow> nat \<Rightarrow> nest_state \<Rightarrow> verify_error + nest_state" where
  "pass1_step m chunk ip st =
     (let ops = ch_ops chunk in
      case ctl_of (ops ! ip) of
        C_If t \<Rightarrow> pass1_if ops ip t st
      | C_Else t \<Rightarrow> pass1_else ops ip t st
      | C_EndIf \<Rightarrow> pass1_endif ip st
      | C_Loop t \<Rightarrow> pass1_loop ops ip t st
      | C_EndLoop t \<Rightarrow> pass1_endloop ops ip t st
      | C_Break t \<Rightarrow> pass1_break ops ip t st
      | C_BreakIf t \<Rightarrow> pass1_break ops ip t st
      | _ \<Rightarrow> bindR (pass1_operands m chunk ip (ops ! ip)) (\<lambda>_. Inr st))"

fun pass1_run :: "kmodule \<Rightarrow> chunk \<Rightarrow> nat list \<Rightarrow> nest_state \<Rightarrow> verify_error + nest_state" where
  "pass1_run m chunk [] st = Inr st"
| "pass1_run m chunk (ip # ips) st = bindR (pass1_step m chunk ip st) (pass1_run m chunk ips)"

definition pass1 :: "kmodule \<Rightarrow> chunk \<Rightarrow> verify_error + unit" where
  "pass1 m chunk =
     bindR (pass1_run m chunk [0..<length (ch_ops chunk)] nest_init) (\<lambda>st.
       case block_stack st of [] \<Rightarrow> Inr () | (k, ip) # bs \<Rightarrow> Inl (VE_Unclosed ip))"

section \<open>Pass 2: block-type constraints\<close>

definition op_count :: "op \<Rightarrow> op list \<Rightarrow> nat" where
  "op_count x ops = length (filter (\<lambda>y. y = x) ops)"

definition has_effective_yield :: "op list \<Rightarrow> nat set \<Rightarrow> bool" where
  "has_effective_yield ops always \<longleftrightarrow>
     0 < op_count Yield ops \<or> list_ex (\<lambda>x. case ctl_of x of C_Call g n \<Rightarrow> g \<in> always | _ \<Rightarrow> False) ops"

definition pass2 :: "chunk \<Rightarrow> nat set \<Rightarrow> verify_error + unit" where
  "pass2 chunk always =
     (let ops = ch_ops chunk in
      case ch_block_type chunk of
        BT_Func \<Rightarrow>
          require (op_count Yield ops = 0 \<and> op_count Stream ops = 0 \<and> op_count Reset ops = 0) (VE_BlockType BT_Func)
      | BT_Reentrant \<Rightarrow>
          if \<not> has_effective_yield ops always then Inl (VE_NoYield BT_Reentrant)
          else require (op_count Stream ops = 0 \<and> op_count Reset ops = 0) (VE_BlockType BT_Reentrant)
      | BT_Stream \<Rightarrow>
          if op_count Stream ops \<noteq> 1 \<or> op_count Reset ops \<noteq> 1 then Inl (VE_BlockType BT_Stream)
          else require (has_effective_yield ops always) (VE_NoYield BT_Stream))"

section \<open>Pass 3: productivity\<close>

definition stream_pos :: "op list \<Rightarrow> nat option" where
  "stream_pos ops = position (\<lambda>x. x = Stream) ops"

definition reset_pos :: "op list \<Rightarrow> nat option" where
  "reset_pos ops = position (\<lambda>x. x = Reset) ops"

definition pass3 :: "chunk \<Rightarrow> nat set \<Rightarrow> (verify_error + unit) option" where
  "pass3 chunk always =
     (let ops = ch_ops chunk in
      if ch_block_type chunk \<noteq> BT_Stream then Some (Inr ())
      else (case (stream_pos ops, reset_pos ops) of
              (Some s, Some r) \<Rightarrow>
                map_option (\<lambda>(res, breaks). if res = Some False then Inl VE_NotProductive else Inr ())
                  (analyze_yield_coverage ops (Suc s) r False always [])
            | _ \<Rightarrow> Some (Inr ())))"

section \<open>The verifier\<close>

definition verify_chunk :: "chunk \<Rightarrow> kmodule \<Rightarrow> nat set \<Rightarrow> (verify_error + unit) option" where
  "verify_chunk chunk m always =
     bindOR (Some (pass1 m chunk)) (\<lambda>_.
     bindOR (Some (pass2 chunk always)) (\<lambda>_. pass3 chunk always))"

fun check_all_forward :: "chunk list \<Rightarrow> verify_error + unit" where
  "check_all_forward [] = Inr ()"
| "check_all_forward (c # cs) = bindR (check_forward_control_flow_targets c) (\<lambda>_. check_all_forward cs)"

fun verify_chunks :: "kmodule \<Rightarrow> nat set \<Rightarrow> chunk list \<Rightarrow> (verify_error + unit) option" where
  "verify_chunks m always [] = Some (Inr ())"
| "verify_chunks m always (c # cs) =
     bindOR (verify_chunk c m always) (\<lambda>_.
     bindOR (verify_stack_depth c) (\<lambda>_. verify_chunks m always cs))"

text \<open>
  \<open>verify\<close> up to its last two passes, definite initialisation and the typed operand stack, each of
  which can only reject more.
\<close>

definition verify_structural :: "kmodule \<Rightarrow> (verify_error + unit) option" where
  "verify_structural m =
     bindOR (Some (check_all_forward (m_chunks m))) (\<lambda>_.
     Option.bind (compute_always_yielding m) (\<lambda>always. verify_chunks m always (m_chunks m)))"

end
