(* ===== verification/Chunk_Structure.thy ===== *)
theory Chunk_Structure
  imports Verify_Chunk
begin

text \<open>
  What pass 1 of the structural verifier establishes: the range it accepts is a structured region.
  Pass 1 requires an \<open>Else\<close> to target some \<open>EndIf\<close> but not the one that closes its block, and does
  not limit the nesting; both are the extra, executable, condition \<open>links_run\<close>, which compiled code
  satisfies.
\<close>

section \<open>Matching elses and bounded nesting\<close>

text \<open>
  A scan that keeps, for each open block, the target of the \<open>Else\<close> seen in it.  It fails when an
  \<open>EndIf\<close> is not the target of its \<open>Else\<close>, or the nesting exceeds the walks' limit.
\<close>

fun links_run :: "op list \<Rightarrow> nat list \<Rightarrow> nat option list \<Rightarrow> nat option list option" where
  "links_run ops [] stk = Some stk"
| "links_run ops (ip # ips) stk =
     (case ctl_of (ops ! ip) of
        C_If t \<Rightarrow> if length stk < MAX_REGION_DEPTH then links_run ops ips (None # stk) else None
      | C_Loop t \<Rightarrow> if length stk < MAX_REGION_DEPTH then links_run ops ips (None # stk) else None
      | C_Else t \<Rightarrow> (case stk of [] \<Rightarrow> None | e # s \<Rightarrow> links_run ops ips (Some t # s))
      | C_EndIf \<Rightarrow>
          (case stk of [] \<Rightarrow> None
           | e # s \<Rightarrow> if e = None \<or> e = Some ip then links_run ops ips s else None)
      | C_EndLoop t \<Rightarrow> (case stk of [] \<Rightarrow> None | e # s \<Rightarrow> links_run ops ips s)
      | _ \<Rightarrow> links_run ops ips stk)"

text \<open>A position outside every block, with the blocks before it well linked.\<close>

definition top_level :: "op list \<Rightarrow> nat \<Rightarrow> bool" where
  "top_level ops p = (links_run ops [0..<p] [] = Some [])"

lemma links_run_append:
  "links_run ops (xs @ ys) stk = Option.bind (links_run ops xs stk) (links_run ops ys)"
  by (induction xs arbitrary: stk) (auto split: ctl.splits list.splits)

lemma pass1_run_append:
  "pass1_run m c (xs @ ys) st = bindR (pass1_run m c xs st) (pass1_run m c ys)"
proof (induction xs arbitrary: st)
  case (Cons x xs)
  then show ?case by (cases "pass1_step m c x st") auto
qed simp

section \<open>The invariant of pass 1\<close>

text \<open>
  \<open>opened a bs ifs els lx ip\<close>: the instructions from \<open>a\<close> to \<open>ip\<close> are structured up to the open
  blocks \<open>bs\<close>; \<open>ifs\<close> and \<open>els\<close> are the states of the two scans that go with them, and \<open>lx\<close> is the
  exit of the innermost open loop.
\<close>

inductive opened ::
  "op list \<Rightarrow> nat \<Rightarrow> (block_kind \<times> nat) list \<Rightarrow> (nat \<times> nat \<times> bool) list \<Rightarrow> nat option list \<Rightarrow>
   nat option \<Rightarrow> nat \<Rightarrow> bool" for ops a where
  op_base: "region ops None 0 a ip \<Longrightarrow> opened ops a [] [] [] None ip"
| op_if: "opened ops a bs ifs els lx i \<Longrightarrow> i < length ops \<Longrightarrow> ctl_of (ops ! i) = C_If t \<Longrightarrow>
     length bs < MAX_REGION_DEPTH \<Longrightarrow> region ops lx (Suc (length bs)) (Suc i) ip \<Longrightarrow>
     opened ops a ((BK_If, i) # bs) ((i, t, False) # ifs) (None # els) lx ip"
| op_else: "opened ops a bs ifs els lx i \<Longrightarrow> i < length ops \<Longrightarrow> ctl_of (ops ! i) = C_If (Suc m) \<Longrightarrow>
     length bs < MAX_REGION_DEPTH \<Longrightarrow> region ops lx (Suc (length bs)) (Suc i) m \<Longrightarrow> m < length ops \<Longrightarrow>
     ctl_of (ops ! m) = C_Else q \<Longrightarrow> region ops lx (Suc (length bs)) (Suc m) ip \<Longrightarrow>
     opened ops a ((BK_If, i) # bs) ((i, Suc m, True) # ifs) (Some q # els) lx ip"
| op_loop: "opened ops a bs ifs els lx i \<Longrightarrow> i < length ops \<Longrightarrow> ctl_of (ops ! i) = C_Loop x \<Longrightarrow>
     length bs < MAX_REGION_DEPTH \<Longrightarrow> region ops (Some x) (Suc (length bs)) (Suc i) ip \<Longrightarrow>
     opened ops a ((BK_Loop, i) # bs) ifs (None # els) (Some x) ip"

inductive_cases opened_nilE: "opened ops a [] ifs els lx ip"

lemma opened_ifE:
  assumes "opened ops a ((BK_If, i) # bs) ((if_ip, t, seen) # ifs) (e # els) lx ip"
  obtains (no_else) "\<not> seen" "e = None" "if_ip = i" "opened ops a bs ifs els lx i" "i < length ops"
      "ctl_of (ops ! i) = C_If t" "length bs < MAX_REGION_DEPTH" "region ops lx (Suc (length bs)) (Suc i) ip"
    | (with_else) m q where "seen" "e = Some q" "t = Suc m" "if_ip = i" "opened ops a bs ifs els lx i" "i < length ops"
      "ctl_of (ops ! i) = C_If (Suc m)" "length bs < MAX_REGION_DEPTH" "region ops lx (Suc (length bs)) (Suc i) m"
      "m < length ops" "ctl_of (ops ! m) = C_Else q" "region ops lx (Suc (length bs)) (Suc m) ip"
  using assms by (cases rule: opened.cases) auto

lemma opened_loopE:
  assumes "opened ops a ((BK_Loop, i) # bs) ifs (e # els) lx ip"
  obtains x lx' where "opened ops a bs ifs els lx' i" "i < length ops" "ctl_of (ops ! i) = C_Loop x"
    "length bs < MAX_REGION_DEPTH" "region ops (Some x) (Suc (length bs)) (Suc i) ip" "lx = Some x"
  using assms by (cases rule: opened.cases) auto

lemma opened_length: "opened ops a bs ifs els lx ip \<Longrightarrow> length els = length bs"
  by (induction rule: opened.induct) auto

lemma opened_exit: "opened ops a bs ifs els lx ip \<Longrightarrow> enclosing_loop_exit ops bs = lx"
  by (induction rule: opened.induct) auto

lemma opened_lx:
  "opened ops a bs ifs els lx ip \<Longrightarrow> lx = None \<Longrightarrow> \<forall>b \<in> set bs. fst b \<noteq> BK_Loop"
  by (induction rule: opened.induct) auto

lemma opened_extend:
  assumes "opened ops a bs ifs els lx ip" and "region ops lx (length bs) ip j"
  shows "opened ops a bs ifs els lx j"
  using assms(1)
proof (cases rule: opened.cases)
  case op_base
  then show ?thesis using assms(2) by (auto intro!: opened.op_base intro: region_append)
next
  case (op_if bs' ifs' els' i t)
  then show ?thesis using assms(2) by (auto intro!: opened.op_if intro: region_append)
next
  case (op_else bs' ifs' els' i m q)
  then show ?thesis using assms(2) by (auto intro!: opened.op_else intro: region_append)
next
  case (op_loop bs' els' lx' i x)
  then show ?thesis using assms(2) by (auto intro!: opened.op_loop intro: region_append)
qed

text \<open>The smallest regions: one instruction, one block.\<close>

lemma region_nil: "s \<le> length ops \<Longrightarrow> region ops lx d s s"
  by (rule region.rg_nil)

lemma region_lin1:
  "s < length ops \<Longrightarrow> ctl_linear (ctl_of (ops ! s)) \<or> ctl_exits (ctl_of (ops ! s)) \<Longrightarrow> region ops lx d s (Suc s)"
  by (rule region.rg_lin) (simp_all add: region_nil)

lemma region_break1:
  "s < length ops \<Longrightarrow> ctl_of (ops ! s) = C_Break t \<or> ctl_of (ops ! s) = C_BreakIf t \<Longrightarrow> region ops (Some t) d s (Suc s)"
  by (rule region.rg_break [of s ops t]) (simp_all add: region_nil)

section \<open>One step of pass 1\<close>

definition loops_open :: "(block_kind \<times> nat) list \<Rightarrow> nat" where
  "loops_open bs = length (filter (\<lambda>b. fst b = BK_Loop) bs)"

definition nested :: "op list \<Rightarrow> nat \<Rightarrow> nest_state \<Rightarrow> nat option list \<Rightarrow> nat \<Rightarrow> bool" where
  "nested ops a st els ip \<longleftrightarrow>
     (\<exists>lx. opened ops a (block_stack st) (if_stack st) els lx ip) \<and> loop_depth st = loops_open (block_stack st)"

lemma nestedE:
  assumes "nested ops a st els ip"
  obtains lx where "opened ops a (block_stack st) (if_stack st) els lx ip"
    "loop_depth st = loops_open (block_stack st)" "length els = length (block_stack st)"
  using assms by (auto simp: nested_def dest: opened_length)

lemma nested_linear:
  assumes "nested ops a st els ip" "ip < length ops" "ctl_linear (ctl_of (ops ! ip)) \<or> ctl_exits (ctl_of (ops ! ip))"
  shows "nested ops a st els (Suc ip)"
proof -
  obtain lx where o: "opened ops a (block_stack st) (if_stack st) els lx ip"
    and "loop_depth st = loops_open (block_stack st)" using nestedE [OF assms(1)] .
  moreover have "opened ops a (block_stack st) (if_stack st) els lx (Suc ip)"
    by (rule opened_extend [OF o region_lin1 [OF assms(2,3)]])
  ultimately show ?thesis by (auto simp: nested_def)
qed

lemma nested_break:
  assumes n: "nested ops a st els ip" and ip: "ip < length ops"
    and c: "ctl_of (ops ! ip) = C_Break t \<or> ctl_of (ops ! ip) = C_BreakIf t"
    and p: "pass1_break ops ip t st = Inr st'"
  shows "nested ops a st' els (Suc ip)"
proof -
  from n obtain lx where o: "opened ops a (block_stack st) (if_stack st) els lx ip"
    and ld: "loop_depth st = loops_open (block_stack st)" by (auto simp: nested_def)
  from p have st': "st' = st" and pos: "loop_depth st \<noteq> 0"
    by (auto simp: pass1_break_def split: if_splits option.splits)
  have "lx \<noteq> None" using opened_lx [OF o] pos ld by (auto simp: loops_open_def filter_empty_conv)
  with p opened_exit [OF o] have "lx = Some t"
    by (auto simp: pass1_break_def split: if_splits)
  then have "region ops lx (length (block_stack st)) ip (Suc ip)"
    using region_break1 [OF ip c] by simp
  with o ld st' show ?thesis by (auto simp: nested_def intro: opened_extend)
qed

lemma nested_if:
  assumes n: "nested ops a st els ip" and ip: "ip < length ops" "ctl_of (ops ! ip) = C_If t"
    and d: "length els < MAX_REGION_DEPTH" and p: "pass1_if ops ip t st = Inr st'"
  shows "nested ops a st' (None # els) (Suc ip)"
proof -
  obtain lx where o: "opened ops a (block_stack st) (if_stack st) els lx ip"
    and l: "loop_depth st = loops_open (block_stack st)" "length els = length (block_stack st)" using nestedE [OF n] .
  have "opened ops a ((BK_If, ip) # block_stack st) ((ip, t, False) # if_stack st) (None # els) lx (Suc ip)"
    using d l ip by (intro opened.op_if [OF o] region.rg_nil) auto
  with p l show ?thesis by (auto simp: nested_def pass1_if_def loops_open_def split: if_splits)
qed

lemma nested_loop:
  assumes n: "nested ops a st els ip" and ip: "ip < length ops" "ctl_of (ops ! ip) = C_Loop t"
    and d: "length els < MAX_REGION_DEPTH" and p: "pass1_loop ops ip t st = Inr st'"
  shows "nested ops a st' (None # els) (Suc ip)"
proof -
  obtain lx where o: "opened ops a (block_stack st) (if_stack st) els lx ip"
    and l: "loop_depth st = loops_open (block_stack st)" "length els = length (block_stack st)" using nestedE [OF n] .
  have "opened ops a ((BK_Loop, ip) # block_stack st) (if_stack st) (None # els) (Some t) (Suc ip)"
    using d l ip by (intro opened.op_loop [OF o] region.rg_nil) auto
  with p l show ?thesis by (auto simp: nested_def pass1_loop_def loops_open_def split: if_splits)
qed

lemma nested_else:
  assumes n: "nested ops a st (e # els) ip" and ip: "ip < length ops" and c: "ctl_of (ops ! ip) = C_Else t"
    and p: "pass1_else ops ip t st = Inr st'"
  shows "nested ops a st' (Some t # els) (Suc ip)"
proof -
  from p obtain i bs if_ip seen ifs where b: "block_stack st = (BK_If, i) # bs"
    and f: "if_stack st = (if_ip, Suc ip, seen) # ifs" "st' = st \<lparr> if_stack := (if_ip, Suc ip, True) # ifs \<rparr>"
    by (auto simp: pass1_else_def split: list.splits prod.splits block_kind.splits if_splits)
  from n b f obtain lx where "opened ops a ((BK_If, i) # bs) ((if_ip, Suc ip, seen) # ifs) (e # els) lx ip"
    by (auto simp: nested_def)
  then have "opened ops a ((BK_If, i) # bs) ((if_ip, Suc ip, True) # ifs) (Some t # els) lx (Suc ip)"
  proof (cases rule: opened_ifE)
    case no_else
    then show ?thesis using ip c opened.op_else [OF no_else(4-8) ip c region_nil] by simp
  next
    case (with_else m q)
    then show ?thesis using region_bounds [OF with_else(12)] by simp
  qed
  with n b f show ?thesis by (auto simp: nested_def)
qed

lemma nested_endif:
  assumes n: "nested ops a st (e # els) ip" and ip: "ip < length ops" and c: "ctl_of (ops ! ip) = C_EndIf"
    and e: "e = None \<or> e = Some ip" and p: "pass1_endif ip st = Inr st'"
  shows "nested ops a st' els (Suc ip)"
proof -
  from p obtain i bs if_ip t seen ifs where b: "block_stack st = (BK_If, i) # bs"
    and f: "if_stack st = (if_ip, t, seen) # ifs" "st' = st \<lparr> if_stack := ifs, block_stack := bs \<rparr>"
    and t: "seen \<or> t = ip"
    by (auto simp: pass1_endif_def split: list.splits prod.splits block_kind.splits if_splits)
  from n b f obtain lx where "opened ops a ((BK_If, i) # bs) ((if_ip, t, seen) # ifs) (e # els) lx ip"
    by (auto simp: nested_def)
  then have "opened ops a bs ifs els lx (Suc ip)"
  proof (cases rule: opened_ifE)
    case no_else
    then have "ctl_of (ops ! i) = C_If ip" using t by simp
    then have "region ops lx (length bs) i (Suc ip)"
      using region.rg_if [OF no_else(5) _ no_else(7,8) ip c region_nil] ip by simp
    then show ?thesis by (rule opened_extend [OF no_else(4)])
  next
    case (with_else m q)
    then have q: "q = ip" using e by simp
    have "ctl_of (ops ! m) = C_Else ip" using with_else(11) q by simp
    then have "region ops lx (length bs) i (Suc ip)"
      using region.rg_ifelse [OF with_else(6-10) _ with_else(12) ip c region_nil] ip by simp
    then show ?thesis by (rule opened_extend [OF with_else(5)])
  qed
  with n b f show ?thesis by (auto simp: nested_def loops_open_def)
qed

lemma nested_endloop:
  assumes n: "nested ops a st (e # els) ip" and ip: "ip < length ops" and c: "ctl_of (ops ! ip) = C_EndLoop t"
    and p: "pass1_endloop ops ip t st = Inr st'"
  shows "nested ops a st' els (Suc ip)"
proof -
  from p obtain i bs where b: "block_stack st = (BK_Loop, i) # bs" and t: "t = Suc i"
    and x: "case ctl_of (ops ! i) of C_Loop x \<Rightarrow> x = Suc ip | _ \<Rightarrow> True"
    and st': "st' = st \<lparr> block_stack := bs, loop_depth := loop_depth st - 1 \<rparr>"
    by (auto simp: pass1_endloop_def split: list.splits prod.splits block_kind.splits if_splits ctl.splits)
  from n b obtain lx where "opened ops a ((BK_Loop, i) # bs) (if_stack st) (e # els) lx ip"
    by (auto simp: nested_def)
  then obtain x' lx' where o: "opened ops a bs (if_stack st) els lx' i" "i < length ops" "ctl_of (ops ! i) = C_Loop x'"
    "length bs < MAX_REGION_DEPTH" "region ops (Some x') (Suc (length bs)) (Suc i) ip" by (rule opened_loopE)
  with x have x': "x' = Suc ip" by simp
  have "region ops lx' (length bs) i (Suc ip)"
    using region.rg_loop [OF o(2) _ o(4) _ ip _ region_nil] o(3,5) c t ip x' by simp
  from opened_extend [OF o(1) this] n b st' show ?thesis by (auto simp: nested_def loops_open_def)
qed

section \<open>The whole of pass 1\<close>

lemma pass1_step_nested:
  assumes n: "nested (ch_ops c) a st els ip" and ip: "ip < length (ch_ops c)"
    and p: "pass1_step m c ip st = Inr st'" and l: "links_run (ch_ops c) [ip] els = Some els'"
  shows "nested (ch_ops c) a st' els' (Suc ip)"
proof (cases "ctl_of (ch_ops c ! ip)")
  case (C_If t)
  with n ip p l show ?thesis by (auto simp: pass1_step_def split: if_splits intro: nested_if)
next
  case (C_Else t)
  with n ip p l show ?thesis by (auto simp: pass1_step_def split: list.splits intro: nested_else)
next
  case C_EndIf
  with n ip p l show ?thesis by (auto simp: pass1_step_def split: list.splits if_splits intro: nested_endif)
next
  case (C_Loop t)
  with n ip p l show ?thesis by (auto simp: pass1_step_def split: if_splits intro: nested_loop)
next
  case (C_EndLoop t)
  with n ip p l show ?thesis by (auto simp: pass1_step_def split: list.splits intro: nested_endloop)
next
  case (C_Break t)
  with n ip p l show ?thesis by (auto simp: pass1_step_def intro: nested_break)
next
  case (C_BreakIf t)
  with n ip p l show ?thesis by (auto simp: pass1_step_def intro: nested_break)
qed (use n ip p l in \<open>auto simp: pass1_step_def bindR_Inr intro: nested_linear\<close>)

lemma pass1_run_nested:
  assumes "nested (ch_ops c) a st els i" and "j \<le> length (ch_ops c)" and "i \<le> j"
    and "pass1_run m c [i..<j] st = Inr st'" and "links_run (ch_ops c) [i..<j] els = Some els'"
  shows "nested (ch_ops c) a st' els' j"
  using assms(3,1,2,4,5)
proof (induction j arbitrary: st' els' rule: dec_induct)
  case base
  then show ?case by simp
next
  case (step j)
  from step.prems(3) step.hyps obtain st1 where p: "pass1_run m c [i..<j] st = Inr st1" "pass1_step m c j st1 = Inr st'"
    by (auto simp: pass1_run_append bindR_Inr)
  from step.prems(4) step.hyps obtain els1 where l: "links_run (ch_ops c) [i..<j] els = Some els1"
    "links_run (ch_ops c) [j] els1 = Some els'"
    by (auto simp: links_run_append bind_eq_Some_conv simp del: links_run.simps)
  show ?case
    using step.IH [OF step.prems(1) _ p(1) l(1)] step.prems(2) by (intro pass1_step_nested [OF _ _ p(2) l(2)]) auto
qed

lemma nested_init: "a \<le> length ops \<Longrightarrow> nested ops a nest_init [] a"
  by (auto simp: nested_def nest_init_def loops_open_def intro!: opened.op_base region_nil)

lemma nested_closed:
  assumes "nested ops a st [] ip"
  shows "st = nest_init \<and> region ops None 0 a ip"
proof -
  obtain lx where o: "opened ops a (block_stack st) (if_stack st) [] lx ip"
    and d: "loop_depth st = loops_open (block_stack st)" and l: "block_stack st = []"
    using nestedE [OF assms] by auto
  from o [unfolded l] have "if_stack st = [] \<and> region ops None 0 a ip" by (rule opened_nilE) auto
  with d l show ?thesis by (simp add: nest_init_def loops_open_def)
qed

text \<open>
  In a chunk accepted by pass 1 the range between two positions outside every block is a structured
  region; the whole chunk is one when its end is such a position.
\<close>

theorem pass1_region:
  assumes p: "pass1 m c = Inr ()"
    and ab: "a \<le> b" "b \<le> length (ch_ops c)" "top_level (ch_ops c) a" "top_level (ch_ops c) b"
  shows "region (ch_ops c) None 0 a b"
proof -
  let ?ops = "ch_ops c"
  have "[0..<length ?ops] = [0..<b] @ [b..<length ?ops]" and ab': "[0..<b] = [0..<a] @ [a..<b]"
    using ab upt_add_eq_append [of 0 b "length ?ops - b"] upt_add_eq_append [of 0 a "b - a"] by simp_all
  then have split: "[0..<length ?ops] = [0..<a] @ [a..<b] @ [b..<length ?ops]" by simp
  from p [unfolded pass1_def split] obtain st1 st2 where r: "pass1_run m c [0..<a] nest_init = Inr st1"
    "pass1_run m c [a..<b] st1 = Inr st2"
    by (auto simp: pass1_run_append bindR_Inr)
  have l1: "links_run ?ops [0..<a] [] = Some []" using ab by (simp add: top_level_def)
  have "links_run ?ops [0..<b] [] = Some []" using ab by (simp add: top_level_def)
  then have l2: "links_run ?ops [a..<b] [] = Some []" using l1 by (simp add: ab' links_run_append)
  have a0: "a \<le> length ?ops" using ab by simp
  have "nested ?ops 0 st1 [] a"
    by (rule pass1_run_nested [OF nested_init [OF le0] a0 le0 r(1) l1])
  then have "st1 = nest_init" by (simp add: nested_closed)
  with r(2) have r2: "pass1_run m c [a..<b] nest_init = Inr st2" by simp
  have "nested ?ops a st2 [] b"
    by (rule pass1_run_nested [OF nested_init [OF a0] ab(2,1) r2 l2])
  then show ?thesis by (simp add: nested_closed)
qed

section \<open>Productive divergence\<close>

lemma verify_chunks_each:
  "verify_chunks m always cs = Some (Inr ()) \<Longrightarrow> c \<in> set cs \<Longrightarrow>
     verify_chunk c m always = Some (Inr ()) \<and> verify_stack_depth c = Some (Inr ())"
  by (induction cs) (auto simp: bindOR_Some_Inr)

lemma verify_structuralD:
  assumes "verify_structural m = Some (Inr ())"
  obtains always where "compute_always_yielding m = Some always" "verify_chunks m always (m_chunks m) = Some (Inr ())"
    "check_all_forward (m_chunks m) = Inr ()"
  using assms by (auto simp: verify_structural_def bindOR_Some_Inr bind_eq_Some_conv)

lemma verify_chunkD:
  assumes "verify_chunk c m always = Some (Inr ())"
  shows "pass1 m c = Inr ()" "pass2 c always = Inr ()" "pass3 c always = Some (Inr ())"
  using assms by (auto simp: verify_chunk_def bindOR_Some_Inr)

lemma pass3D:
  assumes "pass3 c always = Some (Inr ())" "ch_block_type c = BT_Stream"
    "stream_pos (ch_ops c) = Some s" "reset_pos (ch_ops c) = Some r"
  obtains res brs where "analyze_yield_coverage (ch_ops c) (Suc s) r False always [] = Some (res, brs)" "res \<noteq> Some False"
  using assms by (auto simp: pass3_def Let_def split: if_splits)

theorem stream_paths_yield:
  assumes v: "verify_structural m = Some (Inr ())" and a: "compute_always_yielding m = Some always"
    and c: "c \<in> set (m_chunks m)" "ch_block_type c = BT_Stream"
    and pos: "stream_pos (ch_ops c) = Some s" "reset_pos (ch_ops c) = Some r" "s < r"
    and top: "top_level (ch_ops c) (Suc s)" "top_level (ch_ops c) r"
    and path: "fpath (ch_ops c) (Suc s) (tr @ r # tr') j"
  shows "yields_on (ch_ops c) always tr"
proof -
  from v a have "verify_chunks m always (m_chunks m) = Some (Inr ())" by (auto elim: verify_structuralD)
  with c have vc: "verify_chunk c m always = Some (Inr ())" by (auto dest: verify_chunks_each)
  have "r \<le> length (ch_ops c)" using pos(2) by (simp add: reset_pos_def position_Some)
  with pos(3) top have "region (ch_ops c) None 0 (Suc s) r"
    by (intro pass1_region [OF verify_chunkD(1) [OF vc]]) auto
  moreover obtain res brs where "analyze_yield_coverage (ch_ops c) (Suc s) r False always [] = Some (res, brs)"
    "res \<noteq> Some False" using pass3D [OF verify_chunkD(3) [OF vc] c(2) pos(1,2)] .
  ultimately show ?thesis using coverage_of_paths path by blast
qed

end
