(* ===== verification/Verifier_Safety.thy ===== *)
theory Verifier_Safety
  imports Chunk_Structure
begin

text \<open>
  Further consequences of acceptance by the structural verifier: the verifier itself returns on every
  module; control never jumps past the end of an accepted chunk; the operands of its instructions
  index existing table entries; and the chunks classified as always yielding do yield on the paths to
  their final instruction.
\<close>

section \<open>The verifier returns\<close>

lemma check_all_forward_iff: "check_all_forward cs = Inr () \<longleftrightarrow> (\<forall>c \<in> set cs. forward_targets (ch_ops c))"
proof (induction cs)
  case (Cons c cs)
  then show ?case by (cases "check_forward_control_flow_targets c") (auto simp: check_forward_iff [symmetric])
qed simp

lemma verify_stack_depth_returns: "forward_targets (ch_ops c) \<Longrightarrow> returns (verify_stack_depth c)"
  unfolding verify_stack_depth_def
  by (rule returns_bindOR) (auto simp: walk_fuel_def returns_iff [of "Some _"] split: option.splits
      intro: depth_region_terminates)

lemma verify_chunk_returns: "forward_targets (ch_ops c) \<Longrightarrow> returns (verify_chunk c m always)"
  using analyze_yield_coverage_returns [of "ch_ops c"]
  by (auto simp: verify_chunk_def pass3_def Let_def returns_iff bindOR_def split: sum.splits option.splits)

lemma verify_chunks_returns: "\<forall>c \<in> set cs. forward_targets (ch_ops c) \<Longrightarrow> returns (verify_chunks m always cs)"
proof (induction cs)
  case (Cons c cs)
  then have "returns (verify_chunk c m always)" "returns (verify_stack_depth c)" "returns (verify_chunks m always cs)"
    by (auto intro: verify_chunk_returns verify_stack_depth_returns)
  then show ?case by (auto simp: returns_iff bindOR_def split: sum.splits)
qed (simp add: returns_iff)

lemma compute_always_returns:
  "\<forall>c \<in> set (m_chunks m). forward_targets (ch_ops c) \<Longrightarrow> returns (compute_always_yielding m)"
  by (auto simp: compute_always_yielding_def intro!: always_loop_returns)

theorem verify_structural_total: "\<exists>r. verify_structural m = Some r"
proof (cases "check_all_forward (m_chunks m)")
  case (Inl err)
  then show ?thesis by (simp add: verify_structural_def)
next
  case (Inr u)
  then have f: "\<forall>c \<in> set (m_chunks m). forward_targets (ch_ops c)" by (simp add: check_all_forward_iff)
  from compute_always_returns [OF f] obtain a where "compute_always_yielding m = Some a" by (auto simp: returns_iff)
  with Inr verify_chunks_returns [OF f, of m a] show ?thesis by (auto simp: verify_structural_def returns_iff)
qed

section \<open>Jumps stay inside the chunk\<close>

lemma pass1_run_step:
  assumes "pass1_run m c ips st = Inr st'" "ip \<in> set ips"
  shows "\<exists>s s'. pass1_step m c ip s = Inr s'"
  using assms by (induction ips arbitrary: st) (auto simp: bindR_Inr)

lemma pass1_each:
  assumes "pass1 m c = Inr ()" "ip < length (ch_ops c)"
  obtains s s' where "pass1_step m c ip s = Inr s'"
proof -
  from assms(1) obtain st where "pass1_run m c [0..<length (ch_ops c)] nest_init = Inr st"
    by (auto simp: pass1_def bindR_Inr)
  from pass1_run_step [OF this, of ip] assms(2) that show thesis by auto
qed

text \<open>The blocks on the stack were opened before the current position.\<close>

definition blocks_before :: "nat \<Rightarrow> nest_state \<Rightarrow> bool" where
  "blocks_before ip st \<longleftrightarrow> (\<forall>b \<in> set (block_stack st). snd b < ip)"

lemma pass1_step_block_stack:
  assumes "pass1_step m c ip st = Inr st'" "b \<in> set (block_stack st')"
  shows "b \<in> set (block_stack st) \<or> snd b = ip"
  using assms
  by (auto simp: pass1_step_def Let_def pass1_if_def pass1_else_def pass1_endif_def pass1_loop_def
      pass1_endloop_def pass1_break_def bindR_Inr
      split: ctl.splits if_splits list.splits prod.splits block_kind.splits option.splits)

lemma pass1_step_blocks:
  "pass1_step m c ip st = Inr st' \<Longrightarrow> blocks_before ip st \<Longrightarrow> blocks_before (Suc ip) st'"
  unfolding blocks_before_def using pass1_step_block_stack less_SucI by blast

lemma pass1_run_blocks:
  assumes "pass1_run m c [0..<j] nest_init = Inr st"
  shows "blocks_before j st"
  using assms
proof (induction j arbitrary: st)
  case 0
  then show ?case by (auto simp: blocks_before_def nest_init_def)
next
  case (Suc j)
  then show ?case by (auto simp: pass1_run_append bindR_Inr intro: pass1_step_blocks)
qed

lemma pass1_at:
  assumes "pass1 m c = Inr ()" "ip < length (ch_ops c)"
  obtains s s' where "pass1_step m c ip s = Inr s'" "blocks_before ip s"
proof -
  have "[0..<length (ch_ops c)] = [0..<ip] @ [ip..<length (ch_ops c)]"
    using assms(2) upt_add_eq_append [of 0 ip "length (ch_ops c) - ip"] by simp
  then have "[0..<length (ch_ops c)] = [0..<ip] @ ip # [Suc ip..<length (ch_ops c)]"
    using assms(2) by (simp add: upt_conv_Cons)
  with assms(1) obtain s s' where "pass1_run m c [0..<ip] nest_init = Inr s" "pass1_step m c ip s = Inr s'"
    by (auto simp: pass1_def pass1_run_append bindR_Inr)
  with that pass1_run_blocks show thesis by blast
qed

lemma frame_succs_bounded:
  assumes "pass1 m c = Inr ()" "ip < length (ch_ops c)" "j \<in> set (frame_succs (ctl_of (ch_ops c ! ip)) ip)"
  shows "j \<le> length (ch_ops c)"
proof -
  obtain s s' where p: "pass1_step m c ip s = Inr s'" "blocks_before ip s" using pass1_at [OF assms(1,2)] .
  with assms(2,3) show ?thesis
    by (auto simp: pass1_step_def Let_def pass1_if_def pass1_else_def pass1_loop_def pass1_endloop_def
        pass1_break_def blocks_before_def split: ctl.splits if_splits list.splits prod.splits block_kind.splits)
qed

theorem control_in_bounds:
  assumes "pass1 m c = Inr ()" and "fpath (ch_ops c) i tr j" and "i \<le> length (ch_ops c)"
  shows "j \<le> length (ch_ops c)"
  using assms(2,3)
proof (induction rule: fpath.induct)
  case (fp_step i i' tr j)
  then show ?case using frame_succs_bounded [OF assms(1)] by blast
qed auto

section \<open>Operands index existing entries\<close>

lemma pass1_operands_ok:
  assumes "pass1 m c = Inr ()" "ip < length (ch_ops c)" "ctl_linear (ctl_of (ch_ops c ! ip))"
  shows "pass1_operands m c ip (ch_ops c ! ip) = Inr ()"
proof -
  obtain s s' where "pass1_step m c ip s = Inr s'" using pass1_each [OF assms(1,2)] .
  with assms(3) show ?thesis by (cases "ctl_of (ch_ops c ! ip)") (auto simp: pass1_step_def Let_def bindR_Inr)
qed

lemmas operand_checks = pass1_operands_def check_data_slot_def check_data_range_def check_call_def
  check_constant_def check_local_def check_frac_bits_def check_new_composite_def

text \<open>The entries an instruction's operands refer to.\<close>

definition operands_in_range :: "kmodule \<Rightarrow> chunk \<Rightarrow> op \<Rightarrow> bool" where
  "operands_in_range m c x =
     (case x of
        GetLocal s \<Rightarrow> unat s < unat (ch_local_count c)
      | SetLocal s \<Rightarrow> unat s < unat (ch_local_count c)
      | Const i \<Rightarrow> unat i < length (ch_constants c)
      | IsStruct i \<Rightarrow> unat i < length (ch_constants c)
      | GetField (SF_Boxed i) \<Rightarrow> unat i < length (ch_constants c)
      | IsEnum e v d \<Rightarrow> max (unat e) (max (unat v) (unat d)) < length (ch_constants c)
      | GetData s \<Rightarrow> unat s < data_len m
      | SetData s \<Rightarrow> unat s < data_len m
      | GetDataIndexed b n \<Rightarrow> unat b + unat n \<le> data_len m
      | SetDataIndexed b n \<Rightarrow> unat b + unat n \<le> data_len m
      | Call g n \<Rightarrow> unat g < length (m_chunks m) \<and> unat n \<le> unat (ch_local_count (m_chunks m ! unat g))
      | CallVerifiedNative i n \<Rightarrow> unat i < length (m_native_names m)
      | CallExternalNative i n \<Rightarrow> unat i < length (m_native_names m)
      | NewComposite (NC_Boxed CK_Struct n t) \<Rightarrow> unat t < length (ch_struct_templates c)
      | NewComposite (NC_Boxed CK_Enum n t) \<Rightarrow> unat t < length (ch_struct_templates c)
      | _ \<Rightarrow> True)"

lemma check_call_range:
  assumes "check_call m ip g n = Inr ()"
  shows "unat g < length (m_chunks m) \<and> unat n \<le> unat (ch_local_count (m_chunks m ! unat g))"
proof -
  have "unat n < 2 ^ LENGTH(8)" by (rule unsigned_less)
  then have "unat (ucast n :: u16) = unat n" by (simp add: unsigned_ucast_eq take_bit_nat_eq_self_iff)
  with assms show ?thesis by (auto simp: check_call_def word_less_nat_alt split: if_splits)
qed

lemma pass1_operands_range:
  "pass1_operands m c ip x = Inr () \<Longrightarrow> operands_in_range m c x"
  by (cases x)
    (auto simp: operand_checks operands_in_range_def word_less_nat_alt
      simp del: check_call_def dest: check_call_range split: struct_field.splits new_composite_operand.splits
        composite_kind.splits if_splits)

theorem accepted_operands_in_range:
  assumes "pass1 m c = Inr ()" "ip < length (ch_ops c)"
  shows "operands_in_range m c (ch_ops c ! ip)"
proof (cases "ctl_linear (ctl_of (ch_ops c ! ip))")
  case True
  then show ?thesis using pass1_operands_ok [OF assms] pass1_operands_range by blast
next
  case False
  then show ?thesis by (cases "ch_ops c ! ip") (auto simp: operands_in_range_def)
qed

section \<open>Always-yielding chunks\<close>

text \<open>A walk up to an exit instruction finds what the walk past it finds.\<close>

lemma coverage_before_exit:
  assumes "region ops lx d s e" "ctl_exits (ctl_of (ops ! e))" "e < length ops" "d \<le> MAX_REGION_DEPTH"
    and "analyze_yield_coverage_at fuel ops s (Suc e) hy always brs d = Some r"
  shows "analyze_yield_coverage_at fuel ops s e hy always brs d = Some r"
  using assms
proof (induction arbitrary: fuel hy brs rule: region.induct)
  case (rg_nil s lx d)
  then show ?case
    by (cases fuel; cases "fuel - 1"; cases "ctl_of (ops ! s)") (auto simp: analyze_yield_coverage_at.simps(2))
next
  case (rg_lin s lx d e)
  then show ?case using region_lt [OF rg_lin(3)]
    by (cases fuel; cases "ctl_of (ops ! s)") (auto simp: analyze_yield_coverage_at.simps(2))
next
  case (rg_break s t lx d e)
  then show ?case using region_lt [OF rg_break(4)]
    by (cases fuel) (auto simp: analyze_yield_coverage_at.simps(2))
next
  case (rg_if s t d lx e)
  from rg_if.prems show ?case
    using region_lt [OF rg_if(4)] region_lt [OF rg_if(7)] else_target_no_else [OF rg_if(4,5,2)] rg_if(2) rg_if.IH(2)
    by (cases fuel) (auto simp: analyze_yield_coverage_at.simps(2) bind_eq_Some_conv)
next
  case (rg_ifelse s m d lx q e)
  note facts = region_lt [OF rg_ifelse(4)] region_lt [OF rg_ifelse(7)] region_lt [OF rg_ifelse(10)]
    else_target_else [OF rg_ifelse(5,6)] rg_ifelse(2)
  from rg_ifelse.prems obtain f where f: "fuel = Suc f" by (cases fuel) auto
  from rg_ifelse.prems [unfolded f] facts obtain r1 b1 r2 b2 where
      w: "analyze_yield_coverage_at f ops (Suc s) m hy always brs (Suc d) = Some (r1, b1)"
        "analyze_yield_coverage_at f ops (Suc m) q hy always b1 (Suc d) = Some (r2, b2)"
    and k: "case coverage_join r1 r2 of Some h \<Rightarrow> analyze_yield_coverage_at f ops (Suc q) (Suc e) h always b2 d = Some r
            | None \<Rightarrow> r = (None, b2)"
    by (auto simp: analyze_yield_coverage_at.simps(2) bind_eq_Some_conv split: option.splits)
  with rg_ifelse.IH(3) rg_ifelse.prems f facts show ?case
    by (cases "coverage_join r1 r2") (simp_all add: analyze_yield_coverage_at.simps(2))
next
  case (rg_loop s b d lx e)
  note facts = region_lt [OF rg_loop(4)] region_lt [OF rg_loop(7)] rg_loop(2)
  from rg_loop.prems obtain f where f: "fuel = Suc f" by (cases fuel) auto
  from rg_loop.prems [unfolded f] facts obtain r1 b1 where
      "analyze_yield_coverage_at f ops (Suc s) b hy always [] (Suc d) = Some (r1, b1)"
      "if b1 = [] then r = (None, brs)
       else analyze_yield_coverage_at f ops (Suc b) (Suc e) (list_all id b1) always brs d = Some r"
    by (auto simp: analyze_yield_coverage_at.simps(2) bind_eq_Some_conv split: if_splits)
  with rg_loop.IH(2) rg_loop.prems f facts show ?case
    by (cases "b1 = []") (simp_all add: analyze_yield_coverage_at.simps(2))
qed

text \<open>Every classified chunk was found to yield with respect to chunks classified before it.\<close>

definition justified :: "chunk list \<Rightarrow> nat set \<Rightarrow> bool" where
  "justified cs A \<longleftrightarrow> (\<forall>i \<in> A. i < length cs \<and> (\<exists>B \<subseteq> A. \<exists>brs.
     analyze_yield_coverage (ch_ops (cs ! i)) 0 (length (ch_ops (cs ! i))) False B [] = Some (Some True, brs)))"

lemma justified_insert:
  assumes "justified cs A" "i < length cs"
    "analyze_yield_coverage (ch_ops (cs ! i)) 0 (length (ch_ops (cs ! i))) False A [] = Some (Some True, brs)"
  shows "justified cs (insert i A)"
  using assms unfolding justified_def by (metis insert_iff subset_insertI subset_insertI2)

lemma round_justified:
  assumes "always_yielding_round (drop i cs) i A ch = Some (A', ch')" "justified cs A" "i \<le> length cs"
  shows "justified cs A'"
  using assms
proof (induction "length cs - i" arbitrary: i A ch)
  case 0
  then show ?case by simp
next
  case (Suc n)
  then have lt: "i < length cs" by simp
  note IH = Suc.hyps(1) [of "Suc i"]
  from Suc.prems(1) show ?case
    unfolding Cons_nth_drop_Suc [OF lt, symmetric]
    using IH Suc.hyps(2) Suc.prems(2) lt justified_insert
    by (fastforce simp: bind_eq_Some_conv split: if_splits)
qed

lemma loop_justified:
  assumes "always_yielding_loop fuel cs A = Some A'" "justified cs A"
  shows "justified cs A'"
  using assms
proof (induction fuel arbitrary: A)
  case (Suc fuel)
  then obtain A1 ch where r: "always_yielding_round cs 0 A False = Some (A1, ch)"
    and k: "if ch then always_yielding_loop fuel cs A1 = Some A' else A' = A1"
    by (auto simp: always_yielding_loop.simps(2) bind_eq_Some_conv split: if_splits)
  have "justified cs A1" using round_justified [of 0 cs A False A1 ch] r Suc.prems(2) by simp
  with k Suc.IH show ?case by (auto split: if_splits)
qed simp

lemma yieldish_superset: "yieldish ops B i \<Longrightarrow> B \<subseteq> A \<Longrightarrow> yieldish ops A i"
  by (cases "ctl_of (ops ! i)") (auto simp: yieldish_def)

lemma yields_on_superset: "yields_on ops B tr \<Longrightarrow> B \<subseteq> A \<Longrightarrow> yields_on ops A tr"
  by (auto simp: yields_on_def list_ex_iff intro: yieldish_superset)

theorem always_yielding_paths:
  assumes a: "compute_always_yielding m = Some A" "i \<in> A" and c: "c = m_chunks m ! i" "pass1 m c = Inr ()"
    and n: "length (ch_ops c) = Suc n" "ctl_exits (ctl_of (ch_ops c ! n))" "top_level (ch_ops c) n"
    and path: "fpath (ch_ops c) 0 (tr @ n # tr') j"
  shows "yields_on (ch_ops c) A tr"
proof -
  have "justified (m_chunks m) A"
    using a(1) loop_justified by (auto simp: compute_always_yielding_def justified_def)
  with a(2) c(1) obtain B brs where B: "B \<subseteq> A"
    "analyze_yield_coverage (ch_ops c) 0 (length (ch_ops c)) False B [] = Some (Some True, brs)"
    by (auto simp: justified_def)
  have reg: "region (ch_ops c) None 0 0 n"
    using n by (intro pass1_region [OF c(2)]) (auto simp: top_level_def)
  have "analyze_yield_coverage (ch_ops c) 0 n False B [] = Some (Some True, brs)"
    using coverage_before_exit [OF reg n(2)] B(2) n(1) unfolding analyze_yield_coverage_def by simp
  from coverage_of_paths [OF reg this _ path] B(1) yields_on_superset show ?thesis by blast
qed

end
