(* ===== verification/Run_Charges.thy ===== *)
theory Run_Charges
  imports Structured "HOL-Library.Sublist"
begin

text \<open>
  What the runs of structured code are charged, for any table of charges by position: the part of the
  soundness of a resource walk that does not depend on the resource.  \<open>cbounds\<close> says that a reported
  number bounds every run of a region; there is one lemma per kind of block, and the walks for time
  (\<open>Wcet\<close>) and for memory (\<open>Wcmu\<close>) instantiate them.  A loop whose iteration bound the walks read off
  the code is assumed to respect it, in the exact form the walks rely on: the counted passes, and
  then at most its four-instruction header.  A total of \<open>u32::MAX\<close> bounds nothing, so all comparisons
  are of capped sums.
\<close>

section \<open>Charges\<close>

definition capped :: "nat \<Rightarrow> nat" where
  "capped n = min n u32_max"

lemma capped_mono: "a \<le> b \<Longrightarrow> capped a \<le> capped b"
  by (simp add: capped_def)

lemma capped_idem [simp]: "capped (capped a + b) = capped (a + b)" "capped (a + capped b) = capped (a + b)"
  "capped (capped a) = capped a"
  by (simp_all add: capped_def min_def)

lemma capped_idem_left [simp]: "capped (capped a + b + c) = capped (a + b + c)" "capped (a + capped b + c) = capped (a + b + c)"
  "capped (a + (capped b + c)) = capped (a + (b + c))"
  by (simp_all add: capped_def min_def)

lemma capped_le_self: "capped a \<le> a"
  by (simp add: capped_def)

lemma capped_add_le: "capped x \<le> capped a \<Longrightarrow> capped y \<le> capped b \<Longrightarrow> capped (x + y) \<le> capped (a + b)"
  by (simp add: capped_def min_def split: if_splits)

lemma sat_add_capped: "sat_add a b = capped (a + b)"
  by (simp add: sat_add_def capped_def)

lemma sat_mul_capped: "sat_mul a b = capped (a * b)"
  by (simp add: sat_mul_def capped_def)

text \<open>What a path is charged, for a table of charges by position.\<close>

definition path_sum :: "(nat \<Rightarrow> nat) \<Rightarrow> nat list \<Rightarrow> nat" where
  "path_sum ch tr = sum_list (map ch tr)"

lemma path_sum_simps [simp]:
  "path_sum ch [] = 0"
  "path_sum ch (i # tr) = ch i + path_sum ch tr"
  "path_sum ch (tr @ tr') = path_sum ch tr + path_sum ch tr'"
  by (simp_all add: path_sum_def)

lemma path_sum_prefix: "prefix tr tr' \<Longrightarrow> path_sum ch tr \<le> path_sum ch tr'"
  by (auto elim!: prefixE)

section \<open>The meaning of a reported cost\<close>

definition within_bound :: "chunk \<Rightarrow> nat \<Rightarrow> nat \<Rightarrow> nat list \<Rightarrow> bool" where
  "within_bound chunk s k fin \<longleftrightarrow>
     (case extract_loop_iteration_bound chunk s of
        None \<Rightarrow> True
      | Some n \<Rightarrow> k < n \<or> k = n \<and> prefix fin [s + 1, s + 2, s + 3, s + 4])"

abbreviation bounded_run :: "chunk \<Rightarrow> nat \<Rightarrow> nat \<Rightarrow> nat list \<Rightarrow> outcome \<Rightarrow> bool" where
  "bounded_run chunk \<equiv> rexec (ch_ops chunk) (within_bound chunk)"

definition cbounds ::
  "chunk \<Rightarrow> (nat \<Rightarrow> nat) \<Rightarrow> nat \<Rightarrow> nat \<Rightarrow> nat \<Rightarrow> nat \<Rightarrow> bool \<Rightarrow> bool \<Rightarrow> bool" where
  "cbounds chunk ch s e cost w ft bk \<longleftrightarrow>
     (\<forall>tr oc. bounded_run chunk s e tr oc \<longrightarrow>
        capped (cost + path_sum ch tr) \<le> w
        \<and> (oc = Fall \<longrightarrow> ft) \<and> (oc = Brk \<longrightarrow> bk))"

lemma cboundsD:
  "cbounds chunk ch s e cost w ft bk \<Longrightarrow> bounded_run chunk s e tr oc \<Longrightarrow>
     capped (cost + path_sum ch tr) \<le> w
     \<and> (oc = Fall \<longrightarrow> ft) \<and> (oc = Brk \<longrightarrow> bk)"
  unfolding cbounds_def by blast

lemma cboundsI:
  assumes "\<And>tr oc. bounded_run chunk s e tr oc \<Longrightarrow>
     capped (cost + path_sum ch tr) \<le> w
     \<and> (oc = Fall \<longrightarrow> ft) \<and> (oc = Brk \<longrightarrow> bk)"
  shows "cbounds chunk ch s e cost w ft bk"
  using assms unfolding cbounds_def by blast

lemma cbounds_start: "cbounds chunk ch s e cost w ft bk \<Longrightarrow> capped cost \<le> w"
  using cboundsD [OF _ rx_start, of chunk ch s e cost w ft bk] by simp

lemma cbounds_mono:
  assumes "cbounds chunk ch s e cost w ft bk" and "capped cost' \<le> capped cost" and "bk \<Longrightarrow> bk'"
  shows "cbounds chunk ch s e cost' w ft bk'"
proof (rule cboundsI)
  fix tr oc assume r: "bounded_run chunk s e tr oc"
  have "capped (cost' + path_sum ch tr) \<le> capped (cost + path_sum ch tr)"
    by (rule capped_add_le [OF assms(2) order_refl])
  with cboundsD [OF assms(1) r] assms(3)
  show "capped (cost' + path_sum ch tr) \<le> w
     \<and> (oc = Fall \<longrightarrow> ft) \<and> (oc = Brk \<longrightarrow> bk')" by auto
qed

lemma cbounds_nil: "capped cost \<le> w \<Longrightarrow> ft \<Longrightarrow> cbounds chunk ch s s cost w ft bk"
  by (auto simp: cbounds_def dest: rexec_nil_inv)

text \<open>An instruction that goes on at the next position, or leaves the frame, or may break.\<close>

lemma cbounds_step:
  assumes rest: "cbounds chunk ch (Suc s) e cost' w ft bk" and ne: "s \<noteq> e"
    and le: "capped (cost + ch s) \<le> capped cost'"
    and c: "ctl_linear (ctl_of (ch_ops chunk ! s)) \<or> ctl_exits (ctl_of (ch_ops chunk ! s))
      \<or> ctl_of (ch_ops chunk ! s) = C_EndIf \<or> ctl_of (ch_ops chunk ! s) = C_BreakIf t \<and> bk"
  shows "cbounds chunk ch s e cost w ft bk"
proof (rule cboundsI)
  fix tr oc assume r: "bounded_run chunk s e tr oc"
  have nil: "capped cost \<le> w" and one: "capped (cost + ch s) \<le> w"
    using cbounds_start [OF rest] le capped_mono [of cost "cost + ch s"] by auto
  have le_more: "capped (cost + (ch s + path_sum ch u)) \<le> capped (cost' + path_sum ch u)" for u
    using capped_add_le [OF le order_refl] by (simp add: add.assoc)
  from r c ne consider (nil) "tr = []" "oc = Part" | (one) "tr = [s]" "oc = Part \<or> oc = Brk \<and> bk"
    | (more) u where "tr = s # u" "bounded_run chunk (Suc s) e u oc"
    by (auto dest: rexec_lin_inv rexec_exit_inv rexec_breakif_inv)
  then show "capped (cost + path_sum ch tr) \<le> w
     \<and> (oc = Fall \<longrightarrow> ft) \<and> (oc = Brk \<longrightarrow> bk)"
  proof cases
    case (more u)
    then show ?thesis using cboundsD [OF rest more(2)] le_trans [OF le_more] by simp
  qed (use nil one in auto)
qed

lemma cbounds_exit:
  assumes "ctl_exits (ctl_of (ch_ops chunk ! s))" "s \<noteq> e" "capped (cost + ch s) \<le> w"
  shows "cbounds chunk ch s e cost w ft bk"
  using assms capped_mono [of cost "cost + ch s"]
  by (auto simp: cbounds_def dest!: rexec_exit_inv)

lemma cbounds_break:
  assumes "ctl_of (ch_ops chunk ! s) = C_Break t" "s \<noteq> e" "capped (cost + ch s) \<le> w" "bk"
  shows "cbounds chunk ch s e cost w ft bk"
  using assms capped_mono [of cost "cost + ch s"]
  by (auto simp: cbounds_def dest!: rexec_break_inv)

section \<open>Blocks\<close>

text \<open>
  A run that dispatches \<open>s\<close> and then a run \<open>tr1\<close> of a block costed at \<open>b\<close>, stopping there; and one
  that goes on after the block.
\<close>

lemma stop_charge:
  assumes "capped (path_sum ch tr1) \<le> b"
    and "capped (cost + ch s + b) \<le> w"
  shows "capped (cost + path_sum ch (s # tr1)) \<le> w"
proof -
  have "capped (path_sum ch tr1) \<le> capped b" using capped_mono [OF assms(1)] by simp
  from capped_add_le [OF order_refl this, of "cost + ch s"] assms(2)
  show ?thesis by (simp add: add.assoc)
qed

lemma go_on_charge:
  assumes "capped (path_sum ch tr1) \<le> b"
    and "capped ((cost + ch s + b) + path_sum ch tr2) \<le> w"
  shows "capped (cost + path_sum ch (s # tr1 @ tr2)) \<le> w"
  using stop_charge [of ch, OF assms(1), of "cost + path_sum ch tr2" s w] assms(2)
  by (simp add: ac_simps)

lemma cbounds_if:
  assumes body: "cbounds chunk ch (Suc s) t 0 w1 f1 k1"
    and rest: "cbounds chunk ch t e (cost + ch s + w1) w ft bk"
    and c: "ctl_of (ch_ops chunk ! s) = C_If t" "else_target (ch_ops chunk) t = None" "s \<noteq> e"
    and brs: "k1 \<Longrightarrow> bk"
  shows "cbounds chunk ch s e cost w ft bk"
proof (rule cboundsI)
  note start = cbounds_start [OF rest]
  fix tr oc assume "bounded_run chunk s e tr oc"
  from this c show "capped (cost + path_sum ch tr) \<le> w
     \<and> (oc = Fall \<longrightarrow> ft) \<and> (oc = Brk \<longrightarrow> bk)"
  proof (cases rule: rexec_if_inv)
    case start
    then show ?thesis
      using cbounds_start [OF rest] capped_mono [of cost "cost + ch s + w1"] by simp
  next
    case (stop tr1 oc1)
    then show ?thesis
      using cboundsD [OF body stop(2)] brs stop_charge [of ch, OF _ cbounds_start [OF rest]] by auto
  next
    case (thn tr1 tr2)
    then show ?thesis
      using cboundsD [OF body thn(2)] cboundsD [OF rest thn(3)] go_on_charge [of ch tr1 "w1"] by simp
  next
    case (skip tr2)
    then show ?thesis
      using cboundsD [OF rest skip(2)] go_on_charge [of ch "[]" "w1"] by (simp add: capped_def)
  qed
qed

lemma cbounds_ifelse:
  assumes thn: "cbounds chunk ch (Suc s) m 0 w1 f1 k1" and els: "cbounds chunk ch (Suc m) q 0 w2 f2 k2"
    and rest: "f1 \<or> f2 \<Longrightarrow>
      cbounds chunk ch q e (cost + ch s + b) w ft bk"
    and b: "capped (w1 + ch m) \<le> b" "w2 \<le> b"
    and w: "capped (cost + ch s + b) \<le> w"
    and c: "ctl_of (ch_ops chunk ! s) = C_If (Suc m)" "else_target (ch_ops chunk) (Suc m) = Some q" "s \<noteq> e"
    and brs: "k1 \<or> k2 \<Longrightarrow> bk"
  shows "cbounds chunk ch s e cost w ft bk"
proof (rule cboundsI)
  have tm: "capped (path_sum ch (tr1 @ [m])) \<le> b"
    if "bounded_run chunk (Suc s) m tr1 oc" for tr1 oc
    using cboundsD [OF thn that] capped_add_le [of "path_sum ch tr1" "w1"
        "ch m" "ch m"] capped_mono b(1) by fastforce
  have t1: "capped (path_sum ch tr1) \<le> b" if "bounded_run chunk (Suc s) m tr1 oc" for tr1 oc
    using tm [OF that] capped_mono [of "path_sum ch tr1" "path_sum ch (tr1 @ [m])"] by simp
  have t2: "capped (path_sum ch tr1) \<le> b" if "bounded_run chunk (Suc m) q tr1 oc" for tr1 oc
    using cboundsD [OF els that] b(2) by simp
  fix tr oc assume "bounded_run chunk s e tr oc"
  from this c show "capped (cost + path_sum ch tr) \<le> w
     \<and> (oc = Fall \<longrightarrow> ft) \<and> (oc = Brk \<longrightarrow> bk)"
  proof (cases rule: rexec_ifelse_inv)
    case start
    then show ?thesis using w capped_mono [of cost "cost + ch s + b"] by simp
  next
    case (tstop tr1 oc1)
    then show ?thesis using cboundsD [OF thn tstop(2)] brs stop_charge [of ch, OF t1 [OF tstop(2)] w] by auto
  next
    case (estop tr1 oc1)
    then show ?thesis using cboundsD [OF els estop(2)] brs stop_charge [of ch, OF t2 [OF estop(2)] w] by auto
  next
    case (thn tr1 tr2)
    have ft: "f1" using cboundsD [OF \<open>cbounds chunk ch (Suc s) m 0 w1 f1 k1\<close> thn(2)] by simp
    note r = cboundsD [OF rest [OF disjI1 [OF ft]] thn(3)]
    from r go_on_charge [of ch, OF tm [OF thn(2)], of cost s tr2] thn(1) show ?thesis by simp
  next
    case (els tr1 tr2)
    have ft: "f2" using cboundsD [OF \<open>cbounds chunk ch (Suc m) q 0 w2 f2 k2\<close> els(2)] by simp
    note r = cboundsD [OF rest [OF disjI2 [OF ft]] els(3)]
    from r go_on_charge [of ch, OF t2 [OF els(2)], of cost s tr2] els(1) show ?thesis by simp
  qed
qed

text \<open>The passes of a loop.\<close>

lemma passes_charge:
  assumes body: "cbounds chunk ch (Suc s) b 0 w1 f1 k1"
  shows "lexec (ch_ops chunk) (within_bound chunk) s (Suc b) k fin tr oc \<Longrightarrow>
     capped (path_sum ch tr)
       \<le> capped (k * (w1 + ch b) + path_sum ch fin)
   \<and> (0 < k \<longrightarrow> f1)"
proof (induction k arbitrary: tr)
  case 0
  then show ?case by (auto dest: lexec_0_inv)
next
  case (Suc k)
  then obtain tr1 tr2 where t: "tr = tr1 @ b # tr2" "bounded_run chunk (Suc s) b tr1 Fall"
    "lexec (ch_ops chunk) (within_bound chunk) s (Suc b) k fin tr2 oc" by (auto dest!: lexec_Suc_inv)
  let ?B = "w1 + ch b"
  have "capped (path_sum ch tr1 + ch b) \<le> capped ?B"
    using cboundsD [OF body t(2)] capped_mono by (intro capped_add_le) fastforce+
  from capped_add_le [OF this, of "path_sum ch tr2"] Suc.IH [OF t(3)]
  have "capped (path_sum ch tr) \<le> capped (?B + (k * ?B + path_sum ch fin))"
    using t(1) by (simp add: add.assoc)
  with cboundsD [OF body t(2)] show ?case by (simp add: ac_simps)
qed

lemma cbounds_loop:
  assumes body: "cbounds chunk ch (Suc s) b 0 w1 f1 lk"
    and passes: "\<And>k fin oc'. within_bound chunk s k fin \<Longrightarrow> bounded_run chunk (Suc s) b fin oc' \<Longrightarrow>
      0 < k \<longrightarrow> f1 \<Longrightarrow>
      capped (k * (w1 + ch b) + path_sum ch fin) \<le> bd"
    and rest: "lk \<Longrightarrow> cbounds chunk ch (Suc b) e (cost + ch s + bd) w ft bk"
    and w: "capped (cost + ch s + bd) \<le> w"
    and c: "ctl_of (ch_ops chunk ! s) = C_Loop (Suc b)" "s \<noteq> e"
  shows "cbounds chunk ch s e cost w ft bk"
proof (rule cboundsI)
  have pc: "capped (path_sum ch u) \<le> bd"
    if l: "lexec (ch_ops chunk) (within_bound chunk) s (Suc b) k fin u oc'" "within_bound chunk s k fin" for k fin u oc'
  proof -
    obtain oc1 where "bounded_run chunk (Suc s) b fin oc1" using lexec_last [OF l(1)] by auto
    from passes [OF l(2) this] passes_charge [OF body l(1)] show ?thesis by simp
  qed
  fix tr oc assume "bounded_run chunk s e tr oc"
  from this c show "capped (cost + path_sum ch tr) \<le> w
     \<and> (oc = Fall \<longrightarrow> ft) \<and> (oc = Brk \<longrightarrow> bk)"
  proof (cases rule: rexec_loop_inv)
    case start
    then show ?thesis using w capped_mono [of cost "cost + ch s + bd"] by simp
  next
    case (stop tr1 k fin)
    then show ?thesis using stop_charge [of ch, OF pc [OF stop(2,3)] w] by simp
  next
    case (leave tr1 tr2 k fin)
    obtain oc1 where "bounded_run chunk (Suc s) b fin oc1" "oc1 = Brk"
      using lexec_last [OF leave(2)] by (auto simp: stopped_def split: if_splits)
    with cboundsD [OF body] have "lk" by blast
    from cboundsD [OF rest [OF this] leave(4)] go_on_charge [of ch, OF pc [OF leave(2,3)], of cost s tr2] leave(1)
    show ?thesis by simp
  qed
qed

text \<open>
  A loop with an extracted bound starts with the four-instruction header, whose break records the
  cost of the header.
\<close>

lemma bound_header:
  assumes "extract_loop_iteration_bound chunk s = Some n"
  obtains v w t where "s + 4 < length (ch_ops chunk)"
    "ch_ops chunk ! (s + 1) = GetLocal v" "ch_ops chunk ! (s + 2) = GetLocal w" "ch_ops chunk ! (s + 3) = CmpGe"
    "ctl_of (ch_ops chunk ! (s + 4)) = C_BreakIf t" "loop_body_advances_induction chunk s v w"
proof -
  obtain v where v: "ch_ops chunk ! (s + 1) = GetLocal v"
    using assms unfolding extract_loop_iteration_bound_def Let_def
    by (cases "ch_ops chunk ! (s + 1)") (simp_all split: if_splits)
  obtain w where w: "ch_ops chunk ! (s + 2) = GetLocal w"
    using assms v unfolding extract_loop_iteration_bound_def Let_def
    by (cases "ch_ops chunk ! (s + 2)") (simp_all split: if_splits)
  obtain t where t: "ctl_of (ch_ops chunk ! (s + 4)) = C_BreakIf t"
    using assms v w unfolding extract_loop_iteration_bound_def Let_def
    by (cases "ctl_of (ch_ops chunk ! (s + 4))") (simp_all split: if_splits)
  show thesis
  proof (rule that)
    show "s + 4 < length (ch_ops chunk)" "ch_ops chunk ! (s + 3) = CmpGe" "loop_body_advances_induction chunk s v w"
      using assms v w t by (auto simp: extract_loop_iteration_bound_def Let_def bind_eq_Some_conv split: if_splits)
  qed (use v w t in auto)
qed

lemma bound_body:
  assumes "extract_loop_iteration_bound chunk s = Some n" "ctl_of (ch_ops chunk ! s) = C_Loop (Suc b)"
  shows "s + 4 < b"
proof -
  obtain v w where "loop_body_advances_induction chunk s v w" using bound_header [OF assms(1)] by metis
  with assms(2) show ?thesis by (auto simp: loop_body_advances_induction_def Let_def split: if_splits option.splits)
qed

text \<open>A straight run of linear instructions.\<close>

lemma run_linear:
  "rexec ops ok (s + n) e tr oc \<Longrightarrow> s + n \<le> e \<Longrightarrow> list_all (\<lambda>i. ctl_linear (ctl_of (ops ! i))) [s..<s + n] \<Longrightarrow>
     rexec ops ok s e ([s..<s + n] @ tr) oc"
proof (induction n arbitrary: s)
  case (Suc n)
  have eq: "[s..<s + Suc n] = s # [Suc s..<Suc s + n]" using upt_conv_Cons [of s "s + Suc n"] by simp
  from Suc.prems(3) [unfolded eq] have "ctl_linear (ctl_of (ops ! s))"
    "list_all (\<lambda>i. ctl_linear (ctl_of (ops ! i))) [Suc s..<Suc s + n]" by (simp_all del: upt_Suc)
  with Suc.IH [of "Suc s"] Suc.prems(1,2) have "rexec ops ok s e (s # [Suc s..<Suc s + n] @ tr) oc"
    by (intro rx_lin) (simp_all del: upt_Suc)
  then show ?case by (simp only: eq append_Cons)
qed simp

end
