(* ===== verification/Wcet.thy ===== *)
theory Wcet
  imports Run_Charges
begin

text \<open>
  Soundness of the worst-case execution time walk on structured code: the cost it reports for a
  region bounds what every run of the region is charged (\<open>Run_Charges\<close>).
\<close>

section \<open>Charges\<close>

definition op_charge :: "chunk \<Rightarrow> cost_model \<Rightarrow> nat list \<Rightarrow> nat \<Rightarrow> nat" where
  "op_charge chunk cm wcet_extra ip =
     cycles cm (ch_ops chunk ! ip) + (case nth_opt wcet_extra ip of Some e \<Rightarrow> e | None \<Rightarrow> 0)"

abbreviation path_charge :: "chunk \<Rightarrow> cost_model \<Rightarrow> nat list \<Rightarrow> nat list \<Rightarrow> nat" where
  "path_charge chunk cm wcet_extra \<equiv> path_sum (op_charge chunk cm wcet_extra)"

lemma op_wcet_cycles_charge: "op_wcet_cycles chunk ip cm wx = Inr c \<Longrightarrow> c = capped (op_charge chunk cm wx ip)"
  by (auto simp: op_wcet_cycles_def op_charge_def Let_def sat_add_capped split: if_splits)

abbreviation wbounds ::
  "chunk \<Rightarrow> cost_model \<Rightarrow> nat list \<Rightarrow> nat \<Rightarrow> nat \<Rightarrow> nat \<Rightarrow> wcet_outcome \<Rightarrow> nat list \<Rightarrow> bool" where
  "wbounds chunk cm wx s e cost out brs \<equiv>
     cbounds chunk (op_charge chunk cm wx) s e cost (wo_cost out) (wo_falls_through out) (brs \<noteq> [])"

section \<open>The walk bounds every run\<close>

definition wcet_walk_sound :: "chunk \<Rightarrow> cost_model \<Rightarrow> nat list \<Rightarrow> nat \<Rightarrow> nat \<Rightarrow> nat \<Rightarrow> bool" where
  "wcet_walk_sound chunk cm wx d s e \<longleftrightarrow>
     (\<forall>fuel cost brs out brs'.
        wcet_region_at fuel chunk s e cost brs cm False wx d = Some (Inr (out, brs')) \<longrightarrow>
        (\<exists>new. brs' = brs @ new \<and> wbounds chunk cm wx s e cost out new))"

lemma wcet_walk_soundD:
  assumes "wcet_walk_sound chunk cm wx d s e" "wcet_region_at fuel chunk s e cost brs cm False wx d = Some (Inr (out, brs'))"
  obtains new where "brs' = brs @ new" "wbounds chunk cm wx s e cost out new"
  using assms unfolding wcet_walk_sound_def by blast

lemma wcet_walk_soundI:
  assumes "\<And>fuel cost brs out brs'.
     wcet_region_at (Suc fuel) chunk s e cost brs cm False wx d = Some (Inr (out, brs')) \<Longrightarrow>
     \<exists>new. brs' = brs @ new \<and> wbounds chunk cm wx s e cost out new"
  shows "wcet_walk_sound chunk cm wx d s e"
  unfolding wcet_walk_sound_def
proof (intro allI impI)
  fix fuel cost brs out brs'
  assume "wcet_region_at fuel chunk s e cost brs cm False wx d = Some (Inr (out, brs'))"
  with assms show "\<exists>new. brs' = brs @ new \<and> wbounds chunk cm wx s e cost out new" by (cases fuel) auto
qed

lemma wcet_walk_nil:
  assumes "d \<le> MAX_REGION_DEPTH"
  shows "wcet_walk_sound chunk cm wx d s s"
  using assms
  by (intro wcet_walk_soundI) (auto simp: wcet_region_at.simps(2) intro!: cbounds_nil capped_le_self)

lemma wcet_walk_charge:
  assumes "s < e" "e \<le> length (ch_ops chunk)" "d \<le> MAX_REGION_DEPTH"
    and "wcet_region_at (Suc fuel) chunk s e cost brs cm clamp wx d = Some (Inr r)"
  shows "op_wcet_cycles chunk s cm wx = Inr (capped (op_charge chunk cm wx s))"
proof (cases "op_wcet_cycles chunk s cm wx")
  case (Inl err)
  with assms show ?thesis by (simp add: wcet_region_at.simps(2))
next
  case (Inr c)
  with op_wcet_cycles_charge [OF Inr] show ?thesis by simp
qed

lemma wcet_walk_step:
  assumes "s < e" "e \<le> length (ch_ops chunk)" "d \<le> MAX_REGION_DEPTH"
    and "wcet_region_at (Suc fuel) chunk s e cost brs cm False wx d = Some (Inr (out, brs'))"
  shows "ctl_linear (ctl_of (ch_ops chunk ! s)) \<or> ctl_of (ch_ops chunk ! s) = C_Reset \<Longrightarrow>
         wcet_region_at fuel chunk (Suc s) e (sat_add cost (capped (op_charge chunk cm wx s))) brs cm False wx d
           = Some (Inr (out, brs'))"
    and "ctl_of (ch_ops chunk ! s) = C_Return \<or> ctl_of (ch_ops chunk ! s) = C_Trap \<Longrightarrow>
         brs' = brs \<and> out = wcet_exits (sat_add cost (capped (op_charge chunk cm wx s)))"
    and "ctl_of (ch_ops chunk ! s) = C_Break t \<Longrightarrow>
         brs' = brs @ [wo_cost out] \<and> out = wcet_exits (sat_add cost (capped (op_charge chunk cm wx s)))"
    and "ctl_of (ch_ops chunk ! s) = C_BreakIf t \<Longrightarrow>
         wcet_region_at fuel chunk (Suc s) e (sat_add cost (capped (op_charge chunk cm wx s)))
           (brs @ [sat_add cost (capped (op_charge chunk cm wx s))]) cm False wx d = Some (Inr (out, brs'))"
  using assms(1-3) assms(4) [unfolded wcet_region_at.simps(2) wcet_walk_charge [OF assms]]
  by (cases "ctl_of (ch_ops chunk ! s)"; auto simp: wcet_exits_def)+

lemma wcet_walk_lin:
  assumes rest: "wcet_walk_sound chunk cm wx d (Suc s) e"
    and lt: "s < e" "e \<le> length (ch_ops chunk)" "d \<le> MAX_REGION_DEPTH"
    and c: "ctl_linear (ctl_of (ch_ops chunk ! s)) \<or> ctl_exits (ctl_of (ch_ops chunk ! s))"
  shows "wcet_walk_sound chunk cm wx d s e"
proof (rule wcet_walk_soundI)
  fix fuel cost brs out brs'
  assume w: "wcet_region_at (Suc fuel) chunk s e cost brs cm False wx d = Some (Inr (out, brs'))"
  note step = wcet_walk_step [OF lt w]
  from c consider "ctl_linear (ctl_of (ch_ops chunk ! s)) \<or> ctl_of (ch_ops chunk ! s) = C_Reset"
    | "ctl_of (ch_ops chunk ! s) = C_Return \<or> ctl_of (ch_ops chunk ! s) = C_Trap"
    by (cases "ctl_of (ch_ops chunk ! s)") auto
  then show "\<exists>new. brs' = brs @ new \<and> wbounds chunk cm wx s e cost out new"
  proof cases
    case 1
    then have "wcet_region_at fuel chunk (Suc s) e (sat_add cost (capped (op_charge chunk cm wx s))) brs cm False wx d
           = Some (Inr (out, brs'))" using step by blast
    from wcet_walk_soundD [OF rest this] obtain new where n: "brs' = brs @ new"
      "wbounds chunk cm wx (Suc s) e (sat_add cost (capped (op_charge chunk cm wx s))) out new" .
    from c lt have "wbounds chunk cm wx s e cost out new"
      by (intro cbounds_step [OF n(2)]) (auto simp: sat_add_capped)
    with n show ?thesis by blast
  next
    case 2
    then have "brs' = brs \<and> out = wcet_exits (sat_add cost (capped (op_charge chunk cm wx s)))" using step by blast
    with 2 lt show ?thesis by (auto simp: wcet_exits_def sat_add_capped intro!: cbounds_exit)
  qed
qed

lemma wcet_walk_break:
  assumes rest: "wcet_walk_sound chunk cm wx d (Suc s) e"
    and lt: "s < e" "e \<le> length (ch_ops chunk)" "d \<le> MAX_REGION_DEPTH"
    and c: "ctl_of (ch_ops chunk ! s) = C_Break t \<or> ctl_of (ch_ops chunk ! s) = C_BreakIf t"
  shows "wcet_walk_sound chunk cm wx d s e"
proof (rule wcet_walk_soundI)
  fix fuel cost brs out brs'
  assume w: "wcet_region_at (Suc fuel) chunk s e cost brs cm False wx d = Some (Inr (out, brs'))"
  note step = wcet_walk_step [OF lt w]
  let ?c = "sat_add cost (capped (op_charge chunk cm wx s))"
  from c show "\<exists>new. brs' = brs @ new \<and> wbounds chunk cm wx s e cost out new"
  proof
    assume c: "ctl_of (ch_ops chunk ! s) = C_Break t"
    then have "brs' = brs @ [wo_cost out] \<and> out = wcet_exits ?c" using step by blast
    with c lt show ?thesis by (auto simp: wcet_exits_def sat_add_capped intro!: cbounds_break)
  next
    assume c: "ctl_of (ch_ops chunk ! s) = C_BreakIf t"
    then have "wcet_region_at fuel chunk (Suc s) e ?c (brs @ [?c]) cm False wx d = Some (Inr (out, brs'))"
      using step by blast
    from wcet_walk_soundD [OF rest this] obtain new where n: "brs' = (brs @ [?c]) @ new"
      "wbounds chunk cm wx (Suc s) e ?c out new" .
    have "wbounds chunk cm wx (Suc s) e ?c out (?c # new)" by (rule cbounds_mono [OF n(2)]) auto
    then have "wbounds chunk cm wx s e cost out (?c # new)"
      using c lt by (intro cbounds_step [where t = t and s = s]) (auto simp: sat_add_capped)
    with n show ?thesis by auto
  qed
qed

lemma wcet_walk_if:
  assumes body: "wcet_walk_sound chunk cm wx (Suc d) (Suc s) t" and rest: "wcet_walk_sound chunk cm wx d (Suc t) e"
    and lt: "s < e" "e \<le> length (ch_ops chunk)" "d \<le> MAX_REGION_DEPTH" and t: "t < e"
    and c: "ctl_of (ch_ops chunk ! s) = C_If t" "else_target (ch_ops chunk) t = None" "ctl_of (ch_ops chunk ! t) = C_EndIf"
  shows "wcet_walk_sound chunk cm wx d s e"
proof (rule wcet_walk_soundI)
  fix fuel cost brs out brs'
  assume w: "wcet_region_at (Suc fuel) chunk s e cost brs cm False wx d = Some (Inr (out, brs'))"
  let ?c = "sat_add cost (capped (op_charge chunk cm wx s))"
  from w [unfolded wcet_region_at.simps(2) wcet_walk_charge [OF lt w]] lt t c
  obtain out1 brs1 e_op where
      w1: "wcet_region_at fuel chunk (Suc s) t 0 brs cm False wx (Suc d) = Some (Inr (out1, brs1))"
    and e_op: "op_wcet_cycles chunk t cm wx = Inr e_op"
    and w2: "wcet_region_at fuel chunk (Suc t) e (sat_add (sat_add ?c (wo_cost out1)) e_op) brs1 cm False wx d
               = Some (Inr (out, brs'))"
    by (auto simp: bindOR_Some_Inr op_wcet_cycles_at_def)
  obtain n1 where n1: "brs1 = brs @ n1" "wbounds chunk cm wx (Suc s) t 0 out1 n1" using wcet_walk_soundD [OF body w1] .
  obtain n2 where n2: "brs' = brs1 @ n2"
    "wbounds chunk cm wx (Suc t) e (sat_add (sat_add ?c (wo_cost out1)) e_op) out n2" using wcet_walk_soundD [OF rest w2] .
  have "wbounds chunk cm wx t e (cost + op_charge chunk cm wx s + wo_cost out1) out n2"
    using c t op_wcet_cycles_charge [OF e_op]
    by (intro cbounds_step [OF n2(2)]) (auto simp: sat_add_capped)
  then have "wbounds chunk cm wx t e (cost + op_charge chunk cm wx s + wo_cost out1) out (n1 @ n2)"
    by (rule cbounds_mono) auto
  from cbounds_if [OF n1(2) this c(1,2)] lt have "wbounds chunk cm wx s e cost out (n1 @ n2)" by simp
  with n1 n2 show "\<exists>new. brs' = brs @ new \<and> wbounds chunk cm wx s e cost out new" by auto
qed

lemma wcet_walk_ifelse:
  assumes thn: "wcet_walk_sound chunk cm wx (Suc d) (Suc s) m" and els: "wcet_walk_sound chunk cm wx (Suc d) (Suc m) q"
    and rest: "wcet_walk_sound chunk cm wx d (Suc q) e"
    and lt: "s < e" "e \<le> length (ch_ops chunk)" "d \<le> MAX_REGION_DEPTH" and q: "q < e"
    and c: "ctl_of (ch_ops chunk ! s) = C_If (Suc m)" "else_target (ch_ops chunk) (Suc m) = Some q"
      "ctl_of (ch_ops chunk ! q) = C_EndIf"
  shows "wcet_walk_sound chunk cm wx d s e"
proof (rule wcet_walk_soundI)
  fix fuel cost brs out brs'
  assume w: "wcet_region_at (Suc fuel) chunk s e cost brs cm False wx d = Some (Inr (out, brs'))"
  let ?c = "sat_add cost (capped (op_charge chunk cm wx s))"
  from w [unfolded wcet_region_at.simps(2) wcet_walk_charge [OF lt w]] lt q c
  obtain out1 brs1 out2 brs2 l_op e_op where
      w1: "wcet_region_at fuel chunk (Suc s) m 0 brs cm False wx (Suc d) = Some (Inr (out1, brs1))"
    and w2: "wcet_region_at fuel chunk (Suc m) q 0 brs1 cm False wx (Suc d) = Some (Inr (out2, brs2))"
    and l_op: "op_wcet_cycles chunk m cm wx = Inr l_op" and e_op: "op_wcet_cycles chunk q cm wx = Inr e_op"
    and w3: "if \<not> wo_falls_through out1 \<and> \<not> wo_falls_through out2
             then out = wcet_exits (sat_add (wcet_else_join ?c (wo_cost out1) l_op (wo_cost out2)) e_op) \<and> brs' = brs2
             else wcet_region_at fuel chunk (Suc q) e (sat_add (wcet_else_join ?c (wo_cost out1) l_op (wo_cost out2)) e_op)
                    brs2 cm False wx d = Some (Inr (out, brs'))"
    by (auto simp: bindOR_Some_Inr op_wcet_cycles_at_def Let_def split: if_splits)
  let ?b = "max (sat_add (wo_cost out1) l_op) (wo_cost out2)"
  have join: "wcet_else_join ?c (wo_cost out1) l_op (wo_cost out2) = capped (cost + op_charge chunk cm wx s + ?b)"
    by (simp add: wcet_else_join_def sat_add_capped Let_def max_def)
  note lc = op_wcet_cycles_charge [OF l_op] and ec = op_wcet_cycles_charge [OF e_op]
  obtain n1 where n1: "brs1 = brs @ n1" "wbounds chunk cm wx (Suc s) m 0 out1 n1" using wcet_walk_soundD [OF thn w1] .
  obtain n2 where n2: "brs2 = brs1 @ n2" "wbounds chunk cm wx (Suc m) q 0 out2 n2" using wcet_walk_soundD [OF els w2] .
  have "\<exists>n3. brs' = brs2 @ n3 \<and> capped (cost + op_charge chunk cm wx s + ?b) \<le> wo_cost out
      \<and> (wo_falls_through out1 \<or> wo_falls_through out2 \<longrightarrow>
           wbounds chunk cm wx q e (cost + op_charge chunk cm wx s + ?b) out n3)"
  proof (cases "wo_falls_through out1 \<or> wo_falls_through out2")
    case False
    with w3 join show ?thesis by (auto simp: wcet_exits_def sat_add_capped intro: capped_mono)
  next
    case True
    with w3 join obtain n3 where n3: "brs' = brs2 @ n3"
      "wbounds chunk cm wx (Suc q) e (sat_add (capped (cost + op_charge chunk cm wx s + ?b)) e_op) out n3"
      using wcet_walk_soundD [OF rest] by (metis (no_types, lifting))
    have "wbounds chunk cm wx q e (cost + op_charge chunk cm wx s + ?b) out n3"
      using c q ec by (intro cbounds_step [OF n3(2)]) (auto simp: sat_add_capped)
    with n3(1) cbounds_start [OF this] show ?thesis by blast
  qed
  then obtain n3 where n3: "brs' = brs2 @ n3" "capped (cost + op_charge chunk cm wx s + ?b) \<le> wo_cost out"
    "wo_falls_through out1 \<or> wo_falls_through out2 \<Longrightarrow>
       wbounds chunk cm wx q e (cost + op_charge chunk cm wx s + ?b) out n3" by blast
  have "wbounds chunk cm wx s e cost out (n1 @ n2 @ n3)"
  proof (rule cbounds_ifelse [OF n1(2) n2(2) _ _ _ n3(2) c(1,2)])
    show "wbounds chunk cm wx q e (cost + op_charge chunk cm wx s + ?b) out (n1 @ n2 @ n3)"
      if "wo_falls_through out1 \<or> wo_falls_through out2" using n3(3) [OF that] by (rule cbounds_mono) auto
    show "capped (wo_cost out1 + op_charge chunk cm wx m) \<le> ?b" using lc by (simp add: sat_add_capped)
  qed (use lt in auto)
  with n1 n2 n3 show "\<exists>new. brs' = brs @ new \<and> wbounds chunk cm wx s e cost out new" by auto
qed

lemma walk_keeps_breaks:
  "wcet_region_at fuel chunk s e cost brs cm clamp wx d = Some (Inr (out, brs')) \<Longrightarrow> set brs \<subseteq> set brs'"
proof (induction fuel arbitrary: s e cost brs d out brs')
  case 0
  then show ?case by simp
next
  case (Suc fuel)
  show ?case
  proof (cases "d > MAX_REGION_DEPTH \<or> \<not> s < min e (length (ch_ops chunk))")
    case True
    then consider "d > MAX_REGION_DEPTH" | "\<not> d > MAX_REGION_DEPTH" "\<not> s < min e (length (ch_ops chunk))" by blast
    then show ?thesis
      using Suc.prems unfolding wcet_region_at.simps(2) by cases (simp_all only: if_True if_False, auto)
  next
    case False
    then have True: "\<not> d > MAX_REGION_DEPTH" "s < min e (length (ch_ops chunk))" by auto
    then obtain c where c: "op_wcet_cycles chunk s cm wx = Inr c"
      using Suc.prems by (cases "op_wcet_cycles chunk s cm wx") (simp_all add: wcet_region_at.simps(2))
    from Suc.prems True c show ?thesis unfolding wcet_region_at.simps(2)
      by (cases "ctl_of (ch_ops chunk ! s)")
        (auto simp: bindOR_Some_Inr bind_eq_Some_conv Let_def split: option.splits if_splits dest!: Suc.IH)
  qed
qed

lemma header_recorded:
  assumes n: "extract_loop_iteration_bound chunk s = Some n" and c: "ctl_of (ch_ops chunk ! s) = C_Loop (Suc b)"
    and lt: "b \<le> length (ch_ops chunk)" "d \<le> MAX_REGION_DEPTH"
    and w: "wcet_region_at fuel chunk (Suc s) b 0 [] cm False wx d = Some (Inr (out, brs))"
  shows "capped (path_charge chunk cm wx [s + 1, s + 2, s + 3, s + 4]) \<in> set brs"
proof -
  obtain v w t where h: "ch_ops chunk ! (s + 1) = GetLocal v" "ch_ops chunk ! (s + 2) = GetLocal w"
    "ch_ops chunk ! (s + 3) = CmpGe" "ctl_of (ch_ops chunk ! (s + 4)) = C_BreakIf t" using bound_header [OF n] by metis
  note b = bound_body [OF n c]
  have step: "\<exists>f'. wcet_region_at f' chunk (Suc i) b (capped (a + op_charge chunk cm wx i)) [] cm False wx d = Some (Inr (out, brs))"
    if "wcet_region_at f chunk i b (capped a) [] cm False wx d = Some (Inr (out, brs))" "i < b"
      "ctl_of (ch_ops chunk ! i) = C_Other" for f i a
  proof (cases f)
    case (Suc f')
    with that wcet_walk_step(1) [OF that(2) lt that(1) [unfolded Suc]] show ?thesis by (auto simp: sat_add_capped)
  qed (use that in simp)
  have w0: "wcet_region_at fuel chunk (s + 1) b (capped 0) [] cm False wx d = Some (Inr (out, brs))"
    using w by (simp add: capped_def)
  obtain f1 where w1: "wcet_region_at f1 chunk (s + 2) b (capped (0 + op_charge chunk cm wx (s + 1))) [] cm False wx d
      = Some (Inr (out, brs))" using step [OF w0] b h by auto
  obtain f2 where w2: "wcet_region_at f2 chunk (s + 3) b
      (capped (0 + op_charge chunk cm wx (s + 1) + op_charge chunk cm wx (s + 2))) [] cm False wx d
      = Some (Inr (out, brs))" using step [OF w1] b h by (auto simp: eval_nat_numeral)
  obtain f3 where w3: "wcet_region_at f3 chunk (s + 4) b
      (capped (0 + op_charge chunk cm wx (s + 1) + op_charge chunk cm wx (s + 2) + op_charge chunk cm wx (s + 3))) []
      cm False wx d = Some (Inr (out, brs))" using step [OF w2] b h by (auto simp: eval_nat_numeral)
  then obtain f4 where f3: "f3 = Suc f4" by (cases f3) auto
  from walk_keeps_breaks [OF wcet_walk_step(4) [OF b lt w3 [unfolded f3] h(4)]] show ?thesis
    by (simp add: sat_add_capped add.assoc)
qed

text \<open>What the passes of a loop are charged, for each way the walk costs it.\<close>

lemma one_pass_charge:
  assumes "\<not> wo_falls_through out1" "0 < k \<longrightarrow> wo_falls_through out1"
    and "capped (path_charge chunk cm wx fin) \<le> wo_cost out1"
  shows "capped (k * x + path_charge chunk cm wx fin) \<le> wo_cost out1"
  using assms by simp

lemma counted_passes_charge:
  assumes n: "extract_loop_iteration_bound chunk s = Some n" and k: "within_bound chunk s k fin"
    and fin: "capped (path_charge chunk cm wx fin) \<le> wo_cost out1"
    and h: "capped (path_charge chunk cm wx [s + 1, s + 2, s + 3, s + 4]) \<le> mb"
  shows "capped (k * (wo_cost out1 + op_charge chunk cm wx b) + path_charge chunk cm wx fin)
     \<le> capped ((wo_cost out1 + op_charge chunk cm wx b) * n + mb)"
proof -
  let ?B = "wo_cost out1 + op_charge chunk cm wx b"
  from k n consider "k < n" | "k = n" "prefix fin [s + 1, s + 2, s + 3, s + 4]" by (auto simp: within_bound_def)
  then show ?thesis
  proof cases
    case 1
    have "capped (k * ?B + path_charge chunk cm wx fin) \<le> capped (k * ?B + wo_cost out1)"
      using capped_mono [OF fin] by (intro capped_add_le) simp_all
    also have "\<dots> \<le> capped (Suc k * ?B)" by (intro capped_mono) simp
    also have "\<dots> \<le> capped (?B * n + mb)"
      using mult_le_mono2 [of "Suc k" n ?B] 1 by (intro capped_mono) (simp add: mult.commute)
    finally show ?thesis .
  next
    case 2
    have "capped (path_charge chunk cm wx fin) \<le> capped mb"
      using capped_mono [OF path_sum_prefix [OF 2(2)], of "op_charge chunk cm wx"] capped_mono [OF h] by simp
    from capped_add_le [OF order_refl this, of "?B * n"] 2(1) show ?thesis by (simp add: mult.commute)
  qed
qed

text \<open>The bound on the passes that the walk charges for a loop whose walk goes on after it.\<close>

lemma loop_cost_covers:
  assumes i: "wcet_iter_count chunk s (\<not> ft) = Inr n" and el: "wcet_endloop_cost chunk b ft cm wx = Inr el"
    and ft: "ft = wo_falls_through out1"
    and fin: "\<forall>f oc'. bounded_run chunk (Suc s) b f oc' \<longrightarrow> capped (path_charge chunk cm wx f) \<le> wo_cost out1"
    and b: "ctl_of (ch_ops chunk ! b) = C_EndLoop (Suc s)" "b < length (ch_ops chunk)"
    and h: "\<forall>m. extract_loop_iteration_bound chunk s = Some m \<longrightarrow>
      capped (path_charge chunk cm wx [s + 1, s + 2, s + 3, s + 4]) \<in> set lbrs"
  obtains bd where "\<And>k f oc'. within_bound chunk s k f \<Longrightarrow> bounded_run chunk (Suc s) b f oc' \<Longrightarrow>
      0 < k \<longrightarrow> wo_falls_through out1 \<Longrightarrow>
      capped (k * (wo_cost out1 + op_charge chunk cm wx b) + path_charge chunk cm wx f) \<le> bd"
    and "capped (cost + bd) \<le> capped (wcet_loop_cost (capped cost) (\<not> ft) (wo_cost out1) el n lbrs)"
proof (cases ft)
  case False
  with i el have n: "n = 1" "el = 0" by (auto simp: wcet_iter_count_def wcet_endloop_cost_def)
  have "capped (cost + wo_cost out1) \<le> capped (capped cost + max (max_or 0 lbrs) (capped (wo_cost out1)))"
    by (simp add: capped_def)
  with False n have "capped (cost + wo_cost out1) \<le> capped (wcet_loop_cost (capped cost) (\<not> ft) (wo_cost out1) el n lbrs)"
    by (simp add: wcet_loop_cost_def sat_add_capped sat_mul_capped Let_def)
  then show thesis
  proof (rule that [rotated])
    fix k :: nat and f oc' assume r: "bounded_run chunk (Suc s) b f oc'" and k: "0 < k \<longrightarrow> wo_falls_through out1"
    show "capped (k * (wo_cost out1 + op_charge chunk cm wx b) + path_charge chunk cm wx f) \<le> wo_cost out1"
      using False ft by (intro one_pass_charge [OF _ k fin [rule_format, OF r]]) simp
  qed
next
  case True
  with i have n: "extract_loop_iteration_bound chunk s = Some n" by (auto simp: wcet_iter_count_def split: option.splits)
  from True el b have el': "el = capped (op_charge chunk cm wx b)"
    by (auto simp: wcet_endloop_cost_def dest: op_wcet_cycles_charge)
  let ?B = "wo_cost out1 + op_charge chunk cm wx b"
  note mb = max_or_ge [OF h [rule_format, OF n], of 0]
  have "capped (?B * n) \<le> capped (capped ?B * n)"
    by (cases n) (auto simp: capped_def min_def)
  from capped_add_le [OF order_refl capped_add_le [OF this order_refl]]
  have "capped (cost + capped (?B * n + max_or 0 lbrs)) \<le> capped (wcet_loop_cost (capped cost) (\<not> ft) (wo_cost out1) el n lbrs)"
    using True el' by (simp add: wcet_loop_cost_def sat_add_capped sat_mul_capped Let_def)
  then show thesis
  proof (rule that [rotated])
    fix k f oc' assume k: "within_bound chunk s k f" and r: "bounded_run chunk (Suc s) b f oc'"
    show "capped (k * ?B + path_charge chunk cm wx f) \<le> capped (?B * n + max_or 0 lbrs)"
      by (rule counted_passes_charge [OF n k fin [rule_format, OF r] mb])
  qed
qed

lemma wcet_walk_loop:
  assumes body: "wcet_walk_sound chunk cm wx (Suc d) (Suc s) b" and rest: "wcet_walk_sound chunk cm wx d (Suc b) e"
    and lt: "s < e" "e \<le> length (ch_ops chunk)" "d \<le> MAX_REGION_DEPTH" and d: "Suc d \<le> MAX_REGION_DEPTH"
    and b: "b < length (ch_ops chunk)"
    and c: "ctl_of (ch_ops chunk ! s) = C_Loop (Suc b)" "ctl_of (ch_ops chunk ! b) = C_EndLoop (Suc s)"
  shows "wcet_walk_sound chunk cm wx d s e"
proof (rule wcet_walk_soundI)
  fix fuel cost brs out brs'
  assume w: "wcet_region_at (Suc fuel) chunk s e cost brs cm False wx d = Some (Inr (out, brs'))"
  let ?c = "sat_add cost (capped (op_charge chunk cm wx s))"
  from w [unfolded wcet_region_at.simps(2) wcet_walk_charge [OF lt w]] lt c
  obtain out1 lbrs where
      w1: "wcet_region_at fuel chunk (Suc s) b 0 [] cm False wx (Suc d) = Some (Inr (out1, lbrs))"
    and w2: "if lbrs = [] \<and> \<not> wo_falls_through out1 then out = wcet_exits (sat_add ?c (wo_cost out1)) \<and> brs' = brs
             else (\<exists>n el. wcet_iter_count chunk s (\<not> wo_falls_through out1) = Inr n
                    \<and> wcet_endloop_cost chunk b (wo_falls_through out1) cm wx = Inr el
                    \<and> wcet_region_at fuel chunk (Suc b) e
                        (wcet_loop_cost ?c (\<not> wo_falls_through out1) (wo_cost out1) el n lbrs) brs cm False wx d
                      = Some (Inr (out, brs')))"
    by (auto simp: bindOR_Some_Inr wcet_single_pass_def bind_eq_Some_conv split: if_splits)
  have b1: "wbounds chunk cm wx (Suc s) b 0 out1 lbrs" using wcet_walk_soundD [OF body w1] by auto
  have fin: "capped (path_charge chunk cm wx f) \<le> wo_cost out1" if "bounded_run chunk (Suc s) b f oc'" for f oc'
    using cboundsD [OF b1 that] by simp
  then have fin': "\<forall>f oc'. bounded_run chunk (Suc s) b f oc' \<longrightarrow> capped (path_charge chunk cm wx f) \<le> wo_cost out1" by blast
  have header: "\<forall>m. extract_loop_iteration_bound chunk s = Some m \<longrightarrow>
      capped (path_charge chunk cm wx [s + 1, s + 2, s + 3, s + 4]) \<in> set lbrs"
    using header_recorded [OF _ c(1) less_imp_le [OF b] d w1] by blast
  show "\<exists>new. brs' = brs @ new \<and> wbounds chunk cm wx s e cost out new"
  proof (cases "lbrs = [] \<and> \<not> wo_falls_through out1")
    case True
    with w2 have o: "out = wcet_exits (sat_add ?c (wo_cost out1))" "brs' = brs" by auto
    have "wbounds chunk cm wx s e cost out []"
    proof (rule cbounds_loop [OF b1 _ _ _ c(1)])
      fix k :: nat and f oc' assume r: "bounded_run chunk (Suc s) b f oc'" and k: "0 < k \<longrightarrow> wo_falls_through out1"
      show "capped (k * (wo_cost out1 + op_charge chunk cm wx b) + path_charge chunk cm wx f) \<le> wo_cost out1"
        using True by (intro one_pass_charge [OF _ k fin [OF r]]) simp
    qed (use True lt o(1) in \<open>auto simp: wcet_exits_def sat_add_capped\<close>)
    with o(2) show ?thesis by auto
  next
    case False
    then obtain n el where i: "wcet_iter_count chunk s (\<not> wo_falls_through out1) = Inr n"
      and el: "wcet_endloop_cost chunk b (wo_falls_through out1) cm wx = Inr el"
      and w3: "wcet_region_at fuel chunk (Suc b) e
          (wcet_loop_cost ?c (\<not> wo_falls_through out1) (wo_cost out1) el n lbrs) brs cm False wx d = Some (Inr (out, brs'))"
      using w2 by auto
    obtain new where new: "brs' = brs @ new"
      "wbounds chunk cm wx (Suc b) e (wcet_loop_cost ?c (\<not> wo_falls_through out1) (wo_cost out1) el n lbrs) out new"
      using wcet_walk_soundD [OF rest w3] .
    obtain bd where bd: "\<And>k f oc'. within_bound chunk s k f \<Longrightarrow> bounded_run chunk (Suc s) b f oc' \<Longrightarrow>
        0 < k \<longrightarrow> wo_falls_through out1 \<Longrightarrow>
        capped (k * (wo_cost out1 + op_charge chunk cm wx b) + path_charge chunk cm wx f) \<le> bd"
      and cost: "capped (cost + op_charge chunk cm wx s + bd)
        \<le> capped (wcet_loop_cost ?c (\<not> wo_falls_through out1) (wo_cost out1) el n lbrs)"
      using loop_cost_covers [where cost = "cost + op_charge chunk cm wx s", OF i el refl fin' c(2) b header]
      by (auto simp: sat_add_capped)
    have r: "wbounds chunk cm wx (Suc b) e (cost + op_charge chunk cm wx s + bd) out new"
      by (rule cbounds_mono [OF new(2) cost])
    have "wbounds chunk cm wx s e cost out new"
      using lt by (intro cbounds_loop [OF b1 bd r cbounds_start [OF r] c(1)]) auto
    with new(1) show ?thesis by auto
  qed
qed

theorem region_wcet_sound:
  "region (ch_ops chunk) lx d s e \<Longrightarrow> d \<le> MAX_REGION_DEPTH \<Longrightarrow> wcet_walk_sound chunk cm wx d s e"
proof (induction rule: region.induct)
  case (rg_nil s lx d)
  show ?case by (rule wcet_walk_nil [OF rg_nil(2)])
next
  case (rg_lin s lx d e)
  show ?case
    using region_bounds [OF rg_lin(3)] rg_lin(5) by (intro wcet_walk_lin [OF rg_lin.IH _ _ _ rg_lin(2)]) auto
next
  case (rg_break s t lx d e)
  show ?case
    using region_bounds [OF rg_break(4)] rg_break(6) by (intro wcet_walk_break [OF rg_break.IH _ _ _ rg_break(2)]) auto
next
  case (rg_if s t d lx e)
  have "wcet_walk_sound chunk cm wx (Suc d) (Suc s) t" "wcet_walk_sound chunk cm wx d (Suc t) e"
    using rg_if.IH rg_if(3,10) by simp_all
  then show ?case
    by (rule wcet_walk_if [OF _ _ _ _ rg_if(10) _ rg_if(2) else_target_no_else [OF rg_if(4,5,2)] rg_if(6)])
      (use region_bounds [OF rg_if(4)] region_bounds [OF rg_if(7)] in auto)
next
  case (rg_ifelse s m d lx q e)
  have "wcet_walk_sound chunk cm wx (Suc d) (Suc s) m" "wcet_walk_sound chunk cm wx (Suc d) (Suc m) q"
    "wcet_walk_sound chunk cm wx d (Suc q) e"
    using rg_ifelse.IH rg_ifelse(3,14) by simp_all
  then show ?case
    by (rule wcet_walk_ifelse [OF _ _ _ _ _ rg_ifelse(14) _ rg_ifelse(2) else_target_else [OF rg_ifelse(5,6)] rg_ifelse(9)])
      (use region_bounds [OF rg_ifelse(4)] region_bounds [OF rg_ifelse(7)] region_bounds [OF rg_ifelse(10)] in auto)
next
  case (rg_loop s b d lx e)
  have "wcet_walk_sound chunk cm wx (Suc d) (Suc s) b" "wcet_walk_sound chunk cm wx d (Suc b) e"
    using rg_loop.IH rg_loop(3,10) by simp_all
  then show ?case
    by (rule wcet_walk_loop [OF _ _ _ _ rg_loop(10) _ rg_loop(5,2,6)])
      (use region_bounds [OF rg_loop(4)] region_bounds [OF rg_loop(7)] rg_loop(3) in auto)
qed

text \<open>
  The reported cost bounds every run of a structured region in which each loop with an extracted
  bound respects it.
\<close>

theorem wcet_region_bounds_runs:
  assumes "region (ch_ops chunk) None 0 s e" and "wcet_region chunk s e [] cm False wx = Some (Inr (out, brs))"
    and "bounded_run chunk s e tr oc"
  shows "capped (path_charge chunk cm wx tr) \<le> wo_cost out"
proof -
  have "wbounds chunk cm wx s e 0 out brs"
    using wcet_walk_soundD [OF region_wcet_sound [OF assms(1) le0] assms(2) [unfolded wcet_region_def]] by auto
  from cboundsD [OF this assms(3)] show ?thesis by simp
qed

text \<open>
  A chunk with no counted loop: the reported cost bounds every control path from its start.
\<close>

lemma uncounted_runs:
  assumes "\<And>s. extract_loop_iteration_bound chunk s = None"
  shows "within_bound chunk = any_passes"
  using assms by (simp add: fun_eq_iff within_bound_def)

lemma wcet_region_bounds_paths:
  assumes reg: "region (ch_ops chunk) None 0 s (length (ch_ops chunk))"
    and walk: "wcet_region chunk s (length (ch_ops chunk)) [] cm False wx = Some (Inr (out, brs))"
    and unc: "\<And>s. extract_loop_iteration_bound chunk s = None" and path: "fpath (ch_ops chunk) s tr j"
  shows "capped (path_charge chunk cm wx tr) \<le> wo_cost out"
proof -
  note bound = wcet_region_bounds_runs [OF reg walk, unfolded uncounted_runs [OF unc]]
  from region_splits [OF reg path] show ?thesis
  proof (cases rule: splitsE)
    case part
    then show ?thesis by (rule bound)
  next
    case (fall tr1 tr2)
    then have "tr2 = []" by (cases tr2) (auto elim: fpath_ConsE)
    with fall bound [OF fall(2)] show ?thesis by simp
  qed simp
qed

end
