(* ===== verification/Sample_Modules.thy ===== *)
theory Sample_Modules
  imports Verifier_Safety Wcet "HOL-Library.Code_Target_Nat"
begin

text \<open>
  Small concrete modules, in the shape the compiler emits, on which the general theorems are
  instantiated, and hostile ones on which the verifier's answer is evaluated.
\<close>

definition sample_chunk :: "block_type \<Rightarrow> op list \<Rightarrow> chunk" where
  "sample_chunk bt ops = \<lparr> ch_name = ''sample'', ch_ops = ops, ch_constants = [CV_Int 1, CV_Int 3, CV_Int 0],
     ch_struct_templates = [], ch_local_count = 4, ch_param_count = 1, ch_block_type = bt, ch_param_types = [] \<rparr>"

definition sample_module :: "chunk list \<Rightarrow> kmodule" where
  "sample_module cs = \<lparr> m_chunks = cs, m_native_names = [], m_entry_point = Some 0, m_data_layout = None,
     m_word_bits_log2 = 6, m_addr_bits_log2 = 6, m_float_bits_log2 = 6, m_signatures = [],
     m_shared_data_bytes = 0 \<rparr>"

text \<open>A stream that yields on both branches.\<close>

definition branching_stream :: chunk where
  "branching_stream = sample_chunk BT_Stream
     [Stream, GetLocal 0, If_op 6, GetLocal 0, Yield, Else_op 8, GetLocal 1, Yield, EndIf, PopN 1, Reset]"

text \<open>A stream that delegates its yield, and the function it delegates to.\<close>

definition yielding_helper :: chunk where
  "yielding_helper = sample_chunk BT_Reentrant [GetLocal 0, Yield, Return]"

definition delegating_stream :: chunk where
  "delegating_stream = sample_chunk BT_Stream [Stream, GetLocal 0, Call 1 1, PopN 1, Reset]"

text \<open>A helper that can return before it yields; the classification accepts it.\<close>

definition early_return_helper :: chunk where
  "early_return_helper = sample_chunk BT_Reentrant
     [GetLocal 0, If_op 4, GetLocal 0, Return, EndIf, GetLocal 0, Yield, Return]"

text \<open>
  A stream with an \<open>Else\<close> inside a loop that targets an \<open>EndIf\<close> after the loop: the path that takes
  the first branch leaves the loop past its yield.
\<close>

definition skewed_else_stream :: chunk where
  "skewed_else_stream = sample_chunk BT_Stream
     [Stream, Loop 11, GetLocal 0, If_op 5, Else_op 13, EndIf, GetLocal 0, Yield, PopN 1, Break 11, EndLoop 2,
      GetLocal 0, If_op 13, EndIf, Reset]"

text \<open>
  A stream whose \<open>Stream\<close> instruction control never dispatches: a \<open>Break\<close> steps over it.  The first pass
  writes local 1 before it reads it; \<open>Reset\<close> clears the local and goes on after \<open>Stream\<close>.
\<close>

definition skipped_stream :: chunk where
  "skipped_stream = sample_chunk BT_Stream
     [GetLocal 0, SetLocal 1, Loop 6, Break 6, Stream, EndLoop 3, GetLocal 1, Yield, PopN 1, Reset]"

text \<open>A chunk that reads a private slot its callee writes.\<close>

definition data_module :: kmodule where
  "data_module = (sample_module [sample_chunk BT_Stream [Stream, Call 1 0, PopN 1, GetData 0, Yield, PopN 1, Reset],
      sample_chunk BT_Func [Const 0, SetData 0, Const 0, Return]])
     \<lparr> m_data_layout := Some \<lparr> dl_slots = [\<lparr> slot_name = ''state'', slot_visibility = Private \<rparr>],
       dl_shared_layout = [], dl_private_composite_layout = [], dl_private_init = [CV_Unit] \<rparr> \<rparr>"

text \<open>A stream that leaves a loop around its \<open>Stream\<close> and reads a private slot behind it.\<close>

definition skipped_data_module :: kmodule where
  "skipped_data_module = (sample_module [sample_chunk BT_Stream
      [Loop 6, Break 6, Stream, GetData 0, PopN 1, EndLoop 1, GetLocal 0, Yield, PopN 1, Reset]])
     \<lparr> m_data_layout := m_data_layout data_module \<rparr>"

text \<open>
  Two operands that are each computed by a \<open>match\<close> of one arm, in the shape the compiler emits: the arm
  leaves its value on the stack and breaks out of a loop that serves as the frame of the \<open>match\<close>.
\<close>

definition match_operands :: chunk where
  "match_operands = sample_chunk BT_Func
     [Loop 5, GetLocal 0, Break 5, Trap 2, EndLoop 1,
      Loop 10, GetLocal 0, Break 10, Trap 2, EndLoop 6,
      Add, Return]"

text \<open>A stream whose helper builds a flat tuple of eight bytes.\<close>

definition tuple_helper :: chunk where
  "tuple_helper = sample_chunk BT_Func [GetLocal 0, NewComposite (NC_Flat CK_Tuple 1 8), Return]"

definition tuple_stream :: chunk where
  "tuple_stream = sample_chunk BT_Stream [Stream, GetLocal 0, Call 1 1, Yield, PopN 1, Reset]"

text \<open>A counted loop of three passes, in the shape of a compiled \<open>for\<close> loop.\<close>

definition counted_loop :: chunk where
  "counted_loop = sample_chunk BT_Func
     [Const 2, SetLocal 1, Const 1, SetLocal 2,
      Loop 15, GetLocal 1, GetLocal 2, CmpGe, BreakIf 15,
      GetLocal 1, Const 0, CheckedAdd, PopN 2, SetLocal 1, EndLoop 5,
      GetLocal 0, Return]"

text \<open>The complete run of the counted loop: three passes, then the header that leaves it.\<close>

lemma counted_loop_pass:
  "rexec (ch_ops counted_loop) ok 5 14 [5, 6, 7, 8, 9, 10, 11, 12, 13] Fall"
proof -
  have "rexec (ch_ops counted_loop) ok (9 + 5) 14 [] Fall" by (simp add: rx_end)
  then have "rexec (ch_ops counted_loop) ok 9 14 ([9..<9 + 5] @ []) Fall" by (rule run_linear) code_simp+
  then have "rexec (ch_ops counted_loop) ok 9 14 [9, 10, 11, 12, 13] Fall" by (simp add: upt_rec)
  moreover have "ctl_of (ch_ops counted_loop ! 8) = C_BreakIf 15" by code_simp
  ultimately have "rexec (ch_ops counted_loop) ok 8 14 [8, 9, 10, 11, 12, 13] Fall"
    using rx_nobreak [of 8 14 "ch_ops counted_loop" 15] by simp
  then have "rexec (ch_ops counted_loop) ok 5 14 ([5..<5 + 3] @ [8, 9, 10, 11, 12, 13]) Fall"
    by (intro run_linear) (simp, code_simp+)
  then show ?thesis by (simp add: upt_rec)
qed

lemma counted_loop_header: "rexec (ch_ops counted_loop) ok 5 14 [5, 6, 7, 8] Brk"
proof -
  have "ctl_of (ch_ops counted_loop ! 8) = C_BreakIf 15" by code_simp
  then have "rexec (ch_ops counted_loop) ok (5 + 3) 14 [8] Brk" using rx_break [of 8 14] by simp
  then have "rexec (ch_ops counted_loop) ok 5 14 ([5..<5 + 3] @ [8]) Brk" by (rule run_linear) code_simp+
  then show ?thesis by (simp add: upt_rec)
qed

definition counted_loop_trace :: "nat list" where
  "counted_loop_trace = [0, 1, 2, 3, 4] @ concat (replicate 3 [5, 6, 7, 8, 9, 10, 11, 12, 13, 14]) @ [5, 6, 7, 8] @ [15, 16]"

lemma counted_loop_run: "bounded_run counted_loop 0 17 counted_loop_trace Part"
proof -
  let ?ops = "ch_ops counted_loop" and ?ok = "within_bound counted_loop"
  let ?pass = "[5, 6, 7, 8, 9, 10, 11, 12, 13]"
  have l0: "lexec ?ops ?ok 4 15 0 [5, 6, 7, 8] [5, 6, 7, 8] Brk"
    using lx_last [of ?ops ?ok 4 14 "[5, 6, 7, 8]" Brk] counted_loop_header by simp
  have more: "lexec ?ops ?ok 4 15 (Suc k) fin (?pass @ 14 # tr) oc" if "lexec ?ops ?ok 4 15 k fin tr oc" for k fin tr oc
    using lx_more [of ?ops ?ok 4 14 ?pass k fin tr oc] counted_loop_pass that by simp
  have l3: "lexec ?ops ?ok 4 15 (Suc (Suc (Suc 0))) [5, 6, 7, 8]
      (?pass @ 14 # ?pass @ 14 # ?pass @ 14 # [5, 6, 7, 8]) Brk"
    by (intro more l0)
  have b: "extract_loop_iteration_bound counted_loop 4 = Some 3" by code_simp
  have ok: "?ok 4 (Suc (Suc (Suc 0))) [5, 6, 7, 8]" by (simp add: within_bound_def b)
  have loop: "ctl_of (?ops ! 4) = C_Loop 15" and lin: "ctl_linear (ctl_of (?ops ! 15))" and ret: "ctl_exits (ctl_of (?ops ! 16))"
    by code_simp+
  have rest: "rexec ?ops ?ok 15 17 [15, 16] Part" using rx_lin [OF _ lin] rx_exit [OF _ ret, of 17] by simp
  have "rexec ?ops ?ok 4 17 (4 # (?pass @ 14 # ?pass @ 14 # ?pass @ 14 # [5, 6, 7, 8]) @ [15, 16]) Part"
  proof (rule rx_loop)
    show "lexec ?ops ?ok 4 (Suc 14) (Suc (Suc (Suc 0))) [5, 6, 7, 8] (?pass @ 14 # ?pass @ 14 # ?pass @ 14 # [5, 6, 7, 8]) Brk"
      using l3 by simp
  qed (use loop rest ok in simp_all)
  then have "rexec ?ops ?ok (0 + 4) 17 (4 # (?pass @ 14 # ?pass @ 14 # ?pass @ 14 # [5, 6, 7, 8]) @ [15, 16]) Part"
    by simp
  then have "rexec ?ops ?ok 0 17 ([0..<0 + 4] @ 4 # (?pass @ 14 # ?pass @ 14 # ?pass @ 14 # [5, 6, 7, 8]) @ [15, 16]) Part"
    by (rule run_linear) code_simp+
  then show ?thesis by (simp add: counted_loop_trace_def upt_rec numeral_eq_Suc)
qed

end
