(* ===== verification/Wire_Scalar.thy ===== *)
theory Wire_Scalar
  imports Prelude
begin

text \<open>
  \<open>keleusma-wire/src/scalar.rs\<close>: little-endian readers and writers at literal place values.  Each
  width is an instance of the interface \<open>le_codec\<close>, a total reader and a writer of fixed length that
  read back what was written; what clients need of a sequence of fields is proved once from it.
\<close>

section \<open>The code\<close>

text \<open>\<open>has\<close>: \<open>b.len().checked_sub(at)\<close> compared with \<open>n\<close>.\<close>

definition has_bytes :: "u8 list \<Rightarrow> nat \<Rightarrow> nat \<Rightarrow> bool" where
  "has_bytes b at n = (if at \<le> length b then n \<le> length b - at else False)"

definition u8_at :: "u8 list \<Rightarrow> nat \<Rightarrow> u8 option" where
  "u8_at b at = (if \<not> has_bytes b at 1 then None else Some (b ! at))"

definition u16_at :: "u8 list \<Rightarrow> nat \<Rightarrow> u16 option" where
  "u16_at b at =
     (if \<not> has_bytes b at 2 then None
      else Some (ucast (b ! at) + ucast (b ! (at + 1)) * 256))"

definition u32_at :: "u8 list \<Rightarrow> nat \<Rightarrow> u32 option" where
  "u32_at b at =
     (if \<not> has_bytes b at 4 then None
      else Some (ucast (b ! at) + ucast (b ! (at + 1)) * 256 + ucast (b ! (at + 2)) * 65536
                 + ucast (b ! (at + 3)) * 16777216))"

definition u64_at :: "u8 list \<Rightarrow> nat \<Rightarrow> u64 option" where
  "u64_at b at =
     (if \<not> has_bytes b at 8 then None
      else Some (ucast (b ! at) + ucast (b ! (at + 1)) * 256 + ucast (b ! (at + 2)) * 65536
                 + ucast (b ! (at + 3)) * 16777216 + ucast (b ! (at + 4)) * 4294967296
                 + ucast (b ! (at + 5)) * 1099511627776 + ucast (b ! (at + 6)) * 281474976710656
                 + ucast (b ! (at + 7)) * 72057594037927936))"

definition u8_bytes :: "u8 \<Rightarrow> u8 list" where
  "u8_bytes v = [v]"

definition u16_bytes :: "u16 \<Rightarrow> u8 list" where
  "u16_bytes v = [ucast (v mod 256), ucast ((v div 256) mod 256)]"

definition u32_bytes :: "u32 \<Rightarrow> u8 list" where
  "u32_bytes v =
     [ucast (v mod 256), ucast ((v div 256) mod 256), ucast ((v div 65536) mod 256),
      ucast ((v div 16777216) mod 256)]"

definition u64_bytes :: "u64 \<Rightarrow> u8 list" where
  "u64_bytes v =
     [ucast (v mod 256), ucast ((v div 256) mod 256), ucast ((v div 65536) mod 256),
      ucast ((v div 16777216) mod 256), ucast ((v div 4294967296) mod 256),
      ucast ((v div 1099511627776) mod 256), ucast ((v div 281474976710656) mod 256),
      ucast ((v div 72057594037927936) mod 256)]"

definition maj3 :: "u8 \<Rightarrow> u8 \<Rightarrow> u8 \<Rightarrow> u8" where
  "maj3 a b c = or (or (and a b) (and a c)) (and b c)"

section \<open>The interface\<close>

lemma has_bytes_iff: "has_bytes b at n \<longleftrightarrow> at + n \<le> length b \<and> at \<le> length b"
  by (auto simp: has_bytes_def)

locale le_codec =
  fixes get :: "u8 list \<Rightarrow> nat \<Rightarrow> 'w option" and put :: "'w \<Rightarrow> u8 list" and width :: nat
  assumes width_pos: "0 < width"
    and put_length: "length (put v) = width"
    and get_None: "get b at = None \<longleftrightarrow> length b < at + width"
    and get_put: "get (xs @ put v @ ys) (length xs) = Some v"
    and put_get: "get b at = Some v \<Longrightarrow> take width (drop at b) = put v"
begin

lemma put_inj: "put v = put w \<longleftrightarrow> v = w"
proof
  assume "put v = put w"
  then show "v = w" using get_put [of "[]" v "[]"] get_put [of "[]" w "[]"] by (metis option.inject)
qed simp

text \<open>A reader looks only at its own bytes.\<close>

lemma get_local:
  assumes "take width (drop at b) = take width (drop at' b')" "at + width \<le> length b" "at' + width \<le> length b'"
  shows "get b at = get b' at'"
proof -
  obtain v where v: "get b at = Some v" using get_None [of b at] assms(2) by (cases "get b at") auto
  obtain w where w: "get b' at' = Some w" using get_None [of b' at'] assms(3) by (cases "get b' at'") auto
  from put_get [OF v] put_get [OF w] assms(1) have "put v = put w" by simp
  with v w show ?thesis by (simp add: put_inj)
qed

text \<open>Overwriting a field in place: it reads back, and fields elsewhere are untouched.\<close>

definition patch :: "u8 list \<Rightarrow> nat \<Rightarrow> 'w \<Rightarrow> u8 list" where
  "patch b at v = take at b @ put v @ drop (at + width) b"

lemma patch_length: "at + width \<le> length b \<Longrightarrow> length (patch b at v) = length b"
  by (simp add: patch_def put_length)

lemma patch_nth:
  assumes "at + width \<le> length b" "j < length b" "j < at \<or> at + width \<le> j"
  shows "patch b at v ! j = b ! j"
proof (cases "j < at")
  case True
  then show ?thesis using assms(1) by (simp add: patch_def nth_append)
next
  case False
  with assms have "\<not> j < at" "\<not> j - at < width" "at \<le> j" by auto
  then show ?thesis using assms(1,2) by (simp add: patch_def nth_append put_length min_def)
qed

lemma get_patch: "at + width \<le> length b \<Longrightarrow> get (patch b at v) at = Some v"
  using get_put [of "take at b" v "drop (at + width) b"] by (simp add: patch_def)

lemma get_patch_other:
  assumes "at + width \<le> length b" "i + width \<le> at \<or> at + width \<le> i"
  shows "get (patch b at v) i = get b i"
proof (cases "i + width \<le> length b")
  case True
  have "take width (drop i (patch b at v)) = take width (drop i b)"
  proof (rule nth_equalityI)
    fix k assume "k < length (take width (drop i (patch b at v)))"
    then have k: "k < width" by simp
    with assms True show "take width (drop i (patch b at v)) ! k = take width (drop i b) ! k"
      using patch_nth [OF assms(1), of "i + k" v] patch_length [OF assms(1)] by (auto simp: add.commute)
  qed (use assms True in \<open>simp add: patch_length\<close>)
  with True assms(1) show ?thesis by (intro get_local) (simp_all add: patch_length)
next
  case False
  then have "get b i = None" "get (patch b at v) i = None"
    using get_None [of b i] get_None [of "patch b at v" i] assms(1) by (simp_all add: patch_length)
  then show ?thesis by simp
qed

text \<open>A table of records written one after the other is read back by index.\<close>

lemma get_table:
  "i < length vs \<Longrightarrow> get (concat (map put vs)) (i * width) = Some (vs ! i)"
proof -
  assume i: "i < length vs"
  have len: "length (concat (map put us)) = length us * width" for us
    by (induction us) (auto simp: put_length)
  have "vs = take i vs @ vs ! i # drop (Suc i) vs" using i by (rule id_take_nth_drop)
  then have "concat (map put vs) = concat (map put (take i vs)) @ put (vs ! i) @ concat (map put (drop (Suc i) vs))"
    by (metis concat.simps(2) concat_append list.simps(9) map_append)
  with get_put [of "concat (map put (take i vs))" "vs ! i"] i show ?thesis by (simp add: len)
qed

end

section \<open>Little-endian numbers\<close>

text \<open>The reference reading: the bytes as digits to base 256, least significant first.\<close>

fun le_nat :: "u8 list \<Rightarrow> nat" where
  "le_nat [] = 0"
| "le_nat (b # bs) = unat b + 256 * le_nat bs"

fun le_bytes :: "nat \<Rightarrow> nat \<Rightarrow> u8 list" where
  "le_bytes 0 n = []"
| "le_bytes (Suc k) n = word_of_nat (n mod 256) # le_bytes k (n div 256)"

lemma byte_less [simp]: "unat b < 256" for b :: u8
  using unsigned_less [of b, where 'a = nat] by simp

lemma unat_word_of_nat: "n < 2 ^ LENGTH('a) \<Longrightarrow> unat (word_of_nat n :: 'a::len word) = n"
  by (simp add: unsigned_of_nat take_bit_nat_eq_self)

lemma length_le_bytes [simp]: "length (le_bytes k n) = k"
  by (induction k arbitrary: n) auto

lemma le_nat_le_bytes: "le_nat (le_bytes k n) = n mod 256 ^ k"
proof (induction k arbitrary: n)
  case (Suc k)
  have "unat (word_of_nat (n mod 256) :: u8) = n mod 256" by (rule unat_word_of_nat) simp
  with Suc show ?case by (simp add: mod_mult2_eq)
qed simp

lemma le_bytes_le_nat: "le_bytes (length bs) (le_nat bs) = bs"
  by (induction bs) simp_all

lemma le_nat_less: "le_nat bs < 256 ^ length bs"
proof (induction bs)
  case (Cons b bs)
  have "unat b + 256 * le_nat bs < 256 + 256 * le_nat bs" by simp
  also have "\<dots> \<le> 256 * 256 ^ length bs" using Cons by (simp add: Suc_le_eq [symmetric])
  finally show ?case by simp
qed simp

text \<open>A reader and a writer that agree with the reference are a codec.\<close>

locale le_reference =
  fixes get :: "u8 list \<Rightarrow> nat \<Rightarrow> ('a::len word) option" and put :: "'a word \<Rightarrow> u8 list" and width :: nat
  assumes width: "0 < width" "LENGTH('a) = 8 * width"
    and get_ref: "get b at = (if at + width \<le> length b then Some (word_of_nat (le_nat (take width (drop at b)))) else None)"
    and put_ref: "put v = le_bytes width (unat v)"
begin

lemma word_range: "unat v < 256 ^ width" for v :: "'a word"
  using unsigned_less [of v, where 'a = nat] width by (simp add: power_mult)

lemma unat_of_bytes: "length bs = width \<Longrightarrow> unat (word_of_nat (le_nat bs) :: 'a word) = le_nat bs"
  using le_nat_less [of bs] width by (intro unat_word_of_nat) (simp add: power_mult)

end

sublocale le_reference \<subseteq> le_codec get put width
proof
  show "0 < width" by (rule width(1))
  show "length (put v) = width" for v by (simp add: put_ref)
  show "get b at = None \<longleftrightarrow> length b < at + width" for b at by (auto simp: get_ref)
  show "get (xs @ put v @ ys) (length xs) = Some v" for xs v ys
    using word_range [of v] by (simp add: get_ref put_ref le_nat_le_bytes)
  show "take width (drop at b) = put v" if r: "get b at = Some v" for b at v
  proof -
    let ?bs = "take width (drop at b)"
    have len: "length ?bs = width" and v: "v = word_of_nat (le_nat ?bs)"
      using r by (auto simp: get_ref split: if_splits)
    then show ?thesis using le_bytes_le_nat [of ?bs] by (simp add: put_ref unat_of_bytes)
  qed
qed

section \<open>The four widths\<close>

lemma take_drop_nth:
  assumes "at + n \<le> length b"
  shows "take n (drop at b) = map (\<lambda>i. b ! (at + i)) [0..<n]"
  using assms by (intro nth_equalityI) auto

lemma unat_byte: "unat (ucast w :: u8) = unat w mod 256" for w :: "'a::len word"
  by (simp add: unsigned_ucast_eq take_bit_eq_mod)

lemma byte_place:
  "8 < LENGTH('a) \<Longrightarrow> (ucast ((w div k) mod 256) :: u8) = word_of_nat (unat w div unat k mod 256)" for w k :: "'a::len word"
proof -
  assume "8 < LENGTH('a)"
  then have "unat (256 :: 'a word) = 256"
    using power_strict_increasing [of 8 "LENGTH('a)" "2 :: nat"] by (simp add: unsigned_numeral take_bit_nat_eq_self)
  then have "unat (ucast ((w div k) mod 256) :: u8) = unat w div unat k mod 256"
    by (simp add: unat_byte unat_mod unat_div)
  from arg_cong [OF this, of "word_of_nat :: nat \<Rightarrow> u8"] show ?thesis by simp
qed

lemma byte_place0: "8 < LENGTH('a) \<Longrightarrow> (ucast (w mod 256) :: u8) = word_of_nat (unat w mod 256)" for w :: "'a::len word"
  using byte_place [of w 1] by simp

lemma ucast_nat: "(ucast b :: 'a::len word) = word_of_nat (unat b)" for b :: "'b::len word"
  by simp

lemma has_bytes_reference: "has_bytes b at n \<longleftrightarrow> at + n \<le> length b"
  by (auto simp: has_bytes_def)

interpretation u8c: le_reference u8_at u8_bytes 1
  by unfold_locales (auto simp: u8_at_def u8_bytes_def has_bytes_reference take_drop_nth upt_rec)

lemma bytes_at:
  "at + 2 \<le> length b \<Longrightarrow> take 2 (drop at b) = [b ! at, b ! (at + 1)]"
  "at + 4 \<le> length b \<Longrightarrow> take 4 (drop at b) = [b ! at, b ! (at + 1), b ! (at + 2), b ! (at + 3)]"
  "at + 8 \<le> length b \<Longrightarrow> take 8 (drop at b) =
     [b ! at, b ! (at + 1), b ! (at + 2), b ! (at + 3), b ! (at + 4), b ! (at + 5), b ! (at + 6), b ! (at + 7)]"
proof -
  have u: "[0..<2] = [0, 1 :: nat]" "[0..<4] = [0, 1, 2, 3 :: nat]" "[0..<8] = [0, 1, 2, 3, 4, 5, 6, 7 :: nat]"
    by code_simp+
  show "at + 2 \<le> length b \<Longrightarrow> take 2 (drop at b) = [b ! at, b ! (at + 1)]"
    by (drule take_drop_nth) (simp only: u list.map add_0_right)
  show "at + 4 \<le> length b \<Longrightarrow> take 4 (drop at b) = [b ! at, b ! (at + 1), b ! (at + 2), b ! (at + 3)]"
    by (drule take_drop_nth) (simp only: u list.map add_0_right)
  show "at + 8 \<le> length b \<Longrightarrow> take 8 (drop at b) =
       [b ! at, b ! (at + 1), b ! (at + 2), b ! (at + 3), b ! (at + 4), b ! (at + 5), b ! (at + 6), b ! (at + 7)]"
    by (drule take_drop_nth) (simp only: u list.map add_0_right)
qed

lemma le_bytes_unfold:
  "le_bytes 2 n = le_bytes (Suc (Suc 0)) n"
  "le_bytes 4 n = le_bytes (Suc (Suc (Suc (Suc 0)))) n"
  "le_bytes 8 n = le_bytes (Suc (Suc (Suc (Suc (Suc (Suc (Suc (Suc 0)))))))) n"
  by (simp_all del: le_bytes.simps add: numeral_eq_Suc)

lemmas to_reference = has_bytes_reference bytes_at algebra_simps

interpretation u16c: le_reference u16_at u16_bytes 2
proof
  show "u16_at b at = (if at + 2 \<le> length b then Some (word_of_nat (le_nat (take 2 (drop at b)))) else None)" for b at
    by (simp add: u16_at_def to_reference)
  show "u16_bytes v = le_bytes 2 (unat v)" for v
    by (simp add: u16_bytes_def le_bytes_unfold byte_place0 unat_div)
qed simp_all

interpretation u32c: le_reference u32_at u32_bytes 4
proof
  show "u32_at b at = (if at + 4 \<le> length b then Some (word_of_nat (le_nat (take 4 (drop at b)))) else None)" for b at
    by (simp add: u32_at_def to_reference)
  show "u32_bytes v = le_bytes 4 (unat v)" for v
    by (simp add: u32_bytes_def le_bytes_unfold byte_place0 unat_div div_mult2_eq [symmetric])
qed simp_all

interpretation u64c: le_reference u64_at u64_bytes 8
proof
  show "u64_at b at = (if at + 8 \<le> length b then Some (word_of_nat (le_nat (take 8 (drop at b)))) else None)" for b at
    by (simp add: u64_at_def to_reference)
  show "u64_bytes v = le_bytes 8 (unat v)" for v
    by (simp add: u64_bytes_def le_bytes_unfold byte_place0 unat_div div_mult2_eq [symmetric])
qed simp_all

section \<open>Majority\<close>

text \<open>Two equal copies out of three decide every bit, so one damaged copy is outvoted.\<close>

lemma maj3_bit: "bit (maj3 a b c) i \<longleftrightarrow> (bit a i \<and> bit b i) \<or> (bit a i \<and> bit c i) \<or> (bit b i \<and> bit c i)"
  by (auto simp: maj3_def bit_or_iff bit_and_iff)

lemma maj3_two [simp]: "maj3 a a c = a" "maj3 a c a = a" "maj3 c a a = a"
  by (auto intro!: bit_eqI simp: maj3_bit)

end
