(* ===== verification/Wire_Ecc.thy ===== *)
theory Wire_Ecc
  imports Wire_Scalar "HOL-Library.Code_Target_Nat"
begin

text \<open>
  The integrity codes of \<open>keleusma-wire\<close>: CRC-32 (\<open>crc.rs\<close>) and the (72,64) Hsiao code (\<open>ecc.rs\<close>).
  The code's promise, correction of every single-bit fault of a codeword and detection of every
  double-bit fault, is proved for all words and all fault positions from the two properties of the
  column table its construction aims at.
\<close>

section \<open>CRC-32\<close>

definition POLY :: u32 where
  "POLY = 0xEDB88320"

definition crc_bit :: "u32 \<Rightarrow> u32" where
  "crc_bit crc = (let mask = - (and crc 1) in xor (drop_bit 1 crc) (and POLY mask))"

definition crc_byte :: "u32 \<Rightarrow> u8 \<Rightarrow> u32" where
  "crc_byte crc byte = (crc_bit ^^ 8) (xor crc (ucast byte))"

definition crc32 :: "u8 list \<Rightarrow> u32" where
  "crc32 bytes = not (foldl crc_byte 0xFFFFFFFF bytes)"

text \<open>One shift is invertible: the polynomial's top bit records the bit shifted out.\<close>

lemma crc_bit_even: "even crc \<Longrightarrow> crc_bit crc = drop_bit 1 crc"
  by (simp add: crc_bit_def and_one_eq even_iff_mod_2_eq_zero)

lemma crc_bit_odd: "odd crc \<Longrightarrow> crc_bit crc = xor (drop_bit 1 crc) POLY"
  by (simp add: crc_bit_def and_one_eq odd_iff_mod_2_eq_one)

lemma crc_bit_top: "bit (crc_bit crc) 31 \<longleftrightarrow> odd crc"
proof -
  have "\<not> bit (drop_bit 1 crc) 31" for crc :: u32
    using bit_imp_le_length [of crc 32] by (auto simp: bit_drop_bit_eq)
  moreover have "bit POLY 31" by (simp add: POLY_def)
  ultimately show ?thesis by (cases "even crc") (simp_all add: crc_bit_even crc_bit_odd bit_xor_iff)
qed

lemma crc_bit_inj: "crc_bit a = crc_bit b \<longleftrightarrow> a = b"
proof
  assume eq: "crc_bit a = crc_bit b"
  with crc_bit_top [of a] crc_bit_top [of b] have par: "even a \<longleftrightarrow> even b" by simp
  have "drop_bit 1 a = drop_bit 1 b"
  proof (cases "even a")
    case True
    with par eq show ?thesis by (simp add: crc_bit_even)
  next
    case False
    with par eq have "xor (xor (drop_bit 1 a) POLY) POLY = xor (xor (drop_bit 1 b) POLY) POLY" by (simp add: crc_bit_odd)
    then show ?thesis by (simp add: xor.assoc)
  qed
  with par show "a = b" by (metis bits_ident even_iff_mod_2_eq_zero mod2_eq_if take_bit_Suc_0 One_nat_def)
qed simp

lemma crc_bits_inj: "(crc_bit ^^ n) a = (crc_bit ^^ n) b \<longleftrightarrow> a = b"
  by (induction n) (simp_all add: crc_bit_inj)

lemma crc_byte_inj_state: "crc_byte a x = crc_byte b x \<longleftrightarrow> a = b"
proof
  assume "crc_byte a x = crc_byte b x"
  then have "xor (xor a (ucast x)) (ucast x) = xor (xor b (ucast x)) (ucast x)" by (simp only: crc_byte_def crc_bits_inj)
  then show "a = b" by (simp add: xor.assoc)
qed simp

lemma crc_byte_inj_byte: "crc_byte a x = crc_byte a y \<longleftrightarrow> x = y"
proof
  assume "crc_byte a x = crc_byte a y"
  then have "xor a (ucast x) = xor a (ucast y)" by (simp only: crc_byte_def crc_bits_inj)
  then have "xor a (xor a (ucast x)) = xor a (xor a (ucast y))" by simp
  then have "(ucast x :: u32) = ucast y" by (simp add: xor.assoc [symmetric])
  then have b: "bit (ucast x :: u32) i \<longleftrightarrow> bit (ucast y :: u32) i" for i by simp
  show "x = y"
  proof (rule bit_eqI)
    fix i assume "possible_bit TYPE(u8) i"
    then have "i < 32" by simp
    with b [of i] show "bit x i \<longleftrightarrow> bit y i" by (simp add: bit_ucast_iff)
  qed
qed simp

lemma crc_fold_inj: "foldl crc_byte a bs = foldl crc_byte b bs \<longleftrightarrow> a = b"
  by (induction bs arbitrary: a b) (simp_all add: crc_byte_inj_state)

text \<open>A change confined to one byte always changes the check.\<close>

lemma crc32_byte_change: "crc32 (xs @ x # ys) = crc32 (xs @ y # ys) \<longleftrightarrow> x = y"
  by (simp add: crc32_def crc_fold_inj crc_byte_inj_byte)

section \<open>The column table\<close>

definition CHECK_BITS :: nat where
  "CHECK_BITS = 8"

definition ECC_KIND_BIT :: u16 where
  "ECC_KIND_BIT = 0x8000"

definition plane_kind_for :: "u16 \<Rightarrow> u16" where
  "plane_kind_for kind = or kind ECC_KIND_BIT"

definition count_ones :: "u8 \<Rightarrow> nat" where
  "count_ones w = length (filter (bit w) [0..<8])"

text \<open>
  \<open>build_columns\<close>: the vectors of weight 3 in ascending order, the first eight of weight 5, the unit
  vectors.
\<close>

definition vectors_of_weight :: "nat \<Rightarrow> u8 list" where
  "vectors_of_weight k = filter (\<lambda>v. count_ones v = k) (map word_of_nat [0..<256])"

definition build_columns :: "u8 list" where
  "build_columns = vectors_of_weight 3 @ take 8 (vectors_of_weight 5) @ map (\<lambda>i. push_bit i 1) [0..<CHECK_BITS]"

definition COLUMNS :: "u8 list" where
  "COLUMNS = build_columns"

section \<open>Encoding and decoding one word\<close>

definition check_byte :: "u64 \<Rightarrow> u8" where
  "check_byte data =
     foldl (\<lambda>s i. if and (drop_bit i data) 1 = 1 then xor s (COLUMNS ! i) else s) 0 [0..<64]"

datatype word_status = Clean u64 | Corrected u64 | Uncorrectable

definition decode_word :: "u64 \<Rightarrow> u8 \<Rightarrow> word_status" where
  "decode_word data check =
     (let syndrome = xor (check_byte data) check in
      if syndrome = 0 then Clean data
      else if count_ones syndrome mod 2 = 1 then
        (case position (\<lambda>c. c = syndrome) COLUMNS of
           Some i \<Rightarrow> if i < 64 then Corrected (xor data (push_bit i 1)) else Corrected data
         | None \<Rightarrow> Uncorrectable)
      else Uncorrectable)"

section \<open>A parity plane\<close>

record ecc_report =
  er_words :: nat
  er_corrected :: nat
  er_uncorrectable :: nat

definition is_clean :: "ecc_report \<Rightarrow> bool" where
  "is_clean r = (er_corrected r = 0 \<and> er_uncorrectable r = 0)"

definition needs_scrub :: "ecc_report \<Rightarrow> bool" where
  "needs_scrub r = (er_corrected r > 0)"

text \<open>\<open>EccPlane::word\<close>; \<open>index.checked_mul(8)\<close> is exact here.\<close>

definition plane_word :: "u8 list \<Rightarrow> u8 list \<Rightarrow> nat \<Rightarrow> word_status option" where
  "plane_word parity data index =
     Option.bind (u64_at data (index * 8)) (\<lambda>value.
     Option.bind (u8_at parity index) (\<lambda>check. Some (decode_word value check)))"

definition scan_step :: "u8 list \<Rightarrow> u8 list \<Rightarrow> ecc_report \<Rightarrow> nat \<Rightarrow> ecc_report" where
  "scan_step parity data report index =
     (let report = report \<lparr> er_words := er_words report + 1 \<rparr> in
      case plane_word parity data index of
        Some (Corrected v) \<Rightarrow> report \<lparr> er_corrected := er_corrected report + 1 \<rparr>
      | Some Uncorrectable \<Rightarrow> report \<lparr> er_uncorrectable := er_uncorrectable report + 1 \<rparr>
      | _ \<Rightarrow> report)"

definition plane_scan :: "u8 list \<Rightarrow> u8 list \<Rightarrow> ecc_report" where
  "plane_scan parity data =
     foldl (scan_step parity data) \<lparr> er_words = 0, er_corrected = 0, er_uncorrectable = 0 \<rparr>
       [0..<min (length data div 8) (length parity)]"

section \<open>Properties of the table\<close>

text \<open>The weight of a byte as a digit sum, to count the vectors of each weight.\<close>

fun bit_sum :: "nat \<Rightarrow> nat \<Rightarrow> nat" where
  "bit_sum 0 n = 0"
| "bit_sum (Suc k) n = n mod 2 + bit_sum k (n div 2)"

lemma bit_sum_bits: "bit_sum k n = length (filter (bit n) [0..<k])"
proof (induction k arbitrary: n)
  case (Suc k)
  have "filter (bit n) [0..<Suc k] = filter (bit n) (0 # map Suc [0..<k])" by (simp add: map_Suc_upt upt_conv_Cons del: upt_Suc)
  then have "length (filter (bit n) [0..<Suc k]) = n mod 2 + length (filter (bit (n div 2)) [0..<k])"
    by (simp add: bit_0 filter_map comp_def bit_Suc odd_iff_mod_2_eq_one)
  with Suc show ?case by simp
qed simp

lemma count_ones_nat:
  assumes "n < 256"
  shows "count_ones (word_of_nat n) = bit_sum 8 n"
proof -
  have "bit (word_of_nat n :: u8) = bit n"
    using assms bit_unsigned_iff [of "word_of_nat n :: u8", where 'a = nat] by (simp add: unat_word_of_nat fun_eq_iff)
  then show ?thesis by (simp add: count_ones_def bit_sum_bits)
qed

lemma weight_split:
  "{n. n < 2 ^ Suc k \<and> bit_sum (Suc k) n = w}
     = (\<lambda>m. 2 * m) ` {m. m < 2 ^ k \<and> bit_sum k m = w} \<union> (\<lambda>m. Suc (2 * m)) ` {m. m < 2 ^ k \<and> Suc (bit_sum k m) = w}"
proof (intro set_eqI iffI)
  fix n assume "n \<in> {n. n < 2 ^ Suc k \<and> bit_sum (Suc k) n = w}"
  then have n: "n div 2 < 2 ^ k" "n mod 2 + bit_sum k (n div 2) = w" by auto
  show "n \<in> (\<lambda>m. 2 * m) ` {m. m < 2 ^ k \<and> bit_sum k m = w} \<union> (\<lambda>m. Suc (2 * m)) ` {m. m < 2 ^ k \<and> Suc (bit_sum k m) = w}"
  proof (cases "even n")
    case True
    with n have "n = 2 * (n div 2)" "bit_sum k (n div 2) = w" by auto
    with n(1) show ?thesis by blast
  next
    case False
    with n have "n = Suc (2 * (n div 2))" "Suc (bit_sum k (n div 2)) = w" by (auto simp: odd_iff_mod_2_eq_one)
    with n(1) show ?thesis by blast
  qed
qed auto

lemma weight_count: "card {n. n < 2 ^ k \<and> bit_sum k n = w} = k choose w"
proof (induction k arbitrary: w)
  case 0
  then show ?case by (cases w) auto
next
  case (Suc k)
  let ?E = "{m. m < 2 ^ k \<and> bit_sum k m = w}" and ?O = "{m. m < 2 ^ k \<and> Suc (bit_sum k m) = w}"
  have fin: "finite ?E" "finite ?O" by simp_all
  have "(\<lambda>m. 2 * m) ` ?E \<inter> (\<lambda>m. Suc (2 * m)) ` ?O = {}" by (auto, presburger)
  then have "card {n. n < 2 ^ Suc k \<and> bit_sum (Suc k) n = w} = card ?E + card ?O"
    unfolding weight_split using fin by (simp add: card_Un_disjoint card_image inj_on_def)
  also have "\<dots> = Suc k choose w" using Suc.IH [of w] Suc.IH [of "w - 1"] by (cases w) auto
  finally show ?case .
qed

lemma vectors_length: "length (vectors_of_weight k) = 8 choose k"
proof -
  have "length (vectors_of_weight k) = length (filter (\<lambda>n. bit_sum 8 n = k) [0..<256])"
    unfolding vectors_of_weight_def filter_map comp_def length_map
    by (intro arg_cong [where f = length] filter_cong refl) (simp add: count_ones_nat)
  also have "\<dots> = card {n. n < 2 ^ 8 \<and> bit_sum 8 n = k}"
    unfolding length_filter_conv_card by (intro arg_cong [where f = card] Collect_cong) auto
  finally show ?thesis by (simp only: weight_count)
qed

lemma vectors_distinct: "distinct (vectors_of_weight k)"
proof -
  have "inj_on (word_of_nat :: nat \<Rightarrow> u8) {0..<256}"
    by (rule inj_on_inverseI [of _ unat]) (simp add: unat_word_of_nat)
  then show ?thesis by (simp add: vectors_of_weight_def distinct_map)
qed

lemma vectors_weight: "v \<in> set (vectors_of_weight k) \<Longrightarrow> count_ones v = k"
  by (auto simp: vectors_of_weight_def)

lemma unit_bit: "i < 8 \<Longrightarrow> bit (push_bit i 1 :: u8) j \<longleftrightarrow> j = i"
  by (auto simp: bit_exp_iff)

lemma unit_distinct: "distinct (map (\<lambda>i. push_bit i 1 :: u8) [0..<CHECK_BITS])"
proof -
  have "i = j" if "push_bit i 1 = (push_bit j 1 :: u8)" "i < 8" "j < 8" for i j
    using unit_bit [OF that(2), of i] unit_bit [OF that(3), of i] that(1) by simp
  then show ?thesis by (auto simp: distinct_map inj_on_def CHECK_BITS_def simp del: push_bit_of_1)
qed

lemma unit_weight:
  assumes "v \<in> set (map (\<lambda>i. push_bit i 1 :: u8) [0..<CHECK_BITS])"
  shows "count_ones v = 1"
proof -
  obtain i where i: "i < 8" "v = push_bit i 1" using assms by (auto simp: CHECK_BITS_def)
  have "filter (bit v) [0..<8] = filter (\<lambda>j. j = i) [0..<8]"
    unfolding i(2) by (rule filter_cong [OF refl unit_bit [OF i(1)]])
  also have "\<dots> = [i]" using i(1) by (auto simp: upt_rec less_Suc_eq numeral_eq_Suc)
  finally show ?thesis by (simp add: count_ones_def)
qed

lemma choose_8: "8 choose 3 = (56 :: nat)" "8 choose 5 = (56 :: nat)"
  by (simp_all add: numeral_eq_Suc)

lemma columns_length: "length COLUMNS = 72"
  by (simp add: COLUMNS_def build_columns_def CHECK_BITS_def vectors_length choose_8)

lemma columns_odd: "c \<in> set COLUMNS \<Longrightarrow> odd (count_ones c)"
  unfolding COLUMNS_def build_columns_def set_append
  by (auto dest!: vectors_weight unit_weight in_set_takeD simp del: set_map push_bit_of_1)

lemma columns_distinct: "distinct COLUMNS"
proof -
  let ?units = "map (\<lambda>i. push_bit i 1 :: u8) [0..<CHECK_BITS]"
  have w5: "count_ones v = 5" if "v \<in> set (take 8 (vectors_of_weight 5))" for v
    using that by (auto dest!: in_set_takeD vectors_weight)
  have d35: "set (vectors_of_weight 3) \<inter> set (take 8 (vectors_of_weight 5)) = {}"
    using w5 vectors_weight [of _ 3] by fastforce
  have d31: "set (vectors_of_weight 3) \<inter> set ?units = {}"
    using unit_weight vectors_weight [of _ 3] by (metis disjoint_iff numeral_eq_one_iff semiring_norm(86))
  have d51: "set (take 8 (vectors_of_weight 5)) \<inter> set ?units = {}"
    using unit_weight w5 by (metis disjoint_iff numeral_eq_one_iff semiring_norm(86))
  show ?thesis
    unfolding COLUMNS_def build_columns_def distinct_append set_append Int_Un_distrib
    using vectors_distinct unit_distinct d35 d31 d51 by (simp only: distinct_take Un_empty)
qed

lemma columns_unit: "j < 8 \<Longrightarrow> COLUMNS ! (64 + j) = push_bit j 1"
  by (simp add: COLUMNS_def build_columns_def CHECK_BITS_def vectors_length choose_8 nth_append)

section \<open>The syndrome is linear\<close>

definition xor_columns :: "(nat \<Rightarrow> bool) \<Rightarrow> nat list \<Rightarrow> u8" where
  "xor_columns P is = foldr (\<lambda>i s. if P i then xor s (COLUMNS ! i) else s) is 0"

lemma foldl_xor_columns:
  "foldl (\<lambda>s i. if P i then xor s (COLUMNS ! i) else s) s is = xor s (xor_columns P is)"
  by (induction "is" arbitrary: s) (auto simp: xor_columns_def xor.assoc xor.commute xor.left_commute)

lemma xor_columns_add:
  "xor_columns (\<lambda>i. P i \<noteq> Q i) is = xor (xor_columns P is) (xor_columns Q is)"
  by (induction "is") (auto simp: xor_columns_def xor.assoc xor.commute xor.left_commute)

lemma xor_columns_single:
  "distinct is \<Longrightarrow> xor_columns (\<lambda>i. i = k) is = (if k \<in> set is then COLUMNS ! k else 0)"
  by (induction "is") (auto simp: xor_columns_def)

lemma check_byte_columns: "check_byte data = xor_columns (bit data) [0..<64]"
proof -
  have "and (drop_bit i data) 1 = 1 \<longleftrightarrow> bit data i" for i
    by (simp add: and_one_eq bit_iff_odd_drop_bit mod2_eq_if)
  then show ?thesis by (simp add: check_byte_def foldl_xor_columns)
qed

lemma check_byte_xor: "check_byte (xor a b) = xor (check_byte a) (check_byte b)"
proof -
  have "bit (xor a b) = (\<lambda>i. bit a i \<noteq> bit b i)" by (simp add: fun_eq_iff bit_xor_iff)
  then show ?thesis by (simp only: check_byte_columns xor_columns_add)
qed

lemma check_byte_unit: "k < 64 \<Longrightarrow> check_byte (push_bit k 1) = COLUMNS ! k"
proof -
  assume k: "k < 64"
  then have "bit (push_bit k 1 :: u64) = (\<lambda>i. i = k)" by (auto simp: bit_exp_iff fun_eq_iff)
  with k show ?thesis by (simp add: check_byte_columns xor_columns_single del: push_bit_of_1)
qed

lemma weight_xor: "odd (count_ones (xor a b)) \<longleftrightarrow> (odd (count_ones a) \<noteq> odd (count_ones b))"
proof -
  have "odd (length (filter (bit (xor a b)) is)) \<longleftrightarrow> (odd (length (filter (bit a) is)) \<noteq> odd (length (filter (bit b) is)))" for "is"
    by (induction "is") (auto simp: bit_xor_iff)
  then show ?thesis by (simp add: count_ones_def)
qed

lemma count_ones_0 [simp]: "count_ones 0 = 0"
  by (simp add: count_ones_def)

section \<open>Correction and detection\<close>

text \<open>
  A codeword is a data word with its check byte: 64 data bits and 8 check bits, numbered as the
  columns are.
\<close>

definition codeword :: "u64 \<Rightarrow> u64 \<times> u8" where
  "codeword data = (data, check_byte data)"

definition flip_code_bit :: "nat \<Rightarrow> u64 \<times> u8 \<Rightarrow> u64 \<times> u8" where
  "flip_code_bit k cw =
     (if k < 64 then (xor (fst cw) (push_bit k 1), snd cw) else (fst cw, xor (snd cw) (push_bit (k - 64) 1)))"

definition decode_code :: "u64 \<times> u8 \<Rightarrow> word_status" where
  "decode_code cw = decode_word (fst cw) (snd cw)"

definition syndrome_of :: "u64 \<times> u8 \<Rightarrow> u8" where
  "syndrome_of cw = xor (check_byte (fst cw)) (snd cw)"

lemma syndrome_codeword [simp]: "syndrome_of (codeword d) = 0"
  by (simp add: syndrome_of_def codeword_def)

lemma syndrome_flip: "k < 72 \<Longrightarrow> syndrome_of (flip_code_bit k cw) = xor (syndrome_of cw) (COLUMNS ! k)"
  using columns_unit [of "k - 64"] check_byte_unit [of k]
  by (auto simp: syndrome_of_def flip_code_bit_def check_byte_xor xor.assoc xor.commute xor.left_commute simp del: push_bit_of_1)

lemma column_odd: "k < 72 \<Longrightarrow> odd (count_ones (COLUMNS ! k))"
  using columns_odd columns_length by simp

lemma column_position: "k < 72 \<Longrightarrow> position (\<lambda>c. c = COLUMNS ! k) COLUMNS = Some k"
  using columns_distinct columns_length by (auto simp: position_Some nth_eq_iff_index_eq)

lemma decode_single:
  assumes "syndrome_of cw = COLUMNS ! k" "k < 72"
  shows "decode_code cw = Corrected (fst (flip_code_bit k cw))"
proof -
  have "COLUMNS ! k \<noteq> 0" using column_odd [OF assms(2)] by auto
  with assms column_odd [OF assms(2)] column_position [OF assms(2)] show ?thesis
    by (simp add: decode_code_def decode_word_def syndrome_of_def flip_code_bit_def odd_iff_mod_2_eq_one)
qed

lemma flip_twice [simp]: "flip_code_bit k (flip_code_bit k cw) = cw"
  by (cases cw) (simp add: flip_code_bit_def xor.assoc del: push_bit_of_1)

lemma ecc_single:
  assumes "k < 72"
  shows "decode_code (flip_code_bit k (codeword d)) = Corrected d"
proof -
  have "syndrome_of (flip_code_bit k (codeword d)) = COLUMNS ! k" by (simp add: syndrome_flip [OF assms])
  from decode_single [OF this assms] show ?thesis by (simp add: codeword_def)
qed

lemma ecc_double:
  assumes "j < 72" "k < 72" "j \<noteq> k"
  shows "decode_code (flip_code_bit j (flip_code_bit k (codeword d))) = Uncorrectable"
proof -
  let ?cw = "flip_code_bit j (flip_code_bit k (codeword d))" and ?s = "xor (COLUMNS ! k) (COLUMNS ! j)"
  have s: "syndrome_of ?cw = ?s" using assms by (simp add: syndrome_flip)
  have "COLUMNS ! k \<noteq> COLUMNS ! j"
    using assms columns_distinct columns_length by (simp add: nth_eq_iff_index_eq)
  moreover have "COLUMNS ! k = COLUMNS ! j" if "?s = 0"
    using arg_cong [OF that, of "\<lambda>w. xor w (COLUMNS ! j)"] by (simp add: xor.assoc)
  ultimately have "?s \<noteq> 0" by blast
  moreover have "even (count_ones ?s)" 
    using weight_xor [of "COLUMNS ! k" "COLUMNS ! j"] column_odd [OF assms(1)] column_odd [OF assms(2)] by blast
  ultimately show ?thesis using s
    by (simp add: decode_code_def decode_word_def syndrome_of_def odd_iff_mod_2_eq_one [symmetric])
qed

lemma ecc_clean: "decode_code (codeword d) = Clean d"
  by (simp add: decode_code_def decode_word_def codeword_def)

end
