(* ===== verification/Usize.thy ===== *)
theory Usize
  imports Prelude
begin

text \<open>
  Rust's \<open>usize\<close> on a 64-bit target: a natural number below \<open>2 ^ 64\<close>, with the checked operations and the
  bit masks the code applies to it.
\<close>

definition checked_add :: "nat \<Rightarrow> nat \<Rightarrow> nat option" where
  "checked_add a b = (if a + b < 2 ^ 64 then Some (a + b) else None)"

definition checked_mul :: "nat \<Rightarrow> nat \<Rightarrow> nat option" where
  "checked_mul a b = (if a * b < 2 ^ 64 then Some (a * b) else None)"

text \<open>Also the plain subtraction, which panics below zero in a build with overflow checks.\<close>

definition checked_sub :: "nat \<Rightarrow> nat \<Rightarrow> nat option" where
  "checked_sub a b = (if b \<le> a then Some (a - b) else None)"

lemma checked_add_Some [simp]: "checked_add a b = Some c \<longleftrightarrow> a + b < 2 ^ 64 \<and> c = a + b"
  by (auto simp: checked_add_def)

lemma checked_mul_Some [simp]: "checked_mul a b = Some c \<longleftrightarrow> a * b < 2 ^ 64 \<and> c = a * b"
  by (auto simp: checked_mul_def)

lemma checked_sub_Some [simp]: "checked_sub a b = Some c \<longleftrightarrow> b \<le> a \<and> c = a - b"
  by (auto simp: checked_sub_def)

definition saturating_add64 :: "nat \<Rightarrow> nat \<Rightarrow> nat" where
  "saturating_add64 a b = min (a + b) (2 ^ 64 - 1)"

text \<open>\<open>x & !mask\<close> on 64 bits.\<close>

definition clear_mask :: "nat \<Rightarrow> nat \<Rightarrow> nat" where
  "clear_mask x m = unat (and (of_nat x :: u64) (not (of_nat m)))"

text \<open>Clearing the low \<open>k\<close> bits rounds down to a multiple of \<open>2 ^ k\<close>.\<close>

lemma clear_mask_pow2:
  assumes "x < 2 ^ 64" "k < 64"
  shows "clear_mask x (2 ^ k - 1) = x - x mod 2 ^ k"
proof -
  let ?w = "of_nat x :: u64"
  have x: "take_bit 64 x = x" using assms(1) by (rule take_bit_nat_eq_self)
  have m: "(of_nat (2 ^ k - 1) :: u64) = mask k" by (simp add: mask_eq_exp_minus_1 of_nat_diff)
  have "and ?w (not (mask k)) = push_bit k (drop_bit k ?w)"
    by (rule bit_word_eqI) (auto simp: bit_simps)
  then have "clear_mask x (2 ^ k - 1) = take_bit 64 (push_bit k (drop_bit k x))"
    unfolding clear_mask_def m using x assms(1) by (simp add: unsigned_push_bit_eq unsigned_drop_bit_eq unat_of_nat)
  also have "push_bit k (drop_bit k x) = x - x mod 2 ^ k"
    by (simp add: push_bit_eq_mult drop_bit_eq_div minus_mod_eq_div_mult)
  also have "take_bit 64 (x - x mod 2 ^ k) = x - x mod 2 ^ k"
    using assms(1) by (intro take_bit_nat_eq_self) simp
  finally show ?thesis .
qed

end
