(* ===== verification/Wire_Layout.thy ===== *)
theory Wire_Layout
  imports Wire_Ecc Usize
begin

text \<open>
  \<open>keleusma-wire/src/layout.rs\<close> and \<open>error.rs\<close>: the constants of the container, the directory record
  and the size arithmetic.
\<close>

section \<open>Errors\<close>

datatype (plugins only: code size) wire_error =
    Truncated
  | BadMagic
  | ForeignEndian
  | UnsupportedVersion u16
  | BadPrologueChecksum
  | TooManyRegions u32
  | RegionOutOfBounds u16
  | DuplicateRegion u16
  | BadRecordStride
  | Overflow
  | TooLarge

section \<open>Constants\<close>

named_theorems wire_consts \<open>the numeric constants of the container\<close>

definition WORD :: nat where [wire_consts]: "WORD = 8"
definition MAGIC :: u32 where "MAGIC = 0x4B415558"
definition BOM :: u16 where "BOM = 0xFEFF"
definition FORMAT_VERSION :: u16 where "FORMAT_VERSION = 2"
definition PROLOGUE_BYTES :: nat where [wire_consts]: "PROLOGUE_BYTES = 16"
definition DIR_ENTRY_BYTES :: nat where [wire_consts]: "DIR_ENTRY_BYTES = 16"
definition COPIES :: nat where [wire_consts]: "COPIES = 3"
definition DIRECTORY_OFFSET :: nat where [wire_consts]: "DIRECTORY_OFFSET = PROLOGUE_BYTES * COPIES"
definition MAX_REGIONS :: nat where [wire_consts]: "MAX_REGIONS = 1024"
definition FLAG_ENCRYPTED :: u16 where "FLAG_ENCRYPTED = 1"
definition FLAG_ECC_PRESENT :: u16 where "FLAG_ECC_PRESENT = 2"
definition FLAG_OPTIONAL :: u16 where "FLAG_OPTIONAL = 4"
definition FLAG_IS_ECC :: u16 where "FLAG_IS_ECC = 8"

section \<open>Directory entries\<close>

record region =
  rg_kind :: u16
  rg_flags :: u16
  rg_word_offset :: u32
  rg_word_length :: u32
  rg_covers :: u16

definition byte_offset :: "region \<Rightarrow> nat option" where
  "byte_offset r = checked_mul (unat (rg_word_offset r)) WORD"

definition byte_length :: "region \<Rightarrow> nat option" where
  "byte_length r = checked_mul (unat (rg_word_length r)) WORD"

definition is_encrypted :: "region \<Rightarrow> bool" where
  "is_encrypted r = (and (rg_flags r) FLAG_ENCRYPTED \<noteq> 0)"

definition is_ecc_plane :: "region \<Rightarrow> bool" where
  "is_ecc_plane r = (and (rg_flags r) FLAG_IS_ECC \<noteq> 0)"

definition has_ecc :: "region \<Rightarrow> bool" where
  "has_ecc r = (and (rg_flags r) FLAG_ECC_PRESENT \<noteq> 0)"

definition words_for :: "nat \<Rightarrow> nat option" where
  "words_for bytes = map_option (\<lambda>n. n div WORD) (checked_add bytes (WORD - 1))"

definition header_bytes :: "nat \<Rightarrow> nat option" where
  "header_bytes region_count =
     Option.bind (checked_mul region_count DIR_ENTRY_BYTES) (\<lambda>a.
     Option.bind (checked_mul a COPIES) (\<lambda>b. checked_add b DIRECTORY_OFFSET))"

section \<open>The arithmetic of a directory entry never overflows\<close>

lemma u32_less: "unat (w :: u32) < 4294967296"
  using unsigned_less [of w, where 'a = nat] by simp

lemma u16_less: "unat (w :: u16) < 65536"
  using unsigned_less [of w, where 'a = nat] by simp

lemma byte_offset_exact [simp]: "byte_offset r = Some (unat (rg_word_offset r) * 8)"
  using u32_less [of "rg_word_offset r"] by (simp add: byte_offset_def wire_consts)

lemma byte_length_exact [simp]: "byte_length r = Some (unat (rg_word_length r) * 8)"
  using u32_less [of "rg_word_length r"] by (simp add: byte_length_def wire_consts)

lemma region_end_exact [simp]:
  "checked_add (unat (a :: u32) * 8) (unat (b :: u32) * 8) = Some (unat a * 8 + unat b * 8)"
  using u32_less [of a] u32_less [of b] by simp

lemma header_bytes_exact: "n \<le> MAX_REGIONS \<Longrightarrow> header_bytes n = Some (n * 48 + 48)"
  by (simp add: header_bytes_def checked_mul_def checked_add_def wire_consts)

lemma header_bytes_Some: "header_bytes n = Some h \<Longrightarrow> h = n * 48 + 48"
  by (auto simp: header_bytes_def wire_consts bind_eq_Some_conv)

lemma words_for_Some: "words_for n = Some w \<longleftrightarrow> n + 7 < 2 ^ 64 \<and> w = (n + 7) div 8"
  by (auto simp: words_for_def wire_consts)

end
