(* ===== verification/Wire_Build.thy ===== *)
theory Wire_Build
  imports Wire_Layout
begin

text \<open>
  \<open>keleusma-wire/src/build.rs\<close>: the encoder.  A builder accumulates one buffer per region and
  \<open>finish\<close> lays the artifact out.  An operation that indexes a region by its handle panics on a handle
  of another builder; the panic is the outer \<open>None\<close>.  The loops that pad to a word are \<open>pad_word\<close>.
\<close>

section \<open>State\<close>

record region_buf =
  rb_kind :: u16
  rb_flags :: u16
  rb_bytes :: "u8 list"
  rb_ecc_kind :: "u16 option"

record wire_builder =
  wb_regions :: "region_buf list"

definition builder_new :: wire_builder where
  "builder_new = \<lparr> wb_regions = [] \<rparr>"

section \<open>Operations\<close>

definition kind_in_use :: "wire_builder \<Rightarrow> u16 \<Rightarrow> bool" where
  "kind_in_use b kind = list_ex (\<lambda>r. rb_kind r = kind \<or> rb_ecc_kind r = Some kind) (wb_regions b)"

definition emit_count :: "wire_builder \<Rightarrow> nat" where
  "emit_count b = length (wb_regions b) + length (filter (\<lambda>r. rb_ecc_kind r \<noteq> None) (wb_regions b))"

definition builder_region :: "wire_builder \<Rightarrow> u16 \<Rightarrow> u16 \<Rightarrow> wire_error + (nat \<times> wire_builder)" where
  "builder_region b kind flags =
     (if kind_in_use b kind then Inl (DuplicateRegion kind)
      else if emit_count b \<ge> MAX_REGIONS then Inl (TooManyRegions (word_of_nat (emit_count b) + 1))
      else Inr (length (wb_regions b),
                b \<lparr> wb_regions := wb_regions b @
                    [\<lparr> rb_kind = kind, rb_flags = flags, rb_bytes = [], rb_ecc_kind = None \<rparr>] \<rparr>))"

definition update_region :: "wire_builder \<Rightarrow> nat \<Rightarrow> (region_buf \<Rightarrow> region_buf) \<Rightarrow> wire_builder" where
  "update_region b i f = b \<lparr> wb_regions := (wb_regions b)[i := f (wb_regions b ! i)] \<rparr>"

definition protect :: "wire_builder \<Rightarrow> nat \<Rightarrow> u16 \<Rightarrow> (wire_error + wire_builder) option" where
  "protect b i ecc_kind =
     (if kind_in_use b ecc_kind then Some (Inl (DuplicateRegion ecc_kind))
      else case nth_opt (wb_regions b) i of
        None \<Rightarrow> None
      | Some r \<Rightarrow>
          if rb_ecc_kind r \<noteq> None then Some (Inl (DuplicateRegion (rb_kind r)))
          else if emit_count b + 1 > MAX_REGIONS then Some (Inl (TooManyRegions (word_of_nat (emit_count b) + 1)))
          else Some (Inr (update_region b i
                 (\<lambda>r. r \<lparr> rb_ecc_kind := Some ecc_kind, rb_flags := or (rb_flags r) FLAG_ECC_PRESENT \<rparr>))))"

fun protect_from :: "wire_builder \<Rightarrow> nat list \<Rightarrow> (wire_error + wire_builder) option" where
  "protect_from b [] = Some (Inr b)"
| "protect_from b (i # is) =
     (case nth_opt (wb_regions b) i of
        None \<Rightarrow> None
      | Some r \<Rightarrow>
          if rb_ecc_kind r \<noteq> None then protect_from b is
          else bindOR (protect b i (plane_kind_for (rb_kind r))) (\<lambda>b'. protect_from b' is))"

definition protect_all :: "wire_builder \<Rightarrow> (wire_error + wire_builder) option" where
  "protect_all b = protect_from b [0..<length (wb_regions b)]"

definition builder_push :: "wire_builder \<Rightarrow> nat \<Rightarrow> u8 list \<Rightarrow> wire_builder option" where
  "builder_push b i bytes =
     (if i < length (wb_regions b) then Some (update_region b i (\<lambda>r. r \<lparr> rb_bytes := rb_bytes r @ bytes \<rparr>)) else None)"

text \<open>
  \<open>push_record\<close>: the region grows by one stride of zero bytes and the record's \<open>write_record\<close> fills
  it from the start.  The record type is a parameter: its stride, and the bytes it writes.
\<close>

definition push_record :: "nat \<Rightarrow> ('t \<Rightarrow> u8 list) \<Rightarrow> wire_builder \<Rightarrow> nat \<Rightarrow> 't \<Rightarrow> wire_builder option" where
  "push_record stride encode b i record =
     builder_push b i (encode record @ replicate (stride - length (encode record)) 0)"

definition len_of :: "wire_builder \<Rightarrow> nat \<Rightarrow> nat option" where
  "len_of b i = map_option (\<lambda>r. length (rb_bytes r)) (nth_opt (wb_regions b) i)"

section \<open>Emission\<close>

definition div_ceil :: "nat \<Rightarrow> nat \<Rightarrow> nat" where
  "div_ceil a b = (if a mod b = 0 then a div b else a div b + 1)"

definition parity_word :: "u8 list \<Rightarrow> nat \<Rightarrow> u8" where
  "parity_word bytes i =
     (let start = i * WORD; fin = min (start + WORD) (length bytes);
          word = take (fin - start) (drop start bytes) @ replicate (WORD - (fin - start)) 0
      in check_byte (case u64_at word 0 of Some v \<Rightarrow> v | None \<Rightarrow> 0))"

definition parity_of :: "u8 list \<Rightarrow> u8 list" where
  "parity_of bytes = map (parity_word bytes) [0..<div_ceil (length bytes) WORD]"

text \<open>An entry of the emit list: kind, flags, covered kind and payload.\<close>

type_synonym emit_entry = "u16 \<times> u16 \<times> u16 \<times> u8 list"

definition planes :: "region_buf list \<Rightarrow> u8 list list" where
  "planes rs = map (\<lambda>r. parity_of (rb_bytes r)) (filter (\<lambda>r. rb_ecc_kind r \<noteq> None) rs)"

fun emit_list :: "region_buf list \<Rightarrow> u8 list list \<Rightarrow> emit_entry list" where
  "emit_list [] ps = []"
| "emit_list (r # rs) ps =
     (rb_kind r, rb_flags r, 0, rb_bytes r) #
     (case rb_ecc_kind r of
        None \<Rightarrow> emit_list rs ps
      | Some ecc_kind \<Rightarrow> (ecc_kind, FLAG_IS_ECC, rb_kind r, hd ps) # emit_list rs (tl ps))"

fun place :: "nat \<Rightarrow> emit_entry list \<Rightarrow> wire_error + ((nat \<times> nat) list \<times> nat)" where
  "place cursor [] = Inr ([], cursor)"
| "place cursor ((kind, flags, covers, bytes) # es) =
     (case words_for (length bytes) of
        None \<Rightarrow> Inl Overflow
      | Some words \<Rightarrow>
          (case checked_add cursor words of
             None \<Rightarrow> Inl Overflow
           | Some cursor' \<Rightarrow>
               bindR (place cursor' es) (\<lambda>(offs, fin). Inr ((cursor, words) # offs, fin))))"

text \<open>\<open>while out.len() % WORD != 0 { out.push(0) }\<close>\<close>

function pad_word :: "u8 list \<Rightarrow> u8 list" where
  "pad_word out = (if length out mod WORD \<noteq> 0 then pad_word (out @ [0]) else out)"
  by auto
termination
  by (relation "measure (\<lambda>out. (8 - length out mod 8) mod 8)") (auto simp: wire_consts mod_Suc)

declare pad_word.simps [simp del]

definition prologue_fields :: "u16 \<Rightarrow> u8 list" where
  "prologue_fields n = u32_bytes MAGIC @ u16_bytes BOM @ u16_bytes FORMAT_VERSION @ u16_bytes n @ u16_bytes 0"

definition prologue :: "u16 \<Rightarrow> u8 list" where
  "prologue n = prologue_fields n @ u32_bytes (crc32 (prologue_fields n))"

definition as_u32 :: "nat \<Rightarrow> wire_error + u32" where
  "as_u32 n = (if n < 2 ^ 32 then Inr (word_of_nat n) else Inl TooLarge)"

fun directory :: "(emit_entry \<times> nat \<times> nat) list \<Rightarrow> wire_error + u8 list" where
  "directory [] = Inr []"
| "directory (((kind, flags, covers, bytes), word_off, word_len) # es) =
     bindR (as_u32 word_off) (\<lambda>off.
     bindR (as_u32 word_len) (\<lambda>len.
     bindR (directory es) (\<lambda>rest.
       Inr (u16_bytes kind @ u16_bytes flags @ u32_bytes off @ u32_bytes len @ u16_bytes covers @ u16_bytes 0 @ rest))))"

fun payloads :: "u8 list \<Rightarrow> emit_entry list \<Rightarrow> u8 list" where
  "payloads out [] = out"
| "payloads out ((kind, flags, covers, bytes) # es) = payloads (pad_word (out @ bytes)) es"

definition finish :: "wire_builder \<Rightarrow> wire_error + u8 list" where
  "finish b =
     (let emit = emit_list (wb_regions b) (planes (wb_regions b)); n = length emit in
      case header_bytes n of None \<Rightarrow> Inl Overflow | Some header \<Rightarrow>
      case words_for header of None \<Rightarrow> Inl Overflow | Some header_words \<Rightarrow>
      bindR (place header_words emit) (\<lambda>(offsets, cursor).
      case checked_mul cursor WORD of None \<Rightarrow> Inl Overflow | Some capacity \<Rightarrow>
      if n \<ge> 2 ^ 16 then Inl (TooManyRegions (word_of_nat n))
      else let out = concat (replicate COPIES (prologue (word_of_nat n))) in
      bindR (directory (zip emit offsets)) (\<lambda>dir.
      let out = pad_word (out @ concat (replicate COPIES dir)) in
      Inr (payloads out emit))))"

section \<open>The builder's invariant\<close>

text \<open>
  The kinds that will be emitted are distinct and within the ceiling, a plane exists exactly where it
  is flagged by \<open>protect\<close>.
\<close>

definition plane_kinds :: "region_buf \<Rightarrow> u16 list" where
  "plane_kinds r = rb_kind r # (case rb_ecc_kind r of None \<Rightarrow> [] | Some k \<Rightarrow> [k])"

definition emitted_kinds :: "region_buf list \<Rightarrow> u16 list" where
  "emitted_kinds rs = concat (map plane_kinds rs)"

definition builder_ok :: "wire_builder \<Rightarrow> bool" where
  "builder_ok b \<longleftrightarrow> distinct (emitted_kinds (wb_regions b)) \<and> length (emitted_kinds (wb_regions b)) \<le> MAX_REGIONS
     \<and> list_all (\<lambda>r. rb_ecc_kind r \<noteq> None \<longrightarrow> and (rb_flags r) FLAG_ECC_PRESENT \<noteq> 0) (wb_regions b)"

lemma set_plane_kinds: "k \<in> set (plane_kinds r) \<longleftrightarrow> rb_kind r = k \<or> rb_ecc_kind r = Some k"
  by (auto simp: plane_kinds_def split: option.splits)

lemma kind_in_use_iff: "kind_in_use b k \<longleftrightarrow> k \<in> set (emitted_kinds (wb_regions b))"
  by (auto simp: kind_in_use_def emitted_kinds_def list_ex_iff set_plane_kinds)

lemma emit_count_kinds: "emit_count b = length (emitted_kinds (wb_regions b))"
proof -
  have "length rs + length (filter (\<lambda>r. rb_ecc_kind r \<noteq> None) rs) = length (emitted_kinds rs)" for rs
    by (induction rs) (auto simp: emitted_kinds_def plane_kinds_def split: option.splits)
  then show ?thesis by (simp add: emit_count_def)
qed

lemma emitted_kinds_simps [simp]:
  "emitted_kinds [] = []" "emitted_kinds (r # rs) = plane_kinds r @ emitted_kinds rs"
  "emitted_kinds (rs @ rs') = emitted_kinds rs @ emitted_kinds rs'"
  by (simp_all add: emitted_kinds_def)

lemma builder_ok_new: "builder_ok builder_new"
  by (simp add: builder_ok_def builder_new_def)

lemma builder_ok_region: "builder_ok b \<Longrightarrow> builder_region b k f = Inr (i, b') \<Longrightarrow> builder_ok b'"
  by (auto simp: builder_region_def builder_ok_def kind_in_use_iff emit_count_kinds plane_kinds_def split: if_splits)

text \<open>Replacing a region's buffer keeps the emitted kinds, adding a plane inserts its kind.\<close>

lemma emitted_kinds_split:
  "i < length rs \<Longrightarrow> emitted_kinds rs = emitted_kinds (take i rs) @ plane_kinds (rs ! i) @ emitted_kinds (drop (Suc i) rs)"
  by (metis emitted_kinds_simps(2,3) id_take_nth_drop)

lemma emitted_kinds_update:
  "i < length rs \<Longrightarrow> emitted_kinds (rs[i := r]) = emitted_kinds (take i rs) @ plane_kinds r @ emitted_kinds (drop (Suc i) rs)"
  by (simp add: upd_conv_take_nth_drop)

lemma builder_ok_push: "builder_ok b \<Longrightarrow> builder_push b i bs = Some b' \<Longrightarrow> builder_ok b'"
proof -
  assume ok: "builder_ok b" and p: "builder_push b i bs = Some b'"
  let ?rs = "wb_regions b"
  have i: "i < length ?rs" and b': "wb_regions b' = ?rs[i := (?rs ! i) \<lparr> rb_bytes := rb_bytes (?rs ! i) @ bs \<rparr>]"
    using p by (auto simp: builder_push_def update_region_def split: if_splits)
  have "emitted_kinds (wb_regions b') = emitted_kinds ?rs"
    unfolding b' emitted_kinds_split [OF i] emitted_kinds_update [OF i] by (simp add: plane_kinds_def)
  moreover have "list_all (\<lambda>r. rb_ecc_kind r \<noteq> None \<longrightarrow> and (rb_flags r) FLAG_ECC_PRESENT \<noteq> 0) (wb_regions b')"
    using ok i by (auto simp: b' builder_ok_def list_all_length nth_list_update)
  ultimately show ?thesis using ok by (simp add: builder_ok_def)
qed

lemma protect_Some_Inr:
  "protect b i k = Some (Inr b') \<longleftrightarrow>
     i < length (wb_regions b) \<and> k \<notin> set (emitted_kinds (wb_regions b)) \<and> rb_ecc_kind (wb_regions b ! i) = None
     \<and> length (emitted_kinds (wb_regions b)) < MAX_REGIONS
     \<and> b' = update_region b i (\<lambda>r. r \<lparr> rb_ecc_kind := Some k, rb_flags := or (rb_flags r) FLAG_ECC_PRESENT \<rparr>)"
  by (auto simp: protect_def kind_in_use_iff emit_count_kinds nth_opt_def)

lemma flag_set: "and (or f FLAG_ECC_PRESENT) FLAG_ECC_PRESENT \<noteq> 0"
proof -
  have "bit (and (or f FLAG_ECC_PRESENT) FLAG_ECC_PRESENT) 1"
    by (simp add: bit_simps FLAG_ECC_PRESENT_def)
  then show ?thesis by (metis bit_0_eq bot_apply bot_bool_def)
qed

lemma builder_ok_protect: "builder_ok b \<Longrightarrow> protect b i k = Some (Inr b') \<Longrightarrow> builder_ok b'"
proof -
  assume ok: "builder_ok b" and p: "protect b i k = Some (Inr b')"
  let ?rs = "wb_regions b" and ?r = "wb_regions b ! i"
  let ?r' = "?r \<lparr> rb_ecc_kind := Some k, rb_flags := or (rb_flags ?r) FLAG_ECC_PRESENT \<rparr>"
  have i: "i < length ?rs" and k: "k \<notin> set (emitted_kinds ?rs)" and none: "rb_ecc_kind ?r = None"
    and len: "length (emitted_kinds ?rs) < MAX_REGIONS" and b': "wb_regions b' = ?rs[i := ?r']"
    using p by (auto simp: protect_Some_Inr update_region_def)
  let ?A = "emitted_kinds (take i ?rs)" and ?B = "emitted_kinds (drop (Suc i) ?rs)"
  have old: "emitted_kinds ?rs = ?A @ rb_kind ?r # ?B"
    using emitted_kinds_split [OF i] by (simp add: plane_kinds_def none)
  have new: "emitted_kinds (wb_regions b') = ?A @ rb_kind ?r # k # ?B"
    unfolding b' emitted_kinds_update [OF i] by (simp add: plane_kinds_def)
  have "list_all (\<lambda>r. rb_ecc_kind r \<noteq> None \<longrightarrow> and (rb_flags r) FLAG_ECC_PRESENT \<noteq> 0) (wb_regions b')"
    using ok i flag_set by (simp add: b' builder_ok_def list_all_length nth_list_update)
  moreover have "distinct (?A @ rb_kind ?r # ?B)" "k \<notin> set (?A @ rb_kind ?r # ?B)" "length (?A @ rb_kind ?r # ?B) < MAX_REGIONS"
    using ok k len unfolding builder_ok_def old by simp_all
  ultimately show ?thesis unfolding builder_ok_def new by auto
qed

lemma builder_ok_protect_from: "builder_ok b \<Longrightarrow> protect_from b is = Some (Inr b') \<Longrightarrow> builder_ok b'"
proof (induction "is" arbitrary: b)
  case (Cons i "is")
  then obtain r where r: "i < length (wb_regions b)" "wb_regions b ! i = r" by (auto split: option.splits)
  then have step: "protect_from b (i # is) = (if rb_ecc_kind r \<noteq> None then protect_from b is
      else bindOR (protect b i (plane_kind_for (rb_kind r))) (\<lambda>b'. protect_from b' is))" by (simp add: nth_opt_def)
  show ?case
  proof (cases "rb_ecc_kind r \<noteq> None")
    case True
    with Cons.prems(2) have "protect_from b is = Some (Inr b')" unfolding step by (metis (full_types))
    then show ?thesis by (rule Cons.IH [OF Cons.prems(1)])
  next
    case False
    with Cons.prems(2) obtain b'' where "protect b i (plane_kind_for (rb_kind r)) = Some (Inr b'')" "protect_from b'' is = Some (Inr b')"
      unfolding step by (auto simp: bindOR_Some_Inr)
    with builder_ok_protect [OF Cons.prems(1)] Cons.IH show ?thesis by blast
  qed
qed simp

text \<open>The builders a caller can reach.\<close>

inductive built :: "wire_builder \<Rightarrow> bool" where
  built_new: "built builder_new"
| built_region: "built b \<Longrightarrow> builder_region b k f = Inr (i, b') \<Longrightarrow> built b'"
| built_push: "built b \<Longrightarrow> builder_push b i bs = Some b' \<Longrightarrow> built b'"
| built_protect: "built b \<Longrightarrow> protect b i k = Some (Inr b') \<Longrightarrow> built b'"
| built_protect_all: "built b \<Longrightarrow> protect_all b = Some (Inr b') \<Longrightarrow> built b'"

lemma built_ok: "built b \<Longrightarrow> builder_ok b"
proof (induction rule: built.induct)
  case built_new
  show ?case by (rule builder_ok_new)
next
  case (built_region b k f i b')
  then show ?case by (auto intro: builder_ok_region)
next
  case (built_push b i bs b')
  then show ?case by (auto intro: builder_ok_push)
next
  case (built_protect b i k b')
  then show ?case by (auto intro: builder_ok_protect)
next
  case (built_protect_all b b')
  then show ?case by (auto simp: protect_all_def intro: builder_ok_protect_from)
qed

end
