(* ===== verification/Wire_View.thy ===== *)
theory Wire_View
  imports Wire_Layout
begin

text \<open>
  \<open>keleusma-wire/src/view.rs\<close>: the reader.  A slice index out of range panics in the code; every
  function that indexes has the panic as an outer \<open>None\<close>, so that its absence is a theorem.  Indices of
  type \<open>u16\<close> are natural numbers: the loops run below the region count and cannot wrap.
\<close>

section \<open>Voting\<close>

text \<open>Three bytes read by index, their majority, and whether one of them disagrees with it.\<close>

definition vote :: "u8 list \<Rightarrow> nat \<Rightarrow> nat \<Rightarrow> nat \<Rightarrow> (u8 \<times> bool) option" where
  "vote bytes p q r =
     Option.bind (nth_opt bytes p) (\<lambda>a. Option.bind (nth_opt bytes q) (\<lambda>b. Option.bind (nth_opt bytes r) (\<lambda>c.
       let v = maj3 a b c in Some (v, a \<noteq> v \<or> b \<noteq> v \<or> c \<noteq> v))))"

section \<open>The view\<close>

record wire_view =
  vw_bytes :: "u8 list"
  vw_region_count :: u16
  vw_prologue_disagreed :: bool
  vw_directory_disagreed :: bool

definition view_needs_scrub :: "wire_view \<Rightarrow> bool" where
  "view_needs_scrub v = (vw_prologue_disagreed v \<or> vw_directory_disagreed v)"

definition dir_vote :: "wire_view \<Rightarrow> nat \<Rightarrow> (u8 \<times> bool) option" where
  "dir_vote v at =
     (let dir_span = unat (vw_region_count v) * DIR_ENTRY_BYTES in
      vote (vw_bytes v) (DIRECTORY_OFFSET + at) (DIRECTORY_OFFSET + dir_span + at) (DIRECTORY_OFFSET + 2 * dir_span + at))"

definition dir_byte :: "wire_view \<Rightarrow> nat \<Rightarrow> nat \<Rightarrow> u8 option" where
  "dir_byte v index offset = map_option fst (dir_vote v (index * DIR_ENTRY_BYTES + offset))"

fun disagreement_from :: "wire_view \<Rightarrow> nat list \<Rightarrow> bool option" where
  "disagreement_from v [] = Some False"
| "disagreement_from v (at # ats) =
     Option.bind (dir_vote v at) (\<lambda>(b, differs). if differs then Some True else disagreement_from v ats)"

definition directory_has_disagreement :: "wire_view \<Rightarrow> bool option" where
  "directory_has_disagreement v = disagreement_from v [0..<unat (vw_region_count v) * DIR_ENTRY_BYTES]"

definition decode_entry :: "u8 list \<Rightarrow> region option" where
  "decode_entry e =
     Option.bind (u16_at e 0) (\<lambda>kind. Option.bind (u16_at e 2) (\<lambda>flags. Option.bind (u32_at e 4) (\<lambda>off.
     Option.bind (u32_at e 8) (\<lambda>len. Option.bind (u16_at e 12) (\<lambda>covers.
       Some \<lparr> rg_kind = kind, rg_flags = flags, rg_word_offset = off, rg_word_length = len, rg_covers = covers \<rparr>)))))"

definition region_at :: "wire_view \<Rightarrow> nat \<Rightarrow> region option option" where
  "region_at v index =
     (if index \<ge> unat (vw_region_count v) then Some None
      else map_option decode_entry (those (map (dir_byte v index) [0..<DIR_ENTRY_BYTES])))"

text \<open>\<open>region_bytes\<close> uses \<open>slice::get\<close> and cannot panic.\<close>

definition region_bytes :: "wire_view \<Rightarrow> region \<Rightarrow> wire_error + u8 list" where
  "region_bytes v r =
     (case byte_offset r of None \<Rightarrow> Inl Overflow | Some start \<Rightarrow>
      case byte_length r of None \<Rightarrow> Inl Overflow | Some len \<Rightarrow>
      case checked_add start len of None \<Rightarrow> Inl Overflow | Some fin \<Rightarrow>
      if start \<le> fin \<and> fin \<le> length (vw_bytes v) then Inr (take (fin - start) (drop start (vw_bytes v)))
      else Inl (RegionOutOfBounds 0))"

section \<open>Validation and parsing\<close>

fun no_duplicate_from :: "wire_view \<Rightarrow> region \<Rightarrow> nat list \<Rightarrow> (wire_error + unit) option" where
  "no_duplicate_from v r [] = Some (Inr ())"
| "no_duplicate_from v r (j # js) =
     Option.bind (region_at v j) (\<lambda>e. case e of
       None \<Rightarrow> Some (Inl (RegionOutOfBounds (word_of_nat j)))
     | Some other \<Rightarrow>
         if rg_kind other = rg_kind r then Some (Inl (DuplicateRegion (rg_kind r))) else no_duplicate_from v r js)"

definition validate_region :: "wire_view \<Rightarrow> nat \<Rightarrow> (wire_error + unit) option" where
  "validate_region v i =
     Option.bind (region_at v i) (\<lambda>e. case e of
       None \<Rightarrow> Some (Inl (RegionOutOfBounds (word_of_nat i)))
     | Some r \<Rightarrow>
         (case byte_offset r of None \<Rightarrow> Some (Inl Overflow) | Some start \<Rightarrow>
          case byte_length r of None \<Rightarrow> Some (Inl Overflow) | Some len \<Rightarrow>
          case checked_add start len of None \<Rightarrow> Some (Inl Overflow) | Some fin \<Rightarrow>
          if fin > length (vw_bytes v) then Some (Inl (RegionOutOfBounds (word_of_nat i)))
          else no_duplicate_from v r [i + 1..<unat (vw_region_count v)]))"

fun validate_from :: "wire_view \<Rightarrow> nat list \<Rightarrow> (wire_error + unit) option" where
  "validate_from v [] = Some (Inr ())"
| "validate_from v (i # is) = bindOR (validate_region v i) (\<lambda>_. validate_from v is)"

definition validate_regions :: "wire_view \<Rightarrow> (wire_error + unit) option" where
  "validate_regions v = validate_from v [0..<unat (vw_region_count v)]"

text \<open>The checks of \<open>parse\<close> on the voted prologue, in the order of the code.\<close>

definition check_prologue :: "u8 list \<Rightarrow> wire_error + u16" where
  "check_prologue p =
     (if u32_at p 0 \<noteq> Some MAGIC then Inl BadMagic
      else case u16_at p 4 of None \<Rightarrow> Inl Truncated | Some bom \<Rightarrow>
      if bom \<noteq> BOM then Inl ForeignEndian
      else case u16_at p 6 of None \<Rightarrow> Inl Truncated | Some version \<Rightarrow>
      if version \<noteq> FORMAT_VERSION then Inl (UnsupportedVersion version)
      else case u32_at p 12 of None \<Rightarrow> Inl Truncated | Some want \<Rightarrow>
      if crc32 (take 12 p) \<noteq> want then Inl BadPrologueChecksum
      else case u16_at p 8 of None \<Rightarrow> Inl Truncated | Some region_count \<Rightarrow>
      if unat region_count > MAX_REGIONS then Inl (TooManyRegions (ucast region_count))
      else Inr region_count)"

definition prologue_vote :: "u8 list \<Rightarrow> (u8 \<times> bool) list option" where
  "prologue_vote bytes =
     those (map (\<lambda>i. vote bytes i (PROLOGUE_BYTES + i) (2 * PROLOGUE_BYTES + i)) [0..<PROLOGUE_BYTES])"

definition parse :: "u8 list \<Rightarrow> (wire_error + wire_view) option" where
  "parse bytes =
     (if length bytes < PROLOGUE_BYTES * COPIES then Some (Inl Truncated)
      else Option.bind (prologue_vote bytes) (\<lambda>votes.
      bindOR (Some (check_prologue (map fst votes))) (\<lambda>region_count.
      case header_bytes (unat region_count) of None \<Rightarrow> Some (Inl Overflow) | Some header \<Rightarrow>
      if length bytes < header then Some (Inl Truncated)
      else let view = \<lparr> vw_bytes = bytes, vw_region_count = region_count,
                        vw_prologue_disagreed = list_ex snd votes, vw_directory_disagreed = False \<rparr> in
      Option.bind (directory_has_disagreement view) (\<lambda>d.
      let view = view \<lparr> vw_directory_disagreed := d \<rparr> in
      bindOR (validate_regions view) (\<lambda>_. Some (Inr view))))))"

section \<open>Queries\<close>

fun find_region_from :: "wire_view \<Rightarrow> u16 \<Rightarrow> nat list \<Rightarrow> region option option" where
  "find_region_from v kind [] = Some None"
| "find_region_from v kind (i # is) =
     Option.bind (region_at v i) (\<lambda>e. case e of
       None \<Rightarrow> Some None
     | Some r \<Rightarrow> if rg_kind r = kind then Some (Some r) else find_region_from v kind is)"

definition find_region :: "wire_view \<Rightarrow> u16 \<Rightarrow> region option option" where
  "find_region v kind = find_region_from v kind [0..<unat (vw_region_count v)]"

fun ecc_for_from :: "wire_view \<Rightarrow> region \<Rightarrow> nat list \<Rightarrow> u8 list option option" where
  "ecc_for_from v r [] = Some None"
| "ecc_for_from v r (i # is) =
     Option.bind (region_at v i) (\<lambda>e. case e of
       None \<Rightarrow> Some None
     | Some candidate \<Rightarrow>
         if is_ecc_plane candidate \<and> rg_covers candidate = rg_kind r
         then Some (case region_bytes v candidate of Inl _ \<Rightarrow> None | Inr parity \<Rightarrow> Some parity)
         else ecc_for_from v r is)"

definition ecc_for :: "wire_view \<Rightarrow> region \<Rightarrow> u8 list option option" where
  "ecc_for v r = ecc_for_from v r [0..<unat (vw_region_count v)]"

definition verify_region :: "wire_view \<Rightarrow> region \<Rightarrow> ecc_report option option" where
  "verify_region v r =
     map_option (\<lambda>p. Option.bind p (\<lambda>parity.
       case region_bytes v r of Inl _ \<Rightarrow> None | Inr data \<Rightarrow> Some (plane_scan parity data))) (ecc_for v r)"

definition add_report :: "ecc_report option \<Rightarrow> ecc_report \<Rightarrow> ecc_report" where
  "add_report tot rep =
     (let acc = (case tot of Some t \<Rightarrow> t | None \<Rightarrow> \<lparr> er_words = 0, er_corrected = 0, er_uncorrectable = 0 \<rparr>)
      in \<lparr> er_words = er_words acc + er_words rep, er_corrected = er_corrected acc + er_corrected rep,
           er_uncorrectable = er_uncorrectable acc + er_uncorrectable rep \<rparr>)"

fun verify_all_from :: "wire_view \<Rightarrow> ecc_report option \<Rightarrow> nat list \<Rightarrow> ecc_report option option" where
  "verify_all_from v tot [] = Some tot"
| "verify_all_from v tot (i # is) =
     Option.bind (region_at v i) (\<lambda>e. case e of
       None \<Rightarrow> verify_all_from v tot is
     | Some r \<Rightarrow>
         if is_ecc_plane r \<or> \<not> has_ecc r then verify_all_from v tot is
         else Option.bind (verify_region v r) (\<lambda>rep. case rep of
           None \<Rightarrow> verify_all_from v tot is
         | Some rep \<Rightarrow> verify_all_from v (Some (add_report tot rep)) is))"

definition verify_all :: "wire_view \<Rightarrow> ecc_report option option" where
  "verify_all v = verify_all_from v None [0..<unat (vw_region_count v)]"

section \<open>Record tables and pools\<close>

record record_table =
  rt_bytes :: "u8 list"
  rt_stride :: nat

definition records :: "wire_view \<Rightarrow> region \<Rightarrow> nat \<Rightarrow> wire_error + record_table" where
  "records v r stride =
     (if stride = 0 \<or> stride mod WORD \<noteq> 0 then Inl BadRecordStride
      else bindR (region_bytes v r) (\<lambda>bytes.
        if length bytes mod stride \<noteq> 0 then Inl BadRecordStride
        else Inr \<lparr> rt_bytes = bytes, rt_stride = stride \<rparr>))"

definition table_from_bytes :: "u8 list \<Rightarrow> nat \<Rightarrow> record_table option" where
  "table_from_bytes bytes stride =
     (if stride = 0 \<or> stride mod WORD \<noteq> 0 \<or> length bytes mod stride \<noteq> 0 then None
      else Some \<lparr> rt_bytes = bytes, rt_stride = stride \<rparr>)"

definition table_len :: "record_table \<Rightarrow> nat" where
  "table_len t = length (rt_bytes t) div rt_stride t"

text \<open>\<open>slice::get(start..end)\<close>\<close>

definition slice_get :: "'a list \<Rightarrow> nat \<Rightarrow> nat \<Rightarrow> 'a list option" where
  "slice_get xs start fin = (if start \<le> fin \<and> fin \<le> length xs then Some (take (fin - start) (drop start xs)) else None)"

definition table_get :: "record_table \<Rightarrow> nat \<Rightarrow> u8 list option" where
  "table_get t index =
     Option.bind (checked_mul index (rt_stride t)) (\<lambda>start.
     Option.bind (checked_add start (rt_stride t)) (\<lambda>fin. slice_get (rt_bytes t) start fin))"

text \<open>\<open>get_as\<close>: the record type's stride and decoder are parameters.\<close>

definition table_get_as :: "nat \<Rightarrow> (u8 list \<Rightarrow> 't option) \<Rightarrow> record_table \<Rightarrow> nat \<Rightarrow> 't option" where
  "table_get_as stride decode t index =
     (if rt_stride t \<noteq> stride then None else Option.bind (table_get t index) decode)"

definition range_is_forward :: "record_table \<Rightarrow> nat \<Rightarrow> u32 \<Rightarrow> u32 \<Rightarrow> bool" where
  "range_is_forward t at first count =
     (case checked_add (unat first) (unat count) of
        None \<Rightarrow> False
      | Some fin \<Rightarrow> unat first > at \<and> fin \<le> table_len t)"

definition pool_slice :: "u8 list \<Rightarrow> u32 \<Rightarrow> u32 \<Rightarrow> u8 list option" where
  "pool_slice pool offset len =
     Option.bind (checked_add (unat offset) (unat len)) (\<lambda>fin. slice_get pool (unat offset) fin)"

section \<open>The directory as a pure function of the voted bytes\<close>

definition voted :: "wire_view \<Rightarrow> nat \<Rightarrow> u8" where
  "voted v at =
     (let span = unat (vw_region_count v) * 16; b = vw_bytes v in
      maj3 (b ! (48 + at)) (b ! (48 + span + at)) (b ! (48 + 2 * span + at)))"

definition header_fits :: "wire_view \<Rightarrow> bool" where
  "header_fits v \<longleftrightarrow> unat (vw_region_count v) * 48 + 48 \<le> length (vw_bytes v)"

definition entry_of :: "wire_view \<Rightarrow> nat \<Rightarrow> region" where
  "entry_of v i = the (decode_entry (map (\<lambda>k. voted v (i * 16 + k)) [0..<16]))"

definition region_end :: "region \<Rightarrow> nat" where
  "region_end r = unat (rg_word_offset r) * 8 + unat (rg_word_length r) * 8"

definition regions_ok :: "wire_view \<Rightarrow> bool" where
  "regions_ok v \<longleftrightarrow>
     (\<forall>i < unat (vw_region_count v). region_end (entry_of v i) \<le> length (vw_bytes v))
     \<and> distinct (map (rg_kind \<circ> entry_of v) [0..<unat (vw_region_count v)])"

lemma those_map_Some: "(\<And>x. x \<in> set xs \<Longrightarrow> f x = Some (g x)) \<Longrightarrow> those (map f xs) = Some (map g xs)"
  by (induction xs) auto

text \<open>A vote that differs from one of its copies is a disagreement among the copies.\<close>

lemma maj3_unanimous: "x \<noteq> maj3 x y z \<or> y \<noteq> maj3 x y z \<or> z \<noteq> maj3 x y z \<longleftrightarrow> \<not> (x = y \<and> y = z)"
  by auto

lemma vote_in_range:
  "p < length b \<Longrightarrow> q < length b \<Longrightarrow> r < length b \<Longrightarrow>
   vote b p q r = Some (maj3 (b ! p) (b ! q) (b ! r), \<not> (b ! p = b ! q \<and> b ! q = b ! r))"
  using maj3_unanimous [of "b ! p" "b ! q" "b ! r"] by (auto simp: vote_def nth_opt_def Let_def)

text \<open>The three directory copies agree at a position.\<close>

definition dir_agrees :: "wire_view \<Rightarrow> nat \<Rightarrow> bool" where
  "dir_agrees v at \<longleftrightarrow>
     (let span = unat (vw_region_count v) * 16; b = vw_bytes v in
      b ! (48 + at) = b ! (48 + span + at) \<and> b ! (48 + span + at) = b ! (48 + 2 * span + at))"

lemma dir_vote_fits:
  assumes "header_fits v" "at < unat (vw_region_count v) * 16"
  shows "dir_vote v at = Some (voted v at, \<not> dir_agrees v at)"
  using assms unfolding dir_vote_def header_fits_def Let_def
  by (subst vote_in_range) (auto simp: wire_consts voted_def dir_agrees_def Let_def)

lemma decode_entry_total: "length e = 16 \<Longrightarrow> \<exists>r. decode_entry e = Some r"
  by (auto simp: decode_entry_def u16_at_def u32_at_def has_bytes_def)

lemma region_at_fits:
  assumes "header_fits v"
  shows "region_at v i = Some (if i < unat (vw_region_count v) then Some (entry_of v i) else None)"
proof (cases "i < unat (vw_region_count v)")
  case True
  have "dir_byte v i k = Some (voted v (i * 16 + k))" if "k \<in> set [0..<DIR_ENTRY_BYTES]" for k
  proof -
    have "i * 16 + k < unat (vw_region_count v) * 16" using True that by (auto simp: wire_consts)
    from dir_vote_fits [OF assms this] show ?thesis by (auto simp: dir_byte_def wire_consts)
  qed
  then have "those (map (dir_byte v i) [0..<DIR_ENTRY_BYTES]) = Some (map (\<lambda>k. voted v (i * 16 + k)) [0..<DIR_ENTRY_BYTES])"
    by (rule those_map_Some)
  with True decode_entry_total [of "map (\<lambda>k. voted v (i * 16 + k)) [0..<16]"]
  show ?thesis by (auto simp: region_at_def entry_of_def wire_consts)
qed (simp add: region_at_def)

lemma disagreement_fits:
  assumes "header_fits v" "set ats \<subseteq> {..<unat (vw_region_count v) * 16}"
  shows "disagreement_from v ats = Some (\<exists>at \<in> set ats. \<not> dir_agrees v at)"
  using assms(2) by (induction ats) (auto simp: dir_vote_fits [OF assms(1)])

lemma directory_disagreement:
  assumes "header_fits v"
  shows "directory_has_disagreement v = Some (\<exists>at < unat (vw_region_count v) * 16. \<not> dir_agrees v at)"
proof -
  have "set [0..<unat (vw_region_count v) * 16] \<subseteq> {..<unat (vw_region_count v) * 16}" by auto
  from disagreement_fits [OF assms this] show ?thesis
    by (auto simp: directory_has_disagreement_def wire_consts)
qed

section \<open>Validation\<close>

lemma no_duplicate_fits:
  assumes "header_fits v" "set js \<subseteq> {..<unat (vw_region_count v)}"
  shows "no_duplicate_from v r js =
    Some (if \<exists>j \<in> set js. rg_kind (entry_of v j) = rg_kind r then Inl (DuplicateRegion (rg_kind r)) else Inr ())"
  using assms(2) by (induction js) (auto simp: region_at_fits [OF assms(1)])

lemma validate_region_fits:
  assumes "header_fits v" "i < unat (vw_region_count v)"
  shows "validate_region v i =
    Some (if length (vw_bytes v) < region_end (entry_of v i) then Inl (RegionOutOfBounds (word_of_nat i))
          else if \<exists>j \<in> {i + 1..<unat (vw_region_count v)}. rg_kind (entry_of v j) = rg_kind (entry_of v i)
          then Inl (DuplicateRegion (rg_kind (entry_of v i))) else Inr ())"
proof -
  have "set [Suc i..<unat (vw_region_count v)] \<subseteq> {..<unat (vw_region_count v)}" by auto
  from no_duplicate_fits [OF assms(1) this, of "entry_of v i"] assms(2) show ?thesis
    by (simp add: validate_region_def region_at_fits [OF assms(1)] region_end_def)
qed

lemma validate_from_total:
  assumes "header_fits v" "set is \<subseteq> {..<unat (vw_region_count v)}"
  shows "\<exists>r. validate_from v is = Some r"
  using assms(2)
proof (induction "is")
  case (Cons i "is")
  then have "i < unat (vw_region_count v)" by simp
  note v = validate_region_fits [OF assms(1) this]
  show ?case
    unfolding validate_from.simps
  proof (rule bindOR_total)
    show "\<exists>r. validate_region v i = Some r" unfolding v by blast
  qed (use Cons in simp)
qed simp

lemma validate_from_ok:
  "validate_from v is = Some (Inr ()) \<longleftrightarrow> (\<forall>i \<in> set is. validate_region v i = Some (Inr ()))"
  by (induction "is") (auto simp: bindOR_Some_Inr)

lemma distinct_map_upt: "distinct (map f [0..<n]) \<longleftrightarrow> (\<forall>i < n. \<forall>j \<in> {i + 1..<n}. f j \<noteq> f i)"
proof
  assume d: "distinct (map f [0..<n])"
  show "\<forall>i < n. \<forall>j \<in> {i + 1..<n}. f j \<noteq> f i"
  proof (intro allI impI ballI)
    fix i j assume "i < n" "j \<in> {i + 1..<n}"
    then show "f j \<noteq> f i" using nth_eq_iff_index_eq [OF d, of j i] by auto
  qed
next
  assume *: "\<forall>i < n. \<forall>j \<in> {i + 1..<n}. f j \<noteq> f i"
  have "f j \<noteq> f i" if "i < n" "j < n" "i \<noteq> j" for i j
  proof (cases "i < j")
    case True
    with that * show ?thesis by simp
  next
    case False
    with that have "i \<in> {j + 1..<n}" by auto
    with that(2) * have "f i \<noteq> f j" by blast
    then show ?thesis by simp
  qed
  then show "distinct (map f [0..<n])" by (auto simp: distinct_conv_nth)
qed

lemma validate_regions_ok:
  assumes "header_fits v"
  shows "validate_regions v = Some (Inr ()) \<longleftrightarrow> regions_ok v"
proof -
  have "validate_region v i = Some (Inr ()) \<longleftrightarrow> region_end (entry_of v i) \<le> length (vw_bytes v)
      \<and> (\<forall>j \<in> {i + 1..<unat (vw_region_count v)}. rg_kind (entry_of v j) \<noteq> rg_kind (entry_of v i))"
    if "i < unat (vw_region_count v)" for i
    unfolding validate_region_fits [OF assms that] by auto
  then show ?thesis
    unfolding validate_regions_def validate_from_ok regions_ok_def distinct_map_upt by auto
qed

section \<open>Parsing\<close>

text \<open>What holds of every view the parser returns.\<close>

definition view_ok :: "wire_view \<Rightarrow> bool" where
  "view_ok v \<longleftrightarrow> unat (vw_region_count v) \<le> MAX_REGIONS \<and> header_fits v \<and> regions_ok v"

definition prologue_voted :: "u8 list \<Rightarrow> u8 list" where
  "prologue_voted b = map (\<lambda>i. maj3 (b ! i) (b ! (16 + i)) (b ! (32 + i))) [0..<16]"

definition prologue_agrees :: "u8 list \<Rightarrow> bool" where
  "prologue_agrees b \<longleftrightarrow> (\<forall>i < 16. b ! i = b ! (16 + i) \<and> b ! (16 + i) = b ! (32 + i))"

lemma prologue_vote_fits:
  assumes "48 \<le> length b"
  shows "\<exists>vs. prologue_vote b = Some vs \<and> map fst vs = prologue_voted b \<and> (list_ex snd vs \<longleftrightarrow> \<not> prologue_agrees b)"
proof -
  let ?f = "\<lambda>i. (maj3 (b ! i) (b ! (16 + i)) (b ! (32 + i)), \<not> (b ! i = b ! (16 + i) \<and> b ! (16 + i) = b ! (32 + i)))"
  have "prologue_vote b = Some (map ?f [0..<16])"
    unfolding prologue_vote_def PROLOGUE_BYTES_def
  proof (rule those_map_Some)
    fix i :: nat assume "i \<in> set [0..<16]"
    with assms show "vote b i (16 + i) (2 * 16 + i) = Some (?f i)" by (simp add: vote_in_range)
  qed
  moreover have "list_ex snd (map ?f [0..<16]) \<longleftrightarrow> \<not> prologue_agrees b"
    by (auto simp: list_ex_iff prologue_agrees_def)
  ultimately show ?thesis by (auto simp: prologue_voted_def comp_def)
qed

lemma check_prologue_count: "check_prologue p = Inr n \<Longrightarrow> unat n \<le> MAX_REGIONS"
  by (auto simp: check_prologue_def split: if_splits option.splits)

text \<open>The part of \<open>parse\<close> after the prologue.\<close>

definition open_view :: "u8 list \<Rightarrow> u16 \<Rightarrow> bool \<Rightarrow> bool \<Rightarrow> wire_view" where
  "open_view b n p d = \<lparr> vw_bytes = b, vw_region_count = n, vw_prologue_disagreed = p, vw_directory_disagreed = d \<rparr>"

lemma header_fits_open [simp]: "header_fits (open_view b n p d) \<longleftrightarrow> unat n * 48 + 48 \<le> length b"
  by (simp add: header_fits_def open_view_def)

lemma parse_short: "length b < 48 \<Longrightarrow> parse b = Some (Inl Truncated)"
  by (simp add: parse_def wire_consts)

text \<open>\<open>parse\<close> without its panics: the voted prologue, the directory, the validation.\<close>

lemma parse_voted:
  assumes "48 \<le> length b"
  shows "parse b = bindOR (Some (check_prologue (prologue_voted b))) (\<lambda>n.
      if length b < unat n * 48 + 48 then Some (Inl Truncated)
      else let v = open_view b n (\<not> prologue_agrees b)
                     (\<exists>at < unat n * 16. \<not> dir_agrees (open_view b n (\<not> prologue_agrees b) False) at)
           in bindOR (validate_regions v) (\<lambda>_. Some (Inr v)))"
proof -
  obtain vs where vs: "prologue_vote b = Some vs" "map fst vs = prologue_voted b" "list_ex snd vs = (\<not> prologue_agrees b)"
    using prologue_vote_fits [OF assms] by blast
  show ?thesis
  proof (cases "check_prologue (prologue_voted b)")
    case (Inl e)
    with assms vs show ?thesis by (simp add: parse_def PROLOGUE_BYTES_def COPIES_def)
  next
    case (Inr n)
    let ?v = "open_view b n (\<not> prologue_agrees b) False"
    have start: "parse b = (if length b < unat n * 48 + 48 then Some (Inl Truncated)
        else Option.bind (directory_has_disagreement ?v) (\<lambda>d.
          bindOR (validate_regions (?v \<lparr> vw_directory_disagreed := d \<rparr>)) (\<lambda>_. Some (Inr (?v \<lparr> vw_directory_disagreed := d \<rparr>)))))"
      using assms vs Inr check_prologue_count [OF Inr]
      by (simp add: parse_def PROLOGUE_BYTES_def COPIES_def header_bytes_exact open_view_def Let_def)
    show ?thesis
    proof (cases "length b < unat n * 48 + 48")
      case False
      then have "header_fits ?v" by simp
      from directory_disagreement [OF this] have "directory_has_disagreement ?v = Some (\<exists>at < unat n * 16. \<not> dir_agrees ?v at)"
        by (simp add: open_view_def)
      with start Inr False show ?thesis by (simp add: open_view_def Let_def)
    qed (simp add: start Inr)
  qed
qed

lemma parse_total: "\<exists>r. parse b = Some r"
proof (cases "length b < 48")
  case False
  have "\<exists>r. validate_regions (open_view b n p d) = Some r" if "\<not> length b < unat n * 48 + 48" for n p d
    unfolding validate_regions_def using that by (intro validate_from_total) auto
  with False show ?thesis
    unfolding parse_voted [OF leI [OF False]] Let_def by (intro bindOR_total) (auto intro!: bindOR_total)
qed (simp add: parse_short)

lemma parse_Inr:
  assumes "parse b = Some (Inr v)"
  shows "view_ok v" "vw_bytes v = b" "check_prologue (prologue_voted b) = Inr (vw_region_count v)"
    "view_needs_scrub v \<longleftrightarrow> \<not> (prologue_agrees b \<and> (\<forall>at < unat (vw_region_count v) * 16. dir_agrees v at))"
proof -
  have long: "48 \<le> length b" using assms parse_short [of b] by (cases "length b < 48") auto
  obtain n where n: "check_prologue (prologue_voted b) = Inr n" "unat n * 48 + 48 \<le> length b"
    and v: "v = open_view b n (\<not> prologue_agrees b) (\<exists>at < unat n * 16. \<not> dir_agrees (open_view b n (\<not> prologue_agrees b) False) at)"
    and d: "validate_regions v = Some (Inr ())"
    using assms unfolding parse_voted [OF long] Let_def by (auto simp: bindOR_Some_Inr split: if_splits)
  have f: "header_fits v" using n(2) v by simp
  from d have "regions_ok v" by (simp add: validate_regions_ok [OF f])
  with f check_prologue_count [OF n(1)] v show "view_ok v" by (simp add: view_ok_def open_view_def)
  show "vw_bytes v = b" "check_prologue (prologue_voted b) = Inr (vw_region_count v)" using n v by (simp_all add: open_view_def)
  have "dir_agrees v at \<longleftrightarrow> dir_agrees (open_view b n (\<not> prologue_agrees b) False) at" for at
    using v by (simp add: dir_agrees_def open_view_def)
  then show "view_needs_scrub v \<longleftrightarrow> \<not> (prologue_agrees b \<and> (\<forall>at < unat (vw_region_count v) * 16. dir_agrees v at))"
    using v by (simp add: view_needs_scrub_def open_view_def)
qed

text \<open>The converse: a buffer whose voted header describes regions inside it is accepted.\<close>

lemma parse_accepts:
  assumes "check_prologue (prologue_voted b) = Inr n"
    and "unat n * 48 + 48 \<le> length b" "\<And>p d. regions_ok (open_view b n p d)"
  shows "\<exists>p d. parse b = Some (Inr (open_view b n p d))"
proof -
  have "validate_regions (open_view b n p d) = Some (Inr ())" for p d
    using validate_regions_ok [of "open_view b n p d"] assms(2,3) by simp
  moreover have "48 \<le> length b" using assms(2) by simp
  ultimately show ?thesis using assms(1,2) by (auto simp: parse_voted Let_def)
qed

section \<open>Accessors of a parsed view\<close>

lemma region_bytes_eq:
  "region_bytes v r = (if region_end r \<le> length (vw_bytes v)
     then Inr (take (unat (rg_word_length r) * 8) (drop (unat (rg_word_offset r) * 8) (vw_bytes v)))
     else Inl (RegionOutOfBounds 0))"
  by (simp add: region_bytes_def region_end_def)

lemma view_ok_entry: "view_ok v \<Longrightarrow> i < unat (vw_region_count v) \<Longrightarrow> region_end (entry_of v i) \<le> length (vw_bytes v)"
  by (simp add: view_ok_def regions_ok_def)

lemma view_ok_region_at:
  "view_ok v \<Longrightarrow> region_at v i = Some (if i < unat (vw_region_count v) then Some (entry_of v i) else None)"
  by (simp add: view_ok_def region_at_fits)

lemma find_region_eq:
  assumes "view_ok v"
  shows "find_region v kind = Some (find (\<lambda>r. rg_kind r = kind) (map (entry_of v) [0..<unat (vw_region_count v)]))"
proof -
  have "find_region_from v kind is = Some (find (\<lambda>r. rg_kind r = kind) (map (entry_of v) is))"
    if "set is \<subseteq> {..<unat (vw_region_count v)}" for "is"
    using that by (induction "is") (auto simp: view_ok_region_at [OF assms])
  from this [of "[0..<unat (vw_region_count v)]"] show ?thesis by (simp add: find_region_def lessThan_atLeast0)
qed

lemma find_region_entry:
  assumes "view_ok v" "i < unat (vw_region_count v)"
  shows "find_region v (rg_kind (entry_of v i)) = Some (Some (entry_of v i))"
proof -
  let ?es = "map (entry_of v) [0..<unat (vw_region_count v)]"
  have d: "distinct (map rg_kind ?es)" using assms(1) by (simp add: view_ok_def regions_ok_def)
  have "find (\<lambda>r. rg_kind r = rg_kind (?es ! i)) ?es = Some (?es ! i)"
    unfolding find_Some_iff
  proof (intro exI conjI allI impI)
    fix j assume "j < i"
    then show "rg_kind (?es ! j) \<noteq> rg_kind (?es ! i)"
      using nth_eq_iff_index_eq [OF d, of j i] assms(2) by simp
  qed (use assms(2) in simp_all)
  with assms show ?thesis by (simp add: find_region_eq)
qed

definition find_plane :: "wire_view \<Rightarrow> u16 \<Rightarrow> region option" where
  "find_plane v kind = find (\<lambda>c. is_ecc_plane c \<and> rg_covers c = kind) (map (entry_of v) [0..<unat (vw_region_count v)])"

lemma ecc_for_eq:
  assumes "view_ok v"
  shows "ecc_for v r = Some (Option.bind (find_plane v (rg_kind r)) (\<lambda>c. case region_bytes v c of Inl _ \<Rightarrow> None | Inr p \<Rightarrow> Some p))"
proof -
  have "ecc_for_from v r is = Some (Option.bind (find (\<lambda>c. is_ecc_plane c \<and> rg_covers c = rg_kind r) (map (entry_of v) is))
      (\<lambda>c. case region_bytes v c of Inl _ \<Rightarrow> None | Inr p \<Rightarrow> Some p))"
    if "set is \<subseteq> {..<unat (vw_region_count v)}" for "is"
    using that by (induction "is") (auto simp: view_ok_region_at [OF assms])
  from this [of "[0..<unat (vw_region_count v)]"] show ?thesis by (simp add: ecc_for_def find_plane_def lessThan_atLeast0)
qed

lemma verify_all_total: "view_ok v \<Longrightarrow> \<exists>r. verify_all v = Some r"
proof -
  assume ok: "view_ok v"
  have "\<exists>r. verify_all_from v tot is = Some r" for tot "is"
  proof (induction "is" arbitrary: tot)
    case (Cons i "is")
    show ?case
    proof (cases "i < unat (vw_region_count v)")
      case True
      obtain rep where "verify_region v (entry_of v i) = Some rep" by (auto simp: verify_region_def ecc_for_eq [OF ok])
      with True Cons show ?thesis by (cases rep) (auto simp: view_ok_region_at [OF ok])
    next
      case False
      with Cons show ?thesis by (simp add: view_ok_region_at [OF ok])
    qed
  qed simp
  then show ?thesis by (simp add: verify_all_def)
qed

end
