(* ===== verification/Wire_Roundtrip.thy ===== *)
theory Wire_Roundtrip
  imports Wire_Build Wire_View
begin

text \<open>
  Reading back what the encoder wrote.  \<open>carries rs b\<close> says that the voted header of a buffer is the
  directory \<open>rs\<close>: such a buffer parses, to that directory.  The encoder's output carries the directory
  of its emit list, and keeps carrying it when one copy of each header byte is damaged.
\<close>

section \<open>Padding and payloads\<close>

lemma pad_word_eq: "pad_word out = out @ replicate ((8 - length out mod 8) mod 8) 0"
proof (induction out rule: pad_word.induct)
  case (1 out)
  show ?case
  proof (cases "length out mod 8 = 0")
    case True
    then show ?thesis by (simp add: pad_word.simps WORD_def)
  next
    case False
    let ?k = "length out mod 8"
    have k: "0 < ?k" "?k < 8" using False by auto
    have "(8 - Suc (length out) mod 8) mod 8 = 7 - ?k" using k by (auto simp: mod_Suc)
    with False 1 have "pad_word out = out @ 0 # replicate (7 - ?k) 0" by (simp add: pad_word.simps [of out] WORD_def)
    also have "0 # replicate (7 - ?k) 0 = replicate (8 - ?k) (0 :: u8)" using k by (simp flip: replicate_Suc add: Suc_diff_le less_Suc_eq_le)
    finally show ?thesis using k by simp
  qed
qed

definition word_count :: "u8 list \<Rightarrow> nat" where
  "word_count bytes = (length bytes + 7) div 8"

lemma length_pad_word: "length (pad_word bytes) = 8 * word_count bytes"
proof -
  have "n + (8 - n mod 8) mod 8 = 8 * ((n + 7) div 8)" for n :: nat
  proof (cases "n mod 8 = 0")
    case True
    then obtain q where "n = 8 * q" by auto
    then show ?thesis by simp
  next
    case False
    define q r where "q = n div 8" and "r = n mod 8"
    then have n: "n = 8 * q + r" and r: "0 < r" "r < 8" using False by simp_all
    have "(n + 7) div 8 = Suc q" using n r by (intro div_nat_eqI) simp_all
    with n r show ?thesis by simp
  qed
  then show ?thesis by (simp add: pad_word_eq word_count_def)
qed

lemma pad_word_append: "8 dvd length out \<Longrightarrow> pad_word (out @ bytes) = out @ pad_word bytes"
  by (auto simp: pad_word_eq elim!: dvdE)

lemma pad_word_aligned: "8 dvd length out \<Longrightarrow> pad_word out = out"
  using pad_word_append [of out "[]"] by (simp add: pad_word_eq)

definition emit_bytes :: "emit_entry \<Rightarrow> u8 list" where
  "emit_bytes e = snd (snd (snd e))"

definition body :: "emit_entry list \<Rightarrow> u8 list" where
  "body es = concat (map (pad_word \<circ> emit_bytes) es)"

lemma body_simps [simp]: "body [] = []" "body (e # es) = pad_word (emit_bytes e) @ body es" "body (es @ es') = body es @ body es'"
  by (simp_all add: body_def)

lemma length_body: "length (body es) = 8 * sum_list (map (word_count \<circ> emit_bytes) es)"
  by (induction es) (simp_all add: length_pad_word)

lemma payloads_eq: "8 dvd length out \<Longrightarrow> payloads out es = out @ body es"
proof (induction out es rule: payloads.induct)
  case (2 out kind flags covers bytes es)
  then show ?case by (simp add: pad_word_append length_pad_word emit_bytes_def)
qed simp

text \<open>The payload of an entry inside the body.\<close>

lemma body_slice:
  "i < length es \<Longrightarrow> take (length (pad_word (emit_bytes (es ! i)))) (drop (length (body (take i es))) (body es)) = pad_word (emit_bytes (es ! i))"
proof -
  assume "i < length es"
  then have "es = take i es @ es ! i # drop (Suc i) es" by (rule id_take_nth_drop)
  then have "body es = body (take i es) @ pad_word (emit_bytes (es ! i)) @ body (drop (Suc i) es)"
    by (metis body_simps(2,3))
  then show ?thesis by simp
qed

lemma body_prefix: "i < length es \<Longrightarrow> length (body (take i es)) + length (pad_word (emit_bytes (es ! i))) \<le> length (body es)"
proof -
  assume "i < length es"
  then have "es = take i es @ es ! i # drop (Suc i) es" by (rule id_take_nth_drop)
  then have "body es = body (take i es) @ pad_word (emit_bytes (es ! i)) @ body (drop (Suc i) es)"
    by (metis body_simps(2,3))
  then show ?thesis by simp
qed

section \<open>Placement\<close>

lemma place_Inr:
  "place c es = Inr (offs, fin) \<Longrightarrow>
   offs = map (\<lambda>i. (c + sum_list (map (word_count \<circ> emit_bytes) (take i es)), word_count (emit_bytes (es ! i)))) [0..<length es]
   \<and> fin = c + sum_list (map (word_count \<circ> emit_bytes) es)"
proof (induction c es arbitrary: offs rule: place.induct)
  case (2 c kind flags covers bytes es)
  let ?w = "word_count bytes"
  obtain offs' where rest: "place (c + ?w) es = Inr (offs', fin)" and offs: "offs = (c, ?w) # offs'"
    using 2(2) by (auto simp: words_for_Some bindR_Inr word_count_def split: option.splits)
  have "words_for (length bytes) = Some ?w" "checked_add c ?w = Some (c + ?w)"
    using 2(2) by (auto simp: words_for_Some word_count_def split: option.splits)
  note IH = 2(1) [OF this rest]
  show ?case
    using IH offs by (simp add: emit_bytes_def upt_conv_Cons map_Suc_upt [symmetric] comp_def add.assoc del: upt_Suc)
qed simp

section \<open>The directory\<close>

definition encode_entry :: "region \<Rightarrow> u8 list" where
  "encode_entry r =
     u16_bytes (rg_kind r) @ u16_bytes (rg_flags r) @ u32_bytes (rg_word_offset r) @ u32_bytes (rg_word_length r)
     @ u16_bytes (rg_covers r) @ u16_bytes 0"

definition region_of :: "emit_entry \<times> nat \<times> nat \<Rightarrow> region" where
  "region_of x = (case x of ((kind, flags, covers, bytes), off, len) \<Rightarrow>
     \<lparr> rg_kind = kind, rg_flags = flags, rg_word_offset = word_of_nat off, rg_word_length = word_of_nat len, rg_covers = covers \<rparr>)"

lemma length_encode_entry [simp]: "length (encode_entry r) = 16"
  by (simp add: encode_entry_def u16c.put_length u32c.put_length)

text \<open>A field behind a prefix of known length.\<close>

lemma u16_field: "length xs = n \<Longrightarrow> u16_at (xs @ u16_bytes v @ ys) n = Some v"
  using u16c.get_put by blast

lemma u32_field: "length xs = n \<Longrightarrow> u32_at (xs @ u32_bytes v @ ys) n = Some v"
  using u32c.get_put by blast

lemmas field_lengths = u16c.put_length u32c.put_length

lemma decode_encode: "decode_entry (encode_entry r) = Some r"
proof -
  let ?e = "encode_entry r"
  have "u16_at ?e 0 = Some (rg_kind r)"
    using u16_field [of "[]" 0] by (simp add: encode_entry_def)
  moreover have "u16_at ?e 2 = Some (rg_flags r)"
    unfolding encode_entry_def by (rule u16_field) (simp add: field_lengths)
  moreover have "u32_at ?e 4 = Some (rg_word_offset r)"
    unfolding encode_entry_def append_assoc [symmetric] using u32_field [of "u16_bytes (rg_kind r) @ u16_bytes (rg_flags r)" 4]
    by (simp add: field_lengths)
  moreover have "u32_at ?e 8 = Some (rg_word_length r)"
    using u32_field [of "u16_bytes (rg_kind r) @ u16_bytes (rg_flags r) @ u32_bytes (rg_word_offset r)" 8]
    by (simp add: field_lengths encode_entry_def)
  moreover have "u16_at ?e 12 = Some (rg_covers r)"
    using u16_field [of "u16_bytes (rg_kind r) @ u16_bytes (rg_flags r) @ u32_bytes (rg_word_offset r) @ u32_bytes (rg_word_length r)" 12]
    by (simp add: field_lengths encode_entry_def)
  ultimately show ?thesis by (simp add: decode_entry_def)
qed

definition directory_bytes :: "region list \<Rightarrow> u8 list" where
  "directory_bytes rs = concat (map encode_entry rs)"

lemma length_directory_bytes [simp]: "length (directory_bytes rs) = 16 * length rs"
  by (induction rs) (simp_all add: directory_bytes_def)

lemma directory_bytes_nth:
  "i < length rs \<Longrightarrow> k < 16 \<Longrightarrow> directory_bytes rs ! (i * 16 + k) = encode_entry (rs ! i) ! k"
proof (induction rs arbitrary: i)
  case (Cons r rs)
  then show ?case
    by (cases i) (simp_all add: directory_bytes_def nth_append)
qed simp

lemma as_u32_Inr: "as_u32 n = Inr w \<longleftrightarrow> n < 2 ^ 32 \<and> w = word_of_nat n"
  by (auto simp: as_u32_def)

lemma directory_Inr:
  "directory zs = Inr dir \<Longrightarrow> dir = directory_bytes (map region_of zs) \<and> (\<forall>(e, off, len) \<in> set zs. off < 2 ^ 32 \<and> len < 2 ^ 32)"
proof (induction zs arbitrary: dir rule: directory.induct)
  case (2 kind flags covers bytes off len es)
  obtain rest where r: "off < 2 ^ 32" "len < 2 ^ 32" "directory es = Inr rest"
    and dir: "dir = encode_entry (region_of ((kind, flags, covers, bytes), off, len)) @ rest"
    using 2(2) by (auto simp: bindR_Inr as_u32_Inr region_of_def encode_entry_def)
  have "rest = directory_bytes (map region_of es) \<and> (\<forall>(e, off, len) \<in> set es. off < 2 ^ 32 \<and> len < 2 ^ 32)"
    by (rule 2(1)) (use r in \<open>auto simp: as_u32_Inr\<close>)
  with r dir show ?case by (auto simp: directory_bytes_def)
qed (simp add: directory_bytes_def)

section \<open>The prologue\<close>

lemma length_prologue [simp]: "length (prologue n) = 16"
  by (simp add: prologue_def prologue_fields_def field_lengths)

lemma check_prologue_prologue: "unat n \<le> MAX_REGIONS \<Longrightarrow> check_prologue (prologue n) = Inr n"
proof -
  assume n: "unat n \<le> MAX_REGIONS"
  have "u32_at (prologue n) 0 = Some MAGIC"
    using u32_field [of "[]" 0] by (simp add: prologue_def prologue_fields_def)
  moreover have "u16_at (prologue n) 4 = Some BOM"
    using u16_field [of "u32_bytes MAGIC" 4] by (simp add: prologue_def prologue_fields_def field_lengths)
  moreover have "u16_at (prologue n) 6 = Some FORMAT_VERSION"
    using u16_field [of "u32_bytes MAGIC @ u16_bytes BOM" 6] by (simp add: prologue_def prologue_fields_def field_lengths)
  moreover have "u16_at (prologue n) 8 = Some n"
    using u16_field [of "u32_bytes MAGIC @ u16_bytes BOM @ u16_bytes FORMAT_VERSION" 8]
    by (simp add: prologue_def prologue_fields_def field_lengths)
  moreover have "u32_at (prologue n) 12 = Some (crc32 (prologue_fields n))"
    using u32_field [of "prologue_fields n" 12 _ "[]"] by (simp add: prologue_def prologue_fields_def field_lengths)
  moreover have "take 12 (prologue n) = prologue_fields n" by (simp add: prologue_def prologue_fields_def field_lengths)
  ultimately show ?thesis using n by (simp add: check_prologue_def)
qed

section \<open>Buffers that carry a directory\<close>

text \<open>Copy \<open>c\<close> of position \<open>k\<close> of a block of \<open>n\<close> bytes whose copies start at \<open>base\<close>.\<close>

definition copy_at :: "nat \<Rightarrow> nat \<Rightarrow> nat \<Rightarrow> nat \<Rightarrow> nat" where
  "copy_at base n c k = base + c * n + k"

definition majority_at :: "u8 list \<Rightarrow> nat \<Rightarrow> nat \<Rightarrow> nat \<Rightarrow> u8" where
  "majority_at b base n k = maj3 (b ! copy_at base n 0 k) (b ! copy_at base n 1 k) (b ! copy_at base n 2 k)"

definition carries :: "region list \<Rightarrow> u8 list \<Rightarrow> bool" where
  "carries rs b \<longleftrightarrow> length rs \<le> MAX_REGIONS \<and> length rs * 48 + 48 \<le> length b
     \<and> (\<forall>k < 16. majority_at b 0 16 k = prologue (word_of_nat (length rs)) ! k)
     \<and> (\<forall>k < length rs * 16. majority_at b 48 (length rs * 16) k = directory_bytes rs ! k)
     \<and> (\<forall>r \<in> set rs. region_end r \<le> length b) \<and> distinct (map rg_kind rs)"

lemma count_fits: "n \<le> MAX_REGIONS \<Longrightarrow> unat (word_of_nat n :: u16) = n"
  by (rule unat_word_of_nat) (simp add: wire_consts)

lemma carries_parse:
  assumes "carries rs b"
  shows "\<exists>v. parse b = Some (Inr v) \<and> unat (vw_region_count v) = length rs \<and> (\<forall>i < length rs. entry_of v i = rs ! i)"
proof -
  let ?n = "word_of_nat (length rs) :: u16"
  have n: "unat ?n = length rs" "unat ?n \<le> MAX_REGIONS" using assms count_fits by (simp_all add: carries_def)
  have "prologue_voted b = map (\<lambda>k. prologue ?n ! k) [0..<length (prologue ?n)]"
    using assms by (simp add: prologue_voted_def carries_def majority_at_def copy_at_def add.commute)
  then have "prologue_voted b = prologue ?n" by (simp only: map_nth)
  then have head: "check_prologue (prologue_voted b) = Inr ?n" by (simp add: check_prologue_prologue n(2))
  have entry: "entry_of (open_view b ?n p d) i = rs ! i" if "i < length rs" for p d i
  proof -
    have "voted (open_view b ?n p d) (i * 16 + k) = encode_entry (rs ! i) ! k" if k: "k < 16" for k
    proof -
      have "i * 16 + k < length rs * 16" using \<open>i < length rs\<close> k by simp
      with assms have "majority_at b 48 (length rs * 16) (i * 16 + k) = directory_bytes rs ! (i * 16 + k)"
        by (simp add: carries_def)
      then show ?thesis
        using directory_bytes_nth [OF \<open>i < length rs\<close> k] n
        by (simp add: voted_def open_view_def majority_at_def copy_at_def Let_def ac_simps)
    qed
    then have "map (\<lambda>k. voted (open_view b ?n p d) (i * 16 + k)) [0..<16] = map (\<lambda>k. encode_entry (rs ! i) ! k) [0..<length (encode_entry (rs ! i))]"
      by simp
    then show ?thesis unfolding entry_of_def map_nth by (simp add: decode_encode)
  qed
  have "regions_ok (open_view b ?n p d)" for p d
  proof -
    have "map (rg_kind \<circ> entry_of (open_view b ?n p d)) [0..<length rs] = map rg_kind rs"
      by (rule nth_equalityI) (simp_all add: entry)
    with assms n show ?thesis by (simp add: regions_ok_def carries_def open_view_def entry [unfolded open_view_def])
  qed
  from parse_accepts [OF head _ this] assms n obtain p d where "parse b = Some (Inr (open_view b ?n p d))"
    by (auto simp: carries_def)
  moreover have "unat (vw_region_count (open_view b ?n p d)) = length rs" using n by (simp add: open_view_def)
  ultimately show ?thesis using entry by blast
qed

text \<open>One vote per header byte may be lost.\<close>

definition header_copies :: "nat \<Rightarrow> (nat \<times> nat \<times> nat) set" where
  "header_copies n = {(0, 16, k) |k. k < 16} \<union> {(48, n * 16, k) |k. k < n * 16}"

lemma ball_header_copies:
  "(\<forall>x \<in> header_copies n. P x) \<longleftrightarrow> (\<forall>k < 16. P (0, 16, k)) \<and> (\<forall>k < n * 16. P (48, n * 16, k))"
  unfolding header_copies_def by blast

definition unanimous :: "nat \<Rightarrow> u8 list \<Rightarrow> bool" where
  "unanimous n b \<longleftrightarrow> (\<forall>(base, m, k) \<in> header_copies n. \<forall>c < 3. b ! copy_at base m c k = b ! copy_at base m 0 k)"

definition one_copy_damaged :: "nat \<Rightarrow> u8 list \<Rightarrow> u8 list \<Rightarrow> bool" where
  "one_copy_damaged n b b' \<longleftrightarrow> length b' = length b \<and>
     (\<forall>(base, m, k) \<in> header_copies n. \<exists>c < 3. \<forall>d < 3. d \<noteq> c \<longrightarrow> b' ! copy_at base m d k = b ! copy_at base m d k)"

lemma majority_unanimous:
  assumes "unanimous n b" "(base, m, k) \<in> header_copies n"
  shows "majority_at b base m k = b ! copy_at base m 0 k"
proof -
  have "b ! copy_at base m c k = b ! copy_at base m 0 k" if "c < 3" for c using assms that unfolding unanimous_def by blast
  from this [of 1] this [of 2] show ?thesis by (simp add: majority_at_def)
qed

lemma majority_damaged:
  assumes "unanimous n b" "one_copy_damaged n b b'" "(base, m, k) \<in> header_copies n"
  shows "majority_at b' base m k = majority_at b base m k"
proof -
  have same: "b ! copy_at base m c k = b ! copy_at base m 0 k" if "c < 3" for c
    using assms(1,3) that unfolding unanimous_def by blast
  obtain c where "c < 3" and c: "\<forall>d < 3. d \<noteq> c \<longrightarrow> b' ! copy_at base m d k = b ! copy_at base m d k"
    using assms(2,3) unfolding one_copy_damaged_def by blast
  have d: "b' ! copy_at base m d k = b ! copy_at base m 0 k" if "d < 3" "d \<noteq> c" for d
    using c same [OF that(1)] that by metis
  from \<open>c < 3\<close> consider "c = 0" | "c = 1" | "c = 2" by linarith
  then show ?thesis
    using d [of 0] d [of 1] d [of 2] majority_unanimous [OF assms(1,3)] by cases (simp_all add: majority_at_def)
qed

lemma carries_damaged:
  assumes "carries rs b" "unanimous (length rs) b" "one_copy_damaged (length rs) b b'"
  shows "carries rs b'"
proof -
  have "majority_at b' 0 16 k = majority_at b 0 16 k" if "k < 16" for k
    using that by (intro majority_damaged [OF assms(2,3)]) (simp add: header_copies_def)
  moreover have "majority_at b' 48 (length rs * 16) k = majority_at b 48 (length rs * 16) k" if "k < length rs * 16" for k
    using that by (intro majority_damaged [OF assms(2,3)]) (auto simp: header_copies_def)
  moreover have "length b' = length b" using assms(3) by (simp add: one_copy_damaged_def)
  ultimately show ?thesis using assms(1) by (simp add: carries_def)
qed

section \<open>The encoder's output\<close>

definition emit_region :: "region_buf \<Rightarrow> emit_entry list" where
  "emit_region r = (rb_kind r, rb_flags r, 0, rb_bytes r) #
     (case rb_ecc_kind r of None \<Rightarrow> [] | Some k \<Rightarrow> [(k, FLAG_IS_ECC, rb_kind r, parity_of (rb_bytes r))])"

definition emitted :: "wire_builder \<Rightarrow> emit_entry list" where
  "emitted b = concat (map emit_region (wb_regions b))"

lemma emit_list_eq: "emit_list rs (planes rs) = concat (map emit_region rs)"
  by (induction rs) (auto simp: planes_def emit_region_def split: option.splits)

lemma emitted_kinds_fst: "map fst (emitted b) = emitted_kinds (wb_regions b)"
proof -
  have "map fst (concat (map emit_region rs)) = emitted_kinds rs" for rs
    by (induction rs) (auto simp: emit_region_def plane_kinds_def split: option.splits)
  then show ?thesis by (simp add: emitted_def)
qed

text \<open>The directory of an emit list.\<close>

definition payload_start :: "emit_entry list \<Rightarrow> nat \<Rightarrow> nat" where
  "payload_start es i = length es * 48 + 48 + length (body (take i es))"

definition entry_region :: "emit_entry list \<Rightarrow> nat \<Rightarrow> region" where
  "entry_region es i = (case es ! i of (kind, flags, covers, bytes) \<Rightarrow>
     \<lparr> rg_kind = kind, rg_flags = flags, rg_word_offset = word_of_nat (payload_start es i div 8),
       rg_word_length = word_of_nat (word_count bytes), rg_covers = covers \<rparr>)"

definition entry_regions :: "emit_entry list \<Rightarrow> region list" where
  "entry_regions es = map (entry_region es) [0..<length es]"

lemma entry_regions_simps [simp]: "length (entry_regions es) = length es" "i < length es \<Longrightarrow> entry_regions es ! i = entry_region es i"
  by (simp_all add: entry_regions_def)

definition artifact :: "emit_entry list \<Rightarrow> u8 list" where
  "artifact es = concat (replicate 3 (prologue (word_of_nat (length es))))
     @ concat (replicate 3 (directory_bytes (entry_regions es))) @ body es"

lemma concat_three [simp]: "concat (replicate 3 x) = x @ x @ x"
  by (simp add: eval_nat_numeral)

text \<open>Offsets and lengths fit the directory's fields.\<close>

definition fields_fit :: "emit_entry list \<Rightarrow> bool" where
  "fields_fit es \<longleftrightarrow> (\<forall>i < length es. payload_start es i div 8 < 2 ^ 32 \<and> word_count (emit_bytes (es ! i)) < 2 ^ 32)"

lemma payload_start_div: "payload_start es i div 8 = length es * 6 + 6 + sum_list (map (word_count \<circ> emit_bytes) (take i es))"
  by (simp add: payload_start_def length_body)

lemma finish_artifact:
  assumes "builder_ok b" "finish b = Inr out"
  shows "out = artifact (emitted b) \<and> fields_fit (emitted b)"
proof -
  let ?es = "emitted b"
  have small: "length ?es \<le> MAX_REGIONS"
    using assms(1) emitted_kinds_fst [of b] by (metis builder_ok_def length_map)
  have h: "header_bytes (length ?es) = Some (length ?es * 48 + 48)" by (rule header_bytes_exact [OF small])
  have w: "words_for (length ?es * 48 + 48) = Some (length ?es * 6 + 6)"
    using small by (simp add: words_for_Some wire_consts)
  have n16: "length ?es < 2 ^ 16" using small by (simp add: wire_consts)
  obtain offs cur dir where place: "place (length ?es * 6 + 6) ?es = Inr (offs, cur)"
    and dir: "directory (zip ?es offs) = Inr dir"
    and out: "out = payloads (pad_word (concat (replicate COPIES (prologue (word_of_nat (length ?es)))) @ concat (replicate COPIES dir))) ?es"
    using assms(2) h w n16
    unfolding finish_def Let_def emit_list_eq emitted_def [symmetric]
    by (auto simp: bindR_Inr split: option.splits)
  have offs: "offs = map (\<lambda>i. (payload_start ?es i div 8, word_count (emit_bytes (?es ! i)))) [0..<length ?es]"
    using place_Inr [OF place] by (simp add: payload_start_div)
  have zip: "zip ?es offs = map (\<lambda>i. (?es ! i, payload_start ?es i div 8, word_count (emit_bytes (?es ! i)))) [0..<length ?es]"
    by (rule nth_equalityI) (simp_all add: offs)
  have regs: "map region_of (zip ?es offs) = entry_regions ?es"
    by (rule nth_equalityI) (simp_all add: zip region_of_def entry_region_def emit_bytes_def split: prod.splits)
  have d: "dir = directory_bytes (entry_regions ?es)" and fit: "fields_fit ?es"
    using directory_Inr [OF dir] unfolding regs by (auto simp: zip fields_fit_def)
  let ?head = "concat (replicate COPIES (prologue (word_of_nat (length ?es)))) @ concat (replicate COPIES dir)"
  have "length ?head = 8 * (length ?es * 6 + 6)" by (simp add: d COPIES_def)
  then have "8 dvd length ?head" by simp
  then have "out = ?head @ body ?es" unfolding out by (simp only: pad_word_aligned payloads_eq)
  then have "out = artifact ?es" by (simp add: d COPIES_def artifact_def)
  with fit show ?thesis by blast
qed

lemma length_artifact: "length (artifact es) = length es * 48 + 48 + length (body es)"
  by (simp add: artifact_def)

lemma artifact_body: "i < length es \<Longrightarrow>
    take (length (pad_word (emit_bytes (es ! i)))) (drop (payload_start es i) (artifact es)) = pad_word (emit_bytes (es ! i))"
  using body_slice [of i es] by (simp add: artifact_def payload_start_def)

text \<open>Every header byte of the artifact, by copy.\<close>

lemma nth_copies:
  assumes "k < length x" "c < 3"
  shows "concat (replicate 3 x) ! (c * length x + k) = x ! k"
proof -
  from assms(2) consider "c = 0" | "c = 1" | "c = 2" by linarith
  then show ?thesis using assms(1) by cases (simp_all add: nth_append eval_nat_numeral)
qed

lemma artifact_copies:
  assumes "(base, m, k) \<in> header_copies (length es)" "c < 3"
  shows "artifact es ! copy_at base m c k =
    (if base = 0 then prologue (word_of_nat (length es)) ! k else directory_bytes (entry_regions es) ! k)"
proof -
  let ?P = "prologue (word_of_nat (length es))" and ?D = "directory_bytes (entry_regions es)"
  have lenP: "length (concat (replicate 3 ?P)) = 48" and lenD: "length (concat (replicate 3 ?D)) = length es * 48"
    by simp_all
  from assms(1) consider "base = 0" "m = 16" "k < 16" | "base = 48" "m = length es * 16" "k < length es * 16"
    by (auto simp: header_copies_def)
  then show ?thesis
  proof cases
    case 1
    with assms(2) have "c * 16 + k < 48" by simp
    with 1 have "artifact es ! copy_at base m c k = concat (replicate 3 ?P) ! (c * 16 + k)"
      unfolding artifact_def copy_at_def by (simp add: nth_append lenP)
    with 1 nth_copies [of k ?P c] assms(2) show ?thesis by simp
  next
    case 2
    have "c * (length es * 16) \<le> 2 * (length es * 16)" using assms(2) by (intro mult_le_mono1) simp
    with 2 have "c * (length es * 16) + k < length es * 48" by linarith
    then have "artifact es ! copy_at base m c k = concat (replicate 3 ?D) ! (c * (length es * 16) + k)"
      unfolding artifact_def copy_at_def using 2 lenP lenD by (simp add: nth_append del: concat_three)
    with 2 nth_copies [of k ?D c] assms(2) show ?thesis by (simp add: mult.commute)
  qed
qed

lemma artifact_unanimous: "unanimous (length es) (artifact es)"
  unfolding unanimous_def
proof (intro ballI, clarify)
  fix base m k and c :: nat assume "(base, m, k) \<in> header_copies (length es)" "c < 3"
  then show "artifact es ! copy_at base m c k = artifact es ! copy_at base m 0 k" by (simp add: artifact_copies)
qed

lemma entry_region_span:
  assumes "fields_fit es" "i < length es"
  shows "unat (rg_word_offset (entry_region es i)) * 8 = payload_start es i"
    "unat (rg_word_length (entry_region es i)) * 8 = length (pad_word (emit_bytes (es ! i)))"
proof -
  have f: "payload_start es i div 8 < 2 ^ 32" "word_count (emit_bytes (es ! i)) < 2 ^ 32"
    using assms by (simp_all add: fields_fit_def)
  have "8 dvd payload_start es i" by (simp add: payload_start_def length_body)
  moreover have "unat (rg_word_offset (entry_region es i)) = payload_start es i div 8"
    using f(1) by (simp add: entry_region_def unat_word_of_nat split: prod.splits)
  ultimately show "unat (rg_word_offset (entry_region es i)) * 8 = payload_start es i" by simp
  show "unat (rg_word_length (entry_region es i)) * 8 = length (pad_word (emit_bytes (es ! i)))"
    using f(2) by (cases "es ! i") (simp add: entry_region_def length_pad_word emit_bytes_def unat_word_of_nat)
qed

lemma entry_region_end:
  "fields_fit es \<Longrightarrow> i < length es \<Longrightarrow> region_end (entry_region es i) \<le> length (artifact es)"
  using body_prefix [of i es] by (simp add: region_end_def entry_region_span length_artifact payload_start_def)

lemma artifact_carries:
  assumes "fields_fit es" "length es \<le> MAX_REGIONS" "distinct (map fst es)"
  shows "carries (entry_regions es) (artifact es)"
  unfolding carries_def
proof (intro conjI allI impI ballI)
  show "length (entry_regions es) \<le> MAX_REGIONS" "length (entry_regions es) * 48 + 48 \<le> length (artifact es)"
    using assms(2) by (simp_all add: length_artifact)
  fix k :: nat assume "k < 16"
  then have h: "(0, 16, k) \<in> header_copies (length es)" by (simp add: header_copies_def)
  show "majority_at (artifact es) 0 16 k = prologue (word_of_nat (length (entry_regions es))) ! k"
    unfolding majority_unanimous [OF artifact_unanimous h] using artifact_copies [OF h, of 0] by simp
next
  fix k :: nat assume "k < length (entry_regions es) * 16"
  then have h: "(48, length es * 16, k) \<in> header_copies (length es)" by (simp add: header_copies_def)
  show "majority_at (artifact es) 48 (length (entry_regions es) * 16) k = directory_bytes (entry_regions es) ! k"
    using majority_unanimous [OF artifact_unanimous h] artifact_copies [OF h, of 0] by simp
next
  fix r assume "r \<in> set (entry_regions es)"
  then show "region_end r \<le> length (artifact es)" using entry_region_end [OF assms(1)] by (auto simp: entry_regions_def)
next
  have "map rg_kind (entry_regions es) = map fst es"
    by (rule nth_equalityI) (simp_all add: entry_region_def split: prod.splits)
  with assms(3) show "distinct (map rg_kind (entry_regions es))" by simp
qed

section \<open>Reading the artifact back\<close>

lemma built_emitted: "built b \<Longrightarrow> length (emitted b) \<le> MAX_REGIONS \<and> distinct (map fst (emitted b))"
  using built_ok [of b] length_map [of fst "emitted b"] by (simp add: builder_ok_def emitted_kinds_fst)

text \<open>
  A buffer that carries the directory of an emit list, with the lengths of its artifact, parses to a
  view that finds every entry by its kind and slices its payload.
\<close>

lemma carried_entry:
  assumes "fields_fit es" "carries (entry_regions es) b" "length b = length (artifact es)"
  obtains v where "parse b = Some (Inr v)" "view_ok v" "vw_bytes v = b" "unat (vw_region_count v) = length es"
    "\<And>i. i < length es \<Longrightarrow> entry_of v i = entry_region es i"
    "\<And>i. i < length es \<Longrightarrow> find_region v (fst (es ! i)) = Some (Some (entry_region es i))"
    "\<And>i. i < length es \<Longrightarrow> region_bytes v (entry_region es i)
        = Inr (take (length (pad_word (emit_bytes (es ! i)))) (drop (payload_start es i) b))"
proof -
  obtain v where v: "parse b = Some (Inr v)" "unat (vw_region_count v) = length es"
    and e: "\<And>i. i < length es \<Longrightarrow> entry_of v i = entry_region es i"
    using carries_parse [OF assms(2)] by auto
  note ok = parse_Inr [OF v(1)]
  have kind: "rg_kind (entry_region es i) = fst (es ! i)" for i by (simp add: entry_region_def split: prod.splits)
  show thesis
  proof (rule that [OF v(1) ok(1) ok(2) v(2) e])
    fix i assume i: "i < length es"
    show "find_region v (fst (es ! i)) = Some (Some (entry_region es i))"
      using find_region_entry [OF ok(1), of i] i v(2) by (simp add: e kind)
    show "region_bytes v (entry_region es i) = Inr (take (length (pad_word (emit_bytes (es ! i)))) (drop (payload_start es i) b))"
      using entry_region_end [OF assms(1) i] entry_region_span [OF assms(1) i] assms(3) by (simp add: region_bytes_eq ok(2))
  qed simp_all
qed

lemma emitted_region:
  assumes "r \<in> set (wb_regions b)"
  obtains i where "i < length (emitted b)" "emitted b ! i = (rb_kind r, rb_flags r, 0, rb_bytes r)"
proof -
  have "(rb_kind r, rb_flags r, 0, rb_bytes r) \<in> set (emitted b)" using assms by (auto simp: emitted_def emit_region_def)
  with that show thesis by (auto simp: in_set_conv_nth)
qed

lemma header_position:
  assumes "p < n * 48 + 48"
  obtains base m c k where "(base, m, k) \<in> header_copies n" "c < 3" "p = copy_at base m c k"
proof (cases "p < 48")
  case True
  then have "p div 16 < 3" "p mod 16 < 16" "p = copy_at 0 16 (p div 16) (p mod 16)" by (simp_all add: copy_at_def)
  then show thesis using that [of 0 16 "p mod 16" "p div 16"] by (simp add: header_copies_def)
next
  case False
  with assms have n: "n \<noteq> 0" by (cases n) auto
  let ?q = "p - 48"
  have "?q div (n * 16) < 3" using assms False n by (simp add: div_less_iff_less_mult)
  moreover have "?q mod (n * 16) < n * 16" using n by simp
  moreover have "p = copy_at 48 (n * 16) (?q div (n * 16)) (?q mod (n * 16))"
    unfolding copy_at_def add.assoc div_mult_mod_eq using False by simp
  ultimately show thesis using that [of 48 "n * 16" "?q mod (n * 16)" "?q div (n * 16)"] by (simp add: header_copies_def)
qed

lemma needs_scrub_unanimous:
  assumes "parse b = Some (Inr v)" "unat (vw_region_count v) = n"
  shows "view_needs_scrub v \<longleftrightarrow> \<not> unanimous n b"
proof -
  have three: "(\<forall>c < 3. P c) \<longleftrightarrow> P 0 \<and> P 1 \<and> P 2" for P :: "nat \<Rightarrow> bool"
    by (auto simp: eval_nat_numeral less_Suc_eq)
  have U: "unanimous n b \<longleftrightarrow> (\<forall>k < 16. \<forall>c < 3. b ! copy_at 0 16 c k = b ! copy_at 0 16 0 k)
      \<and> (\<forall>k < n * 16. \<forall>c < 3. b ! copy_at 48 (n * 16) c k = b ! copy_at 48 (n * 16) 0 k)"
    by (simp add: unanimous_def ball_header_copies)
  have "prologue_agrees b \<longleftrightarrow> (\<forall>k < 16. \<forall>c < 3. b ! copy_at 0 16 c k = b ! copy_at 0 16 0 k)"
    unfolding prologue_agrees_def three copy_at_def by (intro all_cong) auto
  moreover have "dir_agrees v k \<longleftrightarrow> (\<forall>c < 3. b ! copy_at 48 (n * 16) c k = b ! copy_at 48 (n * 16) 0 k)" for k
    unfolding dir_agrees_def three parse_Inr(2) [OF assms(1)] assms(2) copy_at_def Let_def by auto
  ultimately have "prologue_agrees b \<and> (\<forall>at < n * 16. dir_agrees v at) \<longleftrightarrow> unanimous n b"
    unfolding U by simp
  then show ?thesis using parse_Inr(4) [OF assms(1)] assms(2) by simp
qed

lemma unanimousD:
  assumes "unanimous n b" "(base, m, k) \<in> header_copies n" "c < 3"
  shows "b ! copy_at base m c k = b ! copy_at base m 0 k"
proof -
  have "case (base, m, k) of (base, m, k) \<Rightarrow> \<forall>c < 3. b ! copy_at base m c k = b ! copy_at base m 0 k"
    by (rule bspec [OF assms(1) [unfolded unanimous_def] assms(2)])
  then have "\<forall>c < 3. b ! copy_at base m c k = b ! copy_at base m 0 k" unfolding prod.case .
  with assms(3) show ?thesis by blast
qed

lemma unanimous_damaged:
  assumes "unanimous n b" "one_copy_damaged n b b'" "unanimous n b'" "p < n * 48 + 48"
  shows "b' ! p = b ! p"
proof -
  obtain base m c k where h: "(base, m, k) \<in> header_copies n" "c < 3" and p: "p = copy_at base m c k"
    using header_position [OF assms(4)] .
  have "b' ! copy_at base m c k = b' ! copy_at base m 0 k" by (rule unanimousD [OF assms(3) h])
  also have "\<dots> = b ! copy_at base m 0 k"
    using majority_damaged [OF assms(1,2) h(1)] majority_unanimous [OF assms(1) h(1)] majority_unanimous [OF assms(3) h(1)] by argo
  also have "\<dots> = b ! copy_at base m c k" by (rule unanimousD [OF assms(1) h, symmetric])
  finally show ?thesis by (simp add: p)
qed

lemma damaged_header_read:
  assumes "built b" "finish b = Inr out" "one_copy_damaged (length (emitted b)) out out'"
    and "drop (length (emitted b) * 48 + 48) out' = drop (length (emitted b) * 48 + 48) out"
  shows "\<exists>v. parse out' = Some (Inr v) \<and> (view_needs_scrub v \<longleftrightarrow> out' \<noteq> out) \<and>
    (\<forall>r \<in> set (wb_regions b). \<exists>e. find_region v (rb_kind r) = Some (Some e) \<and> rg_flags e = rb_flags r
       \<and> region_bytes v e = Inr (pad_word (rb_bytes r)))"
proof -
  let ?es = "emitted b" and ?h = "length (emitted b) * 48 + 48"
  have out: "out = artifact ?es" and fit: "fields_fit ?es" using finish_artifact [OF built_ok [OF assms(1)] assms(2)] by auto
  have "carries (entry_regions ?es) out" using artifact_carries [OF fit] built_emitted [OF assms(1)] by (simp add: out)
  then have c: "carries (entry_regions ?es) out'"
    using carries_damaged [of "entry_regions ?es" out out'] artifact_unanimous assms(3) by (simp add: out)
  have len: "length out' = length out" using assms(3) by (simp add: one_copy_damaged_def)
  obtain v where v: "parse out' = Some (Inr v)" "unat (vw_region_count v) = length ?es"
    and find: "\<And>i. i < length ?es \<Longrightarrow> find_region v (fst (?es ! i)) = Some (Some (entry_region ?es i))"
    and slice: "\<And>i. i < length ?es \<Longrightarrow> region_bytes v (entry_region ?es i)
        = Inr (take (length (pad_word (emit_bytes (?es ! i)))) (drop (payload_start ?es i) out'))"
    using carried_entry [OF fit c] len out by metis
  have "view_needs_scrub v \<longleftrightarrow> out' \<noteq> out"
  proof -
    have "out' = out" if u: "unanimous (length ?es) out'"
    proof -
      have "take ?h out' = take ?h out"
        using unanimous_damaged [OF artifact_unanimous assms(3) [unfolded out] u] len
        by (intro nth_equalityI) (auto simp: out)
      with assms(4) show ?thesis by (metis append_take_drop_id)
    qed
    then show ?thesis using needs_scrub_unanimous [OF v] artifact_unanimous [of ?es] out by auto
  qed
  moreover have "\<exists>e. find_region v (rb_kind r) = Some (Some e) \<and> rg_flags e = rb_flags r \<and> region_bytes v e = Inr (pad_word (rb_bytes r))"
    if r: "r \<in> set (wb_regions b)" for r
  proof -
    obtain i where i: "i < length ?es" "?es ! i = (rb_kind r, rb_flags r, 0, rb_bytes r)"
      by (rule emitted_region [OF r])
    have "drop (payload_start ?es i) out' = drop (payload_start ?es i) out"
      using arg_cong [OF assms(4), of "drop (length (body (take i ?es)))"] by (simp add: payload_start_def add.commute)
    with i find [OF i(1)] slice [OF i(1)] artifact_body [OF i(1)]
    show ?thesis by (intro exI [of _ "entry_region ?es i"]) (simp add: out emit_bytes_def entry_region_def)
  qed
  ultimately show ?thesis using v(1) by blast
qed

section \<open>When the encoder succeeds\<close>

lemma place_succeeds:
  assumes "c + sum_list (map (word_count \<circ> emit_bytes) es) < 2 ^ 64" "\<forall>e \<in> set es. length (emit_bytes e) + 7 < 2 ^ 64"
  shows "\<exists>r. place c es = Inr r"
  using assms
proof (induction c es rule: place.induct)
  case (2 c kind flags covers bytes es)
  let ?w = "word_count bytes"
  have w: "words_for (length bytes) = Some ?w" "checked_add c ?w = Some (c + ?w)"
    using "2.prems" by (auto simp: words_for_Some word_count_def emit_bytes_def)
  have "\<exists>r. place (c + ?w) es = Inr r"
    by (rule "2.IH" [OF w]) (use "2.prems" in \<open>auto simp: emit_bytes_def add.assoc\<close>)
  then obtain offs fin where r: "place (c + ?w) es = Inr (offs, fin)" by auto
  show ?case unfolding place.simps w option.case r by simp
qed simp

lemma place_error: "place c es = Inl e \<Longrightarrow> e = Overflow"
  by (induction c es rule: place.induct) (auto simp: bindR_def split: option.splits sum.splits)

lemma directory_succeeds: "\<forall>(e, off, len) \<in> set zs. off < 2 ^ 32 \<and> len < 2 ^ 32 \<Longrightarrow> \<exists>d. directory zs = Inr d"
proof (induction zs rule: directory.induct)
  case (2 kind flags covers bytes off len zs)
  then show ?case by (auto simp: as_u32_def)
qed simp

lemma directory_error: "directory zs = Inl e \<Longrightarrow> e = TooLarge"
  by (induction zs rule: directory.induct) (auto simp: bindR_def as_u32_def split: if_splits sum.splits)

lemma fields_fit_total:
  assumes "fields_fit es" "length es \<le> MAX_REGIONS"
  shows "length es * 6 + 6 + sum_list (map (word_count \<circ> emit_bytes) es) < 2 ^ 34"
proof (cases es rule: rev_cases)
  case (snoc fs e)
  then have "payload_start es (length fs) div 8 < 2 ^ 32" "word_count (emit_bytes e) < 2 ^ 32"
    using assms(1) by (auto simp: fields_fit_def dest: spec [of _ "length fs"])
  with snoc show ?thesis by (simp add: payload_start_div)
qed (use assms(2) in \<open>simp add: wire_consts\<close>)

lemma finish_eq:
  assumes "builder_ok b"
  shows "finish b = bindR (place (length (emitted b) * 6 + 6) (emitted b)) (\<lambda>(offsets, cursor).
    case checked_mul cursor WORD of None \<Rightarrow> Inl Overflow | Some capacity \<Rightarrow>
    bindR (directory (zip (emitted b) offsets)) (\<lambda>dir.
      Inr (payloads (pad_word (concat (replicate COPIES (prologue (word_of_nat (length (emitted b))))) @ concat (replicate COPIES dir))) (emitted b))))"
proof -
  have small: "length (emitted b) \<le> MAX_REGIONS"
    using assms emitted_kinds_fst [of b] by (metis builder_ok_def length_map)
  have h: "header_bytes (length (emitted b)) = Some (length (emitted b) * 48 + 48)" by (rule header_bytes_exact [OF small])
  have w: "words_for (length (emitted b) * 48 + 48) = Some (length (emitted b) * 6 + 6)"
    using small by (simp add: words_for_Some wire_consts)
  have n: "\<not> 2 ^ 16 \<le> length (emitted b)" using small by (simp add: wire_consts)
  show ?thesis
    unfolding finish_def Let_def emit_list_eq emitted_def [symmetric] h w option.case using n by (simp cong: option.case_cong)
qed

lemma finish_outcome:
  assumes "builder_ok b"
  shows "finish b = Inr (artifact (emitted b)) \<and> fields_fit (emitted b)
    \<or> \<not> fields_fit (emitted b) \<and> (finish b = Inl TooLarge \<or> finish b = Inl Overflow)"
proof (cases "fields_fit (emitted b)")
  case True
  let ?es = "emitted b" and ?c = "length (emitted b) * 6 + 6"
  have small: "length ?es \<le> MAX_REGIONS" using assms emitted_kinds_fst [of b] by (metis builder_ok_def length_map)
  note tot = fields_fit_total [OF True small]
  have "length (emit_bytes e) + 7 < 2 ^ 64" if "e \<in> set ?es" for e
  proof -
    have "(length (emit_bytes e) + 7) div 8 < 2 ^ 32" using True that by (auto simp: fields_fit_def in_set_conv_nth word_count_def)
    then show ?thesis by (simp add: div_less_iff_less_mult)
  qed
  then obtain offs cur where p: "place ?c ?es = Inr (offs, cur)" using place_succeeds [of ?c ?es] tot by fastforce
  have offs: "offs = map (\<lambda>i. (payload_start ?es i div 8, word_count (emit_bytes (?es ! i)))) [0..<length ?es]"
    and cur: "cur = ?c + sum_list (map (word_count \<circ> emit_bytes) ?es)"
    using place_Inr [OF p] by (simp_all add: payload_start_div)
  have "zip ?es offs = map (\<lambda>i. (?es ! i, payload_start ?es i div 8, word_count (emit_bytes (?es ! i)))) [0..<length ?es]"
    by (rule nth_equalityI) (simp_all add: offs)
  then have "\<forall>(e, off, len) \<in> set (zip ?es offs). off < 2 ^ 32 \<and> len < 2 ^ 32"
    using True by (auto simp: fields_fit_def)
  then obtain dir where "directory (zip ?es offs) = Inr dir" using directory_succeeds by blast
  moreover have "checked_mul cur WORD = Some (cur * 8)" using tot by (simp add: cur WORD_def)
  ultimately obtain out where "finish b = Inr out" unfolding finish_eq [OF assms] p by auto
  then show ?thesis using finish_artifact [OF assms] True by auto
next
  case False
  then obtain e where "finish b = Inl e" using finish_artifact [OF assms] by (cases "finish b") auto
  moreover from this have "e = TooLarge \<or> e = Overflow"
    unfolding finish_eq [OF assms] using place_error directory_error
    by (auto simp: bindR_def split: sum.splits option.splits)
  ultimately show ?thesis using False by auto
qed

end
