(* ===== verification/Wire_Scrub.thy ===== *)
theory Wire_Scrub
  imports Wire_Roundtrip
begin

text \<open>
  \<open>scrub\<close> of \<open>keleusma-wire/src/view.rs\<close>: repair of every protected region in place.  The buffer is
  re-parsed before each region, so a buffer the repair itself would damage is noticed; a failing parse
  ends the call with what has been written so far.  \<open>scrub\<close> returns the buffer with the report.
\<close>

section \<open>The code\<close>

fun plane_span_from :: "wire_view \<Rightarrow> u16 \<Rightarrow> nat list \<Rightarrow> (nat \<times> nat) option option" where
  "plane_span_from v kind [] = Some None"
| "plane_span_from v kind (j # js) =
     Option.bind (region_at v j) (\<lambda>e. case e of
       None \<Rightarrow> plane_span_from v kind js
     | Some c \<Rightarrow>
         if is_ecc_plane c \<and> rg_covers c = kind
         then Some (case (byte_offset c, region_bytes v c) of (Some pb, Inr pd) \<Rightarrow> Some (pb, length pd) | _ \<Rightarrow> None)
         else plane_span_from v kind js)"

definition scrub_span :: "wire_view \<Rightarrow> nat \<Rightarrow> (nat \<times> nat \<times> nat \<times> nat) option option" where
  "scrub_span v i =
     Option.bind (region_at v i) (\<lambda>e. case e of
       None \<Rightarrow> Some None
     | Some r \<Rightarrow>
         if is_ecc_plane r \<or> \<not> has_ecc r then Some None
         else (case (byte_offset r, region_bytes v r) of
             (Some base, Inr data) \<Rightarrow>
               map_option (map_option (\<lambda>(pb, pl). (base, length data, pb, pl)))
                 (plane_span_from v (rg_kind r) [0..<unat (vw_region_count v)])
           | _ \<Rightarrow> Some None))"

text \<open>\<open>u64::from_le_bytes\<close> and \<open>u64::to_le_bytes\<close>\<close>

definition from_le_bytes :: "u8 list \<Rightarrow> u64" where
  "from_le_bytes bs = word_of_nat (le_nat bs)"

definition to_le_bytes :: "u64 \<Rightarrow> u8 list" where
  "to_le_bytes v = le_bytes 8 (unat v)"

fun scrub_words :: "u8 list \<Rightarrow> ecc_report \<Rightarrow> nat \<Rightarrow> nat \<Rightarrow> nat \<Rightarrow> nat \<Rightarrow> nat list \<Rightarrow> u8 list \<times> ecc_report" where
  "scrub_words bytes tot base len pb pl [] = (bytes, tot)"
| "scrub_words bytes tot base len pb pl (w # ws) =
     (let at = base + w * 8; fin = min (at + 8) (base + len) in
      case nth_opt bytes (pb + w) of None \<Rightarrow> (bytes, tot) | Some check \<Rightarrow>
      if w \<ge> pl then (bytes, tot)
      else case slice_get bytes at fin of None \<Rightarrow> (bytes, tot) | Some src \<Rightarrow>
      let value = from_le_bytes (src @ replicate (8 - (fin - at)) 0);
          tot = tot \<lparr> er_words := er_words tot + 1 \<rparr> in
      case decode_word value check of
        Corrected fixed \<Rightarrow>
          scrub_words (take at bytes @ take (fin - at) (to_le_bytes fixed) @ drop fin bytes)
            (tot \<lparr> er_corrected := er_corrected tot + 1 \<rparr>) base len pb pl ws
      | Uncorrectable \<Rightarrow> scrub_words bytes (tot \<lparr> er_uncorrectable := er_uncorrectable tot + 1 \<rparr>) base len pb pl ws
      | Clean _ \<Rightarrow> scrub_words bytes tot base len pb pl ws)"

fun scrub_from :: "u8 list \<Rightarrow> bool \<Rightarrow> ecc_report \<Rightarrow> nat list \<Rightarrow> (u8 list \<times> ecc_report option) option" where
  "scrub_from bytes any_plane tot [] = Some (bytes, if any_plane then Some tot else None)"
| "scrub_from bytes any_plane tot (i # is) =
     Option.bind (parse bytes) (\<lambda>p. case p of
       Inl _ \<Rightarrow> Some (bytes, None)
     | Inr view \<Rightarrow>
         Option.bind (scrub_span view i) (\<lambda>span. case span of
           None \<Rightarrow> scrub_from bytes any_plane tot is
         | Some (base, len, pb, pl) \<Rightarrow>
             (case scrub_words bytes tot base len pb pl [0..<div_ceil len 8] of
               (bytes, tot) \<Rightarrow> scrub_from bytes True tot is)))"

definition scrub :: "u8 list \<Rightarrow> (u8 list \<times> ecc_report option) option" where
  "scrub bytes =
     Option.bind (parse bytes) (\<lambda>p. case p of
       Inl _ \<Rightarrow> Some (bytes, None)
     | Inr view \<Rightarrow>
         scrub_from bytes False \<lparr> er_words = 0, er_corrected = 0, er_uncorrectable = 0 \<rparr> [0..<unat (vw_region_count view)])"

section \<open>Words of a buffer\<close>

definition word_at :: "u8 list \<Rightarrow> nat \<Rightarrow> u64" where
  "word_at b p = from_le_bytes (take 8 (drop p b))"

lemma to_from_le_bytes: "length bs = 8 \<Longrightarrow> to_le_bytes (from_le_bytes bs) = bs"
  using u64c.unat_of_bytes [of bs] le_bytes_le_nat [of bs] by (simp add: to_le_bytes_def from_le_bytes_def)

lemma take_le: "take 8 (to_le_bytes v) = to_le_bytes v"
  by (simp add: to_le_bytes_def)

lemma word_at_nth:
  assumes "word_at b p = word_at b' p" "p + 8 \<le> length b" "p + 8 \<le> length b'" "k < 8"
  shows "b ! (p + k) = b' ! (p + k)"
proof -
  have "take 8 (drop p b) = take 8 (drop p b')"
  proof -
    have "length (take 8 (drop p b)) = 8" "length (take 8 (drop p b')) = 8" using assms(2,3) by simp_all
    from to_from_le_bytes [OF this(1)] to_from_le_bytes [OF this(2)] show ?thesis
      using assms(1) unfolding word_at_def by argo
  qed
  from arg_cong [OF this, of "\<lambda>xs. xs ! k"] assms show ?thesis by simp
qed

lemma word_at_cong:
  assumes "\<And>k. k < 8 \<Longrightarrow> b ! (p + k) = b' ! (p' + k)" "p + 8 \<le> length b" "p' + 8 \<le> length b'"
  shows "word_at b p = word_at b' p'"
proof -
  have "take 8 (drop p b) = take 8 (drop p' b')" using assms by (intro nth_equalityI) auto
  then show ?thesis by (simp add: word_at_def)
qed

text \<open>The plane holds the check byte of every word of the padded payload.\<close>

lemma parity_of_words: "parity_of bytes = map (\<lambda>w. check_byte (word_at (pad_word bytes) (8 * w))) [0..<word_count bytes]"
proof -
  have "div_ceil (length bytes) 8 = word_count bytes"
  proof -
    define q r where "q = length bytes div 8" and "r = length bytes mod 8"
    then have n: "length bytes = 8 * q + r" "r < 8" by simp_all
    have "(length bytes + 7) div 8 = Suc q" if "r \<noteq> 0" using n that by (intro div_nat_eqI) simp_all
    then show ?thesis using n by (cases "r = 0") (simp_all add: div_ceil_def word_count_def)
  qed
  moreover have "parity_word bytes w = check_byte (word_at (pad_word bytes) (8 * w))" if w: "w < word_count bytes" for w
  proof -
    let ?n = "min (w * 8 + 8) (length bytes) - w * 8"
    let ?word = "take ?n (drop (w * 8) bytes) @ replicate (8 - ?n) 0"
    have lt: "8 * w < length bytes"
    proof -
      have "Suc w * 8 \<le> (length bytes + 7) div 8 * 8" using w unfolding word_count_def by (intro mult_le_mono1) simp
      also have "\<dots> \<le> length bytes + 7" by (rule div_times_less_eq_dividend)
      finally show ?thesis by simp
    qed
    have "?word = take 8 (drop (8 * w) (pad_word bytes))"
    proof (cases "8 * w + 8 \<le> length bytes")
      case True
      then show ?thesis by (simp add: pad_word_eq mult.commute)
    next
      case False
      define m where "m = length bytes - 8 * w"
      with lt False have m: "length bytes = 8 * w + m" "0 < m" "m < 8" by simp_all
      then show ?thesis by (simp add: pad_word_eq mult.commute)
    qed
    moreover have "u64_at ?word 0 = Some (from_le_bytes ?word)"
      using lt by (simp add: u64c.get_ref from_le_bytes_def)
    ultimately show ?thesis by (simp add: parity_word_def WORD_def Let_def word_at_def)
  qed
  ultimately show ?thesis by (simp add: parity_of_def WORD_def)
qed

section \<open>Repair of one region\<close>

text \<open>A word with at most one bit flipped.\<close>

definition near_word :: "u64 \<Rightarrow> u64 \<Rightarrow> bool" where
  "near_word a d \<longleftrightarrow> a = d \<or> (\<exists>k < 64. a = xor d (push_bit k 1))"

lemma decode_near:
  assumes "near_word a d"
  shows "decode_word a (check_byte d) = (if a = d then Clean d else Corrected d)"
proof (cases "a = d")
  case True
  then show ?thesis using ecc_clean [of d] by (simp add: decode_code_def codeword_def)
next
  case False
  then obtain k where k: "k < 64" "a = xor d (push_bit k 1)" using assms by (auto simp: near_word_def)
  then have "flip_code_bit k (codeword d) = (a, check_byte d)" by (simp add: flip_code_bit_def codeword_def del: push_bit_of_1)
  with ecc_single [of k d] k(1) False show ?thesis by (simp add: decode_code_def)
qed

definition in_word :: "nat \<Rightarrow> nat \<Rightarrow> nat \<Rightarrow> bool" where
  "in_word base w p \<longleftrightarrow> base + 8 * w \<le> p \<and> p < base + 8 * w + 8"

definition write_word :: "u8 list \<Rightarrow> nat \<Rightarrow> u64 \<Rightarrow> u8 list" where
  "write_word b p v = take p b @ to_le_bytes v @ drop (p + 8) b"

lemma length_write_word: "p + 8 \<le> length b \<Longrightarrow> length (write_word b p v) = length b"
  by (simp add: write_word_def to_le_bytes_def)

lemma write_word_nth:
  assumes "base + 8 * w + 8 \<le> length b" "length out = length b" "p < length b"
  shows "write_word b (base + 8 * w) (word_at out (base + 8 * w)) ! p = (if in_word base w p then out ! p else b ! p)"
proof -
  let ?a = "base + 8 * w"
  have le: "to_le_bytes (word_at out ?a) = take 8 (drop ?a out)"
    using to_from_le_bytes [of "take 8 (drop ?a out)"] assms by (simp add: word_at_def)
  consider "p < ?a" | "?a \<le> p" "p < ?a + 8" | "?a + 8 \<le> p" by linarith
  then show ?thesis
  proof cases
    case 1
    then show ?thesis using assms by (simp add: write_word_def in_word_def nth_append)
  next
    case 2
    then have "p - ?a < 8" by linarith
    with 2 show ?thesis using assms by (simp add: write_word_def in_word_def nth_append le)
  next
    case 3
    then have "\<not> p - ?a < 8" by linarith
    with 3 show ?thesis using assms by (simp add: write_word_def in_word_def nth_append le)
  qed
qed

lemma in_word_disjoint: "w \<noteq> u \<Longrightarrow> in_word base w p \<Longrightarrow> \<not> in_word base u p"
  by (cases "w < u") (auto simp: in_word_def)

lemma word_at_write_other:
  assumes "w \<noteq> u" "base + 8 * w + 8 \<le> length b" "base + 8 * u + 8 \<le> length b" "length out = length b"
  shows "word_at (write_word b (base + 8 * w) (word_at out (base + 8 * w))) (base + 8 * u) = word_at b (base + 8 * u)"
proof (rule word_at_cong)
  fix k :: nat assume k: "k < 8"
  then have "in_word base u (base + 8 * u + k)" by (simp add: in_word_def)
  then have "\<not> in_word base w (base + 8 * u + k)" using in_word_disjoint assms(1) by blast
  then show "write_word b (base + 8 * w) (word_at out (base + 8 * w)) ! (base + 8 * u + k) = b ! (base + 8 * u + k)"
    using write_word_nth [OF assms(2) assms(4), of "base + 8 * u + k"] assms(3) k by simp
qed (use assms in \<open>simp_all add: length_write_word\<close>)

definition bump :: "ecc_report \<Rightarrow> nat \<Rightarrow> nat \<Rightarrow> ecc_report" where
  "bump tot words corrected = tot \<lparr> er_words := er_words tot + words, er_corrected := er_corrected tot + corrected \<rparr>"

lemma scrub_word_step:
  assumes "length b = length out" "base + 8 * n \<le> length out" "pb + n \<le> length out" "n \<le> pl" "w < n"
    and "b ! (pb + w) = check_byte (word_at out (base + 8 * w))"
    and "near_word (word_at b (base + 8 * w)) (word_at out (base + 8 * w))"
  shows "scrub_words b tot base (8 * n) pb pl (w # ws) =
    (if word_at b (base + 8 * w) = word_at out (base + 8 * w) then scrub_words b (bump tot 1 0) base (8 * n) pb pl ws
     else scrub_words (write_word b (base + 8 * w) (word_at out (base + 8 * w))) (bump tot 1 1) base (8 * n) pb pl ws)"
proof -
  let ?a = "base + 8 * w"
  have fin: "min (?a + 8) (base + 8 * n) = ?a + 8" using assms(5) by simp
  have chk: "nth_opt b (pb + w) = Some (check_byte (word_at out ?a))" using assms by simp
  have src: "slice_get b ?a (?a + 8) = Some (take 8 (drop ?a b))" using assms by (simp add: slice_get_def)
  have val: "from_le_bytes (take 8 (drop ?a b) @ replicate (8 - (?a + 8 - ?a)) 0) = word_at b ?a" by (simp add: word_at_def)
  have wr: "take ?a b @ take (?a + 8 - ?a) (to_le_bytes (word_at out ?a)) @ drop (?a + 8) b = write_word b ?a (word_at out ?a)"
    by (simp add: write_word_def take_le)
  have pl: "\<not> pl \<le> w" using assms(4,5) by simp
  show ?thesis
    unfolding scrub_words.simps mult.commute [of w 8] fin chk src val Let_def option.case decode_near [OF assms(7)]
    using wr pl by (simp add: bump_def)
qed

lemma scrub_words_repair:
  assumes "length out = L" "base + 8 * n \<le> L" "pb + n \<le> L" "n \<le> pl" "pb + n \<le> base \<or> base + 8 * n \<le> pb"
    and "set ws \<subseteq> {..<n}" "distinct ws" "length b = L"
    and "\<And>w. w < n \<Longrightarrow> b ! (pb + w) = check_byte (word_at out (base + 8 * w))"
    and "\<And>w. w < n \<Longrightarrow> near_word (word_at b (base + 8 * w)) (word_at out (base + 8 * w))"
  shows "\<exists>b'. scrub_words b tot base (8 * n) pb pl ws
      = (b', bump tot (length ws) (length (filter (\<lambda>w. word_at b (base + 8 * w) \<noteq> word_at out (base + 8 * w)) ws)))
    \<and> length b' = L \<and> (\<forall>p < L. b' ! p = (if \<exists>w \<in> set ws. in_word base w p then out ! p else b ! p))"
  using assms(6-)
proof (induction ws arbitrary: b tot)
  case (Cons w ws)
  let ?dirty = "\<lambda>b w. word_at b (base + 8 * w) \<noteq> word_at out (base + 8 * w)"
  have w: "w < n" and ws: "w \<notin> set ws" "set ws \<subseteq> {..<n}" using Cons.prems by auto
  note step = scrub_word_step [of b out base n pb pl w tot ws, unfolded assms(1)]
  show ?case
  proof (cases "?dirty b w")
    case False
    from Cons.IH [of b "bump tot 1 0"] Cons.prems ws obtain b' where
      "scrub_words b (bump tot 1 0) base (8 * n) pb pl ws = (b', bump (bump tot 1 0) (length ws) (length (filter (?dirty b) ws)))"
      "length b' = L" "\<forall>p < L. b' ! p = (if \<exists>w \<in> set ws. in_word base w p then out ! p else b ! p)" by auto
    moreover have "b ! p = out ! p" if "in_word base w p" for p
    proof -
      have "p = base + 8 * w + (p - (base + 8 * w))" "p - (base + 8 * w) < 8" using that by (auto simp: in_word_def)
      with word_at_nth [of b "base + 8 * w" out "p - (base + 8 * w)"] False w assms(1,2) Cons.prems(3) show ?thesis by simp
    qed
    ultimately show ?thesis
      using step Cons.prems w assms(2-4) False by (intro exI [of _ b']) (auto simp: bump_def)
  next
    case True
    let ?b = "write_word b (base + 8 * w) (word_at out (base + 8 * w))"
    have fit: "base + 8 * w + 8 \<le> length b" using w assms(2) Cons.prems(3) by simp
    have nth: "?b ! p = (if in_word base w p then out ! p else b ! p)" if "p < L" for p
      using write_word_nth [OF fit] Cons.prems(3) assms(1) that by simp
    have other: "word_at ?b (base + 8 * u) = word_at b (base + 8 * u)" if "u < n" "u \<noteq> w" for u
      using word_at_write_other [OF that(2) [symmetric] fit] that assms(1,2) Cons.prems(3) by simp
    have self: "word_at ?b (base + 8 * w) = word_at out (base + 8 * w)"
    proof (rule word_at_cong)
      fix k :: nat assume "k < 8"
      then show "?b ! (base + 8 * w + k) = out ! (base + 8 * w + k)"
        using nth [of "base + 8 * w + k"] fit Cons.prems(3) by (simp add: in_word_def)
    qed (use fit Cons.prems(3) assms(1) in \<open>simp_all add: length_write_word\<close>)
    have pl: "?b ! (pb + u) = b ! (pb + u)" if "u < n" for u
      using nth [of "pb + u"] that w assms(3,5) by (auto simp: in_word_def)
    have near: "near_word (word_at ?b (base + 8 * u)) (word_at out (base + 8 * u))" if "u < n" for u
      using Cons.prems(5) [OF that] other [OF that] self by (cases "u = w") (simp_all add: near_word_def)
    have "filter (?dirty ?b) ws = filter (?dirty b) ws"
    proof (rule filter_cong [OF refl])
      fix u assume "u \<in> set ws"
      with ws have "u < n" "u \<noteq> w" by auto
      from other [OF this] show "?dirty ?b u \<longleftrightarrow> ?dirty b u" by simp
    qed
    moreover obtain b' where
      "scrub_words ?b (bump tot 1 1) base (8 * n) pb pl ws = (b', bump (bump tot 1 1) (length ws) (length (filter (?dirty ?b) ws)))"
      "length b' = L" "\<forall>p < L. b' ! p = (if \<exists>w \<in> set ws. in_word base w p then out ! p else ?b ! p)"
      using Cons.IH [of ?b "bump tot 1 1"] Cons.prems ws near pl fit by (auto simp: length_write_word)
    ultimately show ?thesis
      using step Cons.prems w assms(2-4) True nth by (intro exI [of _ b']) (auto simp: bump_def)
  qed
qed (simp add: bump_def)

section \<open>Which regions are repaired\<close>

definition is_plane :: "emit_entry \<Rightarrow> bool" where
  "is_plane e \<longleftrightarrow> and (fst (snd e)) FLAG_IS_ECC \<noteq> 0"

definition covers_of :: "emit_entry \<Rightarrow> u16" where
  "covers_of e = fst (snd (snd e))"

text \<open>Entry \<open>i\<close> is followed by its plane.\<close>

definition guarded :: "emit_entry list \<Rightarrow> nat \<Rightarrow> bool" where
  "guarded es i \<longleftrightarrow> Suc i < length es \<and> \<not> is_plane (es ! i) \<and> and (fst (snd (es ! i))) FLAG_ECC_PRESENT \<noteq> 0
     \<and> is_plane (es ! Suc i) \<and> covers_of (es ! Suc i) = fst (es ! i)"

definition well_planed :: "emit_entry list \<Rightarrow> bool" where
  "well_planed es \<longleftrightarrow> (\<forall>i < length es. \<forall>j < length es.
     \<not> is_plane (es ! i) \<and> is_plane (es ! j) \<and> covers_of (es ! j) = fst (es ! i)
       \<longrightarrow> j = Suc i \<and> emit_bytes (es ! j) = parity_of (emit_bytes (es ! i)))"

definition plain_flags :: "region_buf \<Rightarrow> bool" where
  "plain_flags r \<longleftrightarrow> and (rb_flags r) FLAG_IS_ECC = 0"

lemma emitted_plane_covers:
  assumes "e \<in> set (concat (map emit_region rs))" "\<forall>r \<in> set rs. plain_flags r" "is_plane e"
  shows "covers_of e \<in> set (emitted_kinds rs)"
  using assms by (induction rs) (auto simp: emit_region_def plane_kinds_def is_plane_def plain_flags_def covers_of_def split: option.splits)

lemma emitted_fst: "e \<in> set (concat (map emit_region rs)) \<Longrightarrow> fst e \<in> set (emitted_kinds rs)"
  by (induction rs) (auto simp: emit_region_def plane_kinds_def split: option.splits)

lemma well_planed_emitted:
  assumes "distinct (emitted_kinds rs)" "\<forall>r \<in> set rs. plain_flags r"
  shows "well_planed (concat (map emit_region rs))"
  using assms
proof (induction rs)
  case (Cons r rs)
  let ?rest = "concat (map emit_region rs)" and ?blk = "emit_region r"
  have IH: "well_planed ?rest" using Cons by auto
  have fresh: "rb_kind r \<notin> set (emitted_kinds rs)" using Cons.prems(1) by (auto simp: plane_kinds_def)
  have blk0: "?blk ! 0 = (rb_kind r, rb_flags r, 0, rb_bytes r)" "\<not> is_plane (?blk ! 0)" and len: "length ?blk \<le> 2"
    using Cons.prems(2) by (auto simp: emit_region_def is_plane_def plain_flags_def split: option.splits)
  have blk1: "is_plane (?blk ! Suc 0) \<and> covers_of (?blk ! Suc 0) = rb_kind r \<and> emit_bytes (?blk ! Suc 0) = parity_of (rb_bytes r)"
    if "Suc 0 < length ?blk"
    using that by (auto simp: emit_region_def is_plane_def FLAG_IS_ECC_def covers_of_def emit_bytes_def split: option.splits)
  have rest_covers: "covers_of (?rest ! j) \<in> set (emitted_kinds rs)" if "j < length ?rest" "is_plane (?rest ! j)" for j
    using emitted_plane_covers [OF nth_mem [OF that(1)] _ that(2)] Cons.prems(2) by simp
  have rest_fst: "fst (?rest ! i) \<in> set (emitted_kinds rs)" if "i < length ?rest" for i
    using emitted_fst [OF nth_mem [OF that]] .
  have "j = Suc i \<and> emit_bytes ((?blk @ ?rest) ! j) = parity_of (emit_bytes ((?blk @ ?rest) ! i))"
    if i: "i < length (?blk @ ?rest)" "\<not> is_plane ((?blk @ ?rest) ! i)"
      and j: "j < length (?blk @ ?rest)" "is_plane ((?blk @ ?rest) ! j)" "covers_of ((?blk @ ?rest) ! j) = fst ((?blk @ ?rest) ! i)" for i j
  proof (cases "i < length ?blk"; cases "j < length ?blk")
    assume b: "i < length ?blk" "j < length ?blk"
    with len i(2) j(2) blk0 blk1 have "i = 0" "j = Suc 0"
      by (auto simp: nth_append less_Suc_eq numeral_2_eq_2 le_Suc_eq)
    with b blk0 blk1 show ?thesis by (simp add: nth_append emit_bytes_def)
  next
    assume b: "i < length ?blk" "\<not> j < length ?blk"
    have "i = 0" using b(1) len i(2) blk1 by (cases i) (auto simp: nth_append less_Suc_eq numeral_2_eq_2 le_Suc_eq)
    moreover have "j - length ?blk < length ?rest" using b(2) j(1) by simp
    ultimately show ?thesis using b j blk0 rest_covers [of "j - length ?blk"] fresh by (auto simp: nth_append)
  next
    assume b: "\<not> i < length ?blk" "j < length ?blk"
    have "j = Suc 0" using b(2) len j(2) blk0 by (cases j) (auto simp: nth_append less_Suc_eq numeral_2_eq_2 le_Suc_eq)
    moreover have "i - length ?blk < length ?rest" using b(1) i(1) by simp
    ultimately show ?thesis using b i j blk1 rest_fst [of "i - length ?blk"] fresh by (auto simp: nth_append)
  next
    assume b: "\<not> i < length ?blk" "\<not> j < length ?blk"
    with i j IH have "j - length ?blk = Suc (i - length ?blk)
        \<and> emit_bytes (?rest ! (j - length ?blk)) = parity_of (emit_bytes (?rest ! (i - length ?blk)))"
      unfolding well_planed_def by (auto simp: nth_append)
    with b show ?thesis by (auto simp: nth_append)
  qed
  then show ?case unfolding well_planed_def by simp
qed (simp add: well_planed_def)

lemma plane_span_eq:
  assumes "view_ok v"
  shows "plane_span_from v kind [0..<unat (vw_region_count v)] = Some (Option.bind (find_plane v kind) (\<lambda>c.
    case region_bytes v c of Inl _ \<Rightarrow> None | Inr pd \<Rightarrow> Some (unat (rg_word_offset c) * 8, length pd)))"
proof -
  have "plane_span_from v kind js = Some (Option.bind (find (\<lambda>c. is_ecc_plane c \<and> rg_covers c = kind) (map (entry_of v) js)) (\<lambda>c.
      case region_bytes v c of Inl _ \<Rightarrow> None | Inr pd \<Rightarrow> Some (unat (rg_word_offset c) * 8, length pd)))"
    if "set js \<subseteq> {..<unat (vw_region_count v)}" for js
    using that by (induction js) (auto simp: view_ok_region_at [OF assms] split: sum.splits)
  from this [of "[0..<unat (vw_region_count v)]"] show ?thesis by (simp add: find_plane_def lessThan_atLeast0)
qed

lemma entry_region_flags [simp]:
  "is_ecc_plane (entry_region es i) \<longleftrightarrow> is_plane (es ! i)"
  "has_ecc (entry_region es i) \<longleftrightarrow> and (fst (snd (es ! i))) FLAG_ECC_PRESENT \<noteq> 0"
  "rg_covers (entry_region es i) = covers_of (es ! i)" "rg_kind (entry_region es i) = fst (es ! i)"
  by (simp_all add: is_ecc_plane_def has_ecc_def is_plane_def covers_of_def entry_region_def split: prod.splits)

lemma find_plane_entry:
  assumes "well_planed es" "unat (vw_region_count v) = length es" "\<And>i. i < length es \<Longrightarrow> entry_of v i = entry_region es i"
    and "i < length es" "\<not> is_plane (es ! i)" "and (fst (snd (es ! i))) FLAG_ECC_PRESENT \<noteq> 0"
  shows "find_plane v (fst (es ! i)) = (if guarded es i then Some (entry_region es (Suc i)) else None)"
proof -
  let ?P = "\<lambda>c. is_ecc_plane c \<and> rg_covers c = fst (es ! i)"
  let ?l = "map (entry_of v) [0..<unat (vw_region_count v)]"
  have l: "length ?l = length es" "\<And>j. j < length es \<Longrightarrow> ?l ! j = entry_region es j" using assms(2,3) by simp_all
  have only: "j = Suc i" if "j < length es" "?P (?l ! j)" for j
    using assms(1,4,5) that l(2) unfolding well_planed_def by auto
  show ?thesis
  proof (cases "guarded es i")
    case True
    then have "Suc i < length es" "?P (?l ! Suc i)" using l(2) by (auto simp: guarded_def)
    then have "find ?P ?l = Some (?l ! Suc i)"
      unfolding find_Some_iff
    proof (intro exI conjI allI impI)
      fix j assume "j < Suc i"
      then have "j \<noteq> Suc i" "j < length es" using True by (auto simp: guarded_def)
      with only [of j] show "\<not> ?P (?l ! j)" by blast
    qed (use l(1) in auto)
    then show ?thesis using True l(2) by (simp add: find_plane_def guarded_def)
  next
    case False
    have "\<not> ?P (?l ! j)" if "j < length es" for j
      using only [OF that] False assms(4-6) that l(2) by (auto simp: guarded_def)
    then have "find ?P ?l = None" unfolding find_None_iff using l(1) by (metis in_set_conv_nth)
    then show ?thesis using False by (simp add: find_plane_def)
  qed
qed

definition entry_words :: "emit_entry list \<Rightarrow> nat \<Rightarrow> nat" where
  "entry_words es i = word_count (emit_bytes (es ! i))"

lemma scrub_span_entry:
  assumes "fields_fit es" "carries (entry_regions es) b" "length b = length (artifact es)" "well_planed es" "i < length es"
  obtains v where "parse b = Some (Inr v)" "unat (vw_region_count v) = length es"
    "scrub_span v i = Some (if guarded es i
       then Some (payload_start es i, 8 * entry_words es i, payload_start es (Suc i), 8 * entry_words es (Suc i)) else None)"
proof -
  obtain v where v: "parse b = Some (Inr v)" "view_ok v" "vw_bytes v = b" "unat (vw_region_count v) = length es"
    and entry: "\<And>i. i < length es \<Longrightarrow> entry_of v i = entry_region es i"
    and slice: "\<And>i. i < length es \<Longrightarrow> region_bytes v (entry_region es i)
        = Inr (take (length (pad_word (emit_bytes (es ! i)))) (drop (payload_start es i) b))"
    using carried_entry [OF assms(1-3)] by metis
  define d where "d j = take (length (pad_word (emit_bytes (es ! j)))) (drop (payload_start es j) b)" for j
  have bytes: "region_bytes v (entry_region es j) = Inr (d j)" "length (d j) = 8 * entry_words es j" if "j < length es" for j
    using slice [OF that] body_prefix [OF that] that assms(3)
    by (simp_all add: d_def entry_words_def length_pad_word length_artifact payload_start_def)
  have at: "region_at v i = Some (Some (entry_region es i))" using view_ok_region_at [OF v(2)] assms(5) v(4) entry by simp
  have "scrub_span v i = Some (if guarded es i
       then Some (payload_start es i, 8 * entry_words es i, payload_start es (Suc i), 8 * entry_words es (Suc i)) else None)"
  proof (cases "is_plane (es ! i) \<or> and (fst (snd (es ! i))) FLAG_ECC_PRESENT = 0")
    case True
    then show ?thesis using at by (auto simp: scrub_span_def guarded_def)
  next
    case False
    then have p: "find_plane v (fst (es ! i)) = (if guarded es i then Some (entry_region es (Suc i)) else None)"
      using find_plane_entry [OF assms(4) v(4) entry assms(5)] by simp
    have s: "guarded es i \<Longrightarrow> Suc i < length es" by (simp add: guarded_def)
    have "scrub_span v i = map_option (map_option (\<lambda>(pb, pl). (payload_start es i, 8 * entry_words es i, pb, pl)))
        (plane_span_from v (fst (es ! i)) [0..<unat (vw_region_count v)])"
      using at False entry_region_span(1) [OF assms(1,5)] bytes [OF assms(5)] by (simp add: scrub_span_def)
    with s show ?thesis
      unfolding plane_span_eq [OF v(2)] p by (simp add: bytes entry_region_span(1) [OF assms(1)])
  qed
  with v that show thesis by blast
qed

section \<open>Repair of the artifact\<close>

lemma payload_start_Suc: "i < length es \<Longrightarrow> payload_start es (Suc i) = payload_start es i + 8 * entry_words es i"
  by (simp add: payload_start_def take_Suc_conv_app_nth entry_words_def length_pad_word)

lemma payload_start_mono: "i < j \<Longrightarrow> j \<le> length es \<Longrightarrow> payload_start es i + 8 * entry_words es i \<le> payload_start es j"
proof (induction j)
  case (Suc j)
  then show ?case using payload_start_Suc [of j es] by (cases "i = j") simp_all
qed simp

lemma payload_end: "i < length es \<Longrightarrow> payload_start es i + 8 * entry_words es i \<le> length (artifact es)"
  using body_prefix [of i es] by (simp add: payload_start_def entry_words_def length_artifact length_pad_word)

definition in_payload :: "emit_entry list \<Rightarrow> nat \<Rightarrow> nat \<Rightarrow> bool" where
  "in_payload es i p \<longleftrightarrow> payload_start es i \<le> p \<and> p < payload_start es i + 8 * entry_words es i"

lemma in_payload_word: "in_payload es i p \<longleftrightarrow> (\<exists>w \<in> set [0..<entry_words es i]. in_word (payload_start es i) w p)"
proof
  assume "in_payload es i p"
  then have "in_word (payload_start es i) ((p - payload_start es i) div 8) p" "(p - payload_start es i) div 8 < entry_words es i"
    by (auto simp: in_payload_def in_word_def)
  then show "\<exists>w \<in> set [0..<entry_words es i]. in_word (payload_start es i) w p" by auto
qed (auto simp: in_payload_def in_word_def)

lemma in_payload_unique: "in_payload es i p \<Longrightarrow> i < length es \<Longrightarrow> j < length es \<Longrightarrow> in_payload es j p \<Longrightarrow> i = j"
  using payload_start_mono [of i j es] payload_start_mono [of j i es] unfolding in_payload_def
  by (cases i j rule: linorder_cases) auto

lemma guarded_plane:
  assumes "well_planed es" "guarded es i" "w < entry_words es i"
  shows "artifact es ! (payload_start es (Suc i) + w) = check_byte (word_at (artifact es) (payload_start es i + 8 * w))"
    "payload_start es (Suc i) + entry_words es i \<le> length (artifact es)" "entry_words es i \<le> 8 * entry_words es (Suc i)"
proof -
  have i: "i < length es" "Suc i < length es" using assms(2) by (simp_all add: guarded_def)
  have par: "emit_bytes (es ! Suc i) = parity_of (emit_bytes (es ! i))"
    using assms(1,2) i unfolding well_planed_def guarded_def by blast
  have lp: "length (parity_of (emit_bytes (es ! i))) = entry_words es i" by (simp add: parity_of_words entry_words_def)
  show le: "entry_words es i \<le> 8 * entry_words es (Suc i)"
    using lp length_pad_word [of "emit_bytes (es ! Suc i)"] by (simp add: entry_words_def par pad_word_eq)
  then show "payload_start es (Suc i) + entry_words es i \<le> length (artifact es)" using payload_end [OF i(2)] by simp
  let ?pad = "pad_word (emit_bytes (es ! i))" and ?ppad = "pad_word (parity_of (emit_bytes (es ! i)))"
  have "artifact es ! (payload_start es (Suc i) + w) = take (length ?ppad) (drop (payload_start es (Suc i)) (artifact es)) ! w"
    using assms(3) lp payload_end [OF i(2)] by (simp add: pad_word_eq)
  also have "\<dots> = ?ppad ! w" using artifact_body [OF i(2)] by (simp add: par)
  also have "\<dots> = check_byte (word_at ?pad (8 * w))"
    using assms(3) lp by (simp add: pad_word_eq nth_append parity_of_words entry_words_def)
  also have "word_at ?pad (8 * w) = word_at (artifact es) (payload_start es i + 8 * w)"
  proof (rule word_at_cong)
    fix k :: nat assume k: "k < 8"
    have "?pad ! (8 * w + k) = take (length ?pad) (drop (payload_start es i) (artifact es)) ! (8 * w + k)"
      by (simp only: artifact_body [OF i(1)])
    also have "\<dots> = artifact es ! (payload_start es i + (8 * w + k))"
      using k assms(3) payload_end [OF i(1)] by (simp add: length_pad_word entry_words_def)
    finally show "?pad ! (8 * w + k) = artifact es ! (payload_start es i + 8 * w + k)" by (simp add: add.assoc)
  qed (use assms(3) payload_end [OF i(1)] in \<open>simp_all add: length_pad_word entry_words_def\<close>)
  finally show "artifact es ! (payload_start es (Suc i) + w) = check_byte (word_at (artifact es) (payload_start es i + 8 * w))" .
qed

lemma carries_header:
  assumes "carries (entry_regions es) out" "out = artifact es" "length b = length out" "\<And>p. p < length es * 48 + 48 \<Longrightarrow> b ! p = out ! p"
  shows "carries (entry_regions es) b"
proof (rule carries_damaged [OF assms(1)])
  show "unanimous (length (entry_regions es)) out" using artifact_unanimous assms(2) by simp
  have "b ! copy_at base m d k = out ! copy_at base m d k" if "(base, m, k) \<in> header_copies (length es)" "d < 3" for base m d k
  proof (rule assms(4))
    have d: "d * m \<le> 2 * m" using that(2) by (intro mult_le_mono1) simp
    from that(1) consider "base = 0" "m = 16" "k < 16" | "base = 48" "m = length es * 16" "k < length es * 16"
      by (auto simp: header_copies_def)
    then show "copy_at base m d k < length es * 48 + 48"
      using d unfolding copy_at_def by cases linarith+
  qed
  then show "one_copy_damaged (length (entry_regions es)) out b" using assms(3) by (auto simp: one_copy_damaged_def intro!: exI [of _ 0])
qed

definition dirty_words :: "emit_entry list \<Rightarrow> u8 list \<Rightarrow> nat \<Rightarrow> nat" where
  "dirty_words es b i =
     length (filter (\<lambda>w. word_at b (payload_start es i + 8 * w) \<noteq> word_at (artifact es) (payload_start es i + 8 * w)) [0..<entry_words es i])"

definition light_damage :: "emit_entry list \<Rightarrow> nat list \<Rightarrow> u8 list \<Rightarrow> bool" where
  "light_damage es is b \<longleftrightarrow> length b = length (artifact es)
     \<and> (\<forall>p < length b. b ! p \<noteq> artifact es ! p \<longrightarrow> (\<exists>i \<in> set is. guarded es i \<and> in_payload es i p))
     \<and> (\<forall>i \<in> set is. guarded es i \<longrightarrow> (\<forall>w < entry_words es i.
          near_word (word_at b (payload_start es i + 8 * w)) (word_at (artifact es) (payload_start es i + 8 * w))))"

text \<open>One guarded region: its words are restored, the rest of the buffer is as it was.\<close>

lemma scrub_region:
  assumes "well_planed es" "guarded es i" "light_damage es (i # is) b" "i \<notin> set is" "set is \<subseteq> {..<length es}"
  obtains b' where "scrub_words b tot (payload_start es i) (8 * entry_words es i) (payload_start es (Suc i)) (8 * entry_words es (Suc i)) [0..<entry_words es i]
      = (b', bump tot (entry_words es i) (dirty_words es b i))"
    "light_damage es is b'" "\<And>j. j \<in> set is \<Longrightarrow> dirty_words es b' j = dirty_words es b j"
proof -
  let ?base = "payload_start es i" and ?n = "entry_words es i" and ?pb = "payload_start es (Suc i)" and ?out = "artifact es"
  have i: "i < length es" "Suc i < length es" using assms(2) by (simp_all add: guarded_def)
  have pb: "?pb = ?base + 8 * ?n" using payload_start_Suc [OF i(1)] .
  have lb: "length b = length ?out" and dmg: "\<And>p. p < length b \<Longrightarrow> b ! p \<noteq> ?out ! p \<Longrightarrow> \<exists>j \<in> set (i # is). guarded es j \<and> in_payload es j p"
    and near: "\<And>j w. j \<in> set (i # is) \<Longrightarrow> guarded es j \<Longrightarrow> w < entry_words es j \<Longrightarrow>
      near_word (word_at b (payload_start es j + 8 * w)) (word_at ?out (payload_start es j + 8 * w))"
    using assms(3) unfolding light_damage_def by blast+
  have fit: "?pb + ?n \<le> length ?out" "?n \<le> 8 * entry_words es (Suc i)"
    using guarded_plane(2,3) [OF assms(1,2)] payload_end [OF i(2)] by (cases "?n = 0"; fastforce)+
  have plane: "b ! (?pb + w) = check_byte (word_at ?out (?base + 8 * w))" if "w < ?n" for w
  proof -
    have "in_payload es (Suc i) (?pb + w)" using that fit(2) by (simp add: in_payload_def)
    then have "\<not> in_payload es j (?pb + w)" if "guarded es j" "j < length es" for j
      using in_payload_unique [OF _ i(2) that(2)] that(1) assms(2) by (auto simp: guarded_def)
    moreover have "?pb + w < length b" using lb fit(1) that by simp
    ultimately have "b ! (?pb + w) = ?out ! (?pb + w)" using dmg [of "?pb + w"] assms(5) i(1) by auto
    with guarded_plane(1) [OF assms(1,2) that] show ?thesis by simp
  qed
  have "\<exists>b'. scrub_words b tot ?base (8 * ?n) ?pb (8 * entry_words es (Suc i)) [0..<?n]
      = (b', bump tot (length [0..<?n]) (length (filter (\<lambda>w. word_at b (?base + 8 * w) \<noteq> word_at ?out (?base + 8 * w)) [0..<?n])))
    \<and> length b' = length ?out \<and> (\<forall>p < length ?out. b' ! p = (if \<exists>w \<in> set [0..<?n]. in_word ?base w p then ?out ! p else b ! p))"
    using near [of i] assms(2) plane fit pb lb
    by (intro scrub_words_repair [where out = "?out" and L = "length ?out", OF refl]) auto
  then obtain b' where run: "scrub_words b tot ?base (8 * ?n) ?pb (8 * entry_words es (Suc i)) [0..<?n]
      = (b', bump tot ?n (dirty_words es b i))"
    and b': "length b' = length ?out" "\<And>p. p < length ?out \<Longrightarrow> b' ! p = (if in_payload es i p then ?out ! p else b ! p)"
    unfolding in_payload_word dirty_words_def by auto
  have same: "word_at b' (payload_start es j + 8 * w) = word_at b (payload_start es j + 8 * w)" if j: "j \<in> set is" "w < entry_words es j" for j w
  proof (rule word_at_cong)
    have jl: "j < length es" "j \<noteq> i" using j assms(4,5) by auto
    note e = payload_end [OF jl(1)]
    show "payload_start es j + 8 * w + 8 \<le> length b'" "payload_start es j + 8 * w + 8 \<le> length b" using e j lb b'(1) by simp_all
    fix k :: nat assume "k < 8"
    then have "in_payload es j (payload_start es j + 8 * w + k)" using j by (simp add: in_payload_def)
    then have "\<not> in_payload es i (payload_start es j + 8 * w + k)" using in_payload_unique jl i(1) by blast
    then show "b' ! (payload_start es j + 8 * w + k) = b ! (payload_start es j + 8 * w + k)"
      using b'(2) [of "payload_start es j + 8 * w + k"] e j \<open>k < 8\<close> by simp
  qed
  have "light_damage es is b'"
    unfolding light_damage_def
  proof (intro conjI allI impI ballI)
    show "length b' = length ?out" by (rule b'(1))
    fix p assume p: "p < length b'" "b' ! p \<noteq> ?out ! p"
    then have "b ! p \<noteq> ?out ! p" "\<not> in_payload es i p" using b' by (auto split: if_splits)
    with dmg [of p] p(1) lb b'(1) show "\<exists>j \<in> set is. guarded es j \<and> in_payload es j p" by auto
  next
    fix j w assume j: "j \<in> set is" "guarded es j" "w < entry_words es j"
    then show "near_word (word_at b' (payload_start es j + 8 * w)) (word_at ?out (payload_start es j + 8 * w))"
      using near [of j w] same [of j w] by simp
  qed
  moreover have "dirty_words es b' j = dirty_words es b j" if "j \<in> set is" for j
    unfolding dirty_words_def by (intro arg_cong [where f = length] filter_cong [OF refl]) (simp add: same [OF that])
  ultimately show thesis using that run by blast
qed

lemma scrub_from_repair:
  assumes "fields_fit es" "length es \<le> MAX_REGIONS" "distinct (map fst es)" "well_planed es"
    and "set is \<subseteq> {..<length es}" "distinct is" "light_damage es is b"
  shows "\<exists>rep. scrub_from b any tot is = Some (artifact es, if any \<or> (\<exists>i \<in> set is. guarded es i) then Some rep else None)
    \<and> rep = bump tot (sum_list (map (entry_words es) (filter (guarded es) is))) (sum_list (map (dirty_words es b) (filter (guarded es) is)))"
  using assms(5-)
proof (induction "is" arbitrary: b any tot)
  case Nil
  then have "b = artifact es" by (intro nth_equalityI) (auto simp: light_damage_def)
  then show ?case by (simp add: bump_def)
next
  case (Cons i "is")
  have i: "i < length es" using Cons.prems(1) by simp
  have lb: "length b = length (artifact es)" using Cons.prems(3) by (simp add: light_damage_def)
  have "carries (entry_regions es) b"
  proof (rule carries_header [OF artifact_carries [OF assms(1-3)] refl lb])
    fix p assume "p < length es * 48 + 48"
    then have "\<not> in_payload es j p" "p < length b" for j by (simp_all add: in_payload_def payload_start_def lb length_artifact)
    then show "b ! p = artifact es ! p" using Cons.prems(3) unfolding light_damage_def by blast
  qed
  then obtain v where v: "parse b = Some (Inr v)" and span: "scrub_span v i = Some (if guarded es i
       then Some (payload_start es i, 8 * entry_words es i, payload_start es (Suc i), 8 * entry_words es (Suc i)) else None)"
    using scrub_span_entry [OF assms(1) _ lb assms(4) i] by metis
  show ?case
  proof (cases "guarded es i")
    case False
    then have "light_damage es is b" using Cons.prems(3) unfolding light_damage_def by auto
    from Cons.IH [OF _ _ this, of any tot] Cons.prems(1,2) False v span show ?thesis by simp
  next
    case True
    obtain b' where b': "scrub_words b tot (payload_start es i) (8 * entry_words es i) (payload_start es (Suc i)) (8 * entry_words es (Suc i)) [0..<entry_words es i]
        = (b', bump tot (entry_words es i) (dirty_words es b i))" "light_damage es is b'"
      and same: "\<And>j. j \<in> set is \<Longrightarrow> dirty_words es b' j = dirty_words es b j"
      by (rule scrub_region [OF assms(4) True Cons.prems(3)]) (use Cons.prems(1,2) in auto)
    have dirty: "map (dirty_words es b') (filter (guarded es) is) = map (dirty_words es b) (filter (guarded es) is)"
      by (rule map_cong [OF refl]) (auto intro: same)
    have "div_ceil (8 * entry_words es i) 8 = entry_words es i" by (simp add: div_ceil_def)
    with v span b'(1) True have step: "scrub_from b any tot (i # is) = scrub_from b' True (bump tot (entry_words es i) (dirty_words es b i)) is"
      by simp
    from Cons.IH [OF _ _ b'(2), of True "bump tot (entry_words es i) (dirty_words es b i)"] Cons.prems(1,2) True
    show ?thesis unfolding step dirty by (simp add: bump_def add.assoc)
  qed
qed

lemma scrub_artifact:
  assumes "fields_fit es" "length es \<le> MAX_REGIONS" "distinct (map fst es)" "well_planed es" "light_damage es [0..<length es] b"
    and "i < length es" "guarded es i"
  shows "\<exists>rep. scrub b = Some (artifact es, Some rep) \<and> er_uncorrectable rep = 0
    \<and> er_corrected rep = sum_list (map (dirty_words es b) (filter (guarded es) [0..<length es]))"
proof -
  have lb: "length b = length (artifact es)" using assms(5) by (simp add: light_damage_def)
  have "carries (entry_regions es) b"
  proof (rule carries_header [OF artifact_carries [OF assms(1-3)] refl lb])
    fix p assume "p < length es * 48 + 48"
    then have "\<not> in_payload es j p" "p < length b" for j by (simp_all add: in_payload_def payload_start_def lb length_artifact)
    then show "b ! p = artifact es ! p" using assms(5) unfolding light_damage_def by blast
  qed
  then obtain v where v: "parse b = Some (Inr v)" "unat (vw_region_count v) = length es"
    using carried_entry [OF assms(1) _ lb] by metis
  let ?z = "\<lparr> er_words = 0, er_corrected = 0, er_uncorrectable = 0 \<rparr>"
  have "scrub b = scrub_from b False ?z [0..<length es]" using v by (simp add: scrub_def)
  moreover have "set [0..<length es] \<subseteq> {..<length es}" "distinct [0..<length es]" by auto
  moreover have "\<exists>i \<in> set [0..<length es]. guarded es i" using assms(6,7) by auto
  ultimately show ?thesis using scrub_from_repair [OF assms(1-4) _ _ assms(5), of False ?z] by (auto simp: bump_def)
qed

section \<open>From the builder\<close>

lemma guarded_emitted:
  assumes "r \<in> set rs" "rb_ecc_kind r \<noteq> None" "and (rb_flags r) FLAG_ECC_PRESENT \<noteq> 0" "plain_flags r"
  shows "\<exists>i < length (concat (map emit_region rs)). guarded (concat (map emit_region rs)) i"
  using assms(1)
proof (induction rs)
  case (Cons r' rs)
  show ?case
  proof (cases "r = r'")
    case True
    with assms(2-4) show ?thesis
      by (intro exI [of _ 0]) (auto simp: guarded_def emit_region_def is_plane_def plain_flags_def FLAG_IS_ECC_def covers_of_def)
  next
    case False
    then obtain i where "i < length (concat (map emit_region rs))" "guarded (concat (map emit_region rs)) i" using Cons by auto
    then show ?thesis by (intro exI [of _ "length (emit_region r') + i"]) (auto simp: guarded_def nth_append)
  qed
qed simp

lemma scrub_built:
  assumes "built b" "finish b = Inr out" "\<forall>r \<in> set (wb_regions b). plain_flags r"
    and "r \<in> set (wb_regions b)" "rb_ecc_kind r \<noteq> None" "light_damage (emitted b) [0..<length (emitted b)] out'"
  shows "\<exists>rep. scrub out' = Some (out, Some rep) \<and> er_uncorrectable rep = 0
    \<and> er_corrected rep = sum_list (map (dirty_words (emitted b) out') (filter (guarded (emitted b)) [0..<length (emitted b)]))"
proof -
  have ok: "builder_ok b" using built_ok [OF assms(1)] .
  have out: "out = artifact (emitted b)" and fit: "fields_fit (emitted b)" using finish_artifact [OF ok assms(2)] by auto
  have wp: "well_planed (emitted b)"
    unfolding emitted_def by (rule well_planed_emitted) (use ok assms(3) in \<open>auto simp: builder_ok_def\<close>)
  have "and (rb_flags r) FLAG_ECC_PRESENT \<noteq> 0" using ok assms(4,5) by (auto simp: builder_ok_def list_all_iff)
  then obtain i where "i < length (emitted b)" "guarded (emitted b) i"
    using guarded_emitted [OF assms(4,5)] assms(3,4) unfolding emitted_def by auto
  from scrub_artifact [OF fit _ _ wp assms(6) this] built_emitted [OF assms(1)] show ?thesis by (simp add: out)
qed

end
