(* ===== verification/Sample_Artifacts.thy ===== *)
theory Sample_Artifacts
  imports Wire_Scrub
begin

text \<open>A small artifact, built by the encoder's operations, on which the container's properties are applied.\<close>

definition sample_builder :: wire_builder where
  "sample_builder = \<lparr> wb_regions = [\<lparr> rb_kind = 16, rb_flags = 2, rb_bytes = [1, 2, 3], rb_ecc_kind = Some 0x8010 \<rparr>] \<rparr>"

lemma sample_built: "built sample_builder"
proof -
  let ?r = "\<lparr> rb_kind = 16, rb_flags = 0, rb_bytes = [], rb_ecc_kind = None \<rparr> :: region_buf"
  have "builder_region builder_new 16 0 = Inr (0, \<lparr> wb_regions = [?r] \<rparr>)"
    by (simp add: builder_region_def builder_new_def kind_in_use_def emit_count_def wire_consts)
  with built_new have "built \<lparr> wb_regions = [?r] \<rparr>" by (rule built_region)
  moreover have "builder_push \<lparr> wb_regions = [?r] \<rparr> 0 [1, 2, 3] = Some \<lparr> wb_regions = [?r \<lparr> rb_bytes := [1, 2, 3] \<rparr>] \<rparr>"
    by (simp add: builder_push_def update_region_def)
  ultimately have "built \<lparr> wb_regions = [?r \<lparr> rb_bytes := [1, 2, 3] \<rparr>] \<rparr>" by (rule built_push)
  moreover have "protect_all \<lparr> wb_regions = [?r \<lparr> rb_bytes := [1, 2, 3] \<rparr>] \<rparr> = Some (Inr sample_builder)"
    by (simp add: protect_all_def protect_def kind_in_use_def emit_count_def wire_consts plane_kind_for_def ECC_KIND_BIT_def
        update_region_def sample_builder_def FLAG_ECC_PRESENT_def nth_opt_def)
  ultimately show ?thesis by (rule built_protect_all)
qed

lemma sample_emitted: "emitted sample_builder = [(16, 2, 0, [1, 2, 3]), (0x8010, FLAG_IS_ECC, 16, parity_of [1, 2, 3])]"
  by (simp add: emitted_def sample_builder_def emit_region_def)

lemma length_parity: "length (parity_of bytes) = word_count bytes"
  by (simp add: parity_of_words)

lemma sample_fits: "fields_fit (emitted sample_builder)"
  by (simp add: fields_fit_def sample_emitted less_Suc_eq payload_start_div word_count_def emit_bytes_def length_parity)

lemma sample_finish: "finish sample_builder = Inr (artifact (emitted sample_builder))"
  using finish_outcome [OF built_ok [OF sample_built]] sample_fits by blast

lemma sample_light_damage:
  assumes "k < 64"
  shows "light_damage (emitted sample_builder) [0..<length (emitted sample_builder)]
    (write_word (artifact (emitted sample_builder)) 144 (xor (word_at (artifact (emitted sample_builder)) 144) (push_bit k 1)))"
proof -
  let ?es = "emitted sample_builder" and ?out = "artifact (emitted sample_builder)"
  let ?w = "xor (word_at ?out 144) (push_bit k 1)"
  let ?b = "write_word ?out 144 ?w"
  have n: "length ?es = 2" by (simp add: sample_emitted)
  have len: "length ?out = 160"
    by (simp add: length_artifact sample_emitted length_pad_word word_count_def emit_bytes_def length_parity)
  have g: "guarded ?es 0" "\<not> guarded ?es 1"
    by (simp_all add: guarded_def sample_emitted is_plane_def covers_of_def FLAG_IS_ECC_def FLAG_ECC_PRESENT_def)
  have start: "payload_start ?es 0 = 144" "entry_words ?es 0 = 1"
    by (simp_all add: payload_start_def entry_words_def n sample_emitted emit_bytes_def word_count_def)
  have lb: "length ?b = 160" using len by (simp add: length_write_word)
  have w: "word_at ?b 144 = ?w"
  proof -
    have "take 8 (drop 144 ?b) = to_le_bytes ?w" using len by (simp add: write_word_def to_le_bytes_def)
    moreover have "from_le_bytes (to_le_bytes v) = v" for v
      using u64c.word_range [of v] by (simp add: from_le_bytes_def to_le_bytes_def le_nat_le_bytes)
    ultimately show ?thesis by (simp add: word_at_def)
  qed
  have same: "?b ! p = ?out ! p" if "p < 160" "\<not> (144 \<le> p \<and> p < 152)" for p
    using that len by (auto simp: write_word_def to_le_bytes_def nth_append)
  have upt: "set [0..<length ?es] = {0, 1}" by (auto simp: n)
  show ?thesis
    unfolding light_damage_def upt
  proof (intro conjI allI impI ballI)
    show "length ?b = length ?out" unfolding lb len ..
  next
    fix p assume "p < length ?b" "?b ! p \<noteq> ?out ! p"
    with same [of p] lb have "144 \<le> p \<and> p < 152" by auto
    with g start show "\<exists>i \<in> {0, 1}. guarded ?es i \<and> in_payload ?es i p" by (auto simp: in_payload_def)
  next
    fix i u assume "i \<in> {0, 1}" "guarded ?es i" "u < entry_words ?es i"
    with g start have "i = 0" "u = 0" by auto
    with w start assms show "near_word (word_at ?b (payload_start ?es i + 8 * u)) (word_at ?out (payload_start ?es i + 8 * u))"
      by (auto simp: near_word_def)
  qed
qed

end
