(* ===== verification/Wcmu.thy ===== *)
theory Wcmu
  imports Run_Charges
begin

text \<open>
  Worst-case memory usage (\<open>wcmu_region_at\<close> of \<open>src/src/verify.rs\<close>): operand-stack peak, stack offset
  and arena bytes of a region, with calls resolved through a table.  The walk is modelled in the
  style of \<open>Region_Walks\<close>; offsets are \<open>i32\<close> and peaks \<open>u32\<close> with plain operators, which wrap in a
  release build, and arena bytes are added with saturation.  The soundness theorem says that the
  reported arena bytes bound what every run of a structured region allocates.
\<close>

section \<open>Results and resolvers\<close>

definition wrap_i32 :: "int \<Rightarrow> int" where
  "wrap_i32 x = (x + 2 ^ 31) mod 2 ^ 32 - 2 ^ 31"

record mcu_result =
  mr_peak_above_initial :: nat
  mr_delta :: int
  mr_heap_total :: nat

record mcu_outcome =
  mo_peak_above_initial :: nat
  mo_heap_total :: nat
  mo_delta :: "int option"

text \<open>\<open>McuOutcome::exits\<close>.\<close>

definition mcu_exits :: "nat \<Rightarrow> nat \<Rightarrow> mcu_outcome" where
  "mcu_exits pk hp = \<lparr> mo_peak_above_initial = pk, mo_heap_total = hp, mo_delta = None \<rparr>"

record call_resolver =
  cr_chunk_wcmu :: "(nat \<times> nat) option list"
  cr_native_wcmu :: "nat list"
  cr_shared_layout :: "shared_slot_layout list"

definition empty_resolver :: call_resolver where
  "empty_resolver = \<lparr> cr_chunk_wcmu = [], cr_native_wcmu = [], cr_shared_layout = [] \<rparr>"

definition resolve_chunk :: "call_resolver \<Rightarrow> u16 \<Rightarrow> nat \<times> nat" where
  "resolve_chunk r idx = (case nth_opt (cr_chunk_wcmu r) (unat idx) of Some (Some w) \<Rightarrow> w | _ \<Rightarrow> (0, 0))"

definition resolve_native :: "call_resolver \<Rightarrow> u16 \<Rightarrow> nat" where
  "resolve_native r idx = (case nth_opt (cr_native_wcmu r) (unat idx) of Some n \<Rightarrow> n | None \<Rightarrow> 0)"

definition slot_copyout :: "shared_slot_layout list \<Rightarrow> nat \<Rightarrow> nat" where
  "slot_copyout layout slot =
     (case nth_opt layout slot of
        Some e \<Rightarrow> if shared_slot_is_composite e then unat (ssl_len e) else 0
      | None \<Rightarrow> 0)"

definition shared_composite_copyout_bytes :: "op \<Rightarrow> shared_slot_layout list \<Rightarrow> nat" where
  "shared_composite_copyout_bytes x layout =
     (case x of
        GetData slot \<Rightarrow> slot_copyout layout (unat slot)
      | GetDataIndexed base len \<Rightarrow>
          max_or 0 (map (\<lambda>i. slot_copyout layout (unat base + i)) [0..<unat len])
      | _ \<Rightarrow> 0)"

definition op_iteration_heap :: "op \<Rightarrow> call_resolver \<Rightarrow> nat" where
  "op_iteration_heap x r = sat_add (heap_alloc x) (shared_composite_copyout_bytes x (cr_shared_layout r))"

section \<open>One instruction\<close>

text \<open>The loop variables \<open>current_offset\<close>, \<open>peak\<close> and \<open>heap\<close> of the walk.\<close>

record mcu_state =
  mc_offset :: int
  mc_peak :: nat
  mc_heap :: nat

definition mcu_start :: mcu_state where
  "mcu_start = \<lparr> mc_offset = 0, mc_peak = 0, mc_heap = 0 \<rparr>"

definition mcu_during :: "int \<Rightarrow> nat \<Rightarrow> nat" where
  "mcu_during offset growth = nat (max (wrap_i32 (offset + int growth)) 0)"

text \<open>An instruction by its stack growth, stack shrink and arena bytes.\<close>

definition mcu_charge :: "nat \<Rightarrow> nat \<Rightarrow> nat \<Rightarrow> mcu_state \<Rightarrow> mcu_state" where
  "mcu_charge growth shrink bytes a =
     \<lparr> mc_offset = wrap_i32 (mc_offset a + (int growth - int shrink)),
       mc_peak = max (mc_peak a) (mcu_during (mc_offset a) growth),
       mc_heap = sat_add (mc_heap a) bytes \<rparr>"

text \<open>
  The \<open>Call\<close> arm: the callee's stack, in slots, sits on the caller's less the arguments.  The slot
  size \<open>vsb\<close> is positive at every entry; Rust's division panics at zero.
\<close>

definition mcu_call :: "call_resolver \<Rightarrow> nat \<Rightarrow> u16 \<Rightarrow> u8 \<Rightarrow> mcu_state \<Rightarrow> mcu_state" where
  "mcu_call r vsb callee n_args a =
     (let callee_slots = as_i32 (fst (resolve_chunk r callee) div vsb); n = int (unat n_args) in
      \<lparr> mc_offset = wrap_i32 (mc_offset a + (1 - n)),
        mc_peak = max (mc_peak a)
          (nat (max (max (wrap_i32 (wrap_i32 (mc_offset a + callee_slots) - n)) (wrap_i32 (mc_offset a + 1))) 0)),
        mc_heap = sat_add (mc_heap a) (snd (resolve_chunk r callee)) \<rparr>)"

text \<open>The accounting of every arm of the walk's match, before the arm's control transfer.\<close>

definition mcu_op :: "call_resolver \<Rightarrow> nat \<Rightarrow> op \<Rightarrow> mcu_state \<Rightarrow> mcu_state" where
  "mcu_op r vsb x a =
     (case x of
        Call callee n_args \<Rightarrow> mcu_call r vsb callee n_args a
      | CallVerifiedNative i n \<Rightarrow> mcu_charge (stack_growth x) (stack_shrink x) (resolve_native r i) a
      | CallExternalNative i n \<Rightarrow> mcu_charge (stack_growth x) (stack_shrink x) (resolve_native r i) a
      | Else_op t \<Rightarrow> a
      | EndIf \<Rightarrow> a
      | EndLoop t \<Rightarrow> a
      | _ \<Rightarrow> mcu_charge (stack_growth x) (stack_shrink x) (op_iteration_heap x r) a)"

section \<open>The walk\<close>

definition mcu_break :: "mcu_state \<Rightarrow> mcu_result" where
  "mcu_break a = \<lparr> mr_peak_above_initial = mc_peak a, mr_delta = mc_offset a, mr_heap_total = mc_heap a \<rparr>"

text \<open>
  \<open>wcmu_subregion\<close> after its recursive call: the outcome and the breaks of the sub-region, moved to
  the frame of reference of the caller.
\<close>

definition lift_peak :: "int \<Rightarrow> nat \<Rightarrow> nat" where
  "lift_peak offset pk = wrap_add32 (nat (max offset 0)) pk"

definition lift_break :: "int \<Rightarrow> mcu_result \<Rightarrow> mcu_result" where
  "lift_break offset b =
     \<lparr> mr_peak_above_initial = lift_peak offset (mr_peak_above_initial b),
       mr_delta = wrap_i32 (offset + mr_delta b), mr_heap_total = mr_heap_total b \<rparr>"

definition lift_outcome :: "int \<Rightarrow> mcu_outcome \<Rightarrow> mcu_outcome" where
  "lift_outcome offset out =
     \<lparr> mo_peak_above_initial = lift_peak offset (mo_peak_above_initial out),
       mo_heap_total = mo_heap_total out,
       mo_delta = map_option (\<lambda>d. wrap_i32 (offset + d)) (mo_delta out) \<rparr>"

definition mcu_subregion ::
  "int \<Rightarrow> mcu_result list \<Rightarrow> (verify_error + (mcu_outcome \<times> mcu_result list)) option \<Rightarrow>
   (verify_error + (mcu_outcome \<times> mcu_result list)) option" where
  "mcu_subregion offset breaks res =
     bindOR res (\<lambda>(out, sub_breaks).
       Some (Inr (lift_outcome offset out, breaks @ map (lift_break offset) sub_breaks)))"

text \<open>Joins: the two branches of an \<open>If\<close>, and the body of a loop with its breaks.\<close>

definition mcu_join :: "mcu_state \<Rightarrow> mcu_outcome \<Rightarrow> mcu_outcome \<Rightarrow> mcu_state" where
  "mcu_join a then_branch else_branch =
     \<lparr> mc_offset = (case depth_join (mo_delta then_branch) (mo_delta else_branch) of Some d \<Rightarrow> d | None \<Rightarrow> mc_offset a),
       mc_peak = max (max (mc_peak a) (mo_peak_above_initial then_branch)) (mo_peak_above_initial else_branch),
       mc_heap = sat_add (mc_heap a) (max (mo_heap_total then_branch) (mo_heap_total else_branch)) \<rparr>"

definition mcu_skip :: "mcu_state \<Rightarrow> mcu_outcome \<Rightarrow> mcu_state" where
  "mcu_skip a then_branch =
     \<lparr> mc_offset = (case mo_delta then_branch of Some d \<Rightarrow> max (mc_offset a) d | None \<Rightarrow> mc_offset a),
       mc_peak = max (mc_peak a) (mo_peak_above_initial then_branch),
       mc_heap = sat_add (mc_heap a) (mo_heap_total then_branch) \<rparr>"

definition mcu_iter_count :: "chunk \<Rightarrow> nat \<Rightarrow> mcu_outcome \<Rightarrow> verify_error + nat" where
  "mcu_iter_count chunk ip body =
     (if mo_delta body = None then Inr 1
      else (case extract_loop_iteration_bound chunk ip of
              Some n \<Rightarrow> Inr n
            | None \<Rightarrow> Inl (VE_LoopUnbounded ip)))"

definition mcu_loop :: "mcu_state \<Rightarrow> mcu_outcome \<Rightarrow> nat \<Rightarrow> mcu_result list \<Rightarrow> mcu_state" where
  "mcu_loop a body iter_count loop_breaks =
     \<lparr> mc_offset = mc_offset a,
       mc_peak = max (max (mc_peak a) (mo_peak_above_initial body)) (max_or 0 (map mr_peak_above_initial loop_breaks)),
       mc_heap = sat_add (mc_heap a)
         (max (sat_mul (mo_heap_total body) iter_count) (max_or 0 (map mr_heap_total loop_breaks))) \<rparr>"

fun wcmu_region_at ::
  "nat \<Rightarrow> chunk \<Rightarrow> nat \<Rightarrow> nat \<Rightarrow> mcu_state \<Rightarrow> mcu_result list \<Rightarrow> call_resolver \<Rightarrow> nat \<Rightarrow> nat \<Rightarrow>
   (verify_error + (mcu_outcome \<times> mcu_result list)) option"
where
  "wcmu_region_at 0 chunk ip end_ip st breaks r vsb nest = None"
| "wcmu_region_at (Suc fuel) chunk ip end_ip st breaks r vsb nest =
     (if nest > MAX_REGION_DEPTH then Some (Inl VE_RegionTooDeep)
      else if ip < min end_ip (length (ch_ops chunk)) then
        (let a = mcu_op r vsb (ch_ops chunk ! ip) st in
         case ctl_of (ch_ops chunk ! ip) of
           C_Break t \<Rightarrow> Some (Inr (mcu_exits (mc_peak a) (mc_heap a), breaks @ [mcu_break a]))
         | C_Trap \<Rightarrow> Some (Inr (mcu_exits (mc_peak a) (mc_heap a), breaks))
         | C_Return \<Rightarrow> Some (Inr (mcu_exits (mc_peak a) (mc_heap a), breaks))
         | C_BreakIf t \<Rightarrow> wcmu_region_at fuel chunk (Suc ip) end_ip a (breaks @ [mcu_break a]) r vsb nest
         | C_If target \<Rightarrow>
             (case else_target (ch_ops chunk) target of
                Some endif_pos \<Rightarrow>
                  bindOR (mcu_subregion (mc_offset a) breaks
                    (wcmu_region_at fuel chunk (Suc ip) (target - 1) mcu_start [] r vsb (Suc nest)))
                      (\<lambda>(then_branch, breaks1).
                  bindOR (mcu_subregion (mc_offset a) breaks1
                    (wcmu_region_at fuel chunk target endif_pos mcu_start [] r vsb (Suc nest)))
                      (\<lambda>(else_branch, breaks2).
                    let b = mcu_join a then_branch else_branch in
                    if mo_delta then_branch = None \<and> mo_delta else_branch = None
                    then Some (Inr (mcu_exits (mc_peak b) (mc_heap b), breaks2))
                    else wcmu_region_at fuel chunk (Suc endif_pos) end_ip b breaks2 r vsb nest))
              | None \<Rightarrow>
                  bindOR (mcu_subregion (mc_offset a) breaks
                    (wcmu_region_at fuel chunk (Suc ip) target mcu_start [] r vsb (Suc nest)))
                      (\<lambda>(then_branch, breaks1).
                    wcmu_region_at fuel chunk (Suc target) end_ip (mcu_skip a then_branch) breaks1 r vsb nest))
         | C_Loop loop_exit_target \<Rightarrow>
             bindOR (mcu_subregion (mc_offset a) []
               (wcmu_region_at fuel chunk (Suc ip) (loop_exit_target - 1) mcu_start [] r vsb (Suc nest)))
                 (\<lambda>(body, loop_breaks).
             bindOR (Some (mcu_iter_count chunk ip body)) (\<lambda>iter_count.
               let b = mcu_loop a body iter_count loop_breaks in
               if loop_breaks = [] \<and> mo_delta body = None
               then Some (Inr (mcu_exits (mc_peak b) (mc_heap b), breaks))
               else wcmu_region_at fuel chunk loop_exit_target end_ip b breaks r vsb nest))
         | _ \<Rightarrow> wcmu_region_at fuel chunk (Suc ip) end_ip a breaks r vsb nest)
      else Some (Inr (\<lparr> mo_peak_above_initial = mc_peak st, mo_heap_total = mc_heap st,
                        mo_delta = Some (mc_offset st) \<rparr>, breaks)))"

declare wcmu_region_at.simps(2) [simp del]

definition wcmu_region ::
  "chunk \<Rightarrow> nat \<Rightarrow> nat \<Rightarrow> call_resolver \<Rightarrow> nat \<Rightarrow> (verify_error + (mcu_outcome \<times> mcu_result list)) option" where
  "wcmu_region chunk start end_ip r vsb =
     wcmu_region_at (walk_fuel (ch_ops chunk)) chunk start end_ip mcu_start [] r vsb 0"


section \<open>Termination\<close>

lemma returns_mcu_subregion [intro!]: "returns m \<Longrightarrow> returns (mcu_subregion offset breaks m)"
  unfolding mcu_subregion_def by (intro returns_bindOR) (auto split: prod.split)

lemma wcmu_region_terminates:
  assumes fwd: "forward_targets (ch_ops chunk)"
  shows "length (ch_ops chunk) < fuel + ip \<Longrightarrow> 0 < fuel \<Longrightarrow>
     returns (wcmu_region_at fuel chunk ip end_ip st breaks r vsb nest)"
proof (induction fuel arbitrary: ip end_ip st breaks nest)
  case 0
  then show ?case by simp
next
  case (Suc fuel)
  let ?ops = "ch_ops chunk"
  show ?case
  proof (cases "nest > MAX_REGION_DEPTH \<or> \<not> ip < min end_ip (length ?ops)")
    case True
    then show ?thesis by (auto simp: wcmu_region_at.simps(2))
  next
    case False
    then have ip: "ip < length ?ops" and d: "\<not> nest > MAX_REGION_DEPTH" and m: "ip < min end_ip (length ?ops)"
      by auto
    then have fuel: "0 < fuel" using Suc.prems by simp
    have IH: "returns (wcmu_region_at fuel chunk ip' e c b r vsb dd)" if "ip < ip'" for ip' e c b dd
      using Suc.IH [of ip'] that Suc.prems fuel by simp
    note fw = forward_targetsD [OF fwd ip] and el = else_target_forward [OF fwd]
    show ?thesis
      unfolding wcmu_region_at.simps(2) if_not_P [OF d] if_P [OF m]
      by (cases "ctl_of (?ops ! ip)")
        (auto simp: Let_def dest!: fw el intro!: IH split: option.split prod.split)
  qed
qed

lemma wcmu_region_returns:
  "forward_targets (ch_ops chunk) \<Longrightarrow> \<exists>res. wcmu_region chunk s e r vsb = Some res"
  using wcmu_region_terminates [of chunk "walk_fuel (ch_ops chunk)" s e]
  by (simp add: wcmu_region_def walk_fuel_def returns_iff)

section \<open>Arena bytes of a path\<close>

text \<open>What the walk takes an instruction to allocate.\<close>

definition op_bytes :: "chunk \<Rightarrow> call_resolver \<Rightarrow> nat \<Rightarrow> nat" where
  "op_bytes chunk r ip =
     (case ch_ops chunk ! ip of
        Call callee n \<Rightarrow> snd (resolve_chunk r callee)
      | CallVerifiedNative i n \<Rightarrow> resolve_native r i
      | CallExternalNative i n \<Rightarrow> resolve_native r i
      | x \<Rightarrow> op_iteration_heap x r)"

lemma op_bytes_marks:
  "ctl_of (ch_ops chunk ! i) = C_EndIf \<Longrightarrow> op_bytes chunk r i = 0"
  "ctl_of (ch_ops chunk ! i) = C_Else t \<Longrightarrow> op_bytes chunk r i = 0"
  "ctl_of (ch_ops chunk ! i) = C_EndLoop t \<Longrightarrow> op_bytes chunk r i = 0"
  by (cases "ch_ops chunk ! i";
      simp add: op_bytes_def op_iteration_heap_def heap_alloc_zero shared_composite_copyout_bytes_def sat_add_def)+

lemma mcu_op_heap: "capped (mc_heap (mcu_op r vsb (ch_ops chunk ! ip) a)) = capped (mc_heap a + op_bytes chunk r ip)"
proof (cases "ch_ops chunk ! ip")
qed (simp_all add: mcu_op_def mcu_call_def mcu_charge_def op_bytes_def sat_add_capped Let_def
      op_iteration_heap_def heap_alloc_zero shared_composite_copyout_bytes_def)

abbreviation hbounds ::
  "chunk \<Rightarrow> call_resolver \<Rightarrow> nat \<Rightarrow> nat \<Rightarrow> nat \<Rightarrow> mcu_outcome \<Rightarrow> mcu_result list \<Rightarrow> bool" where
  "hbounds chunk r s e cost out brs \<equiv>
     cbounds chunk (op_bytes chunk r) s e cost (mo_heap_total out) (mo_delta out \<noteq> None) (brs \<noteq> [])"

text \<open>The claim about the walk: what it reports bounds the bytes of every run, and it records every break.\<close>

definition heap_walk_sound :: "chunk \<Rightarrow> call_resolver \<Rightarrow> nat \<Rightarrow> nat \<Rightarrow> nat \<Rightarrow> nat \<Rightarrow> bool" where
  "heap_walk_sound chunk r vsb d s e \<longleftrightarrow>
     (\<forall>fuel st brs out brs'.
        wcmu_region_at fuel chunk s e st brs r vsb d = Some (Inr (out, brs')) \<longrightarrow>
        (\<exists>new. brs' = brs @ new \<and> hbounds chunk r s e (mc_heap st) out new))"

lemma heap_walk_soundD:
  assumes "heap_walk_sound chunk r vsb d s e" "wcmu_region_at fuel chunk s e st brs r vsb d = Some (Inr (out, brs'))"
  obtains new where "brs' = brs @ new" "hbounds chunk r s e (mc_heap st) out new"
  using assms unfolding heap_walk_sound_def by blast

lemma heap_walk_soundI:
  assumes "\<And>fuel st brs out brs'.
     wcmu_region_at (Suc fuel) chunk s e st brs r vsb d = Some (Inr (out, brs')) \<Longrightarrow>
     \<exists>new. brs' = brs @ new \<and> hbounds chunk r s e (mc_heap st) out new"
  shows "heap_walk_sound chunk r vsb d s e"
  unfolding heap_walk_sound_def
proof (intro allI impI)
  fix fuel st brs out brs'
  assume "wcmu_region_at fuel chunk s e st brs r vsb d = Some (Inr (out, brs'))"
  with assms show "\<exists>new. brs' = brs @ new \<and> hbounds chunk r s e (mc_heap st) out new" by (cases fuel) auto
qed

text \<open>A sub-region, walked from zero: its breaks are recorded whatever they are worth.\<close>

lemma mcu_subregion_Inr:
  "mcu_subregion offset breaks m = Some (Inr (out, brs)) \<longleftrightarrow>
     (\<exists>out0 sub. m = Some (Inr (out0, sub)) \<and> out = lift_outcome offset out0 \<and> brs = breaks @ map (lift_break offset) sub)"
  by (auto simp: mcu_subregion_def bindOR_Some_Inr)

lemma lift_outcome_simps [simp]:
  "mo_heap_total (lift_outcome o' out) = mo_heap_total out"
  "mo_delta (lift_outcome o' out) = None \<longleftrightarrow> mo_delta out = None"
  by (simp_all add: lift_outcome_def)

lemma heap_subregion:
  assumes "heap_walk_sound chunk r vsb d s e"
    and "mcu_subregion offset breaks (wcmu_region_at fuel chunk s e mcu_start [] r vsb d) = Some (Inr (out, brs))"
  obtains new where "brs = breaks @ new" "hbounds chunk r s e 0 out new"
proof -
  from assms(2) obtain out0 sub where w: "wcmu_region_at fuel chunk s e mcu_start [] r vsb d = Some (Inr (out0, sub))"
    and o: "out = lift_outcome offset out0" "brs = breaks @ map (lift_break offset) sub"
    unfolding mcu_subregion_Inr by blast
  obtain new where "sub = [] @ new" "hbounds chunk r s e (mc_heap mcu_start) out0 new"
    using heap_walk_soundD [OF assms(1) w] .
  with o that [of "map (lift_break offset) sub"] show thesis by (auto simp: mcu_start_def)
qed


section \<open>The walk bounds every run\<close>

lemma heap_walk_nil:
  assumes "d \<le> MAX_REGION_DEPTH"
  shows "heap_walk_sound chunk r vsb d s s"
  using assms by (intro heap_walk_soundI) (auto simp: wcmu_region_at.simps(2) intro!: cbounds_nil capped_le_self)

lemma heap_walk_step:
  assumes "s < e" "e \<le> length (ch_ops chunk)" "d \<le> MAX_REGION_DEPTH"
    and "wcmu_region_at (Suc fuel) chunk s e st brs r vsb d = Some (Inr (out, brs'))"
  defines "a \<equiv> mcu_op r vsb (ch_ops chunk ! s) st"
  shows "ctl_linear (ctl_of (ch_ops chunk ! s)) \<or> ctl_of (ch_ops chunk ! s) = C_Reset \<Longrightarrow>
         wcmu_region_at fuel chunk (Suc s) e a brs r vsb d = Some (Inr (out, brs'))"
    and "ctl_of (ch_ops chunk ! s) = C_Return \<or> ctl_of (ch_ops chunk ! s) = C_Trap \<Longrightarrow>
         brs' = brs \<and> out = mcu_exits (mc_peak a) (mc_heap a)"
    and "ctl_of (ch_ops chunk ! s) = C_Break t \<Longrightarrow>
         brs' = brs @ [mcu_break a] \<and> out = mcu_exits (mc_peak a) (mc_heap a)"
    and "ctl_of (ch_ops chunk ! s) = C_BreakIf t \<Longrightarrow>
         wcmu_region_at fuel chunk (Suc s) e a (brs @ [mcu_break a]) r vsb d = Some (Inr (out, brs'))"
  using assms(1-3) assms(4) [unfolded wcmu_region_at.simps(2)]
  by (cases "ctl_of (ch_ops chunk ! s)"; auto simp: a_def Let_def)+

lemma heap_walk_lin:
  assumes rest: "heap_walk_sound chunk r vsb d (Suc s) e"
    and lt: "s < e" "e \<le> length (ch_ops chunk)" "d \<le> MAX_REGION_DEPTH"
    and c: "ctl_linear (ctl_of (ch_ops chunk ! s)) \<or> ctl_exits (ctl_of (ch_ops chunk ! s))"
  shows "heap_walk_sound chunk r vsb d s e"
proof (rule heap_walk_soundI)
  fix fuel st brs out brs'
  assume w: "wcmu_region_at (Suc fuel) chunk s e st brs r vsb d = Some (Inr (out, brs'))"
  note step = heap_walk_step [OF lt w]
  let ?a = "mcu_op r vsb (ch_ops chunk ! s) st"
  from c consider "ctl_linear (ctl_of (ch_ops chunk ! s)) \<or> ctl_of (ch_ops chunk ! s) = C_Reset"
    | "ctl_of (ch_ops chunk ! s) = C_Return \<or> ctl_of (ch_ops chunk ! s) = C_Trap"
    by (cases "ctl_of (ch_ops chunk ! s)") auto
  then show "\<exists>new. brs' = brs @ new \<and> hbounds chunk r s e (mc_heap st) out new"
  proof cases
    case 1
    then have "wcmu_region_at fuel chunk (Suc s) e ?a brs r vsb d = Some (Inr (out, brs'))" using step by blast
    from heap_walk_soundD [OF rest this] obtain new where n: "brs' = brs @ new"
      "hbounds chunk r (Suc s) e (mc_heap ?a) out new" .
    from c lt have "hbounds chunk r s e (mc_heap st) out new"
      by (intro cbounds_step [OF n(2)]) (auto simp: mcu_op_heap)
    with n show ?thesis by blast
  next
    case 2
    then have "brs' = brs \<and> out = mcu_exits (mc_peak ?a) (mc_heap ?a)" using step by blast
    with 2 lt capped_le_self [of "mc_heap ?a"] show ?thesis
      by (auto simp: mcu_exits_def mcu_op_heap intro!: cbounds_exit)
  qed
qed

lemma heap_walk_break:
  assumes rest: "heap_walk_sound chunk r vsb d (Suc s) e"
    and lt: "s < e" "e \<le> length (ch_ops chunk)" "d \<le> MAX_REGION_DEPTH"
    and c: "ctl_of (ch_ops chunk ! s) = C_Break t \<or> ctl_of (ch_ops chunk ! s) = C_BreakIf t"
  shows "heap_walk_sound chunk r vsb d s e"
proof (rule heap_walk_soundI)
  fix fuel st brs out brs'
  assume w: "wcmu_region_at (Suc fuel) chunk s e st brs r vsb d = Some (Inr (out, brs'))"
  note step = heap_walk_step [OF lt w]
  let ?a = "mcu_op r vsb (ch_ops chunk ! s) st"
  from c show "\<exists>new. brs' = brs @ new \<and> hbounds chunk r s e (mc_heap st) out new"
  proof
    assume c: "ctl_of (ch_ops chunk ! s) = C_Break t"
    then have "brs' = brs @ [mcu_break ?a] \<and> out = mcu_exits (mc_peak ?a) (mc_heap ?a)" using step by blast
    with c lt capped_le_self [of "mc_heap ?a"] show ?thesis
      by (auto simp: mcu_exits_def mcu_op_heap intro!: cbounds_break)
  next
    assume c: "ctl_of (ch_ops chunk ! s) = C_BreakIf t"
    then have "wcmu_region_at fuel chunk (Suc s) e ?a (brs @ [mcu_break ?a]) r vsb d = Some (Inr (out, brs'))"
      using step by blast
    from heap_walk_soundD [OF rest this] obtain new where n: "brs' = (brs @ [mcu_break ?a]) @ new"
      "hbounds chunk r (Suc s) e (mc_heap ?a) out new" .
    have "hbounds chunk r (Suc s) e (mc_heap ?a) out (mcu_break ?a # new)" by (rule cbounds_mono [OF n(2)]) auto
    then have "hbounds chunk r s e (mc_heap st) out (mcu_break ?a # new)"
      using c lt by (intro cbounds_step [where t = t and s = s]) (auto simp: mcu_op_heap)
    with n show ?thesis by auto
  qed
qed

text \<open>What a successful walk did at a block, one lemma per kind of block.\<close>

lemma wcmu_if_inv:
  assumes "wcmu_region_at (Suc fuel) chunk s e st brs r vsb d = Some (Inr (out, brs'))"
    and "s < e" "e \<le> length (ch_ops chunk)" "d \<le> MAX_REGION_DEPTH"
    and "ctl_of (ch_ops chunk ! s) = C_If t" "else_target (ch_ops chunk) t = None"
  defines "a \<equiv> mcu_op r vsb (ch_ops chunk ! s) st"
  obtains out1 brs1 where
      "mcu_subregion (mc_offset a) brs (wcmu_region_at fuel chunk (Suc s) t mcu_start [] r vsb (Suc d)) = Some (Inr (out1, brs1))"
    and "wcmu_region_at fuel chunk (Suc t) e (mcu_skip a out1) brs1 r vsb d = Some (Inr (out, brs'))"
  using assms(1) [unfolded wcmu_region_at.simps(2)] assms(2-6) that
  by (auto simp: bindOR_Some_Inr Let_def a_def)

lemma wcmu_ifelse_inv:
  assumes "wcmu_region_at (Suc fuel) chunk s e st brs r vsb d = Some (Inr (out, brs'))"
    and "s < e" "e \<le> length (ch_ops chunk)" "d \<le> MAX_REGION_DEPTH"
    and "ctl_of (ch_ops chunk ! s) = C_If (Suc m)" "else_target (ch_ops chunk) (Suc m) = Some q"
  defines "a \<equiv> mcu_op r vsb (ch_ops chunk ! s) st"
  obtains out1 brs1 out2 brs2 where
      "mcu_subregion (mc_offset a) brs (wcmu_region_at fuel chunk (Suc s) m mcu_start [] r vsb (Suc d)) = Some (Inr (out1, brs1))"
    and "mcu_subregion (mc_offset a) brs1 (wcmu_region_at fuel chunk (Suc m) q mcu_start [] r vsb (Suc d)) = Some (Inr (out2, brs2))"
    and "if mo_delta out1 = None \<and> mo_delta out2 = None
         then out = mcu_exits (mc_peak (mcu_join a out1 out2)) (mc_heap (mcu_join a out1 out2)) \<and> brs' = brs2
         else wcmu_region_at fuel chunk (Suc q) e (mcu_join a out1 out2) brs2 r vsb d = Some (Inr (out, brs'))"
  using assms(1) [unfolded wcmu_region_at.simps(2)] assms(2-6) that
  by (auto simp: bindOR_Some_Inr Let_def a_def split: if_splits)

lemma wcmu_loop_inv:
  assumes "wcmu_region_at (Suc fuel) chunk s e st brs r vsb d = Some (Inr (out, brs'))"
    and "s < e" "e \<le> length (ch_ops chunk)" "d \<le> MAX_REGION_DEPTH" and "ctl_of (ch_ops chunk ! s) = C_Loop (Suc b)"
  defines "a \<equiv> mcu_op r vsb (ch_ops chunk ! s) st"
  obtains out1 lbrs n where
      "mcu_subregion (mc_offset a) [] (wcmu_region_at fuel chunk (Suc s) b mcu_start [] r vsb (Suc d)) = Some (Inr (out1, lbrs))"
    and "mcu_iter_count chunk s out1 = Inr n"
    and "if lbrs = [] \<and> mo_delta out1 = None
         then out = mcu_exits (mc_peak (mcu_loop a out1 n lbrs)) (mc_heap (mcu_loop a out1 n lbrs)) \<and> brs' = brs
         else wcmu_region_at fuel chunk (Suc b) e (mcu_loop a out1 n lbrs) brs r vsb d = Some (Inr (out, brs'))"
  using assms(1) [unfolded wcmu_region_at.simps(2)] assms(2-5) that
  by (auto simp: bindOR_Some_Inr Let_def a_def split: if_splits)

text \<open>An \<open>EndIf\<close> costs nothing, so that a bound after it is one before it.\<close>

lemma hbounds_endif:
  assumes "hbounds chunk r (Suc t) e cost' out brs" "t \<noteq> e" "ctl_of (ch_ops chunk ! t) = C_EndIf"
    "capped cost \<le> capped cost'"
  shows "hbounds chunk r t e cost out brs"
  using assms op_bytes_marks(1) [OF assms(3)] by (intro cbounds_step [OF assms(1)]) auto

lemma heap_walk_if:
  assumes body: "heap_walk_sound chunk r vsb (Suc d) (Suc s) t" and rest: "heap_walk_sound chunk r vsb d (Suc t) e"
    and lt: "s < e" "e \<le> length (ch_ops chunk)" "d \<le> MAX_REGION_DEPTH" and t: "t < e"
    and c: "ctl_of (ch_ops chunk ! s) = C_If t" "else_target (ch_ops chunk) t = None" "ctl_of (ch_ops chunk ! t) = C_EndIf"
  shows "heap_walk_sound chunk r vsb d s e"
proof (rule heap_walk_soundI)
  fix fuel st brs out brs'
  assume w: "wcmu_region_at (Suc fuel) chunk s e st brs r vsb d = Some (Inr (out, brs'))"
  let ?a = "mcu_op r vsb (ch_ops chunk ! s) st"
  obtain out1 brs1 where
      w1: "mcu_subregion (mc_offset ?a) brs (wcmu_region_at fuel chunk (Suc s) t mcu_start [] r vsb (Suc d))
             = Some (Inr (out1, brs1))"
    and w2: "wcmu_region_at fuel chunk (Suc t) e (mcu_skip ?a out1) brs1 r vsb d = Some (Inr (out, brs'))"
    using wcmu_if_inv [OF w lt c(1,2)] .
  obtain n1 where n1: "brs1 = brs @ n1" "hbounds chunk r (Suc s) t 0 out1 n1" using heap_subregion [OF body w1] .
  obtain n2 where n2: "brs' = brs1 @ n2" "hbounds chunk r (Suc t) e (mc_heap (mcu_skip ?a out1)) out n2"
    using heap_walk_soundD [OF rest w2] .
  have "capped (mc_heap st + op_bytes chunk r s + mo_heap_total out1) \<le> capped (mc_heap (mcu_skip ?a out1))"
    using mcu_op_heap [of r vsb chunk s st] capped_add_le [OF _ order_refl, of "mc_heap st + op_bytes chunk r s" "mc_heap ?a"]
    by (simp add: mcu_skip_def sat_add_capped)
  with hbounds_endif [OF n2(2)] t c(3)
  have "hbounds chunk r t e (mc_heap st + op_bytes chunk r s + mo_heap_total out1) out n2" by simp
  then have "hbounds chunk r t e (mc_heap st + op_bytes chunk r s + mo_heap_total out1) out (n1 @ n2)"
    by (rule cbounds_mono) auto
  from cbounds_if [OF n1(2) this c(1,2)] lt have "hbounds chunk r s e (mc_heap st) out (n1 @ n2)" by simp
  with n1 n2 show "\<exists>new. brs' = brs @ new \<and> hbounds chunk r s e (mc_heap st) out new" by auto
qed

lemma mcu_join_heap:
  "capped (mc_heap st + op_bytes chunk r s + max (mo_heap_total out1) (mo_heap_total out2))
     \<le> capped (mc_heap (mcu_join (mcu_op r vsb (ch_ops chunk ! s) st) out1 out2))"
  using mcu_op_heap [of r vsb chunk s st]
    capped_add_le [OF _ order_refl, of "mc_heap st + op_bytes chunk r s" "mc_heap (mcu_op r vsb (ch_ops chunk ! s) st)"]
  by (simp add: mcu_join_def sat_add_capped)

lemma heap_walk_ifelse:
  assumes thn: "heap_walk_sound chunk r vsb (Suc d) (Suc s) m" and els: "heap_walk_sound chunk r vsb (Suc d) (Suc m) q"
    and rest: "heap_walk_sound chunk r vsb d (Suc q) e"
    and lt: "s < e" "e \<le> length (ch_ops chunk)" "d \<le> MAX_REGION_DEPTH" and q: "q < e"
    and c: "ctl_of (ch_ops chunk ! s) = C_If (Suc m)" "else_target (ch_ops chunk) (Suc m) = Some q"
      "ctl_of (ch_ops chunk ! q) = C_EndIf"
  shows "heap_walk_sound chunk r vsb d s e"
proof (rule heap_walk_soundI)
  fix fuel st brs out brs'
  assume w: "wcmu_region_at (Suc fuel) chunk s e st brs r vsb d = Some (Inr (out, brs'))"
  let ?a = "mcu_op r vsb (ch_ops chunk ! s) st"
  obtain out1 brs1 out2 brs2 where
      w1: "mcu_subregion (mc_offset ?a) brs (wcmu_region_at fuel chunk (Suc s) m mcu_start [] r vsb (Suc d))
             = Some (Inr (out1, brs1))"
    and w2: "mcu_subregion (mc_offset ?a) brs1 (wcmu_region_at fuel chunk (Suc m) q mcu_start [] r vsb (Suc d))
             = Some (Inr (out2, brs2))"
    and w3: "if mo_delta out1 = None \<and> mo_delta out2 = None
             then out = mcu_exits (mc_peak (mcu_join ?a out1 out2)) (mc_heap (mcu_join ?a out1 out2)) \<and> brs' = brs2
             else wcmu_region_at fuel chunk (Suc q) e (mcu_join ?a out1 out2) brs2 r vsb d = Some (Inr (out, brs'))"
    using wcmu_ifelse_inv [OF w lt c(1,2)] .
  let ?b = "max (mo_heap_total out1) (mo_heap_total out2)"
  note join = mcu_join_heap [of st chunk r s out1 out2 vsb]
  obtain n1 where n1: "brs1 = brs @ n1" "hbounds chunk r (Suc s) m 0 out1 n1" using heap_subregion [OF thn w1] .
  obtain n2 where n2: "brs2 = brs1 @ n2" "hbounds chunk r (Suc m) q 0 out2 n2" using heap_subregion [OF els w2] .
  have "\<exists>n3. brs' = brs2 @ n3 \<and> capped (mc_heap st + op_bytes chunk r s + ?b) \<le> mo_heap_total out
      \<and> (mo_delta out1 \<noteq> None \<or> mo_delta out2 \<noteq> None \<longrightarrow>
           hbounds chunk r q e (mc_heap st + op_bytes chunk r s + ?b) out n3)"
  proof (cases "mo_delta out1 \<noteq> None \<or> mo_delta out2 \<noteq> None")
    case False
    with w3 join capped_le_self show ?thesis by (auto simp: mcu_exits_def intro: order_trans)
  next
    case True
    with w3 have "wcmu_region_at fuel chunk (Suc q) e (mcu_join ?a out1 out2) brs2 r vsb d = Some (Inr (out, brs'))"
      by (auto split: if_splits)
    from heap_walk_soundD [OF rest this] obtain n3 where n3: "brs' = brs2 @ n3"
      "hbounds chunk r (Suc q) e (mc_heap (mcu_join ?a out1 out2)) out n3" .
    have "hbounds chunk r q e (mc_heap st + op_bytes chunk r s + ?b) out n3"
      using q c(3) join by (intro hbounds_endif [OF n3(2)]) auto
    with n3(1) cbounds_start [OF this] show ?thesis by blast
  qed
  then obtain n3 where n3: "brs' = brs2 @ n3" "capped (mc_heap st + op_bytes chunk r s + ?b) \<le> mo_heap_total out"
    "mo_delta out1 \<noteq> None \<or> mo_delta out2 \<noteq> None \<Longrightarrow>
       hbounds chunk r q e (mc_heap st + op_bytes chunk r s + ?b) out n3" by blast
  obtain x where "ctl_of (ch_ops chunk ! m) = C_Else x"
    using c(2) by (auto simp: else_target_Some)
  note m0 = op_bytes_marks(2) [OF this]
  have "hbounds chunk r s e (mc_heap st) out (n1 @ n2 @ n3)"
  proof (rule cbounds_ifelse [OF n1(2) n2(2) _ _ _ n3(2) c(1,2)])
    show "hbounds chunk r q e (mc_heap st + op_bytes chunk r s + ?b) out (n1 @ n2 @ n3)"
      if "mo_delta out1 \<noteq> None \<or> mo_delta out2 \<noteq> None" using n3(3) [OF that] by (rule cbounds_mono) auto
    show "capped (mo_heap_total out1 + op_bytes chunk r m) \<le> ?b"
      using m0 capped_le_self [of "mo_heap_total out1"] by simp
  qed (use lt in auto)
  with n1 n2 n3 show "\<exists>new. brs' = brs @ new \<and> hbounds chunk r s e (mc_heap st) out new" by auto
qed

text \<open>
  The passes of a loop.  The header that leaves a counted loop allocates nothing, which is why the
  walk takes the larger of the counted passes and the breaks where the time walk adds them.
\<close>

lemma header_bytes:
  assumes "extract_loop_iteration_bound chunk s = Some n" "prefix fin [s + 1, s + 2, s + 3, s + 4]"
  shows "path_sum (op_bytes chunk r) fin = 0"
proof -
  obtain v w t where h: "ch_ops chunk ! (s + 1) = GetLocal v" "ch_ops chunk ! (s + 2) = GetLocal w"
    "ch_ops chunk ! (s + 3) = CmpGe" "ctl_of (ch_ops chunk ! (s + 4)) = C_BreakIf t" using bound_header [OF assms(1)] by metis
  have "op_bytes chunk r (s + 4) = 0"
    using h(4) by (cases "ch_ops chunk ! (s + 4)")
      (simp_all add: op_bytes_def op_iteration_heap_def heap_alloc_zero shared_composite_copyout_bytes_def sat_add_def)
  with h have "path_sum (op_bytes chunk r) [s + 1, s + 2, s + 3, s + 4] = 0"
    by (simp add: op_bytes_def op_iteration_heap_def heap_alloc_zero shared_composite_copyout_bytes_def sat_add_def)
  with path_sum_prefix [OF assms(2), of "op_bytes chunk r"] show ?thesis by simp
qed

lemma counted_passes_bytes:
  assumes n: "extract_loop_iteration_bound chunk s = Some n" and k: "within_bound chunk s k fin"
    and fin: "capped (path_sum (op_bytes chunk r) fin) \<le> w"
  shows "capped (k * w + path_sum (op_bytes chunk r) fin) \<le> sat_mul w n"
proof -
  from k n consider "k < n" | "k = n" "prefix fin [s + 1, s + 2, s + 3, s + 4]" by (auto simp: within_bound_def)
  then show ?thesis
  proof cases
    case 1
    have "capped (k * w + path_sum (op_bytes chunk r) fin) \<le> capped (k * w + w)"
      using capped_mono [OF fin] by (intro capped_add_le) simp_all
    also have "\<dots> \<le> capped (w * n)"
      using mult_le_mono2 [of "Suc k" n w] 1 by (intro capped_mono) (simp add: mult.commute add.commute)
    finally show ?thesis by (simp add: sat_mul_capped)
  next
    case 2
    with header_bytes [OF n 2(2), of r] show ?thesis by (simp add: sat_mul_capped mult.commute)
  qed
qed

lemma heap_walk_loop:
  assumes body: "heap_walk_sound chunk r vsb (Suc d) (Suc s) b" and rest: "heap_walk_sound chunk r vsb d (Suc b) e"
    and lt: "s < e" "e \<le> length (ch_ops chunk)" "d \<le> MAX_REGION_DEPTH"
    and c: "ctl_of (ch_ops chunk ! s) = C_Loop (Suc b)" "ctl_of (ch_ops chunk ! b) = C_EndLoop (Suc s)"
  shows "heap_walk_sound chunk r vsb d s e"
proof (rule heap_walk_soundI)
  fix fuel st brs out brs'
  assume w: "wcmu_region_at (Suc fuel) chunk s e st brs r vsb d = Some (Inr (out, brs'))"
  let ?a = "mcu_op r vsb (ch_ops chunk ! s) st"
  obtain out1 lbrs n where
      w1: "mcu_subregion (mc_offset ?a) [] (wcmu_region_at fuel chunk (Suc s) b mcu_start [] r vsb (Suc d))
             = Some (Inr (out1, lbrs))"
    and n: "mcu_iter_count chunk s out1 = Inr n"
    and w2: "if lbrs = [] \<and> mo_delta out1 = None
             then out = mcu_exits (mc_peak (mcu_loop ?a out1 n lbrs)) (mc_heap (mcu_loop ?a out1 n lbrs)) \<and> brs' = brs
             else wcmu_region_at fuel chunk (Suc b) e (mcu_loop ?a out1 n lbrs) brs r vsb d = Some (Inr (out, brs'))"
    using wcmu_loop_inv [OF w lt c(1)] .
  obtain n1 where "lbrs = [] @ n1" "hbounds chunk r (Suc s) b 0 out1 n1" using heap_subregion [OF body w1] .
  then have b1: "hbounds chunk r (Suc s) b 0 out1 lbrs" by simp
  let ?bd = "max (sat_mul (mo_heap_total out1) n) (max_or 0 (map mr_heap_total lbrs))"
  have cost: "capped (mc_heap st + op_bytes chunk r s + ?bd) \<le> capped (mc_heap (mcu_loop ?a out1 n lbrs))"
    using mcu_op_heap [of r vsb chunk s st] capped_add_le [OF _ order_refl, of "mc_heap st + op_bytes chunk r s" "mc_heap ?a"]
    by (simp add: mcu_loop_def sat_add_capped)
  have passes: "capped (k * (mo_heap_total out1 + op_bytes chunk r b) + path_sum (op_bytes chunk r) fin) \<le> ?bd"
    if k: "within_bound chunk s k fin" and f: "bounded_run chunk (Suc s) b fin oc" "0 < k \<longrightarrow> mo_delta out1 \<noteq> None"
    for k fin oc
  proof (cases "mo_delta out1 = None")
    case True
    then have "k = 0" "n = 1" using f(2) n by (auto simp: mcu_iter_count_def)
    then show ?thesis
      using cboundsD [OF b1 f(1)] capped_mono by (fastforce simp: sat_mul_capped)
  next
    case False
    then have "extract_loop_iteration_bound chunk s = Some n" using n by (auto simp: mcu_iter_count_def split: option.splits)
    from counted_passes_bytes [OF this k, of r "mo_heap_total out1"] cboundsD [OF b1 f(1)]
    show ?thesis by (simp add: op_bytes_marks(3) [OF c(2)])
  qed
  show "\<exists>new. brs' = brs @ new \<and> hbounds chunk r s e (mc_heap st) out new"
  proof (cases "lbrs = [] \<and> mo_delta out1 = None")
    case True
    with w2 have o: "out = mcu_exits (mc_peak (mcu_loop ?a out1 n lbrs)) (mc_heap (mcu_loop ?a out1 n lbrs))" "brs' = brs" by auto
    have "hbounds chunk r s e (mc_heap st) out []"
      using True lt o(1) cost capped_le_self [of "mc_heap (mcu_loop ?a out1 n lbrs)"]
      by (intro cbounds_loop [OF b1 passes _ _ c(1)]) (auto simp: mcu_exits_def)
    with o(2) show ?thesis by auto
  next
    case False
    with w2 have "wcmu_region_at fuel chunk (Suc b) e (mcu_loop ?a out1 n lbrs) brs r vsb d = Some (Inr (out, brs'))" by argo
    from heap_walk_soundD [OF rest this] obtain new where new: "brs' = brs @ new"
      "hbounds chunk r (Suc b) e (mc_heap (mcu_loop ?a out1 n lbrs)) out new" .
    have r: "hbounds chunk r (Suc b) e (mc_heap st + op_bytes chunk r s + ?bd) out new"
      by (rule cbounds_mono [OF new(2) cost])
    have "hbounds chunk r s e (mc_heap st) out new"
      using lt by (intro cbounds_loop [OF b1 passes r cbounds_start [OF r] c(1)]) auto
    with new(1) show ?thesis by auto
  qed
qed

theorem region_heap_sound:
  "region (ch_ops chunk) lx d s e \<Longrightarrow> d \<le> MAX_REGION_DEPTH \<Longrightarrow> heap_walk_sound chunk r vsb d s e"
proof (induction rule: region.induct)
  case (rg_nil s lx d)
  show ?case by (rule heap_walk_nil [OF rg_nil(2)])
next
  case (rg_lin s lx d e)
  show ?case
    using region_bounds [OF rg_lin(3)] rg_lin(5) by (intro heap_walk_lin [OF rg_lin.IH _ _ _ rg_lin(2)]) auto
next
  case (rg_break s t lx d e)
  show ?case
    using region_bounds [OF rg_break(4)] rg_break(6) by (intro heap_walk_break [OF rg_break.IH _ _ _ rg_break(2)]) auto
next
  case (rg_if s t d lx e)
  have "heap_walk_sound chunk r vsb (Suc d) (Suc s) t" "heap_walk_sound chunk r vsb d (Suc t) e"
    using rg_if.IH rg_if(3,10) by simp_all
  then show ?case
    by (rule heap_walk_if [OF _ _ _ _ rg_if(10) _ rg_if(2) else_target_no_else [OF rg_if(4,5,2)] rg_if(6)])
      (use region_bounds [OF rg_if(4)] region_bounds [OF rg_if(7)] in auto)
next
  case (rg_ifelse s m d lx q e)
  have "heap_walk_sound chunk r vsb (Suc d) (Suc s) m" "heap_walk_sound chunk r vsb (Suc d) (Suc m) q"
    "heap_walk_sound chunk r vsb d (Suc q) e"
    using rg_ifelse.IH rg_ifelse(3,14) by simp_all
  then show ?case
    by (rule heap_walk_ifelse [OF _ _ _ _ _ rg_ifelse(14) _ rg_ifelse(2) else_target_else [OF rg_ifelse(5,6)] rg_ifelse(9)])
      (use region_bounds [OF rg_ifelse(4)] region_bounds [OF rg_ifelse(7)] region_bounds [OF rg_ifelse(10)] in auto)
next
  case (rg_loop s b d lx e)
  have "heap_walk_sound chunk r vsb (Suc d) (Suc s) b" "heap_walk_sound chunk r vsb d (Suc b) e"
    using rg_loop.IH rg_loop(3,10) by simp_all
  then show ?case
    by (rule heap_walk_loop [OF _ _ _ _ rg_loop(10) rg_loop(2,6)])
      (use region_bounds [OF rg_loop(4)] region_bounds [OF rg_loop(7)] in auto)
qed

text \<open>
  The reported arena bytes bound every run of a structured region in which each loop with an
  extracted bound respects it.
\<close>

theorem wcmu_region_bounds_heap:
  assumes "region (ch_ops chunk) None 0 s e" and "wcmu_region chunk s e r vsb = Some (Inr (out, brs))"
    and "bounded_run chunk s e tr oc"
  shows "capped (path_sum (op_bytes chunk r) tr) \<le> mo_heap_total out"
proof -
  have "hbounds chunk r s e (mc_heap mcu_start) out brs"
    using heap_walk_soundD [OF region_heap_sound [OF assms(1) le0] assms(2) [unfolded wcmu_region_def]] by auto
  from cboundsD [OF this assms(3)] show ?thesis by (simp add: mcu_start_def)
qed

end
