(* ===== verification/Text_Size.thy ===== *)
theory Text_Size
  imports Op_Tables "HOL-Library.Code_Target_Nat"
begin

text \<open>
  \<open>src/src/text_size.rs\<close>: the lattice of text-length bounds and the linear analyses over it, the bound on
  bytes that text operations allocate and the per-instruction time term of text operations.  Strings
  are their UTF-8 bytes.  The head of the abstract stack is its top.
\<close>

section \<open>The lattice\<close>

datatype text_size = NotText | Known nat | Unbounded

fun ts_add :: "text_size \<Rightarrow> text_size \<Rightarrow> text_size" where
  "ts_add NotText t = t"
| "ts_add t NotText = t"
| "ts_add Unbounded t = Unbounded"
| "ts_add t Unbounded = Unbounded"
| "ts_add (Known a) (Known b) = (if a + b < u32_max then Known (a + b) else Unbounded)"

fun ts_join :: "text_size \<Rightarrow> text_size \<Rightarrow> text_size" where
  "ts_join NotText t = t"
| "ts_join t NotText = t"
| "ts_join Unbounded t = Unbounded"
| "ts_join t Unbounded = Unbounded"
| "ts_join (Known a) (Known b) = Known (max a b)"

fun ts_as_u32 :: "text_size \<Rightarrow> nat" where
  "ts_as_u32 (Known n) = n"
| "ts_as_u32 Unbounded = u32_max"
| "ts_as_u32 NotText = u32_max"

definition text_cost_context :: "text_size \<Rightarrow> text_size \<Rightarrow> op_cost_context" where
  "text_cost_context lhs rhs = \<lparr> lhs_text_len = ts_as_u32 lhs, rhs_text_len = ts_as_u32 rhs \<rparr>"

section \<open>The abstract state\<close>

record text_state =
  tx_stack :: "text_size list"
  tx_locals :: "text_size list"

definition text_init :: "nat \<Rightarrow> text_state" where
  "text_init local_count = \<lparr> tx_stack = [], tx_locals = replicate local_count NotText \<rparr>"

definition tx_peek :: "text_state \<Rightarrow> text_size" where
  "tx_peek s = (case tx_stack s of [] \<Rightarrow> NotText | t # ts \<Rightarrow> t)"

definition tx_pop :: "text_state \<Rightarrow> text_state" where
  "tx_pop s = s \<lparr> tx_stack := tl (tx_stack s) \<rparr>"

definition tx_popn :: "nat \<Rightarrow> text_state \<Rightarrow> text_state" where
  "tx_popn n s = s \<lparr> tx_stack := drop n (tx_stack s) \<rparr>"

definition tx_push :: "text_size \<Rightarrow> text_state \<Rightarrow> text_state" where
  "tx_push t s = s \<lparr> tx_stack := t # tx_stack s \<rparr>"

definition tx_pushn :: "nat \<Rightarrow> text_size \<Rightarrow> text_state \<Rightarrow> text_state" where
  "tx_pushn n t s = s \<lparr> tx_stack := replicate n t @ tx_stack s \<rparr>"

text \<open>The closure \<open>sat\<close>: inside a loop or a branch a text bound widens.\<close>

fun ts_sat :: "bool \<Rightarrow> text_size \<Rightarrow> text_size" where
  "ts_sat True NotText = NotText"
| "ts_sat True _ = Unbounded"
| "ts_sat False t = t"

definition const_text_size :: "chunk \<Rightarrow> u16 \<Rightarrow> text_size" where
  "const_text_size c idx =
     (case nth_opt (ch_constants c) (unat idx) of
        Some (CV_StaticStr s) \<Rightarrow> Known (min (if length s \<le> u32_max then length s else u32_max - 1) (u32_max - 1))
      | _ \<Rightarrow> NotText)"

text \<open>The default arm: what the instruction pops and pushes, as non-text.\<close>

definition tx_default :: "op \<Rightarrow> text_state \<Rightarrow> text_state" where
  "tx_default x s =
     (case op_depth_effect x of (required, delta) \<Rightarrow>
        tx_pushn (nat (max (required + delta) 0)) NotText (tx_popn (nat (max required 0)) s))"

definition text_native :: "u8 \<Rightarrow> text_state \<Rightarrow> text_state" where
  "text_native n s =
     (let s = tx_push Unbounded (tx_popn (unat (and n 0x7F)) s) in
      if and n 0x80 \<noteq> 0 then tx_push Unbounded s else s)"

section \<open>One instruction\<close>

text \<open>\<open>TextAnalysis::apply_op\<close>: the new state and the bytes allocated.\<close>

fun apply_op :: "chunk \<Rightarrow> bool \<Rightarrow> bool list \<Rightarrow> op \<Rightarrow> text_state \<Rightarrow> text_state \<times> nat" where
  "apply_op c conservative callees (Const idx) s = (tx_push (ts_sat conservative (const_text_size c idx)) s, 0)"
| "apply_op c conservative callees Add s =
     (let b = tx_peek s; s = tx_pop s; a = tx_peek s; s = tx_pop s;
          (res, cost) = (if a = NotText \<or> b = NotText then (NotText, 0)
            else (ts_add a b,
              case heap_alloc_cost Add of OC_Dynamic f \<Rightarrow> f (text_cost_context a b) | OC_Fixed n \<Rightarrow> n))
      in (tx_push (ts_sat conservative res) s, cost))"
| "apply_op c conservative callees (GetLocal i) s =
     (tx_push (ts_sat conservative (case nth_opt (tx_locals s) (unat i) of Some t \<Rightarrow> t | None \<Rightarrow> NotText)) s, 0)"
| "apply_op c conservative callees (SetLocal i) s =
     (let v = tx_peek s; s = tx_pop s in
      (s \<lparr> tx_locals := (tx_locals s)[unat i := ts_sat conservative v] \<rparr>, 0))"
| "apply_op c conservative callees (PopN n) s = (tx_popn (unat n) s, 0)"
| "apply_op c conservative callees Dup s = (tx_push (tx_peek s) s, 0)"
| "apply_op c conservative callees (Call callee_idx n_args) s =
     (let s = tx_popn (unat n_args) s;
          returns_text = (case nth_opt callees (unat callee_idx) of Some b \<Rightarrow> b | None \<Rightarrow> True)
      in (tx_push (ts_sat conservative (if returns_text then Unbounded else NotText)) s, 0))"
| "apply_op c conservative callees (CallVerifiedNative i n) s = (text_native n s, 0)"
| "apply_op c conservative callees (CallExternalNative i n) s = (text_native n s, 0)"
| "apply_op c conservative callees Yield s = (tx_pop s, 0)"
| "apply_op c conservative callees Return s = (tx_pop s, 0)"
| "apply_op c conservative callees (If_op t) s = (tx_pop s, 0)"
| "apply_op c conservative callees (Else_op t) s = (s, 0)"
| "apply_op c conservative callees EndIf s = (s, 0)"
| "apply_op c conservative callees (Loop t) s = (s, 0)"
| "apply_op c conservative callees (EndLoop t) s = (s, 0)"
| "apply_op c conservative callees (Break t) s = (s, 0)"
| "apply_op c conservative callees (Trap k) s = (s, 0)"
| "apply_op c conservative callees (BreakIf t) s = (tx_pop s, 0)"
| "apply_op c conservative callees x s = (tx_default x s, 0)"

definition len_cycles :: "text_size \<Rightarrow> nat \<Rightarrow> nat" where
  "len_cycles t per_byte = (case t of Known n \<Rightarrow> sat_mul per_byte n | Unbounded \<Rightarrow> u32_max | NotText \<Rightarrow> 0)"

fun min_len_cycles :: "text_size \<Rightarrow> text_size \<Rightarrow> nat \<Rightarrow> nat" where
  "min_len_cycles (Known x) (Known y) per_byte = sat_mul per_byte (min x y)"
| "min_len_cycles (Known n) Unbounded per_byte = sat_mul per_byte n"
| "min_len_cycles Unbounded (Known n) per_byte = sat_mul per_byte n"
| "min_len_cycles Unbounded Unbounded per_byte = u32_max"
| "min_len_cycles _ _ per_byte = 0"

text \<open>\<open>TextAnalysis::apply_op_wcet\<close>: the new state and the extra cycles.\<close>

definition text_compare :: "nat \<Rightarrow> text_state \<Rightarrow> text_state \<times> nat" where
  "text_compare per_byte s =
     (let b = tx_peek s; s = tx_pop s; a = tx_peek s; s = tx_pop s in
      (tx_push NotText s, if a = NotText \<or> b = NotText then 0 else min_len_cycles a b per_byte))"

definition apply_op_wcet :: "chunk \<Rightarrow> bool \<Rightarrow> nat \<Rightarrow> bool list \<Rightarrow> op \<Rightarrow> text_state \<Rightarrow> text_state \<times> nat" where
  "apply_op_wcet c conservative per_byte callees x s =
     (case x of
        Const idx \<Rightarrow> (tx_push (const_text_size c idx) s, 0)
      | Add \<Rightarrow>
          (let b = tx_peek s; s = tx_pop s; a = tx_peek s; s = tx_pop s in
           if a = NotText \<or> b = NotText then (tx_push NotText s, 0)
           else (tx_push (ts_sat conservative (ts_add a b)) s, len_cycles (ts_add a b) per_byte))
      | CmpEq \<Rightarrow> text_compare per_byte s
      | CmpNe \<Rightarrow> text_compare per_byte s
      | Len \<Rightarrow> (let a = tx_peek s; s = tx_pop s in (tx_push NotText s, len_cycles a per_byte))
      | _ \<Rightarrow> (fst (apply_op c conservative callees x s), 0))"

section \<open>A chunk\<close>

text \<open>The structural depth before and after an instruction; both counters saturate.\<close>

record text_depth =
  td_loop :: nat
  td_branch :: nat

definition depth_enter :: "op \<Rightarrow> text_depth \<Rightarrow> text_depth" where
  "depth_enter x d = (case x of Loop _ \<Rightarrow> d \<lparr> td_loop := sat_add (td_loop d) 1 \<rparr>
     | If_op _ \<Rightarrow> d \<lparr> td_branch := sat_add (td_branch d) 1 \<rparr> | _ \<Rightarrow> d)"

definition depth_leave :: "op \<Rightarrow> text_depth \<Rightarrow> text_depth" where
  "depth_leave x d = (case x of EndLoop _ \<Rightarrow> d \<lparr> td_loop := td_loop d - 1 \<rparr>
     | EndIf \<Rightarrow> d \<lparr> td_branch := td_branch d - 1 \<rparr> | _ \<Rightarrow> d)"

definition depth_conservative :: "text_depth \<Rightarrow> bool" where
  "depth_conservative d \<longleftrightarrow> td_loop d > 0 \<or> td_branch d > 0"

record text_analysis =
  ct_heap_alloc :: nat
  ct_returns_text :: bool
  ct_yields_text :: bool

fun analyze_text_from :: "chunk \<Rightarrow> bool list \<Rightarrow> op list \<Rightarrow> text_depth \<Rightarrow> text_state \<Rightarrow> text_analysis \<Rightarrow> text_analysis" where
  "analyze_text_from c callees [] d s a =
     a \<lparr> ct_returns_text := ct_returns_text a \<or> tx_peek s \<noteq> NotText \<rparr>"
| "analyze_text_from c callees (x # xs) d s a =
     (let d = depth_enter x d; conservative = depth_conservative d;
          a = (case x of Return \<Rightarrow> a \<lparr> ct_returns_text := ct_returns_text a \<or> tx_peek s \<noteq> NotText \<rparr>
               | Yield \<Rightarrow> a \<lparr> ct_yields_text := ct_yields_text a \<or> tx_peek s \<noteq> NotText \<rparr> | _ \<Rightarrow> a);
          (s, contribution) = apply_op c conservative callees x s;
          a = a \<lparr> ct_heap_alloc := sat_add (ct_heap_alloc a) contribution \<rparr>
      in if ct_heap_alloc a = u32_max then a
         else analyze_text_from c callees xs (depth_leave x d) s a)"

definition analyze_chunk_text :: "chunk \<Rightarrow> bool list \<Rightarrow> text_analysis" where
  "analyze_chunk_text c callees =
     analyze_text_from c callees (ch_ops c) \<lparr> td_loop = 0, td_branch = 0 \<rparr> (text_init (unat (ch_local_count c)))
       \<lparr> ct_heap_alloc = 0, ct_returns_text = False, ct_yields_text = False \<rparr>"

definition chunk_text_heap_alloc :: "chunk \<Rightarrow> nat" where
  "chunk_text_heap_alloc c = ct_heap_alloc (analyze_chunk_text c [])"

fun text_wcet_from :: "chunk \<Rightarrow> nat \<Rightarrow> bool list \<Rightarrow> op list \<Rightarrow> text_depth \<Rightarrow> text_state \<Rightarrow> nat list" where
  "text_wcet_from c per_byte callees [] d s = []"
| "text_wcet_from c per_byte callees (x # xs) d s =
     (let d = depth_enter x d; (s, extra) = apply_op_wcet c (depth_conservative d) per_byte callees x s
      in extra # text_wcet_from c per_byte callees xs (depth_leave x d) s)"

definition chunk_text_wcet_cycles_with_callees :: "chunk \<Rightarrow> nat \<Rightarrow> bool list \<Rightarrow> nat list" where
  "chunk_text_wcet_cycles_with_callees c per_byte callees =
     text_wcet_from c per_byte callees (ch_ops c) \<lparr> td_loop = 0, td_branch = 0 \<rparr> (text_init (unat (ch_local_count c)))"

definition chunk_text_wcet_cycles :: "chunk \<Rightarrow> nat \<Rightarrow> nat list" where
  "chunk_text_wcet_cycles c per_byte = chunk_text_wcet_cycles_with_callees c per_byte []"

section \<open>The order\<close>

text \<open>The join is the least upper bound of a linear order with \<open>NotText\<close> below and \<open>Unbounded\<close> above.\<close>

instantiation text_size :: linorder
begin

fun less_eq_text_size :: "text_size \<Rightarrow> text_size \<Rightarrow> bool" where
  "less_eq_text_size NotText t \<longleftrightarrow> True"
| "less_eq_text_size (Known a) (Known b) \<longleftrightarrow> a \<le> b"
| "less_eq_text_size t Unbounded \<longleftrightarrow> True"
| "less_eq_text_size _ _ \<longleftrightarrow> False"

definition less_text_size :: "text_size \<Rightarrow> text_size \<Rightarrow> bool" where
  "less_text_size a b \<longleftrightarrow> a \<le> b \<and> \<not> b \<le> a"

instance
proof
  fix x y z :: text_size
  show "x < y \<longleftrightarrow> x \<le> y \<and> \<not> y \<le> x" by (rule less_text_size_def)
  show "x \<le> x" by (cases x) simp_all
  show "x \<le> y \<Longrightarrow> y \<le> z \<Longrightarrow> x \<le> z" by (cases x; cases y; cases z) simp_all
  show "x \<le> y \<Longrightarrow> y \<le> x \<Longrightarrow> x = y" by (cases x; cases y) simp_all
  show "x \<le> y \<or> y \<le> x" by (cases x; cases y) auto
qed

end

lemma ts_join_max: "ts_join a b = max a b"
  by (cases a; cases b) (simp_all add: max_def)

instantiation text_size :: semilattice_sup
begin

definition sup_text_size :: "text_size \<Rightarrow> text_size \<Rightarrow> text_size" where
  "sup_text_size a b = ts_join a b"

instance
  by standard (simp_all add: sup_text_size_def ts_join_max)

end

lemma ts_add_commute: "ts_add a b = ts_add b a"
  by (cases a; cases b) (simp_all add: add.commute)

lemma ts_add_assoc: "ts_add (ts_add a b) c = ts_add a (ts_add b c)"
  by (cases a; cases b; cases c) (auto simp: add.assoc)

lemma ts_add_mono: "a \<le> a' \<Longrightarrow> ts_add a b \<le> ts_add a' b"
  by (cases a; cases a'; cases b) auto

lemma ts_sat_ge: "t \<le> ts_sat b t"
  by (cases b; cases t) simp_all

section \<open>Soundness on straight-line code\<close>

text \<open>
  What an instruction does to the text lengths of the values on the stack and in the locals: a length
  for a text, \<open>None\<close> for any other value.  Operands of a comparison or an addition have the same type.
  Instructions that read a field, an element or a data slot may push a text the analysis does not see
  and are left out, as are those that transfer control.
\<close>

type_synonym lengths = "nat option list \<times> nat option list"

definition text_plain :: "op \<Rightarrow> bool" where
  "text_plain x \<longleftrightarrow> x \<in> {Sub, Mul, Div, Mod, Neg, CmpLt, CmpGt, CmpLe, CmpGe, Not_op, IntToFloat, FloatToInt, WordToByte,
     ByteToWord, CheckedAdd, CheckedSub, CheckedNeg, CheckedMod, BitAnd, BitOr, BitXor, Shl, Shr}
   \<or> (\<exists>n. x = PushImmediate n \<or> x = WordToFixed n \<or> x = FixedToWord n \<or> x = FixedMul n \<or> x = FixedDiv n
        \<or> x = CheckedMul n \<or> x = CheckedDiv n)
   \<or> (\<exists>d. x = NewComposite d) \<or> (\<exists>i. x = SetData i)"

inductive text_step :: "chunk \<Rightarrow> bool list \<Rightarrow> op \<Rightarrow> lengths \<Rightarrow> lengths \<Rightarrow> bool" for c callees where
  tx_const_text: "nth_opt (ch_constants c) (unat i) = Some (CV_StaticStr t) \<Longrightarrow> length t < u32_max
    \<Longrightarrow> text_step c callees (Const i) (st, lo) (Some (length t) # st, lo)"
| tx_const: "nth_opt (ch_constants c) (unat i) = Some v \<Longrightarrow> (\<And>t. v \<noteq> CV_StaticStr t)
    \<Longrightarrow> text_step c callees (Const i) (st, lo) (None # st, lo)"
| tx_add: "text_step c callees Add (None # None # st, lo) (None # st, lo)"
| tx_add_text: "text_step c callees Add (Some b # Some a # st, lo) (Some (a + b) # st, lo)"
| tx_get: "unat i < length lo \<Longrightarrow> text_step c callees (GetLocal i) (st, lo) (lo ! unat i # st, lo)"
| tx_set: "unat i < length lo \<Longrightarrow> text_step c callees (SetLocal i) (v # st, lo) (st, lo[unat i := v])"
| tx_popn: "unat n \<le> length st \<Longrightarrow> text_step c callees (PopN n) (st, lo) (drop (unat n) st, lo)"
| tx_dup: "text_step c callees Dup (v # st, lo) (v # v # st, lo)"
| tx_call: "unat n \<le> length st \<Longrightarrow> (nth_opt callees (unat k) = Some False \<Longrightarrow> v = None)
    \<Longrightarrow> text_step c callees (Call k n) (st, lo) (v # drop (unat n) st, lo)"
| tx_cmp_eq: "(a = None \<longleftrightarrow> b = None) \<Longrightarrow> text_step c callees CmpEq (b # a # st, lo) (None # st, lo)"
| tx_cmp_ne: "(a = None \<longleftrightarrow> b = None) \<Longrightarrow> text_step c callees CmpNe (b # a # st, lo) (None # st, lo)"
| tx_len: "text_step c callees Len (a # st, lo) (None # st, lo)"
| tx_plain: "text_plain x \<Longrightarrow> op_depth_effect x = (r, d) \<Longrightarrow> nat (max r 0) \<le> length st
    \<Longrightarrow> text_step c callees x (st, lo) (replicate (nat (max (r + d) 0)) None @ drop (nat (max r 0)) st, lo)"

text \<open>The time of a text operation: the bytes it reads, at \<open>per_byte\<close> cycles each.\<close>

definition text_time :: "nat \<Rightarrow> op \<Rightarrow> nat option list \<Rightarrow> nat" where
  "text_time per_byte x st =
     (case st of
        Some b # Some a # st \<Rightarrow>
          (if x = CmpEq \<or> x = CmpNe then per_byte * min a b else if x = Add then per_byte * (a + b)
           else if x = Len then per_byte * b else 0)
      | Some a # st \<Rightarrow> (if x = Len then per_byte * a else 0)
      | _ \<Rightarrow> 0)"

fun text_covers :: "text_size \<Rightarrow> nat option \<Rightarrow> bool" where
  "text_covers NotText v \<longleftrightarrow> v = None"
| "text_covers (Known n) v \<longleftrightarrow> (case v of None \<Rightarrow> False | Some k \<Rightarrow> k \<le> n)"
| "text_covers Unbounded v \<longleftrightarrow> True"

definition state_covers :: "text_state \<Rightarrow> lengths \<Rightarrow> bool" where
  "state_covers s l \<longleftrightarrow> list_all2 text_covers (tx_stack s) (fst l) \<and> list_all2 text_covers (tx_locals s) (snd l)"

named_theorems tx_defs \<open>the abstract stack operations\<close>
declare tx_peek_def [tx_defs] tx_pop_def [tx_defs] tx_popn_def [tx_defs] tx_push_def [tx_defs] tx_pushn_def [tx_defs]

lemma ts_sat_False [simp]: "ts_sat False t = t"
  by (cases t) simp_all

lemma covers_add: "text_covers a (Some x) \<Longrightarrow> text_covers b (Some y) \<Longrightarrow> text_covers (ts_add a b) (Some (x + y))"
  by (cases a; cases b) auto

lemma covers_add_None: "text_covers a None \<Longrightarrow> text_covers b None \<Longrightarrow> text_covers (if a = NotText \<or> b = NotText then NotText else ts_add a b) None"
  by (cases a; cases b) auto

lemma min_len_covers: "text_covers a (Some x) \<Longrightarrow> text_covers b (Some y) \<Longrightarrow> min (k * min x y) u32_max \<le> min_len_cycles a b k"
  by (cases a; cases b) (auto simp: sat_mul_def min_le_iff_disj intro!: min.coboundedI1 mult_le_mono2)

lemma len_covers: "text_covers a (Some x) \<Longrightarrow> min (k * x) u32_max \<le> len_cycles a k"
  by (cases a) (auto simp: sat_mul_def len_cycles_def min_le_iff_disj)

lemma text_time_None: "text_time k x (None # st) = 0" "x \<notin> {CmpEq, CmpNe, Add, Len} \<Longrightarrow> text_time k x st = 0"
  by (auto simp: text_time_def split: list.splits option.splits)

lemma plain_default: "text_plain x \<Longrightarrow> apply_op_wcet c False k callees x s = (tx_default x s, 0)"
  by (auto simp: text_plain_def apply_op_wcet_def)

lemma plain_time: "text_plain x \<Longrightarrow> text_time k x st = 0"
  by (rule text_time_None(2)) (auto simp: text_plain_def)

lemma covers_default:
  assumes "op_depth_effect x = (r, d)" "state_covers s (st, lo)"
  shows "state_covers (tx_default x s) (replicate (nat (max (r + d) 0)) None @ drop (nat (max r 0)) st, lo)"
proof -
  have "list_all2 text_covers (replicate n NotText) (replicate n None)" for n by (induction n) simp_all
  with assms show ?thesis
    by (auto simp: state_covers_def tx_default_def tx_defs intro!: list_all2_appendI list_all2_dropI)
qed

text \<open>One instruction: the states stay related and the reported cycles cover the time.\<close>

lemma text_step_sound:
  assumes "text_step c callees x l l'" "state_covers s l"
  shows "state_covers (fst (apply_op_wcet c False k callees x s)) l' \<and> min (text_time k x (fst l)) u32_max \<le> snd (apply_op_wcet c False k callees x s)"
  using assms
proof (induction rule: text_step.induct)
  case (tx_plain x r d st lo)
  with plain_default [OF tx_plain(1)] plain_time [OF tx_plain(1)] covers_default show ?case by simp
next
  case (tx_add st lo)
  then obtain a b ts where s: "tx_stack s = b # a # ts" "text_covers a None" "text_covers b None" "list_all2 text_covers ts st"
    by (auto simp: state_covers_def list_all2_Cons2)
  with tx_add covers_add_None [of a b] show ?case
    by (auto simp: apply_op_wcet_def state_covers_def tx_defs Let_def text_time_def)
next
  case (tx_add_text y x st lo)
  then obtain a b ts where s: "tx_stack s = b # a # ts" "text_covers a (Some x)" "text_covers b (Some y)" "list_all2 text_covers ts st"
    by (auto simp: state_covers_def list_all2_Cons2)
  then have "a \<noteq> NotText" "b \<noteq> NotText" by auto
  with s tx_add_text covers_add [of a x b y] len_covers [of "ts_add a b" "x + y" k] show ?case
    by (simp add: apply_op_wcet_def state_covers_def tx_defs Let_def text_time_def add.commute)
next
  case (tx_cmp_eq a b st lo)
  then obtain ta tb ts where s: "tx_stack s = tb # ta # ts" "text_covers ta a" "text_covers tb b" "list_all2 text_covers ts st"
    by (auto simp: state_covers_def list_all2_Cons2)
  with tx_cmp_eq show ?case
    by (cases a; cases b) (auto simp: apply_op_wcet_def text_compare_def state_covers_def tx_defs Let_def text_time_def intro!: min_len_covers)
next
  case (tx_cmp_ne a b st lo)
  then obtain ta tb ts where s: "tx_stack s = tb # ta # ts" "text_covers ta a" "text_covers tb b" "list_all2 text_covers ts st"
    by (auto simp: state_covers_def list_all2_Cons2)
  with tx_cmp_ne show ?case
    by (cases a; cases b) (auto simp: apply_op_wcet_def text_compare_def state_covers_def tx_defs Let_def text_time_def intro!: min_len_covers)
next
  case (tx_len a st lo)
  then obtain ta ts where s: "tx_stack s = ta # ts" "text_covers ta a" "list_all2 text_covers ts st"
    by (auto simp: state_covers_def list_all2_Cons2)
  with tx_len show ?case
    by (cases a) (auto simp: apply_op_wcet_def state_covers_def tx_defs Let_def text_time_def intro!: len_covers split: list.splits option.splits)
next
  case (tx_const_text i t st lo)
  then show ?case by (auto simp: text_time_None(2) apply_op_wcet_def state_covers_def tx_defs const_text_size_def simp del: nth_opt_Some)
next
  case (tx_const i v st lo)
  then show ?case by (cases v) (auto simp: text_time_None(2) apply_op_wcet_def state_covers_def tx_defs const_text_size_def simp del: nth_opt_Some)
next
  case (tx_get i lo st)
  then show ?case by (auto simp: text_time_None(2) apply_op_wcet_def state_covers_def tx_defs nth_opt_def list_all2_conv_all_nth [of _ "tx_locals s"] list_all2_nthD)
next
  case (tx_set i lo v st)
  then show ?case by (auto simp: text_time_None(2) apply_op_wcet_def state_covers_def tx_defs Let_def list_all2_Cons2 intro!: list_all2_update_cong)
next
  case (tx_popn n st lo)
  then show ?case by (auto simp: text_time_None(2) apply_op_wcet_def state_covers_def tx_defs intro!: list_all2_dropI)
next
  case (tx_dup v st lo)
  then show ?case by (auto simp: text_time_None(2) apply_op_wcet_def state_covers_def tx_defs list_all2_Cons2)
next
  case (tx_call n st kk v lo)
  then show ?case
    by (auto simp: text_time_None(2) apply_op_wcet_def state_covers_def tx_defs Let_def intro!: list_all2_dropI split: option.splits bool.splits)
qed

text \<open>A run of straight-line code, with the time of each instruction.\<close>

fun text_run :: "chunk \<Rightarrow> bool list \<Rightarrow> nat \<Rightarrow> op list \<Rightarrow> lengths \<Rightarrow> nat list \<Rightarrow> bool" where
  "text_run c callees k [] l ts \<longleftrightarrow> ts = []"
| "text_run c callees k (x # xs) l ts \<longleftrightarrow>
     (\<exists>l' ts'. text_step c callees x l l' \<and> ts = text_time k x (fst l) # ts' \<and> text_run c callees k xs l' ts')"

lemma text_step_straight:
  assumes "text_step c callees x l l'"
  shows "depth_enter x d = d" "depth_leave x d = d"
proof -
  have plain: "depth_enter x d = d" "depth_leave x d = d" if "text_plain x"
    using that by (auto simp: text_plain_def depth_enter_def depth_leave_def)
  show "depth_enter x d = d" using assms plain by cases (simp_all add: depth_enter_def)
  show "depth_leave x d = d" using assms plain by cases (simp_all add: depth_leave_def)
qed

lemma text_run_sound:
  assumes "text_run c callees k xs l ts" "state_covers s l"
  shows "list_all2 (\<lambda>t e. min t u32_max \<le> e) ts (text_wcet_from c k callees xs \<lparr> td_loop = 0, td_branch = 0 \<rparr> s)"
  using assms
proof (induction xs arbitrary: l ts s)
  case (Cons x xs)
  let ?d = "\<lparr> td_loop = 0, td_branch = 0 \<rparr> :: text_depth"
  obtain l' ts' where r: "text_step c callees x l l'" "ts = text_time k x (fst l) # ts'" "text_run c callees k xs l' ts'"
    using Cons.prems(1) by auto
  obtain s' e where a: "apply_op_wcet c False k callees x s = (s', e)" by (cases "apply_op_wcet c False k callees x s")
  have "state_covers s' l'" "min (text_time k x (fst l)) u32_max \<le> e"
    using text_step_sound [OF r(1) Cons.prems(2), of k] a by simp_all
  moreover have "text_wcet_from c k callees (x # xs) ?d s = e # text_wcet_from c k callees xs ?d s'"
    using text_step_straight [OF r(1), of ?d] a by (simp add: depth_conservative_def Let_def)
  ultimately show ?case using Cons.IH [OF r(3)] r(2) by simp
qed simp

lemma init_covers: "state_covers (text_init n) ([], replicate n None)"
  by (simp add: state_covers_def text_init_def list_all2_conv_all_nth)

lemma chunk_text_wcet_sound:
  assumes "text_run c callees k (ch_ops c) ([], replicate (unat (ch_local_count c)) None) ts"
  shows "list_all2 (\<lambda>t e. min t u32_max \<le> e) ts (chunk_text_wcet_cycles_with_callees c k callees)"
  unfolding chunk_text_wcet_cycles_with_callees_def by (rule text_run_sound [OF assms init_covers])

section \<open>Concrete chunks\<close>

text \<open>A comparison of a seven-byte literal with a five-byte literal, in straight-line code.\<close>

definition text_chunk :: "u16 \<Rightarrow> op list \<Rightarrow> chunk" where
  "text_chunk locals ops = \<lparr> ch_name = ''text'', ch_ops = ops, ch_constants = [CV_StaticStr ''seconds'', CV_StaticStr ''hours'', CV_Int 1],
     ch_struct_templates = [], ch_local_count = locals, ch_param_count = 0, ch_block_type = BT_Func, ch_param_types = [] \<rparr>"

definition literal_compare :: chunk where
  "literal_compare = text_chunk 1 [Const 0, SetLocal 0, GetLocal 0, Const 1, CmpEq]"

text \<open>Two text parameters compared, as compiled from \<open>fn same(a: Text, b: Text) -> bool { a == b }\<close>.\<close>

definition parameter_compare :: chunk where
  "parameter_compare = (text_chunk 2 [GetLocal 0, GetLocal 1, CmpEq, Return]) \<lparr> ch_param_count := 2, ch_param_types := [TT_Text, TT_Text] \<rparr>"

text \<open>
  A literal compared with the text a call returns, whose argument is the value of a conditional
  expression, as compiled from \<open>"seconds" == unit_name(if c { 1 } else { 1 })\<close>.
\<close>

definition branch_argument_compare :: chunk where
  "branch_argument_compare = text_chunk 1
     [Const 0, GetLocal 0, If_op 5, Const 2, Else_op 6, Const 2, EndIf, Call 0 1, CmpEq, Return]"

end
