(* ===== verification/Call_Graph.thy ===== *)
theory Call_Graph
  imports Region_Walks
begin

text \<open>
  The static call graph (\<open>src/src/verify.rs\<close>): the topological order in which the module analyses
  process chunks, and the call depth.  The recursive visit of the code is bounded by the chunks it
  has on its stack; the model gives it that many levels (\<open>fuel\<close>), and \<open>topo_order_correct\<close> shows they
  suffice.  An order lists callees before callers; an error means a cycle.
\<close>

section \<open>The code\<close>

text \<open>The targets of a chunk's calls that name a chunk, in code order.\<close>

definition chunk_callees :: "kmodule \<Rightarrow> nat \<Rightarrow> nat list" where
  "chunk_callees m i =
     concat (map (\<lambda>x. case x of Call callee _ \<Rightarrow> if unat callee < length (m_chunks m) then [unat callee] else [] | _ \<Rightarrow> [])
       (ch_ops (m_chunks m ! i)))"

record topo_state =
  tp_visited :: "bool list"
  tp_on_stack :: "bool list"
  tp_order :: "nat list"

fun topo_visit :: "nat \<Rightarrow> kmodule \<Rightarrow> nat \<Rightarrow> topo_state \<Rightarrow> (verify_error + topo_state) option"
  and topo_calls :: "nat \<Rightarrow> kmodule \<Rightarrow> nat list \<Rightarrow> topo_state \<Rightarrow> (verify_error + topo_state) option" where
  "topo_visit 0 m idx st = None"
| "topo_visit (Suc fuel) m idx st =
     (if tp_on_stack st ! idx then Some (Inl (VE_RecursiveCall idx))
      else if tp_visited st ! idx then Some (Inr st)
      else bindOR (topo_calls fuel m (chunk_callees m idx) (st \<lparr> tp_on_stack := (tp_on_stack st)[idx := True] \<rparr>))
        (\<lambda>st. Some (Inr (st \<lparr> tp_on_stack := (tp_on_stack st)[idx := False], tp_visited := (tp_visited st)[idx := True],
            tp_order := tp_order st @ [idx] \<rparr>))))"
| "topo_calls fuel m [] st = Some (Inr st)"
| "topo_calls fuel m (c # cs) st = bindOR (topo_visit fuel m c st) (\<lambda>st. topo_calls fuel m cs st)"

fun topo_roots :: "kmodule \<Rightarrow> nat list \<Rightarrow> topo_state \<Rightarrow> (verify_error + topo_state) option" where
  "topo_roots m [] st = Some (Inr st)"
| "topo_roots m (i # is) st =
     bindOR (if \<not> tp_visited st ! i then topo_visit (Suc (length (m_chunks m))) m i st else Some (Inr st))
       (\<lambda>st. topo_roots m is st)"

definition topological_call_order :: "kmodule \<Rightarrow> (verify_error + nat list) option" where
  "topological_call_order m =
     (let n = length (m_chunks m) in
      bindOR (topo_roots m [0..<n] \<lparr> tp_visited = replicate n False, tp_on_stack = replicate n False, tp_order = [] \<rparr>)
        (\<lambda>st. Some (Inr (tp_order st))))"

definition call_depth_step :: "kmodule \<Rightarrow> nat list \<Rightarrow> nat \<Rightarrow> nat list" where
  "call_depth_step m depth idx =
     depth[idx := foldl (\<lambda>d c. max d (sat_add (depth ! c) 1)) 1 (chunk_callees m idx)]"

definition module_call_depth :: "kmodule \<Rightarrow> (verify_error + nat) option" where
  "module_call_depth m =
     bindOR (topological_call_order m) (\<lambda>order.
       Some (Inr (max_or 0 (foldl (call_depth_step m) (replicate (length (m_chunks m)) 1) order))))"

section \<open>The order\<close>

definition call_rel :: "kmodule \<Rightarrow> (nat \<times> nat) set" where
  "call_rel m = {(i, j). i < length (m_chunks m) \<and> j \<in> set (chunk_callees m i)}"

lemma chunk_callees_bound: "c \<in> set (chunk_callees m i) \<Longrightarrow> c < length (m_chunks m)"
  by (auto simp: chunk_callees_def split: op.splits if_splits)

text \<open>Callees stand before their callers.\<close>

definition callees_precede :: "kmodule \<Rightarrow> nat list \<Rightarrow> bool" where
  "callees_precede m xs \<longleftrightarrow> (\<forall>k < length xs. set (chunk_callees m (xs ! k)) \<subseteq> set (take k xs))"

lemma callees_precedeD: "callees_precede m xs \<Longrightarrow> k < length xs \<Longrightarrow> set (chunk_callees m (xs ! k)) \<subseteq> set (take k xs)"
  by (simp add: callees_precede_def)

lemma callees_precede_snoc: "callees_precede m xs \<Longrightarrow> set (chunk_callees m i) \<subseteq> set xs \<Longrightarrow> callees_precede m (xs @ [i])"
  by (auto simp: callees_precede_def nth_append less_Suc_eq)

definition topo_inv :: "kmodule \<Rightarrow> topo_state \<Rightarrow> bool" where
  "topo_inv m st \<longleftrightarrow> length (tp_visited st) = length (m_chunks m) \<and> length (tp_on_stack st) = length (m_chunks m)
     \<and> distinct (tp_order st) \<and> set (tp_order st) = {i. i < length (m_chunks m) \<and> tp_visited st ! i}
     \<and> callees_precede m (tp_order st) \<and> (\<forall>i < length (m_chunks m). tp_on_stack st ! i \<longrightarrow> \<not> tp_visited st ! i)"

definition stacked :: "kmodule \<Rightarrow> topo_state \<Rightarrow> nat set" where
  "stacked m st = {i. i < length (m_chunks m) \<and> tp_on_stack st ! i}"

definition grown :: "topo_state \<Rightarrow> topo_state \<Rightarrow> bool" where
  "grown st st' \<longleftrightarrow> tp_on_stack st' = tp_on_stack st \<and> (\<exists>ext. tp_order st' = tp_order st @ ext)"

lemma grown_refl [simp]: "grown st st" and grown_trans: "grown st st' \<Longrightarrow> grown st' st'' \<Longrightarrow> grown st st''"
  by (auto simp: grown_def)

lemma grown_stacked: "grown st st' \<Longrightarrow> stacked m st' = stacked m st"
  by (simp add: grown_def stacked_def)

lemma grown_set: "grown st st' \<Longrightarrow> set (tp_order st) \<subseteq> set (tp_order st')"
  by (auto simp: grown_def)

text \<open>What a visit of targets reachable from every chunk on the stack yields.\<close>

definition visits :: "kmodule \<Rightarrow> topo_state \<Rightarrow> nat set \<Rightarrow> (verify_error + topo_state) option \<Rightarrow> bool" where
  "visits m st is r \<longleftrightarrow>
     (\<exists>st'. r = Some (Inr st') \<and> topo_inv m st' \<and> grown st st' \<and> is \<subseteq> set (tp_order st'))
     \<or> (\<exists>k. r = Some (Inl (VE_RecursiveCall k)) \<and> (k, k) \<in> (call_rel m)\<^sup>+)"

lemma visitsI: "topo_inv m st' \<Longrightarrow> grown st st' \<Longrightarrow> is \<subseteq> set (tp_order st') \<Longrightarrow> visits m st is (Some (Inr st'))"
  by (auto simp: visits_def)

lemma visits_bind:
  assumes "visits m st is r" "\<And>st'. topo_inv m st' \<Longrightarrow> grown st st' \<Longrightarrow> is \<subseteq> set (tp_order st') \<Longrightarrow> visits m st' js (f st')"
  shows "visits m st (is \<union> js) (bindOR r f)"
proof -
  from assms(1) consider (ok) st' where "r = Some (Inr st')" "topo_inv m st'" "grown st st'" "is \<subseteq> set (tp_order st')"
    | (cyc) k where "r = Some (Inl (VE_RecursiveCall k))" "(k, k) \<in> (call_rel m)\<^sup>+"
    unfolding visits_def by blast
  then show ?thesis
  proof cases
    case ok
    from assms(2) [OF ok(2-4)] consider (ok') st'' where "f st' = Some (Inr st'')" "topo_inv m st''" "grown st' st''" "js \<subseteq> set (tp_order st'')"
      | (cyc') k where "f st' = Some (Inl (VE_RecursiveCall k))" "(k, k) \<in> (call_rel m)\<^sup>+"
      unfolding visits_def by blast
    then show ?thesis
    proof cases
      case ok'
      then show ?thesis using ok grown_trans [OF ok(3) ok'(3)] grown_set [OF ok'(3)] by (auto intro!: visitsI)
    next
      case cyc'
      then show ?thesis using ok by (simp add: visits_def)
    qed
  next
    case cyc
    then show ?thesis by (simp add: visits_def)
  qed
qed

lemma finish_visit:
  assumes "topo_inv m st" "idx < length (m_chunks m)" "\<not> tp_on_stack st ! idx" "\<not> tp_visited st ! idx"
    and "topo_inv m st'" "grown (st \<lparr> tp_on_stack := (tp_on_stack st)[idx := True] \<rparr>) st'"
    and "set (chunk_callees m idx) \<subseteq> set (tp_order st')"
  shows "visits m st {idx} (Some (Inr (st' \<lparr> tp_on_stack := (tp_on_stack st')[idx := False],
      tp_visited := (tp_visited st')[idx := True], tp_order := tp_order st' @ [idx] \<rparr>)))"
proof -
  have s: "tp_on_stack st' = (tp_on_stack st)[idx := True]" using assms(6) by (simp add: grown_def)
  have len: "length (tp_on_stack st) = length (m_chunks m)" "length (tp_visited st') = length (m_chunks m)"
    using assms(1,5) by (simp_all add: topo_inv_def)
  have "\<not> tp_visited st' ! idx" using assms(2,5) s len by (simp add: topo_inv_def)
  then have "idx \<notin> set (tp_order st')" using assms(5) by (simp add: topo_inv_def)
  moreover have "(tp_on_stack st)[idx := False] = tp_on_stack st" using assms(3) by (simp add: list_update_same_conv len assms(2))
  ultimately show ?thesis
    using assms(2,3,5-7) s len callees_precede_snoc [of m "tp_order st'" idx]
    by (auto simp: visits_def topo_inv_def grown_def nth_list_update)
qed

lemma stacked_push:
  assumes "topo_inv m st" "idx < length (m_chunks m)" "\<not> tp_on_stack st ! idx"
  shows "stacked m (st \<lparr> tp_on_stack := (tp_on_stack st)[idx := True] \<rparr>) = insert idx (stacked m st)" "idx \<notin> stacked m st"
  using assms by (auto simp: stacked_def topo_inv_def nth_list_update split: if_splits)

lemma finite_stacked [simp]: "finite (stacked m st)"
  by (simp add: stacked_def)

lemma card_stacked: "card (stacked m st) \<le> length (m_chunks m)"
  using card_mono [of "{..<length (m_chunks m)}" "stacked m st"] by (auto simp: stacked_def)

lemma topo_visit_correct:
  "topo_inv m st \<Longrightarrow> idx < length (m_chunks m) \<Longrightarrow> length (m_chunks m) < fuel + card (stacked m st)
    \<Longrightarrow> (\<forall>s \<in> stacked m st. (s, idx) \<in> (call_rel m)\<^sup>+) \<Longrightarrow> visits m st {idx} (topo_visit fuel m idx st)"
  "topo_inv m st \<Longrightarrow> set cs \<subseteq> {..<length (m_chunks m)} \<Longrightarrow> length (m_chunks m) < fuel + card (stacked m st)
    \<Longrightarrow> (\<forall>s \<in> stacked m st. \<forall>c \<in> set cs. (s, c) \<in> (call_rel m)\<^sup>+) \<Longrightarrow> visits m st (set cs) (topo_calls fuel m cs st)"
proof (induction fuel m idx st and fuel m cs st rule: topo_visit_topo_calls.induct)
  case (1 m idx st)
  then show ?case using card_stacked [of m st] by simp
next
  case (2 fuel m idx st)
  let ?st = "st \<lparr> tp_on_stack := (tp_on_stack st)[idx := True] \<rparr>"
  show ?case
  proof (cases "tp_on_stack st ! idx"; cases "tp_visited st ! idx")
    assume on: "\<not> tp_on_stack st ! idx" and new: "\<not> tp_visited st ! idx"
    note push = stacked_push [OF "2.prems"(1,2) on]
    have inv: "topo_inv m ?st" using "2.prems"(1,2) new by (auto simp: topo_inv_def nth_list_update)
    have "length (m_chunks m) < fuel + card (stacked m ?st)" using "2.prems"(3) push by simp
    moreover have "\<forall>s \<in> stacked m ?st. \<forall>c \<in> set (chunk_callees m idx). (s, c) \<in> (call_rel m)\<^sup>+"
    proof (intro ballI)
      fix s c assume s: "s \<in> stacked m ?st" and c: "c \<in> set (chunk_callees m idx)"
      then have "(idx, c) \<in> call_rel m" using "2.prems"(2) by (simp add: call_rel_def)
      then show "(s, c) \<in> (call_rel m)\<^sup>+" using s push "2.prems"(4) by (auto intro: trancl_into_trancl)
    qed
    ultimately have v: "visits m ?st (set (chunk_callees m idx)) (topo_calls fuel m (chunk_callees m idx) ?st)"
      using "2.IH" [OF on new inv] chunk_callees_bound by blast
    then consider (ok) st' where "topo_calls fuel m (chunk_callees m idx) ?st = Some (Inr st')" "topo_inv m st'" "grown ?st st'"
        "set (chunk_callees m idx) \<subseteq> set (tp_order st')"
      | (cyc) k where "topo_calls fuel m (chunk_callees m idx) ?st = Some (Inl (VE_RecursiveCall k))" "(k, k) \<in> (call_rel m)\<^sup>+"
      unfolding visits_def by blast
    then show "visits m st {idx} (topo_visit (Suc fuel) m idx st)"
    proof cases
      case ok
      with finish_visit [OF "2.prems"(1,2) on new] on new show ?thesis by simp
    next
      case cyc
      with on new show ?thesis by (simp add: visits_def)
    qed
  qed (use "2.prems" in \<open>auto simp: visits_def stacked_def topo_inv_def\<close>)
next
  case (3 fuel m st)
  then show ?case by (simp add: visits_def)
next
  case (4 fuel m c cs st)
  have "visits m st {c} (topo_visit fuel m c st)" using "4.IH"(1) "4.prems" by simp
  then have "visits m st ({c} \<union> set cs) (topo_calls fuel m (c # cs) st)"
    unfolding topo_calls.simps
  proof (rule visits_bind)
    fix st' assume st': "topo_inv m st'" "grown st st'"
    with "4.IH"(2) [OF st'(1)] "4.prems" show "visits m st' (set cs) (topo_calls fuel m cs st')" by (simp add: grown_stacked)
  qed
  then show ?case by simp
qed

lemma topo_roots_correct:
  assumes "topo_inv m st" "set is \<subseteq> {..<length (m_chunks m)}" "stacked m st = {}"
  shows "visits m st (set is) (topo_roots m is st)"
  using assms
proof (induction "is" arbitrary: st)
  case (Cons i "is")
  have "visits m st {i} (if \<not> tp_visited st ! i then topo_visit (Suc (length (m_chunks m))) m i st else Some (Inr st))"
  proof (cases "tp_visited st ! i")
    case True
    then show ?thesis using Cons.prems by (auto intro!: visitsI simp: topo_inv_def)
  next
    case False
    then show ?thesis using topo_visit_correct(1) [of m st i "Suc (length (m_chunks m))"] Cons.prems by simp
  qed
  then have "visits m st ({i} \<union> set is) (topo_roots m (i # is) st)"
    unfolding topo_roots.simps
  proof (rule visits_bind)
    fix st' assume "topo_inv m st'" "grown st st'"
    then show "visits m st' (set is) (topo_roots m is st')" using Cons by (simp add: grown_stacked)
  qed
  then show ?case by simp
qed (auto intro!: visitsI)

lemma topo_init: "topo_inv m \<lparr> tp_visited = replicate (length (m_chunks m)) False, tp_on_stack = replicate (length (m_chunks m)) False, tp_order = [] \<rparr>"
  by (auto simp: topo_inv_def callees_precede_def)

lemma topo_order_correct:
  "(\<exists>order. topological_call_order m = Some (Inr order) \<and> distinct order \<and> set order = {..<length (m_chunks m)} \<and> callees_precede m order)
   \<or> (\<exists>k. topological_call_order m = Some (Inl (VE_RecursiveCall k)) \<and> (k, k) \<in> (call_rel m)\<^sup>+)"
proof -
  let ?n = "length (m_chunks m)"
  let ?st = "\<lparr> tp_visited = replicate ?n False, tp_on_stack = replicate ?n False, tp_order = [] \<rparr>"
  have "stacked m ?st = {}" by (auto simp: stacked_def)
  moreover have "set [0..<?n] \<subseteq> {..<?n}" by auto
  ultimately have "visits m ?st (set [0..<?n]) (topo_roots m [0..<?n] ?st)" by (intro topo_roots_correct topo_init)
  then consider (ok) st' where "topo_roots m [0..<?n] ?st = Some (Inr st')" "topo_inv m st'" "{..<?n} \<subseteq> set (tp_order st')"
    | (cyc) k where "topo_roots m [0..<?n] ?st = Some (Inl (VE_RecursiveCall k))" "(k, k) \<in> (call_rel m)\<^sup>+"
    unfolding visits_def set_upt lessThan_atLeast0 by blast
  then show ?thesis
  proof cases
    case ok
    then have "set (tp_order st') = {..<?n}" by (auto simp: topo_inv_def)
    with ok show ?thesis by (simp add: topological_call_order_def topo_inv_def)
  next
    case cyc
    then show ?thesis by (simp add: topological_call_order_def)
  qed
qed

text \<open>An order exists exactly if no chunk can reach itself by calls.\<close>

lemma callees_precede_acyclic:
  assumes "callees_precede m order" "set order = {..<length (m_chunks m)}"
  shows "acyclic (call_rel m)"
proof -
  define pos where "pos i = (LEAST k. k < length order \<and> order ! k = i)" for i
  have ex: "\<exists>k. k < length order \<and> order ! k = i" if "i < length (m_chunks m)" for i
    using assms(2) that by (metis in_set_conv_nth lessThan_iff)
  have dec: "pos j < pos i" if "(i, j) \<in> call_rel m" for i j
  proof -
    have i: "i < length (m_chunks m)" "j \<in> set (chunk_callees m i)" using that by (simp_all add: call_rel_def)
    have p: "pos i < length order" "order ! pos i = i" using LeastI_ex [OF ex [OF i(1)]] by (simp_all add: pos_def)
    then have "j \<in> set (take (pos i) order)" using callees_precedeD [OF assms(1) p(1)] i(2) by auto
    then obtain k where "k < pos i" "k < length order" "order ! k = j" by (auto simp: in_set_conv_nth)
    then show ?thesis using Least_le [of "\<lambda>k. k < length order \<and> order ! k = j" k] by (simp add: pos_def)
  qed
  have "pos j < pos i" if "(i, j) \<in> (call_rel m)\<^sup>+" for i j
    using that by (induction rule: trancl.induct) (auto dest: dec)
  then show ?thesis unfolding acyclic_def by blast
qed

lemma topo_order_iff_acyclic: "(\<exists>order. topological_call_order m = Some (Inr order)) \<longleftrightarrow> acyclic (call_rel m)"
  using topo_order_correct [of m] callees_precede_acyclic [of m] unfolding acyclic_def by fastforce

section \<open>The call depth\<close>

text \<open>A chain of calls: every chunk on it calls the next.\<close>

fun call_chain :: "kmodule \<Rightarrow> nat list \<Rightarrow> bool" where
  "call_chain m [] \<longleftrightarrow> False"
| "call_chain m [i] \<longleftrightarrow> i < length (m_chunks m)"
| "call_chain m (i # j # js) \<longleftrightarrow> (i, j) \<in> call_rel m \<and> call_chain m (j # js)"

lemma foldl_max_ge: "a \<le> foldl (\<lambda>d c. max d (f c)) a cs" "c \<in> set cs \<Longrightarrow> f c \<le> foldl (\<lambda>d c. max d (f c)) (a :: nat) cs"
proof (induction cs arbitrary: a)
  case (Cons x xs)
  { case 1 show ?case using Cons(1) [of "max a (f x)"] by simp
  next
    case 2 then show ?case using Cons(1) [of "max a (f x)"] Cons(2) [of "max a (f x)"] by auto }
qed simp_all

lemma foldl_max_attained: "foldl (\<lambda>d c. max d (f c)) a cs = (a :: nat) \<or> (\<exists>c \<in> set cs. foldl (\<lambda>d c. max d (f c)) a cs = f c)"
proof (induction cs arbitrary: a)
  case (Cons x xs)
  show ?case using Cons [of "max a (f x)"] by (auto simp: max_def)
qed simp

text \<open>What the depth table holds of a chunk: it bounds every chain from it, and some chain attains it.\<close>

definition depth_ok :: "kmodule \<Rightarrow> nat list \<Rightarrow> nat \<Rightarrow> bool" where
  "depth_ok m depth i \<longleftrightarrow> (\<forall>js. call_chain m (i # js) \<longrightarrow> min (Suc (length js)) u32_max \<le> depth ! i)
     \<and> (\<exists>js. call_chain m (i # js) \<and> depth ! i = min (Suc (length js)) u32_max)"

lemma call_depth_step_ok:
  assumes "idx < length (m_chunks m)" "length depth = length (m_chunks m)" "\<forall>c \<in> set (chunk_callees m idx). depth_ok m depth c"
  shows "depth_ok m (call_depth_step m depth idx) idx"
proof -
  let ?d = "foldl (\<lambda>d c. max d (sat_add (depth ! c) 1)) 1 (chunk_callees m idx)"
  have d: "call_depth_step m depth idx ! idx = ?d" using assms(1,2) by (simp add: call_depth_step_def)
  have step: "(idx, c) \<in> call_rel m \<longleftrightarrow> c \<in> set (chunk_callees m idx)" for c using assms(1) by (simp add: call_rel_def)
  have "min (Suc (length js)) u32_max \<le> ?d" if "call_chain m (idx # js)" for js
  proof (cases js)
    case Nil
    then show ?thesis using foldl_max_ge(1) [of 1 "\<lambda>c. sat_add (depth ! c) 1" "chunk_callees m idx"] by (simp add: min_le_iff_disj)
  next
    case (Cons c cs)
    with that have c: "c \<in> set (chunk_callees m idx)" "call_chain m (c # cs)" by (simp_all add: step)
    then have "min (Suc (length cs)) u32_max \<le> depth ! c" using assms(3) by (simp add: depth_ok_def)
    then have "min (Suc (length js)) u32_max \<le> sat_add (depth ! c) 1" using Cons by (auto simp: sat_add_def min_def split: if_splits)
    also have "\<dots> \<le> ?d" using foldl_max_ge(2) [OF c(1), of "\<lambda>c. sat_add (depth ! c) 1"] .
    finally show ?thesis .
  qed
  moreover have "\<exists>js. call_chain m (idx # js) \<and> ?d = min (Suc (length js)) u32_max"
    using foldl_max_attained [of "\<lambda>c. sat_add (depth ! c) 1" 1 "chunk_callees m idx"]
  proof (elim disjE bexE)
    assume "?d = 1"
    then show ?thesis using assms(1) by (intro exI [of _ "[]"]) (simp add: u32_max_def)
  next
    fix c assume c: "c \<in> set (chunk_callees m idx)" "?d = sat_add (depth ! c) 1"
    then obtain js where "call_chain m (c # js)" "depth ! c = min (Suc (length js)) u32_max"
      using assms(3) by (auto simp: depth_ok_def)
    then show ?thesis using c by (intro exI [of _ "c # js"]) (auto simp: step sat_add_def)
  qed
  ultimately show ?thesis by (simp add: depth_ok_def d)
qed

lemma depth_table_ok:
  assumes "callees_precede m (done @ todo)" "distinct (done @ todo)" "set (done @ todo) \<subseteq> {..<length (m_chunks m)}"
    and "length depth = length (m_chunks m)" "\<forall>i \<in> set done. depth_ok m depth i"
  shows "length (foldl (call_depth_step m) depth todo) = length (m_chunks m)
    \<and> (\<forall>i \<in> set (done @ todo). depth_ok m (foldl (call_depth_step m) depth todo) i)"
  using assms
proof (induction todo arbitrary: "done" depth)
  case (Cons i todo)
  let ?depth = "call_depth_step m depth i"
  have i: "i < length (m_chunks m)" "i \<notin> set done" using Cons.prems(2,3) by auto
  have "set (chunk_callees m ((done @ i # todo) ! length done)) \<subseteq> set (take (length done) (done @ i # todo))"
    by (rule callees_precedeD [OF Cons.prems(1)]) simp
  then have "set (chunk_callees m i) \<subseteq> set done" by simp
  then have new: "depth_ok m ?depth i" using Cons.prems(4,5) i(1) by (intro call_depth_step_ok) auto
  have old: "depth_ok m ?depth j" if "j \<in> set done" for j
  proof -
    have "?depth ! j = depth ! j" using that i by (auto simp: call_depth_step_def intro!: nth_list_update_neq)
    then show ?thesis using Cons.prems(5) that by (simp add: depth_ok_def)
  qed
  have "length ?depth = length (m_chunks m)" using Cons.prems(4) by (simp add: call_depth_step_def)
  with Cons.IH [of "done @ [i]" ?depth] Cons.prems new old show ?case by auto
qed simp

lemma call_depth_correct:
  assumes "module_call_depth m = Some (Inr d)"
  shows "(\<forall>js. call_chain m js \<longrightarrow> min (length js) u32_max \<le> d)
    \<and> (m_chunks m \<noteq> [] \<longrightarrow> (\<exists>js. call_chain m js \<and> d = min (length js) u32_max))"
proof -
  let ?n = "length (m_chunks m)"
  obtain order where o: "topological_call_order m = Some (Inr order)"
    and d: "d = max_or 0 (foldl (call_depth_step m) (replicate ?n 1) order)"
    using assms by (auto simp: module_call_depth_def bindOR_Some_Inr)
  have ord: "distinct order" "set order = {..<?n}" "callees_precede m order"
    using topo_order_correct [of m] o by auto
  let ?T = "foldl (call_depth_step m) (replicate ?n 1) order"
  have T: "length ?T = ?n" "\<forall>i < ?n. depth_ok m ?T i"
    using depth_table_ok [of m "[]" order "replicate ?n 1"] ord by auto
  have "min (length js) u32_max \<le> d" if "call_chain m js" for js
  proof (cases js)
    case (Cons i rest)
    with that have "i < ?n" by (cases rest) (auto simp: call_rel_def)
    with T that Cons have "min (length js) u32_max \<le> ?T ! i" by (auto simp: depth_ok_def)
    also have "\<dots> \<le> d" using T(1) \<open>i < ?n\<close> unfolding d by (intro max_or_ge) simp
    finally show ?thesis .
  qed (use that in simp)
  moreover have "\<exists>js. call_chain m js \<and> d = min (length js) u32_max" if "m_chunks m \<noteq> []"
  proof -
    have "?T \<noteq> []" using T(1) that by auto
    then have "d \<in> set ?T" unfolding d by (simp add: max_or_def)
    then obtain i where "i < ?n" "d = ?T ! i" using T(1) by (metis in_set_conv_nth)
    with T(2) show ?thesis by (metis depth_ok_def length_Cons)
  qed
  ultimately show ?thesis by blast
qed

end
