(* ===== verification/Arena.thy ===== *)
theory Arena
  imports Usize "HOL-Library.Code_Target_Nat"
begin

text \<open>
  The dual-end bump arena (\<open>src/keleusma-arena/src/lib.rs\<close>).  The buffer is a list of bytes at the address
  \<open>ar_base\<close>; positions are \<open>usize\<close> offsets into it.  The persistent region is a prefix, the bottom end
  grows up from it and the top end down from the capacity.  The global allocator that provides an owned
  buffer is a parameter.  Operations on a shared reference and on an exclusive one both return the new
  arena.
\<close>

section \<open>State\<close>

datatype arena_storage = External | Owned

record arena =
  ar_base :: nat
  ar_bytes :: "u8 list"
  ar_capacity :: nat
  ar_persistent :: nat
  ar_bottom :: nat
  ar_top :: nat
  ar_bottom_peak :: nat
  ar_top_low :: nat
  ar_epoch :: nat
  ar_storage :: arena_storage

datatype alloc_error = AllocError
datatype epoch_saturated = EpochSaturated
datatype resize_error = ExceedsCapacity | RE_EpochSaturated | DualHeadedOverlap

record budget =
  bottom_bytes :: nat
  top_bytes :: nat

definition budget_total :: "budget \<Rightarrow> nat" where
  "budget_total b = saturating_add64 (bottom_bytes b) (top_bytes b)"

text \<open>\<open>Layout\<close>: a size and an alignment, a power of two; the rounded size fits \<open>isize\<close>.\<close>

record mem_layout =
  ly_size :: nat
  ly_align :: nat

definition layout_from_size_align :: "nat \<Rightarrow> nat \<Rightarrow> mem_layout option" where
  "layout_from_size_align n a =
     (if (\<exists>k < 64. a = 2 ^ k) \<and> n + (a - 1) < 2 ^ 63 then Some \<lparr> ly_size = n, ly_align = a \<rparr> else None)"

section \<open>Construction\<close>

definition arena_over :: "nat \<Rightarrow> u8 list \<Rightarrow> arena_storage \<Rightarrow> arena" where
  "arena_over base bytes storage =
     \<lparr> ar_base = base, ar_bytes = bytes, ar_capacity = length bytes, ar_persistent = 0, ar_bottom = 0, ar_top = length bytes,
       ar_bottom_peak = 0, ar_top_low = length bytes, ar_epoch = 0, ar_storage = storage \<rparr>"

text \<open>\<open>alloc_zeroed\<close> is the global allocator: the address of a zeroed buffer, if it has one.\<close>

definition try_with_capacity :: "(mem_layout \<Rightarrow> nat option) \<Rightarrow> nat \<Rightarrow> alloc_error + arena" where
  "try_with_capacity alloc_zeroed capacity =
     (if capacity = 0 then Inr (arena_over 1 [] Owned)
      else case layout_from_size_align capacity 16 of
             None \<Rightarrow> Inl AllocError
           | Some l \<Rightarrow> (case alloc_zeroed l of
               None \<Rightarrow> Inl AllocError
             | Some base \<Rightarrow> Inr (arena_over base (replicate capacity 0) Owned)))"

definition from_static_buffer :: "nat \<Rightarrow> u8 list \<Rightarrow> arena" where
  "from_static_buffer base bytes = arena_over base bytes External"

definition from_buffer_unchecked :: "nat \<Rightarrow> u8 list \<Rightarrow> arena" where
  "from_buffer_unchecked base bytes = arena_over base bytes External"

section \<open>Readings\<close>

text \<open>Plain subtractions; \<open>None\<close> is the overflow panic.\<close>

definition dual_headed_capacity :: "arena \<Rightarrow> nat option" where
  "dual_headed_capacity a = checked_sub (ar_capacity a) (ar_persistent a)"

definition bottom_used :: "arena \<Rightarrow> nat option" where
  "bottom_used a = checked_sub (ar_bottom a) (ar_persistent a)"

definition top_used :: "arena \<Rightarrow> nat option" where
  "top_used a = checked_sub (ar_capacity a) (ar_top a)"

definition arena_free :: "arena \<Rightarrow> nat" where
  "arena_free a = ar_top a - ar_bottom a"

definition bottom_peak :: "arena \<Rightarrow> nat option" where
  "bottom_peak a = checked_sub (ar_bottom_peak a) (ar_persistent a)"

definition top_peak :: "arena \<Rightarrow> nat option" where
  "top_peak a = checked_sub (ar_capacity a) (ar_top_low a)"

definition fits_budget :: "arena \<Rightarrow> budget \<Rightarrow> bool" where
  "fits_budget a b \<longleftrightarrow> budget_total b \<le> ar_capacity a"

definition epoch_remaining :: "arena \<Rightarrow> nat" where
  "epoch_remaining a = (2 ^ 64 - 1) - ar_epoch a"

section \<open>The epoch\<close>

definition next_epoch :: "arena \<Rightarrow> nat option" where
  "next_epoch a = checked_add (ar_epoch a) 1"

definition arena_reset :: "arena \<Rightarrow> epoch_saturated + arena" where
  "arena_reset a = (case next_epoch a of None \<Rightarrow> Inl EpochSaturated
     | Some n \<Rightarrow> Inr (a \<lparr> ar_bottom := ar_persistent a, ar_top := ar_capacity a, ar_epoch := n \<rparr>))"

definition reset_unchecked :: "arena \<Rightarrow> epoch_saturated + arena" where
  "reset_unchecked a = (case next_epoch a of None \<Rightarrow> Inl EpochSaturated
     | Some n \<Rightarrow> Inr (a \<lparr> ar_bottom := ar_persistent a, ar_top := ar_capacity a, ar_epoch := n \<rparr>))"

definition reset_top_unchecked :: "arena \<Rightarrow> epoch_saturated + arena" where
  "reset_top_unchecked a = (case next_epoch a of None \<Rightarrow> Inl EpochSaturated
     | Some n \<Rightarrow> Inr (a \<lparr> ar_top := ar_capacity a, ar_epoch := n \<rparr>))"

definition force_reset_epoch :: "arena \<Rightarrow> arena" where
  "force_reset_epoch a = a \<lparr> ar_bottom := ar_persistent a, ar_top := ar_capacity a, ar_epoch := 0 \<rparr>"

definition clear_peaks :: "arena \<Rightarrow> arena" where
  "clear_peaks a = a \<lparr> ar_bottom_peak := ar_bottom a, ar_top_low := ar_top a \<rparr>"

section \<open>Marks\<close>

definition bottom_mark :: "arena \<Rightarrow> nat" where
  "bottom_mark a = ar_bottom a"

definition top_mark :: "arena \<Rightarrow> nat" where
  "top_mark a = ar_top a"

definition rewind_bottom :: "nat \<Rightarrow> arena \<Rightarrow> arena" where
  "rewind_bottom mark a = a \<lparr> ar_bottom := min mark (ar_bottom a) \<rparr>"

definition rewind_top :: "nat \<Rightarrow> arena \<Rightarrow> arena" where
  "rewind_top mark a = a \<lparr> ar_top := max mark (ar_top a) \<rparr>"

definition reset_bottom :: "arena \<Rightarrow> arena" where
  "reset_bottom a = a \<lparr> ar_bottom := ar_persistent a \<rparr>"

definition reset_top :: "arena \<Rightarrow> arena" where
  "reset_top a = a \<lparr> ar_top := ar_capacity a \<rparr>"

section \<open>The persistent region\<close>

definition resize_persistent :: "nat \<Rightarrow> arena \<Rightarrow> resize_error + arena" where
  "resize_persistent new_size a =
     (if new_size > ar_capacity a then Inl ExceedsCapacity
      else case next_epoch a of
             None \<Rightarrow> Inl RE_EpochSaturated
           | Some n \<Rightarrow> Inr (a \<lparr> ar_persistent := new_size, ar_bottom := new_size, ar_top := ar_capacity a,
               ar_bottom_peak := new_size, ar_top_low := ar_capacity a, ar_epoch := n \<rparr>))"

text \<open>\<open>ptr::copy\<close> inside the buffer: \<open>n\<close> bytes from offset \<open>from\<close> to offset \<open>to\<close>, which may overlap.\<close>

definition copy_within :: "nat \<Rightarrow> nat \<Rightarrow> nat \<Rightarrow> u8 list \<Rightarrow> u8 list" where
  "copy_within src dst n bytes = take dst bytes @ take n (drop src bytes) @ drop (dst + n) bytes"

text \<open>The outer \<open>None\<close> is the panic of an underflow below the persistent boundary.\<close>

definition resize_persistent_capacity :: "nat \<Rightarrow> arena \<Rightarrow> (resize_error + arena) option" where
  "resize_persistent_capacity new_size a =
     (let old = ar_persistent a in
      if new_size > ar_capacity a then Some (Inl ExceedsCapacity)
      else if new_size = old then Some (Inr a)
      else case checked_sub (ar_bottom a) old of
             None \<Rightarrow> None
           | Some bottom_len \<Rightarrow>
               (case checked_add new_size bottom_len of
                  None \<Rightarrow> None
                | Some new_bottom \<Rightarrow>
                    if new_bottom > ar_top a then Some (Inl DualHeadedOverlap)
                    else case next_epoch a of
                           None \<Rightarrow> Some (Inl RE_EpochSaturated)
                         | Some n \<Rightarrow> Some (Inr (a \<lparr>
                             ar_bytes := (if bottom_len > 0 then copy_within old new_size bottom_len (ar_bytes a) else ar_bytes a),
                             ar_persistent := new_size, ar_bottom := new_bottom, ar_bottom_peak := new_bottom, ar_epoch := n \<rparr>))))"

text \<open>\<open>ptr::write_bytes(.., 0, n)\<close> at offset \<open>start\<close>.\<close>

definition zero_bytes :: "nat \<Rightarrow> nat \<Rightarrow> u8 list \<Rightarrow> u8 list" where
  "zero_bytes start n bytes = take start bytes @ replicate n 0 @ drop (start + n) bytes"

definition zero_persistent :: "arena \<Rightarrow> arena" where
  "zero_persistent a = a \<lparr> ar_bytes := zero_bytes 0 (ar_persistent a) (ar_bytes a) \<rparr>"

definition zero_persistent_range :: "nat \<Rightarrow> nat \<Rightarrow> arena \<Rightarrow> resize_error + arena" where
  "zero_persistent_range start len a =
     (case checked_add start len of
        Some e \<Rightarrow> if e \<le> ar_persistent a then Inr (a \<lparr> ar_bytes := zero_bytes start len (ar_bytes a) \<rparr>) else Inl ExceedsCapacity
      | None \<Rightarrow> Inl ExceedsCapacity)"

text \<open>The buffer is overwritten before the epoch is tested, so an error returns a changed arena.\<close>

definition zero_dual_headed :: "arena \<Rightarrow> arena \<times> (epoch_saturated + unit)" where
  "zero_dual_headed a =
     (let start = ar_persistent a;
          a = a \<lparr> ar_bytes := zero_bytes start (ar_capacity a - start) (ar_bytes a) \<rparr>
      in case next_epoch a of
           None \<Rightarrow> (a, Inl EpochSaturated)
         | Some n \<Rightarrow> (a \<lparr> ar_bottom := start, ar_top := ar_capacity a, ar_bottom_peak := start,
             ar_top_low := ar_capacity a, ar_epoch := n \<rparr>, Inr ()))"

definition zero_all :: "arena \<Rightarrow> arena \<times> (epoch_saturated + unit)" where
  "zero_all a =
     (let a = a \<lparr> ar_bytes := zero_bytes 0 (ar_capacity a) (ar_bytes a) \<rparr>; start = ar_persistent a
      in case next_epoch a of
           None \<Rightarrow> (a, Inl EpochSaturated)
         | Some n \<Rightarrow> (a \<lparr> ar_bottom := start, ar_top := ar_capacity a, ar_bottom_peak := start,
             ar_top_low := ar_capacity a, ar_epoch := n \<rparr>, Inr ()))"

section \<open>Allocation\<close>

text \<open>The offset of the block, and the arena after it.\<close>

definition alloc_bottom :: "mem_layout \<Rightarrow> arena \<Rightarrow> alloc_error + nat \<times> arena" where
  "alloc_bottom layout a =
     (case checked_add (ar_base a) (ar_bottom a) of None \<Rightarrow> Inl AllocError | Some cur_addr \<Rightarrow>
      let align_mask = ly_align layout - 1 in
      case checked_add cur_addr align_mask of None \<Rightarrow> Inl AllocError | Some bumped \<Rightarrow>
      let aligned_offset = clear_mask bumped align_mask - ar_base a in
      case checked_add aligned_offset (ly_size layout) of None \<Rightarrow> Inl AllocError | Some new_top \<Rightarrow>
      if new_top > ar_top a then Inl AllocError
      else Inr (aligned_offset, a \<lparr> ar_bottom := new_top, ar_bottom_peak := max (ar_bottom_peak a) new_top \<rparr>))"

definition alloc_top :: "mem_layout \<Rightarrow> arena \<Rightarrow> alloc_error + nat \<times> arena" where
  "alloc_top layout a =
     (case checked_sub (ar_top a) (ly_size layout) of None \<Rightarrow> Inl AllocError | Some new_end_offset \<Rightarrow>
      case checked_add (ar_base a) new_end_offset of None \<Rightarrow> Inl AllocError | Some new_end_addr \<Rightarrow>
      let aligned_addr = clear_mask new_end_addr (ly_align layout - 1) in
      if aligned_addr < ar_base a then Inl AllocError
      else let aligned_offset = aligned_addr - ar_base a in
        if aligned_offset < ar_bottom a then Inl AllocError
        else Inr (aligned_offset, a \<lparr> ar_top := aligned_offset, ar_top_low := min (ar_top_low a) aligned_offset \<rparr>))"

definition alloc_bottom_bytes :: "nat \<Rightarrow> arena \<Rightarrow> alloc_error + nat \<times> arena" where
  "alloc_bottom_bytes n a =
     (case layout_from_size_align n 1 of None \<Rightarrow> Inl AllocError | Some l \<Rightarrow> alloc_bottom l a)"

definition alloc_top_bytes :: "nat \<Rightarrow> arena \<Rightarrow> alloc_error + nat \<times> arena" where
  "alloc_top_bytes n a =
     (case layout_from_size_align n 1 of None \<Rightarrow> Inl AllocError | Some l \<Rightarrow> alloc_top l a)"

section \<open>Handles\<close>

text \<open>A handle: the address of its data and the epoch of its issue.  Address arithmetic wraps.\<close>

record arena_handle =
  ah_addr :: nat
  ah_epoch :: nat

datatype stale = Stale

definition addr_is_ephemeral :: "arena \<Rightarrow> nat \<Rightarrow> bool" where
  "addr_is_ephemeral a addr \<longleftrightarrow>
     (ar_base a + ar_persistent a) mod 2 ^ 64 \<le> addr \<and> addr < (ar_base a + ar_capacity a) mod 2 ^ 64"

definition addr_is_live :: "arena \<Rightarrow> nat \<Rightarrow> nat \<Rightarrow> bool" where
  "addr_is_live a addr handle_epoch \<longleftrightarrow>
     (if (ar_base a + ar_persistent a) mod 2 ^ 64 \<le> addr \<and> addr < (ar_base a + ar_capacity a) mod 2 ^ 64
      then handle_epoch = ar_epoch a else True)"

definition handle_get :: "arena_handle \<Rightarrow> arena \<Rightarrow> stale + nat" where
  "handle_get h a = (if addr_is_live a (ah_addr h) (ah_epoch h) then Inr (ah_addr h) else Inl Stale)"

end
