(* ===== verification/Wcmu_Module.thy ===== *)
theory Wcmu_Module
  imports Wcmu Text_Size Call_Graph Chunk_Structure Arena
begin

text \<open>
  Worst-case memory usage of chunks and modules (\<open>src/src/verify.rs\<close>): the entry points over one chunk,
  the table of a module computed callees first, the native attestations, and the admission test
  against an arena.  The soundness theorem is transitive: the bytes of a run with everything it calls
  are within the chunk's table entry.
\<close>

section \<open>Native attestations\<close>

record native_bound =
  nb_per_call_wcmu_bytes :: nat
  nb_per_call_wcet_cycles :: nat
  nb_max_invocations :: "nat option"

text \<open>
  The contribution of external natives: once per native the chunk names, the attested number of
  invocations times the attested cost of one.  The code has this loop twice, for bytes and for cycles.
\<close>

fun external_from :: "(native_bound \<Rightarrow> nat) \<Rightarrow> native_bound list \<Rightarrow> op list \<Rightarrow> u16 list \<Rightarrow> nat \<Rightarrow> nat" where
  "external_from per_call bounds [] seen acc = acc"
| "external_from per_call bounds (x # xs) seen acc =
     (case x of
        CallExternalNative idx n \<Rightarrow>
          if idx \<in> set seen then external_from per_call bounds xs seen acc
          else (case nth_opt bounds (unat idx) of
                  Some b \<Rightarrow>
                    (case nb_max_invocations b of
                       Some max_inv \<Rightarrow> external_from per_call bounds xs (idx # seen) (sat_add acc (sat_mul (per_call b) max_inv))
                     | None \<Rightarrow> external_from per_call bounds xs (idx # seen) acc)
                | None \<Rightarrow> external_from per_call bounds xs (idx # seen) acc)
      | _ \<Rightarrow> external_from per_call bounds xs seen acc)"

definition external_native_wcmu :: "native_bound list \<Rightarrow> chunk \<Rightarrow> nat \<Rightarrow> nat" where
  "external_native_wcmu bounds chunk heap = external_from nb_per_call_wcmu_bytes bounds (ch_ops chunk) [] heap"

definition per_site_native_wcmu :: "native_bound list \<Rightarrow> nat list" where
  "per_site_native_wcmu bounds =
     map (\<lambda>b. case nb_max_invocations b of Some n \<Rightarrow> 0 | None \<Rightarrow> nb_per_call_wcmu_bytes b) bounds"

section \<open>One chunk\<close>

text \<open>The instructions a bound is about: a stream's iteration, or the whole chunk.\<close>

definition stream_span :: "chunk \<Rightarrow> verify_error + (nat \<times> nat)" where
  "stream_span chunk =
     (case stream_pos (ch_ops chunk) of
        None \<Rightarrow> Inl VE_MissingStream
      | Some s \<Rightarrow> (case reset_pos (ch_ops chunk) of None \<Rightarrow> Inl VE_MissingReset | Some e \<Rightarrow> Inr (Suc s, e)))"

definition chunk_span :: "chunk \<Rightarrow> verify_error + (nat \<times> nat)" where
  "chunk_span chunk =
     (if ch_block_type chunk = BT_Stream then stream_span chunk else Inr (0, length (ch_ops chunk)))"

definition frame_bytes :: "chunk \<Rightarrow> nat \<Rightarrow> nat \<Rightarrow> nat" where
  "frame_bytes chunk body_peak vsb = wrap_mul32 (wrap_add32 (unat (ch_local_count chunk)) body_peak) vsb"

definition wcmu_stream_iteration_with_value_slot_bytes :: "chunk \<Rightarrow> nat \<Rightarrow> (verify_error + (nat \<times> nat)) option" where
  "wcmu_stream_iteration_with_value_slot_bytes chunk vsb =
     (if ch_block_type chunk \<noteq> BT_Stream then Some (Inl VE_NotStreamBlock)
      else bindOR (Some (check_forward_control_flow_targets chunk)) (\<lambda>u.
           bindOR (Some (stream_span chunk)) (\<lambda>(s, e).
           bindOR (wcmu_region chunk s e empty_resolver vsb) (\<lambda>(body, breaks).
             Some (Inr (frame_bytes chunk (mo_peak_above_initial body) vsb, mo_heap_total body))))))"

definition wcmu_stream_iteration :: "chunk \<Rightarrow> (verify_error + (nat \<times> nat)) option" where
  "wcmu_stream_iteration chunk = wcmu_stream_iteration_with_value_slot_bytes chunk VALUE_SLOT_SIZE_BYTES"

definition wcmu_whole_chunk_with_value_slot_bytes :: "chunk \<Rightarrow> nat \<Rightarrow> (verify_error + (nat \<times> nat)) option" where
  "wcmu_whole_chunk_with_value_slot_bytes chunk vsb =
     (if ch_block_type chunk = BT_Stream then Some (Inl VE_StreamBlock)
      else bindOR (Some (check_forward_control_flow_targets chunk)) (\<lambda>u.
           bindOR (wcmu_region chunk 0 (length (ch_ops chunk)) empty_resolver vsb) (\<lambda>(body, breaks).
             Some (Inr (frame_bytes chunk (mo_peak_above_initial body) vsb, mo_heap_total body)))))"

definition wcmu_whole_chunk :: "chunk \<Rightarrow> (verify_error + (nat \<times> nat)) option" where
  "wcmu_whole_chunk chunk = wcmu_whole_chunk_with_value_slot_bytes chunk VALUE_SLOT_SIZE_BYTES"

definition compute_chunk_wcmu ::
  "chunk \<Rightarrow> call_resolver \<Rightarrow> bool list \<Rightarrow> nat \<Rightarrow> (verify_error + ((nat \<times> nat) \<times> bool)) option" where
  "compute_chunk_wcmu chunk r chunk_returns_text vsb =
     bindOR (Some (chunk_span chunk)) (\<lambda>(s, e).
     bindOR (Some (check_forward_control_flow_targets chunk)) (\<lambda>u.
     bindOR (wcmu_region chunk s e r vsb) (\<lambda>(body, breaks).
       let text = analyze_chunk_text chunk chunk_returns_text in
       Some (Inr ((frame_bytes chunk (mo_peak_above_initial body) vsb,
                   sat_add (mo_heap_total body) (ct_heap_alloc text)), ct_returns_text text)))))"

section \<open>A module\<close>

text \<open>The table of the chunks analysed so far, and which of them may return text.\<close>

record wcmu_table =
  wt_wcmu :: "(nat \<times> nat) option list"
  wt_returns_text :: "bool list"

definition shared_layout_of :: "kmodule \<Rightarrow> shared_slot_layout list" where
  "shared_layout_of m = (case m_data_layout m of Some dl \<Rightarrow> dl_shared_layout dl | None \<Rightarrow> [])"

definition table_resolver :: "kmodule \<Rightarrow> nat list \<Rightarrow> (nat \<times> nat) option list \<Rightarrow> call_resolver" where
  "table_resolver m natives tbl =
     \<lparr> cr_chunk_wcmu = tbl, cr_native_wcmu = natives, cr_shared_layout = shared_layout_of m \<rparr>"

text \<open>
  One round of the loop over the topological order.  \<open>add_external\<close> is what the classification-aware
  variant does to a chunk's heap bytes, and nothing in the plain one.
\<close>

definition wcmu_step ::
  "kmodule \<Rightarrow> nat list \<Rightarrow> (chunk \<Rightarrow> nat \<Rightarrow> nat) \<Rightarrow> nat \<Rightarrow> nat \<Rightarrow> wcmu_table \<Rightarrow> (verify_error + wcmu_table) option" where
  "wcmu_step m natives add_external vsb idx t =
     bindOR (compute_chunk_wcmu (m_chunks m ! idx) (table_resolver m natives (wt_wcmu t)) (wt_returns_text t) vsb)
       (\<lambda>((stack, heap), returns_text).
         Some (Inr \<lparr> wt_wcmu = (wt_wcmu t)[idx := Some (stack, add_external (m_chunks m ! idx) heap)],
                     wt_returns_text = (wt_returns_text t)[idx := returns_text] \<rparr>))"

fun wcmu_run ::
  "kmodule \<Rightarrow> nat list \<Rightarrow> (chunk \<Rightarrow> nat \<Rightarrow> nat) \<Rightarrow> nat \<Rightarrow> nat list \<Rightarrow> wcmu_table \<Rightarrow> (verify_error + wcmu_table) option" where
  "wcmu_run m natives add_external vsb [] t = Some (Inr t)"
| "wcmu_run m natives add_external vsb (idx # order) t =
     bindOR (wcmu_step m natives add_external vsb idx t) (\<lambda>t. wcmu_run m natives add_external vsb order t)"

definition module_wcmu_table ::
  "kmodule \<Rightarrow> nat list \<Rightarrow> (chunk \<Rightarrow> nat \<Rightarrow> nat) \<Rightarrow> nat \<Rightarrow> (verify_error + (nat \<times> nat) list) option" where
  "module_wcmu_table m natives add_external vsb =
     (let n = length (m_chunks m) in
      bindOR (topological_call_order m) (\<lambda>order.
      bindOR (wcmu_run m natives add_external vsb order
                \<lparr> wt_wcmu = replicate n None, wt_returns_text = replicate n False \<rparr>) (\<lambda>t.
        Some (Inr (map (\<lambda>w. case w of Some w \<Rightarrow> w | None \<Rightarrow> (0, 0)) (wt_wcmu t))))))"

definition module_wcmu_with_value_slot_bytes ::
  "kmodule \<Rightarrow> nat list \<Rightarrow> nat \<Rightarrow> (verify_error + (nat \<times> nat) list) option" where
  "module_wcmu_with_value_slot_bytes m native_wcmu vsb = module_wcmu_table m native_wcmu (\<lambda>chunk heap. heap) vsb"

definition module_wcmu :: "kmodule \<Rightarrow> nat list \<Rightarrow> (verify_error + (nat \<times> nat) list) option" where
  "module_wcmu m native_wcmu = module_wcmu_with_value_slot_bytes m native_wcmu VALUE_SLOT_SIZE_BYTES"

definition module_wcmu_with_bounds ::
  "kmodule \<Rightarrow> native_bound list \<Rightarrow> nat \<Rightarrow> (verify_error + (nat \<times> nat) list) option" where
  "module_wcmu_with_bounds m bounds vsb =
     module_wcmu_table m (per_site_native_wcmu bounds) (external_native_wcmu bounds) vsb"

record runtime_footprint =
  rf_max_operand_slots :: nat
  rf_max_frame_depth :: nat
  rf_max_heap_bytes :: nat

definition module_runtime_footprint :: "kmodule \<Rightarrow> nat list \<Rightarrow> (verify_error + runtime_footprint) option" where
  "module_runtime_footprint m native_wcmu =
     bindOR (module_wcmu_with_value_slot_bytes m native_wcmu 1) (\<lambda>per_chunk.
     bindOR (module_call_depth m) (\<lambda>depth.
       Some (Inr \<lparr> rf_max_operand_slots = max_or 0 (map fst per_chunk), rf_max_frame_depth = depth,
                   rf_max_heap_bytes = max_or 0 (map snd per_chunk) \<rparr>)))"

fun text_analyses_run :: "kmodule \<Rightarrow> nat list \<Rightarrow> bool list \<Rightarrow> text_analysis list \<Rightarrow> text_analysis list" where
  "text_analyses_run m [] texts analyses = analyses"
| "text_analyses_run m (idx # order) texts analyses =
     (let a = analyze_chunk_text (m_chunks m ! idx) texts in
      text_analyses_run m order (texts[idx := ct_returns_text a]) (analyses[idx := a]))"

definition module_chunk_text_analyses :: "kmodule \<Rightarrow> (verify_error + text_analysis list) option" where
  "module_chunk_text_analyses m =
     (let n = length (m_chunks m) in
      bindOR (topological_call_order m) (\<lambda>order.
        Some (Inr (text_analyses_run m order (replicate n False)
          (replicate n \<lparr> ct_heap_alloc = 0, ct_returns_text = False, ct_yields_text = False \<rparr>)))))"

section \<open>Admission\<close>

text \<open>
  \<open>enforce_arena_capacity\<close>: every stream's stack and heap bytes, as a budget of the arena's two ends,
  against the capacity.
\<close>

definition chunk_budget :: "nat \<times> nat \<Rightarrow> budget" where
  "chunk_budget w = \<lparr> bottom_bytes = fst w, top_bytes = snd w \<rparr>"

fun enforce_arena_capacity :: "chunk list \<Rightarrow> nat \<Rightarrow> (nat \<times> nat) list \<Rightarrow> verify_error + unit" where
  "enforce_arena_capacity (c # cs) capacity (w # ws) =
     (if ch_block_type c = BT_Stream \<and> capacity < budget_total (chunk_budget w)
      then Inl (VE_ExceedsCapacity (budget_total (chunk_budget w)) capacity)
      else enforce_arena_capacity cs capacity ws)"
| "enforce_arena_capacity _ capacity _ = Inr ()"

definition verify_resource_bounds_with_natives_and_value_slot_bytes ::
  "kmodule \<Rightarrow> nat \<Rightarrow> nat list \<Rightarrow> nat \<Rightarrow> (verify_error + unit) option" where
  "verify_resource_bounds_with_natives_and_value_slot_bytes m capacity native_wcmu vsb =
     bindOR (module_wcmu_with_value_slot_bytes m native_wcmu vsb) (\<lambda>w. Some (enforce_arena_capacity (m_chunks m) capacity w))"

definition verify_resource_bounds_with_natives :: "kmodule \<Rightarrow> nat \<Rightarrow> nat list \<Rightarrow> (verify_error + unit) option" where
  "verify_resource_bounds_with_natives m capacity native_wcmu =
     verify_resource_bounds_with_natives_and_value_slot_bytes m capacity native_wcmu VALUE_SLOT_SIZE_BYTES"

definition verify_resource_bounds :: "kmodule \<Rightarrow> nat \<Rightarrow> (verify_error + unit) option" where
  "verify_resource_bounds m capacity = verify_resource_bounds_with_natives m capacity []"

definition verify_resource_bounds_with_cost_model ::
  "kmodule \<Rightarrow> nat \<Rightarrow> cost_model \<Rightarrow> nat list \<Rightarrow> (verify_error + unit) option" where
  "verify_resource_bounds_with_cost_model m capacity cm native_wcmu =
     verify_resource_bounds_with_natives_and_value_slot_bytes m capacity native_wcmu (value_slot_bytes cm)"

definition verify_resource_bounds_with_bounds ::
  "kmodule \<Rightarrow> nat \<Rightarrow> native_bound list \<Rightarrow> nat \<Rightarrow> (verify_error + unit) option" where
  "verify_resource_bounds_with_bounds m capacity bounds vsb =
     bindOR (module_wcmu_with_bounds m bounds vsb) (\<lambda>w. Some (enforce_arena_capacity (m_chunks m) capacity w))"

section \<open>What a run is charged\<close>

text \<open>
  \<open>chunk_allocs k n\<close>: some run of chunk \<open>k\<close> within its span, with everything it calls, has been charged
  \<open>n\<close> bytes so far: the instructions what the tables say, a native called at a site at most what is
  attested for a call, the external natives of a frame at most their attested total.  Loops respect
  the iteration bounds extracted for them.  The bytes of concatenated text are left out; \<open>Text_Size\<close>
  bounds those.  \<open>Machine_Heap\<close> shows that what the machine takes is charged in this way.
\<close>

fun own_bytes :: "ctl \<Rightarrow> bool" where
  "own_bytes (C_Call callee n) = False"
| "own_bytes (C_Native i) = False"
| "own_bytes _ = True"

inductive chunk_allocs :: "kmodule \<Rightarrow> nat list \<Rightarrow> (chunk \<Rightarrow> nat \<Rightarrow> nat) \<Rightarrow> nat \<Rightarrow> nat \<Rightarrow> bool"
  and path_allocs :: "kmodule \<Rightarrow> nat list \<Rightarrow> (chunk \<Rightarrow> nat \<Rightarrow> nat) \<Rightarrow> nat \<Rightarrow> nat list \<Rightarrow> nat \<Rightarrow> bool"
  for m natives add_external where
  ca_run: "k < length (m_chunks m) \<Longrightarrow> chunk_span (m_chunks m ! k) = Inr (s, e) \<Longrightarrow>
     bounded_run (m_chunks m ! k) s e tr oc \<Longrightarrow> path_allocs m natives add_external k tr n \<Longrightarrow>
     capped x \<le> add_external (m_chunks m ! k) 0 \<Longrightarrow> chunk_allocs m natives add_external k (n + x)"
| pa_nil: "path_allocs m natives add_external k [] 0"
| pa_call: "ch_ops (m_chunks m ! k) ! i = Call callee a \<Longrightarrow> chunk_allocs m natives add_external (unat callee) n \<Longrightarrow>
     path_allocs m natives add_external k tr n' \<Longrightarrow> path_allocs m natives add_external k (i # tr) (n + n')"
| pa_native: "ch_ops (m_chunks m ! k) ! i = CallVerifiedNative idx a \<or> ch_ops (m_chunks m ! k) ! i = CallExternalNative idx a \<Longrightarrow>
     n \<le> resolve_native (table_resolver m natives []) idx \<Longrightarrow>
     path_allocs m natives add_external k tr n' \<Longrightarrow> path_allocs m natives add_external k (i # tr) (n + n')"
| pa_op: "own_bytes (ctl_of (ch_ops (m_chunks m ! k) ! i)) \<Longrightarrow>
     n = op_iteration_heap (ch_ops (m_chunks m ! k) ! i) (table_resolver m natives []) \<Longrightarrow>
     path_allocs m natives add_external k tr n' \<Longrightarrow> path_allocs m natives add_external k (i # tr) (n + n')"

section \<open>The table\<close>

text \<open>Every entry was computed from the entries of the chunks it calls, which do not change any more.\<close>

definition entry_ok ::
  "kmodule \<Rightarrow> nat list \<Rightarrow> (chunk \<Rightarrow> nat \<Rightarrow> nat) \<Rightarrow> nat \<Rightarrow> (nat \<times> nat) option list \<Rightarrow> nat \<Rightarrow> bool" where
  "entry_ok m natives add_external vsb tbl k \<longleftrightarrow>
     (\<exists>tbl' texts stack heap rt. compute_chunk_wcmu (m_chunks m ! k) (table_resolver m natives tbl') texts vsb
          = Some (Inr ((stack, heap), rt))
        \<and> tbl ! k = Some (stack, add_external (m_chunks m ! k) heap)
        \<and> length tbl' = length (m_chunks m) \<and> (\<forall>c \<in> set (chunk_callees m k). tbl' ! c = tbl ! c))"

lemma entry_okI:
  assumes "compute_chunk_wcmu (m_chunks m ! k) (table_resolver m natives tbl') texts vsb = Some (Inr ((stack, heap), rt))"
    and "tbl ! k = Some (stack, add_external (m_chunks m ! k) heap)"
    and "length tbl' = length (m_chunks m)" "\<And>c. c \<in> set (chunk_callees m k) \<Longrightarrow> tbl' ! c = tbl ! c"
  shows "entry_ok m natives add_external vsb tbl k"
  using assms unfolding entry_ok_def by blast

lemma entry_ok_keep:
  assumes "entry_ok m natives add_external vsb tbl k"
    and "tbl2 ! k = tbl ! k" "\<And>c. c \<in> set (chunk_callees m k) \<Longrightarrow> tbl2 ! c = tbl ! c"
  shows "entry_ok m natives add_external vsb tbl2 k"
proof -
  from assms(1) obtain tbl' texts stack heap rt where
    e: "compute_chunk_wcmu (m_chunks m ! k) (table_resolver m natives tbl') texts vsb = Some (Inr ((stack, heap), rt))"
      "tbl ! k = Some (stack, add_external (m_chunks m ! k) heap)"
      "length tbl' = length (m_chunks m)" "\<forall>c \<in> set (chunk_callees m k). tbl' ! c = tbl ! c"
    unfolding entry_ok_def by blast
  show ?thesis using assms(2,3) e(2,4) by (intro entry_okI [OF e(1) _ e(3)]) auto
qed

lemma wcmu_step_Inr:
  "wcmu_step m natives add_external vsb idx t = Some (Inr t') \<longleftrightarrow>
     (\<exists>stack heap rt. compute_chunk_wcmu (m_chunks m ! idx) (table_resolver m natives (wt_wcmu t)) (wt_returns_text t) vsb
          = Some (Inr ((stack, heap), rt))
        \<and> t' = \<lparr> wt_wcmu = (wt_wcmu t)[idx := Some (stack, add_external (m_chunks m ! idx) heap)],
                 wt_returns_text = (wt_returns_text t)[idx := rt] \<rparr>)"
  unfolding wcmu_step_def bindOR_Some_Inr by auto

lemma wcmu_run_entries:
  assumes "wcmu_run m natives add_external vsb todo t = Some (Inr t')"
    and "callees_precede m (done @ todo)" "distinct (done @ todo)" "set (done @ todo) \<subseteq> {..<length (m_chunks m)}"
    and "length (wt_wcmu t) = length (m_chunks m)" "\<forall>i \<in> set done. entry_ok m natives add_external vsb (wt_wcmu t) i"
  shows "length (wt_wcmu t') = length (m_chunks m)
    \<and> (\<forall>i \<in> set (done @ todo). entry_ok m natives add_external vsb (wt_wcmu t') i)"
  using assms
proof (induction todo arbitrary: "done" t)
  case (Cons i todo)
  from Cons.prems(1) obtain t1 where s: "wcmu_step m natives add_external vsb i t = Some (Inr t1)"
    and r: "wcmu_run m natives add_external vsb todo t1 = Some (Inr t')"
    by (auto simp: bindOR_Some_Inr)
  have i: "i < length (m_chunks m)" "i \<notin> set done" using Cons.prems(3,4) by auto
  have pre: "set (chunk_callees m j) \<subseteq> set done - {i}" if "j \<in> set (done @ [i])" for j
  proof -
    obtain p where p: "p < length (done @ [i])" "(done @ [i]) ! p = j"
      using \<open>j \<in> set (done @ [i])\<close> by (metis in_set_conv_nth)
    have "set (chunk_callees m ((done @ i # todo) ! p)) \<subseteq> set (take p (done @ i # todo))"
      using p by (intro callees_precedeD [OF Cons.prems(2)]) simp
    moreover have "(done @ i # todo) ! p = j" using p by (auto simp: nth_append split: if_splits)
    moreover have "take p (done @ i # todo) = take p done" using p by simp
    ultimately show ?thesis using i(2) set_take_subset [of p "done"] by fastforce
  qed
  from s obtain stack heap rt where
    c: "compute_chunk_wcmu (m_chunks m ! i) (table_resolver m natives (wt_wcmu t)) (wt_returns_text t) vsb = Some (Inr ((stack, heap), rt))"
    and t1: "wt_wcmu t1 = (wt_wcmu t)[i := Some (stack, add_external (m_chunks m ! i) heap)]"
    unfolding wcmu_step_Inr by auto
  have keep: "wt_wcmu t1 ! x = wt_wcmu t ! x" if "x \<in> set done" for x
    using that i(2) unfolding t1 by (intro nth_list_update_neq) auto
  have "entry_ok m natives add_external vsb (wt_wcmu t1) i"
    using i(1) Cons.prems(5) pre [of i] keep by (intro entry_okI [OF c]) (auto simp: t1)
  moreover have "entry_ok m natives add_external vsb (wt_wcmu t1) j" if "j \<in> set done" for j
  proof (rule entry_ok_keep)
    show "entry_ok m natives add_external vsb (wt_wcmu t) j" using that Cons.prems(6) by blast
    have "set (chunk_callees m j) \<subseteq> set done" using pre [of j] that by auto
    then show "wt_wcmu t1 ! c = wt_wcmu t ! c" if "c \<in> set (chunk_callees m j)" for c using that keep by blast
  qed (rule keep [OF that])
  moreover have "length (wt_wcmu t1) = length (m_chunks m)" using t1 Cons.prems(5) by simp
  ultimately show ?case using Cons.IH [of t1 "done @ [i]"] r Cons.prems by auto
qed simp

lemma module_table_entries:
  assumes "module_wcmu_table m natives add_external vsb = Some (Inr ws)"
  obtains tbl where "length tbl = length (m_chunks m)" "ws = map (\<lambda>w. case w of Some w \<Rightarrow> w | None \<Rightarrow> (0, 0)) tbl"
    "\<And>k. k < length (m_chunks m) \<Longrightarrow> entry_ok m natives add_external vsb tbl k"
proof -
  let ?n = "length (m_chunks m)"
  obtain order t where o: "topological_call_order m = Some (Inr order)"
    and r: "wcmu_run m natives add_external vsb order \<lparr> wt_wcmu = replicate ?n None, wt_returns_text = replicate ?n False \<rparr>
              = Some (Inr t)"
    and ws: "ws = map (\<lambda>w. case w of Some w \<Rightarrow> w | None \<Rightarrow> (0, 0)) (wt_wcmu t)"
    using assms by (auto simp: module_wcmu_table_def bindOR_Some_Inr Let_def)
  have ord: "distinct order" "set order = {..<?n}" "callees_precede m order"
    using topo_order_correct [of m] o by auto
  from wcmu_run_entries [OF r, of "[]"] ord ws that show thesis by auto
qed

section \<open>The table covers every run\<close>

lemma compute_chunk_wcmuE:
  assumes "compute_chunk_wcmu chunk r texts vsb = Some (Inr ((stack, heap), rt))"
  obtains s e body brs where "chunk_span chunk = Inr (s, e)" "check_forward_control_flow_targets chunk = Inr ()"
    "wcmu_region chunk s e r vsb = Some (Inr (body, brs))" "stack = frame_bytes chunk (mo_peak_above_initial body) vsb"
    "heap = sat_add (mo_heap_total body) (ct_heap_alloc (analyze_chunk_text chunk texts))"
proof -
  obtain p where p: "chunk_span chunk = Inr p" using assms by (auto simp: compute_chunk_wcmu_def bindOR_Some_Inr)
  obtain w where w: "wcmu_region chunk (fst p) (snd p) r vsb = Some (Inr w)"
    using assms p by (cases p) (auto simp: compute_chunk_wcmu_def bindOR_Some_Inr)
  show thesis
    using assms p w that [of "fst p" "snd p" "fst w" "snd w"]
    by (cases p; cases w) (simp add: compute_chunk_wcmu_def bindOR_Some_Inr Let_def)
qed

lemma op_bytes_agree:
  assumes "i < length (ch_ops (m_chunks m ! k))" "length tbl' = length (m_chunks m)" "length tbl = length (m_chunks m)"
    and "\<forall>c \<in> set (chunk_callees m k). tbl' ! c = tbl ! c"
  shows "op_bytes (m_chunks m ! k) (table_resolver m natives tbl') i = op_bytes (m_chunks m ! k) (table_resolver m natives tbl) i"
proof (cases "ch_ops (m_chunks m ! k) ! i")
  case (Call callee a)
  then have "Call callee a \<in> set (ch_ops (m_chunks m ! k))" using assms(1) by (metis nth_mem)
  then have "unat callee < length (m_chunks m) \<Longrightarrow> unat callee \<in> set (chunk_callees m k)"
    by (force simp: chunk_callees_def)
  then have "nth_opt tbl' (unat callee) = nth_opt tbl (unat callee)" using assms(2-4) by (auto simp: nth_opt_def)
  then show ?thesis using Call by (simp add: op_bytes_def resolve_chunk_def table_resolver_def)
qed (simp_all add: op_bytes_def op_iteration_heap_def resolve_native_def table_resolver_def)

lemma path_sum_agree: "(\<And>i. i \<in> set tr \<Longrightarrow> f i = g i) \<Longrightarrow> path_sum f tr = path_sum g tr"
  by (induction tr) auto

lemma resolve_table:
  assumes "length tbl = length (m_chunks m)" "unat callee < length (m_chunks m)" "tbl ! unat callee = Some w"
  shows "resolve_chunk (table_resolver m natives tbl) callee = w"
  using assms by (simp add: resolve_chunk_def table_resolver_def nth_opt_def)

text \<open>
  What the analysis does to a chunk's heap bytes for its external natives: it adds their total, with
  saturation.
\<close>

locale external_total =
  fixes add_external :: "chunk \<Rightarrow> nat \<Rightarrow> nat"
  assumes adds: "capped (heap + add_external c 0) \<le> add_external c (capped heap)"
begin

lemma paths_covered:
  assumes table: "length tbl = length (m_chunks m)" "ws = map (\<lambda>w. case w of Some w \<Rightarrow> w | None \<Rightarrow> (0, 0)) tbl"
      "\<And>k. k < length (m_chunks m) \<Longrightarrow> entry_ok m natives add_external vsb tbl k"
    and blocks: "\<And>k s e. k < length (m_chunks m) \<Longrightarrow> chunk_span (m_chunks m ! k) = Inr (s, e) \<Longrightarrow>
      region (ch_ops (m_chunks m ! k)) None 0 s e"
  shows "chunk_allocs m natives add_external k n \<Longrightarrow> capped n \<le> snd (ws ! k)"
    and "path_allocs m natives add_external k tr n \<Longrightarrow> k < length (m_chunks m) \<Longrightarrow>
      capped n \<le> capped (path_sum (op_bytes (m_chunks m ! k) (table_resolver m natives tbl)) tr)"
proof (induction rule: chunk_allocs_path_allocs.inducts)
  case (ca_run k s e tr oc n x)
  let ?c = "m_chunks m ! k"
  obtain tbl' texts stack heap rt where
    e: "compute_chunk_wcmu ?c (table_resolver m natives tbl') texts vsb = Some (Inr ((stack, heap), rt))"
      "tbl ! k = Some (stack, add_external ?c heap)" "length tbl' = length (m_chunks m)"
      "\<forall>c \<in> set (chunk_callees m k). tbl' ! c = tbl ! c"
    using table(3) [OF ca_run(1)] unfolding entry_ok_def by blast
  from e(1) ca_run(2) obtain body brs ta where
      w: "wcmu_region ?c s e (table_resolver m natives tbl') vsb = Some (Inr (body, brs))"
    and heap: "heap = sat_add (mo_heap_total body) ta"
    by (elim compute_chunk_wcmuE) auto
  note reg = blocks [OF ca_run(1,2)]
  have "set tr \<subseteq> {..<length (ch_ops ?c)}" using rexec_within [OF reg ca_run(3)] region_bounds [OF reg] by fastforce
  then have "path_sum (op_bytes ?c (table_resolver m natives tbl)) tr = path_sum (op_bytes ?c (table_resolver m natives tbl')) tr"
    using op_bytes_agree [OF _ e(3) table(1) e(4)] by (intro path_sum_agree) auto
  then have "capped n \<le> mo_heap_total body"
    using ca_run(5) [OF ca_run(1)] wcmu_region_bounds_heap [OF reg w ca_run(3)] by simp
  then have "capped n \<le> capped heap" using capped_mono [of "capped n" "mo_heap_total body + ta"]
    by (simp add: heap sat_add_capped)
  moreover have "capped x \<le> capped (add_external ?c 0)" using capped_mono [OF ca_run(6)] by simp
  ultimately have "capped (n + x) \<le> capped (heap + add_external ?c 0)" by (rule capped_add_le)
  also have "\<dots> \<le> add_external ?c (capped heap)" by (rule adds)
  also have "capped heap = heap" by (simp add: heap sat_add_capped)
  finally show ?case using e(2) table(1,2) ca_run(1) by simp
next
  case pa_nil
  then show ?case by simp
next
  case (pa_call k i callee a n tr n')
  have callee: "unat callee < length (m_chunks m)" using pa_call(2) by (auto elim: chunk_allocs.cases)
  then obtain w where w: "tbl ! unat callee = Some w" using table(3) unfolding entry_ok_def by blast
  have "snd (ws ! unat callee) = op_bytes (m_chunks m ! k) (table_resolver m natives tbl) i"
    using pa_call(1) w callee table(1,2) resolve_table [OF table(1) callee w] by (simp add: op_bytes_def)
  with capped_mono [OF pa_call(3)] capped_add_le [OF _ pa_call(5) [OF pa_call(6)], of n] show ?case by simp
next
  case (pa_native k i idx a n tr n')
  then have "n \<le> op_bytes (m_chunks m ! k) (table_resolver m natives tbl) i"
    by (auto simp: op_bytes_def resolve_native_def table_resolver_def)
  from capped_add_le [OF capped_mono [OF this] pa_native(4) [OF pa_native(5)]] show ?case by simp
next
  case (pa_op k i n tr n')
  then have "n = op_bytes (m_chunks m ! k) (table_resolver m natives tbl) i"
    by (cases "ch_ops (m_chunks m ! k) ! i") (auto simp: op_bytes_def op_iteration_heap_def table_resolver_def)
  with capped_add_le [OF order_refl pa_op(4) [OF pa_op(5)]] show ?case by simp
qed

lemma table_covers:
  assumes "module_wcmu_table m natives add_external vsb = Some (Inr ws)"
    and "\<And>k s e. k < length (m_chunks m) \<Longrightarrow> chunk_span (m_chunks m ! k) = Inr (s, e) \<Longrightarrow>
      region (ch_ops (m_chunks m ! k)) None 0 s e"
    and "chunk_allocs m natives add_external k n"
  shows "capped n \<le> snd (ws ! k)"
proof -
  obtain tbl where t: "length tbl = length (m_chunks m)" "ws = map (\<lambda>w. case w of Some w \<Rightarrow> w | None \<Rightarrow> (0, 0)) tbl"
    "\<And>k. k < length (m_chunks m) \<Longrightarrow> entry_ok m natives add_external vsb tbl k"
    using module_table_entries [OF assms(1)] by blast
  show ?thesis by (rule paths_covered(1) [OF t assms(2,3)])
qed

end

text \<open>The plain analysis adds nothing; the classification-aware one adds the attested totals.\<close>

interpretation no_external: external_total "\<lambda>c heap. heap"
  by unfold_locales simp

lemma external_from_add:
  "capped (a + external_from f bounds ops seen b) \<le> external_from f bounds ops seen (capped (a + b))"
proof (induction ops arbitrary: seen b)
  case (Cons x ops)
  show ?case
  proof (cases x)
    case (CallExternalNative idx n)
    have "capped (a + external_from f bounds ops s (capped c)) \<le> external_from f bounds ops s (capped (a + c))" for s c
      using Cons.IH [of s "capped c"] by simp
    with CallExternalNative Cons.IH show ?thesis by (auto simp: sat_add_capped add.assoc split: option.splits)
  qed (use Cons.IH in simp_all)
qed simp

interpretation attested: external_total "external_native_wcmu bounds"
  using external_from_add [of _ nb_per_call_wcmu_bytes bounds _ "[]" 0]
  by unfold_locales (simp add: external_native_wcmu_def)

end
