(* ===== verification/Arena_Safety.thy ===== *)
theory Arena_Safety
  imports Arena
begin

text \<open>
  What the arena promises: its invariant under every operation, an allocation that takes a free aligned
  block exactly if there is one, live blocks that never overlap, and handles that are refused once their
  storage has been reclaimed.
\<close>

section \<open>The invariant\<close>

definition arena_ok :: "arena \<Rightarrow> bool" where
  "arena_ok a \<longleftrightarrow> length (ar_bytes a) = ar_capacity a \<and> ar_capacity a < 2 ^ 63 \<and> ar_base a + ar_capacity a < 2 ^ 64
     \<and> ar_persistent a \<le> ar_bottom a \<and> ar_bottom a \<le> ar_top a \<and> ar_top a \<le> ar_capacity a
     \<and> ar_bottom a \<le> ar_bottom_peak a \<and> ar_bottom_peak a \<le> ar_capacity a \<and> ar_top_low a \<le> ar_top a \<and> ar_epoch a < 2 ^ 64"

definition layout_ok :: "mem_layout \<Rightarrow> bool" where
  "layout_ok l \<longleftrightarrow> (\<exists>k < 64. ly_align l = 2 ^ k) \<and> ly_size l + (ly_align l - 1) < 2 ^ 63"

lemma layout_from_size_align_ok: "layout_from_size_align n al = Some l \<Longrightarrow> layout_ok l \<and> ly_size l = n \<and> ly_align l = al"
  by (auto simp: layout_from_size_align_def layout_ok_def split: if_splits)

lemma arena_over_ok:
  "length bytes < 2 ^ 63 \<Longrightarrow> base + length bytes < 2 ^ 64 \<Longrightarrow> arena_ok (arena_over base bytes storage)"
  by (simp add: arena_ok_def arena_over_def)

lemma next_epoch_Some [simp]: "next_epoch a = Some n \<longleftrightarrow> ar_epoch a + 1 < 2 ^ 64 \<and> n = ar_epoch a + 1"
  by (simp add: next_epoch_def)

text \<open>A block at offset \<open>p\<close> lies in the gap between the ends and is aligned.\<close>

definition fits_at :: "mem_layout \<Rightarrow> arena \<Rightarrow> nat \<Rightarrow> bool" where
  "fits_at l a p \<longleftrightarrow> ar_bottom a \<le> p \<and> p + ly_size l \<le> ar_top a \<and> (ar_base a + p) mod ly_align l = 0"

section \<open>The contract of an allocating end\<close>

text \<open>
  An end takes a block of the gap and gives up nothing else: the block is fit, is outside the new gap,
  and an allocation fails only if no block fits.  With alignment one the gap shrinks by exactly the
  size.
\<close>

locale gap_allocator =
  fixes alloc_end :: "mem_layout \<Rightarrow> arena \<Rightarrow> alloc_error + nat \<times> arena"
  assumes takes: "arena_ok a \<Longrightarrow> layout_ok l \<Longrightarrow> alloc_end l a = Inr (p, a') \<Longrightarrow>
      fits_at l a p \<and> arena_ok a' \<and> ar_bottom a \<le> ar_bottom a' \<and> ar_top a' \<le> ar_top a
      \<and> (p + ly_size l \<le> ar_bottom a' \<or> ar_top a' \<le> p)
      \<and> ar_bytes a' = ar_bytes a \<and> ar_base a' = ar_base a \<and> ar_capacity a' = ar_capacity a
      \<and> ar_persistent a' = ar_persistent a \<and> ar_epoch a' = ar_epoch a"
    and complete: "arena_ok a \<Longrightarrow> layout_ok l \<Longrightarrow> fits_at l a p \<Longrightarrow> \<exists>q a'. alloc_end l a = Inr (q, a')"
    and tight: "arena_ok a \<Longrightarrow> layout_ok l \<Longrightarrow> ly_align l = 1 \<Longrightarrow> alloc_end l a = Inr (p, a') \<Longrightarrow>
      arena_free a' + ly_size l = arena_free a"
begin

lemma succeeds_iff: "arena_ok a \<Longrightarrow> layout_ok l \<Longrightarrow> (\<exists>q a'. alloc_end l a = Inr (q, a')) \<longleftrightarrow> (\<exists>p. fits_at l a p)"
  using takes complete by blast

lemma bytes_succeed_iff:
  assumes "arena_ok a" "layout_ok l" "ly_align l = 1"
  shows "(\<exists>q a'. alloc_end l a = Inr (q, a')) \<longleftrightarrow> ly_size l \<le> arena_free a"
proof -
  have "fits_at l a p \<longleftrightarrow> ar_bottom a \<le> p \<and> p + ly_size l \<le> ar_top a" for p using assms(3) by (simp add: fits_at_def)
  moreover have "(\<exists>p. ar_bottom a \<le> p \<and> p + ly_size l \<le> ar_top a) \<longleftrightarrow> ly_size l \<le> arena_free a"
    using assms(1) by (auto simp: arena_free_def arena_ok_def intro!: exI [of _ "ar_bottom a"])
  ultimately show ?thesis using succeeds_iff [OF assms(1,2)] by simp
qed

end

section \<open>The two ends\<close>

text \<open>Rounding up to a power of two, as the bottom end does it.\<close>

lemma round_up_pow2:
  assumes "x + (2 ^ k - 1) < 2 ^ 64" "k < 64"
  shows "x \<le> clear_mask (x + (2 ^ k - 1)) (2 ^ k - 1)" "clear_mask (x + (2 ^ k - 1)) (2 ^ k - 1) mod 2 ^ k = 0"
    "x \<le> y \<Longrightarrow> y mod 2 ^ k = 0 \<Longrightarrow> clear_mask (x + (2 ^ k - 1)) (2 ^ k - 1) \<le> y"
proof -
  let ?m = "2 ^ k :: nat" and ?z = "x + (2 ^ k - 1)"
  have m: "?m > 0" by simp
  have c: "clear_mask ?z (?m - 1) = ?m * (?z div ?m)"
    using clear_mask_pow2 [OF assms] by (simp only: minus_mod_eq_mult_div)
  have z: "?m * (?z div ?m) + ?z mod ?m = ?z" by (rule mult_div_mod_eq)
  show "x \<le> clear_mask ?z (?m - 1)" unfolding c using z mod_less_divisor [OF m, of ?z] by linarith
  show "clear_mask ?z (?m - 1) mod ?m = 0" unfolding c by (rule mod_mult_self1_is_0)
  show "clear_mask ?z (?m - 1) \<le> y" if y: "x \<le> y" "y mod ?m = 0"
  proof (rule ccontr)
    assume "\<not> clear_mask ?z (?m - 1) \<le> y"
    moreover have "y = ?m * (y div ?m)" using mult_div_mod_eq [of ?m y] y(2) by simp
    ultimately have "y div ?m < ?z div ?m" unfolding c using m by (metis linorder_not_le mult_le_mono2)
    then have "?m * (y div ?m + 1) \<le> ?m * (?z div ?m)" by (intro mult_le_mono2) simp
    then have "?m * (y div ?m) + ?m \<le> ?m * (?z div ?m)" by (simp only: distrib_left mult_1_right)
    then have "?m * (y div ?m) + ?m \<le> ?z" using z by linarith
    with \<open>y = ?m * (y div ?m)\<close> y(1) m show False by linarith
  qed
qed

lemma round_down_pow2:
  assumes "x < 2 ^ 64" "k < 64"
  shows "clear_mask x (2 ^ k - 1) \<le> x" "clear_mask x (2 ^ k - 1) mod 2 ^ k = 0"
    "y \<le> x \<Longrightarrow> y mod 2 ^ k = 0 \<Longrightarrow> y \<le> clear_mask x (2 ^ k - 1)"
proof -
  let ?m = "2 ^ k :: nat"
  have c: "clear_mask x (?m - 1) = ?m * (x div ?m)"
    using clear_mask_pow2 [OF assms] by (simp only: minus_mod_eq_mult_div)
  show "clear_mask x (?m - 1) \<le> x" unfolding c using mult_div_mod_eq [of ?m x] by linarith
  show "clear_mask x (?m - 1) mod ?m = 0" unfolding c by (rule mod_mult_self1_is_0)
  show "y \<le> clear_mask x (?m - 1)" if "y \<le> x" "y mod ?m = 0"
  proof -
    have "?m * (y div ?m) \<le> ?m * (x div ?m)" using that(1) by (intro mult_le_mono2 div_le_mono)
    moreover have "?m * (y div ?m) = y" using mult_div_mod_eq [of ?m y] that(2) by simp
    ultimately show ?thesis unfolding c by simp
  qed
qed


lemma layout_okE:
  assumes "layout_ok l"
  obtains k where "k < 64" "ly_align l = 2 ^ k" "ly_size l + (2 ^ k - 1) < 2 ^ 63"
  using assms by (auto simp: layout_ok_def)

text \<open>A multiple of \<open>2 ^ k\<close> below \<open>2 ^ 64\<close> leaves room for its whole unit: rounding up does not overflow.\<close>

lemma aligned_below:
  assumes "k < 64" "(y :: nat) < 2 ^ 64" "y mod 2 ^ k = 0"
  shows "y + 2 ^ k \<le> 2 ^ 64"
proof -
  have e: "(2 :: nat) ^ 64 = 2 ^ k * 2 ^ (64 - k)" using assms(1) by (simp flip: power_add)
  have y: "y = 2 ^ k * (y div 2 ^ k)" using mult_div_mod_eq [of "2 ^ k" y] assms(3) by simp
  then have "2 ^ k * (y div 2 ^ k) < 2 ^ k * 2 ^ (64 - k)" using assms(2) unfolding e by metis
  then have "y div 2 ^ k + 1 \<le> 2 ^ (64 - k)" by simp
  then have "2 ^ k * (y div 2 ^ k + 1) \<le> 2 ^ k * 2 ^ (64 - k)" by (rule mult_le_mono2)
  then show ?thesis unfolding e using y by (simp only: distrib_left mult_1_right)
qed

lemma alloc_bottom_eq:
  "alloc_bottom l a =
     (let m = ly_align l - 1; x = ar_base a + ar_bottom a; p = clear_mask (x + m) m - ar_base a in
      if x + m < 2 ^ 64 \<and> p + ly_size l < 2 ^ 64 \<and> p + ly_size l \<le> ar_top a
      then Inr (p, a \<lparr> ar_bottom := p + ly_size l, ar_bottom_peak := max (ar_bottom_peak a) (p + ly_size l) \<rparr>)
      else Inl AllocError)"
  by (simp add: alloc_bottom_def checked_add_def Let_def)

lemma alloc_bottom_takes:
  assumes a: "arena_ok a" and l: "layout_ok l" and r: "alloc_bottom l a = Inr (p, a')"
  shows "fits_at l a p \<and> a' = a \<lparr> ar_bottom := p + ly_size l, ar_bottom_peak := max (ar_bottom_peak a) (p + ly_size l) \<rparr>
    \<and> (\<forall>q. fits_at l a q \<longrightarrow> p \<le> q)"
proof -
  obtain k where k: "k < 64" "ly_align l = 2 ^ k" using l by (rule layout_okE)
  let ?x = "ar_base a + ar_bottom a"
  from r k obtain x: "?x + (2 ^ k - 1) < 2 ^ 64" and p: "p = clear_mask (?x + (2 ^ k - 1)) (2 ^ k - 1) - ar_base a"
    and top: "p + ly_size l \<le> ar_top a"
    and a': "a' = a \<lparr> ar_bottom := p + ly_size l, ar_bottom_peak := max (ar_bottom_peak a) (p + ly_size l) \<rparr>"
    unfolding alloc_bottom_eq Let_def k(2) by (auto split: if_split_asm)
  note up = round_up_pow2 [OF x k(1)]
  have base: "ar_base a + p = clear_mask (?x + (2 ^ k - 1)) (2 ^ k - 1)" using up(1) p by simp
  have "fits_at l a p" using base up(1,2) top k(2) by (simp add: fits_at_def)
  moreover have "p \<le> q" if "fits_at l a q" for q
    using up(3) [of "ar_base a + q"] that base k(2) by (simp add: fits_at_def)
  ultimately show ?thesis using a' by simp
qed

lemma alloc_bottom_complete:
  assumes a: "arena_ok a" and l: "layout_ok l" and f: "fits_at l a q"
  shows "\<exists>p a'. alloc_bottom l a = Inr (p, a')"
proof -
  obtain k where k: "k < 64" "ly_align l = 2 ^ k" "ly_size l + (2 ^ k - 1) < 2 ^ 63" using l by (rule layout_okE)
  let ?x = "ar_base a + ar_bottom a"
  have q: "ar_bottom a \<le> q" "q + ly_size l \<le> ar_top a" "(ar_base a + q) mod 2 ^ k = 0"
    using f k(2) by (simp_all add: fits_at_def)
  have bound: "ar_base a + ar_top a < 2 ^ 64" "ar_top a < 2 ^ 63" using a by (auto simp: arena_ok_def)
  have "ar_base a + q + 2 ^ k \<le> 2 ^ 64" using q bound by (intro aligned_below k) simp_all
  then have x: "?x + (2 ^ k - 1) < 2 ^ 64" using q(1) by (simp add: less_eq_Suc_le)
  note up = round_up_pow2 [OF x k(1)]
  let ?p = "clear_mask (?x + (2 ^ k - 1)) (2 ^ k - 1) - ar_base a"
  have "clear_mask (?x + (2 ^ k - 1)) (2 ^ k - 1) \<le> ar_base a + q" by (rule up(3)) (use q in simp_all)
  then have "?p + ly_size l \<le> ar_top a" using q(2) by linarith
  moreover from this have "?p + ly_size l < 2 ^ 64" using bound(2) by simp
  moreover have "?x < 2 ^ 64" using x by linarith
  ultimately show ?thesis using x unfolding alloc_bottom_eq Let_def k(2) by simp
qed

lemma alloc_top_takes:
  assumes a: "arena_ok a" and l: "layout_ok l" and r: "alloc_top l a = Inr (p, a')"
  shows "fits_at l a p \<and> a' = a \<lparr> ar_top := p, ar_top_low := min (ar_top_low a) p \<rparr>
    \<and> (\<forall>q. fits_at l a q \<longrightarrow> q \<le> p)"
proof -
  obtain k where k: "k < 64" "ly_align l = 2 ^ k" using l by (rule layout_okE)
  let ?x = "ar_base a + (ar_top a - ly_size l)"
  from r k obtain x: "?x < 2 ^ 64" and size: "ly_size l \<le> ar_top a" and low: "ar_base a \<le> clear_mask ?x (2 ^ k - 1)"
    and p: "p = clear_mask ?x (2 ^ k - 1) - ar_base a" and bot: "ar_bottom a \<le> p"
    and a': "a' = a \<lparr> ar_top := p, ar_top_low := min (ar_top_low a) p \<rparr>"
    by (auto simp: alloc_top_def checked_add_def checked_sub_def Let_def not_less split: if_split_asm)
  note down = round_down_pow2 [OF x k(1)]
  have base: "ar_base a + p = clear_mask ?x (2 ^ k - 1)" using p low by simp
  have "fits_at l a p" using base down(1,2) bot size k(2) by (simp add: fits_at_def)
  moreover have "q \<le> p" if "fits_at l a q" for q
  proof -
    have "ar_base a + q \<le> clear_mask ?x (2 ^ k - 1)" by (rule down(3)) (use that k(2) in \<open>auto simp: fits_at_def\<close>)
    then show ?thesis using base by linarith
  qed
  ultimately show ?thesis using a' by simp
qed

lemma alloc_top_complete:
  assumes a: "arena_ok a" and l: "layout_ok l" and f: "fits_at l a q"
  shows "\<exists>p a'. alloc_top l a = Inr (p, a')"
proof -
  obtain k where k: "k < 64" "ly_align l = 2 ^ k" using l by (rule layout_okE)
  let ?x = "ar_base a + (ar_top a - ly_size l)"
  have q: "ar_bottom a \<le> q" "q + ly_size l \<le> ar_top a" "(ar_base a + q) mod 2 ^ k = 0"
    using f k(2) by (simp_all add: fits_at_def)
  have x: "?x < 2 ^ 64" using a q(2) by (auto simp: arena_ok_def)
  have "ar_base a + q \<le> clear_mask ?x (2 ^ k - 1)" by (rule round_down_pow2(3) [OF x k(1)]) (use q in simp_all)
  then show ?thesis using x q k(2) by (auto simp: alloc_top_def checked_add_def checked_sub_def Let_def)
qed

interpretation bottom_end: gap_allocator alloc_bottom
proof
  fix a l p a' assume a: "arena_ok a" and l: "layout_ok l" and r: "alloc_bottom l a = Inr (p, a')"
  note t = alloc_bottom_takes [OF a l r]
  then show "fits_at l a p \<and> arena_ok a' \<and> ar_bottom a \<le> ar_bottom a' \<and> ar_top a' \<le> ar_top a
      \<and> (p + ly_size l \<le> ar_bottom a' \<or> ar_top a' \<le> p)
      \<and> ar_bytes a' = ar_bytes a \<and> ar_base a' = ar_base a \<and> ar_capacity a' = ar_capacity a
      \<and> ar_persistent a' = ar_persistent a \<and> ar_epoch a' = ar_epoch a"
    using a by (auto simp: fits_at_def arena_ok_def)
  assume one: "ly_align l = 1"
  then have "fits_at l a (ar_bottom a)" using t by (auto simp: fits_at_def)
  with t have "p = ar_bottom a" by (auto simp: fits_at_def intro: antisym)
  then show "arena_free a' + ly_size l = arena_free a" using t by (auto simp: arena_free_def fits_at_def)
qed (rule alloc_bottom_complete)

interpretation top_end: gap_allocator alloc_top
proof
  fix a l p a' assume a: "arena_ok a" and l: "layout_ok l" and r: "alloc_top l a = Inr (p, a')"
  note t = alloc_top_takes [OF a l r]
  then show "fits_at l a p \<and> arena_ok a' \<and> ar_bottom a \<le> ar_bottom a' \<and> ar_top a' \<le> ar_top a
      \<and> (p + ly_size l \<le> ar_bottom a' \<or> ar_top a' \<le> p)
      \<and> ar_bytes a' = ar_bytes a \<and> ar_base a' = ar_base a \<and> ar_capacity a' = ar_capacity a
      \<and> ar_persistent a' = ar_persistent a \<and> ar_epoch a' = ar_epoch a"
    using a by (auto simp: fits_at_def arena_ok_def)
  assume one: "ly_align l = 1"
  then have "fits_at l a (ar_top a - ly_size l)" using t by (auto simp: fits_at_def)
  with t have "ar_top a - ly_size l \<le> p" by blast
  then show "arena_free a' + ly_size l = arena_free a" using t by (auto simp: arena_free_def fits_at_def)
qed (rule alloc_top_complete)


section \<open>Runs with their live blocks\<close>

text \<open>
  An arena with the offsets and sizes of the blocks its users still hold.  Operations on an exclusive
  reference require that there are none; the unsafe operations require what their safety sections
  require.  Beyond them, a mark must lie in the part of the buffer its end may use: the safety section of
  \<open>rewind_bottom\<close> does not say that a mark expires when the persistent region grows.
\<close>

inductive arena_run :: "arena \<Rightarrow> (nat \<times> nat) set \<Rightarrow> bool" where
  ar_new: "length bytes < 2 ^ 63 \<Longrightarrow> base + length bytes < 2 ^ 64 \<Longrightarrow> arena_run (arena_over base bytes storage) {}"
| ar_alloc_bottom: "arena_run a L \<Longrightarrow> layout_ok l \<Longrightarrow> alloc_bottom l a = Inr (p, a') \<Longrightarrow> arena_run a' (insert (p, ly_size l) L)"
| ar_alloc_top: "arena_run a L \<Longrightarrow> layout_ok l \<Longrightarrow> alloc_top l a = Inr (p, a') \<Longrightarrow> arena_run a' (insert (p, ly_size l) L)"
| ar_drop: "arena_run a L \<Longrightarrow> L' \<subseteq> L \<Longrightarrow> arena_run a L'"
| ar_reset: "arena_run a {} \<Longrightarrow> arena_reset a = Inr a' \<Longrightarrow> arena_run a' {}"
| ar_reset_unchecked: "arena_run a {} \<Longrightarrow> reset_unchecked a = Inr a' \<Longrightarrow> arena_run a' {}"
| ar_reset_top_unchecked: "arena_run a L \<Longrightarrow> \<forall>(p, n) \<in> L. p + n \<le> ar_bottom a \<Longrightarrow> reset_top_unchecked a = Inr a' \<Longrightarrow> arena_run a' L"
| ar_reset_top: "arena_run a L \<Longrightarrow> \<forall>(p, n) \<in> L. p + n \<le> ar_bottom a \<Longrightarrow> arena_run (reset_top a) L"
| ar_reset_bottom: "arena_run a L \<Longrightarrow> \<forall>(p, n) \<in> L. ar_top a \<le> p \<Longrightarrow> arena_run (reset_bottom a) L"
| ar_rewind_bottom: "arena_run a L \<Longrightarrow> ar_persistent a \<le> mark \<Longrightarrow> \<forall>(p, n) \<in> L. p + n \<le> mark \<or> ar_top a \<le> p \<Longrightarrow>
    arena_run (rewind_bottom mark a) L"
| ar_rewind_top: "arena_run a L \<Longrightarrow> mark \<le> ar_capacity a \<Longrightarrow> \<forall>(p, n) \<in> L. mark \<le> p \<or> p + n \<le> ar_bottom a \<Longrightarrow>
    arena_run (rewind_top mark a) L"
| ar_clear_peaks: "arena_run a {} \<Longrightarrow> arena_run (clear_peaks a) {}"
| ar_force: "arena_run a {} \<Longrightarrow> arena_run (force_reset_epoch a) {}"
| ar_resize: "arena_run a {} \<Longrightarrow> resize_persistent n a = Inr a' \<Longrightarrow> arena_run a' {}"
| ar_resize_capacity: "arena_run a {} \<Longrightarrow> resize_persistent_capacity n a = Some (Inr a') \<Longrightarrow> arena_run a' {}"
| ar_zero_persistent: "arena_run a {} \<Longrightarrow> arena_run (zero_persistent a) {}"
| ar_zero_range: "arena_run a L \<Longrightarrow> zero_persistent_range s n a = Inr a' \<Longrightarrow> arena_run a' L"
| ar_zero_dual: "arena_run a {} \<Longrightarrow> arena_run (fst (zero_dual_headed a)) {}"
| ar_zero_all: "arena_run a {} \<Longrightarrow> arena_run (fst (zero_all a)) {}"

definition block_ok :: "arena \<Rightarrow> nat \<times> nat \<Rightarrow> bool" where
  "block_ok a b \<longleftrightarrow> (case b of (p, n) \<Rightarrow> ar_persistent a \<le> p \<and> p + n \<le> ar_bottom a \<or> ar_top a \<le> p \<and> p + n \<le> ar_capacity a)"

definition blocks_apart :: "(nat \<times> nat) set \<Rightarrow> bool" where
  "blocks_apart L \<longleftrightarrow> (\<forall>p n q m. (p, n) \<in> L \<longrightarrow> (q, m) \<in> L \<longrightarrow> (p, n) \<noteq> (q, m) \<longrightarrow> p + n \<le> q \<or> q + m \<le> p)"

definition live_ok :: "arena \<Rightarrow> (nat \<times> nat) set \<Rightarrow> bool" where
  "live_ok a L \<longleftrightarrow> arena_ok a \<and> (\<forall>b \<in> L. block_ok a b) \<and> blocks_apart L"

lemma zero_bytes_len: "s + n \<le> length bytes \<Longrightarrow> length (zero_bytes s n bytes) = length bytes"
  by (simp add: zero_bytes_def)

lemma copy_within_len: "s + n \<le> length bytes \<Longrightarrow> d + n \<le> length bytes \<Longrightarrow> length (copy_within s d n bytes) = length bytes"
  by (simp add: copy_within_def)

lemmas arena_ops = arena_reset_def reset_unchecked_def reset_top_unchecked_def reset_top_def reset_bottom_def
  rewind_bottom_def rewind_top_def clear_peaks_def force_reset_epoch_def resize_persistent_def
  zero_persistent_def zero_persistent_range_def zero_dual_headed_def zero_all_def

text \<open>The operations on an exclusive reference keep the invariant.\<close>

lemma exclusive_ok:
  assumes "arena_ok a"
  shows "arena_reset a = Inr a' \<Longrightarrow> arena_ok a'" "reset_unchecked a = Inr a' \<Longrightarrow> arena_ok a'"
    "arena_ok (clear_peaks a)" "arena_ok (force_reset_epoch a)" "resize_persistent n a = Inr a' \<Longrightarrow> arena_ok a'"
    "arena_ok (zero_persistent a)" "zero_persistent_range s n a = Inr a' \<Longrightarrow> arena_ok a'"
    "arena_ok (fst (zero_dual_headed a))" "arena_ok (fst (zero_all a))"
  using assms by (auto simp: arena_ok_def arena_ops zero_bytes_len Let_def split: option.splits if_splits)

lemma resize_capacity_ok:
  assumes "arena_ok a" "resize_persistent_capacity n a = Some (Inr a')"
  shows "arena_ok a'"
  using assms
  by (auto simp: arena_ok_def resize_persistent_capacity_def copy_within_len Let_def split: option.splits if_splits)

lemma live_ok_alloc:
  assumes "live_ok a L" "fits_at l a p" "arena_ok a'" "ar_bottom a \<le> ar_bottom a'" "ar_top a' \<le> ar_top a"
    and "p + ly_size l \<le> ar_bottom a' \<or> ar_top a' \<le> p" "ar_capacity a' = ar_capacity a" "ar_persistent a' = ar_persistent a"
  shows "live_ok a' (insert (p, ly_size l) L)"
proof -
  have old: "block_ok a b" if "b \<in> L" for b using assms(1) that by (simp add: live_ok_def)
  have top: "ar_top a \<le> ar_capacity a" "ar_persistent a \<le> ar_bottom a" using assms(1) by (auto simp: live_ok_def arena_ok_def)
  have "block_ok a' b" if "b \<in> L" for b using old [OF that] assms(4,5,7,8) by (auto simp: block_ok_def)
  moreover have "block_ok a' (p, ly_size l)" using assms(2,5-8) top by (auto simp: block_ok_def fits_at_def)
  moreover have apart: "q + m \<le> p \<or> p + ly_size l \<le> q" if "(q, m) \<in> L" for q m
    using old [OF that] assms(2) by (auto simp: block_ok_def fits_at_def)
  moreover have "blocks_apart L" using assms(1) by (simp add: live_ok_def)
  ultimately show ?thesis using assms(3) by (fastforce simp: live_ok_def blocks_apart_def)
qed

lemma live_ok_empty: "live_ok a {} \<longleftrightarrow> arena_ok a"
  by (simp add: live_ok_def blocks_apart_def)

text \<open>An operation that moves the ends but leaves the live blocks where they belong.\<close>

lemma live_ok_moved:
  assumes "live_ok a L" "arena_ok a'" "\<And>p n. (p, n) \<in> L \<Longrightarrow> block_ok a (p, n) \<Longrightarrow> block_ok a' (p, n)"
  shows "live_ok a' L"
  using assms by (auto simp: live_ok_def)

lemma arena_run_ok: "arena_run a L \<Longrightarrow> live_ok a L"
proof (induction rule: arena_run.induct)
  case (ar_new bytes base storage)
  then show ?case by (simp add: live_ok_empty arena_over_ok)
next
  case (ar_alloc_bottom a L l p a')
  then have "arena_ok a" by (simp add: live_ok_def)
  from bottom_end.takes [OF this ar_alloc_bottom(2,3)] show ?case by (intro live_ok_alloc [OF ar_alloc_bottom.IH]) auto
next
  case (ar_alloc_top a L l p a')
  then have "arena_ok a" by (simp add: live_ok_def)
  from top_end.takes [OF this ar_alloc_top(2,3)] show ?case by (intro live_ok_alloc [OF ar_alloc_top.IH]) auto
next
  case (ar_drop a L L')
  then show ?case unfolding live_ok_def blocks_apart_def by (meson subsetD)
next
  case (ar_reset_top_unchecked a L a')
  then show ?case
    by (intro live_ok_moved [OF ar_reset_top_unchecked.IH])
      (auto simp: live_ok_def arena_ok_def arena_ops block_ok_def split: option.splits)
next
  case (ar_reset_top a L)
  then show ?case
    by (intro live_ok_moved [OF ar_reset_top.IH]) (auto simp: live_ok_def arena_ok_def arena_ops block_ok_def)
next
  case (ar_reset_bottom a L)
  then show ?case
    by (intro live_ok_moved [OF ar_reset_bottom.IH]) (auto simp: live_ok_def arena_ok_def arena_ops block_ok_def)
next
  case (ar_rewind_bottom a L mark)
  have ok: "arena_ok (rewind_bottom mark a)" using ar_rewind_bottom by (auto simp: live_ok_def arena_ok_def arena_ops)
  show ?case
  proof (rule live_ok_moved [OF ar_rewind_bottom.IH ok])
    fix p n assume "(p, n) \<in> L" "block_ok a (p, n)"
    with ar_rewind_bottom(3) ar_rewind_bottom.IH show "block_ok (rewind_bottom mark a) (p, n)"
      by (auto simp: arena_ops block_ok_def live_ok_def arena_ok_def)
  qed
next
  case (ar_rewind_top a L mark)
  have ok: "arena_ok (rewind_top mark a)" using ar_rewind_top by (auto simp: live_ok_def arena_ok_def arena_ops)
  show ?case
  proof (rule live_ok_moved [OF ar_rewind_top.IH ok])
    fix p n assume "(p, n) \<in> L" "block_ok a (p, n)"
    with ar_rewind_top(3) ar_rewind_top.IH show "block_ok (rewind_top mark a) (p, n)"
      by (auto simp: arena_ops block_ok_def live_ok_def arena_ok_def)
  qed
next
  case (ar_zero_range a L s n a')
  then have "arena_ok a'" using exclusive_ok(7) by (auto simp: live_ok_def)
  with ar_zero_range show ?case
    by (intro live_ok_moved [OF ar_zero_range.IH]) (auto simp: arena_ops block_ok_def split: option.splits if_splits)
qed (auto simp: live_ok_empty dest: exclusive_ok resize_capacity_ok intro: exclusive_ok)


section \<open>Budgets\<close>

text \<open>A sequence of byte allocations, \<open>True\<close> for the bottom end.\<close>

fun run_requests :: "(bool \<times> nat) list \<Rightarrow> arena \<Rightarrow> alloc_error + arena" where
  "run_requests [] a = Inr a"
| "run_requests ((end, n) # rs) a =
     (case (if end then alloc_bottom_bytes n a else alloc_top_bytes n a) of
        Inl e \<Rightarrow> Inl e | Inr (p, a') \<Rightarrow> run_requests rs a')"

lemma byte_layout: "n < 2 ^ 63 \<Longrightarrow> layout_from_size_align n 1 = Some \<lparr> ly_size = n, ly_align = 1 \<rparr>"
  by (auto simp: layout_from_size_align_def intro!: exI [of _ 0])

lemma alloc_bytes_succeeds:
  assumes "arena_ok a" "n \<le> arena_free a"
  shows "\<exists>p a'. alloc_bottom_bytes n a = Inr (p, a') \<and> arena_ok a' \<and> arena_free a' + n = arena_free a"
    and "\<exists>p a'. alloc_top_bytes n a = Inr (p, a') \<and> arena_ok a' \<and> arena_free a' + n = arena_free a"
proof -
  let ?l = "\<lparr> ly_size = n, ly_align = 1 \<rparr>"
  have n: "n < 2 ^ 63" using assms by (auto simp: arena_ok_def arena_free_def)
  then have l: "layout_ok ?l" by (auto simp: layout_ok_def intro!: exI [of _ 0])
  have one: "ly_align ?l = 1" and size: "ly_size ?l = n" by simp_all
  obtain p a' where "alloc_bottom ?l a = Inr (p, a')" using bottom_end.bytes_succeed_iff [OF assms(1) l one] assms(2) by auto
  with bottom_end.takes [OF assms(1) l this] bottom_end.tight [OF assms(1) l one this]
  show "\<exists>p a'. alloc_bottom_bytes n a = Inr (p, a') \<and> arena_ok a' \<and> arena_free a' + n = arena_free a"
    by (simp add: alloc_bottom_bytes_def byte_layout [OF n, unfolded One_nat_def])
  obtain p a' where "alloc_top ?l a = Inr (p, a')" using top_end.bytes_succeed_iff [OF assms(1) l one] assms(2) by auto
  with top_end.takes [OF assms(1) l this] top_end.tight [OF assms(1) l one this]
  show "\<exists>p a'. alloc_top_bytes n a = Inr (p, a') \<and> arena_ok a' \<and> arena_free a' + n = arena_free a"
    by (simp add: alloc_top_bytes_def byte_layout [OF n, unfolded One_nat_def])
qed

lemma alloc_bytes_fit:
  assumes "arena_ok a"
  shows "alloc_bottom_bytes n a = Inr (p, a') \<Longrightarrow> n \<le> arena_free a" "alloc_top_bytes n a = Inr (p, a') \<Longrightarrow> n \<le> arena_free a"
proof -
  have l: "layout_ok l \<and> ly_size l = n \<and> ly_align l = 1" if "layout_from_size_align n 1 = Some l" for l
    using layout_from_size_align_ok [OF that] .
  show "alloc_bottom_bytes n a = Inr (p, a') \<Longrightarrow> n \<le> arena_free a"
    using bottom_end.bytes_succeed_iff [OF assms] l by (fastforce simp: alloc_bottom_bytes_def split: option.splits)
  show "alloc_top_bytes n a = Inr (p, a') \<Longrightarrow> n \<le> arena_free a"
    using top_end.bytes_succeed_iff [OF assms] l by (fastforce simp: alloc_top_bytes_def split: option.splits)
qed

lemma requests_succeed:
  "arena_ok a \<Longrightarrow> sum_list (map snd rs) \<le> arena_free a \<Longrightarrow> \<exists>a'. run_requests rs a = Inr a'"
proof (induction rs arbitrary: a)
  case (Cons r rs)
  obtain "end" n where r: "r = (end, n)" by fastforce
  then have n: "n \<le> arena_free a" using Cons.prems(2) by simp
  obtain p a' where a': "(if end then alloc_bottom_bytes n a else alloc_top_bytes n a) = Inr (p, a')"
    "arena_ok a'" "arena_free a' + n = arena_free a"
    using alloc_bytes_succeeds [OF Cons.prems(1) n] by (cases "end") auto
  have "sum_list (map snd rs) \<le> arena_free a'" using Cons.prems(2) r a'(3) by simp
  from Cons.IH [OF a'(2) this] show ?case using r a'(1) by (simp del: split_paired_Ex)
qed simp

definition requested :: "bool \<Rightarrow> (bool \<times> nat) list \<Rightarrow> nat" where
  "requested e rs = sum_list (map snd (filter (\<lambda>r. fst r = e) rs))"

lemma requested_total: "sum_list (map snd rs) = requested True rs + requested False rs"
  by (induction rs) (auto simp: requested_def)

text \<open>Two requests, one per end, that both succeed fit together into what is free.\<close>

lemma both_ends_fit:
  assumes "arena_ok a" "run_requests [(True, n), (False, k)] a = Inr a'"
  shows "n + k \<le> arena_free a"
proof -
  obtain p b where b: "alloc_bottom_bytes n a = Inr (p, b)" and "\<exists>q c. alloc_top_bytes k b = Inr (q, c)"
    using assms(2) by (auto split: sum.splits)
  moreover have "arena_ok b \<and> arena_free b + n = arena_free a"
    using alloc_bytes_succeeds(1) [OF assms(1) alloc_bytes_fit(1) [OF assms(1) b]] b by auto
  ultimately show ?thesis using alloc_bytes_fit(2) [of b k] by fastforce
qed

text \<open>The budget \<open>b\<close> with the persistent region counted in its bottom half.\<close>

definition with_persistent :: "arena \<Rightarrow> budget \<Rightarrow> budget" where
  "with_persistent a b = b \<lparr> bottom_bytes := ar_persistent a + bottom_bytes b \<rparr>"

definition serves_budget :: "arena \<Rightarrow> budget \<Rightarrow> bool" where
  "serves_budget a b \<longleftrightarrow> (\<forall>rs. requested True rs \<le> bottom_bytes b \<longrightarrow> requested False rs \<le> top_bytes b \<longrightarrow>
     (\<exists>a'. run_requests rs a = Inr a'))"

lemma serves_budget_iff:
  assumes "arena_ok a"
  shows "serves_budget a b \<longleftrightarrow> bottom_bytes b + top_bytes b \<le> arena_free a"
proof
  assume s: "serves_budget a b"
  have "requested True [(True, bottom_bytes b), (False, top_bytes b)] = bottom_bytes b"
    "requested False [(True, bottom_bytes b), (False, top_bytes b)] = top_bytes b" by (simp_all add: requested_def)
  with s obtain a' where "run_requests [(True, bottom_bytes b), (False, top_bytes b)] a = Inr a'"
    unfolding serves_budget_def by (metis order_refl)
  with both_ends_fit [OF assms] show "bottom_bytes b + top_bytes b \<le> arena_free a" by blast
next
  assume "bottom_bytes b + top_bytes b \<le> arena_free a"
  then show "serves_budget a b"
    unfolding serves_budget_def using requests_succeed [OF assms] unfolding requested_total by (meson add_le_mono le_trans)
qed

lemma reset_free: "arena_reset a = Inr a' \<Longrightarrow> arena_free a' = ar_capacity a - ar_persistent a"
  by (auto simp: arena_reset_def arena_free_def split: option.splits)

lemma fits_budget_iff: "arena_ok a \<Longrightarrow> fits_budget a b \<longleftrightarrow> bottom_bytes b + top_bytes b \<le> ar_capacity a"
  by (auto simp: arena_ok_def fits_budget_def budget_total_def saturating_add64_def)

lemma budget_suffices:
  assumes "arena_ok a" "arena_reset a = Inr a'" "budget_total b \<le> ar_capacity a - ar_persistent a"
    and "requested True rs \<le> bottom_bytes b" "requested False rs \<le> top_bytes b"
  shows "\<exists>a''. run_requests rs a' = Inr a''"
proof (rule requests_succeed)
  show "arena_ok a'" by (rule exclusive_ok(1) [OF assms(1,2)])
  have "ar_capacity a < 2 ^ 63" using assms(1) by (simp add: arena_ok_def)
  then show "sum_list (map snd rs) \<le> arena_free a'"
    using assms(3-5) unfolding requested_total reset_free [OF assms(2)] by (auto simp: budget_total_def saturating_add64_def)
qed

section \<open>Handles\<close>

text \<open>
  Every operation but \<open>force_reset_epoch\<close>, which puts the epoch back to zero and whose safety section
  requires that no handle of an earlier epoch is left.
\<close>

inductive arena_next :: "arena \<Rightarrow> arena \<Rightarrow> bool" where
  "alloc_bottom l a = Inr (p, a') \<Longrightarrow> arena_next a a'"
| "alloc_top l a = Inr (p, a') \<Longrightarrow> arena_next a a'"
| "arena_reset a = Inr a' \<Longrightarrow> arena_next a a'"
| "reset_unchecked a = Inr a' \<Longrightarrow> arena_next a a'"
| "reset_top_unchecked a = Inr a' \<Longrightarrow> arena_next a a'"
| "arena_next a (reset_top a)"
| "arena_next a (reset_bottom a)"
| "arena_next a (rewind_bottom mark a)"
| "arena_next a (rewind_top mark a)"
| "arena_next a (clear_peaks a)"
| "arena_next a (zero_persistent a)"
| "zero_persistent_range s n a = Inr a' \<Longrightarrow> arena_next a a'"
| "arena_next a (fst (zero_dual_headed a))"
| "arena_next a (fst (zero_all a))"
| "resize_persistent n a = Inr a' \<Longrightarrow> arena_next a a'"
| "resize_persistent_capacity n a = Some (Inr a') \<Longrightarrow> arena_next a a'"

lemma arena_next_frame:
  "arena_next a a' \<Longrightarrow> ar_base a' = ar_base a \<and> ar_capacity a' = ar_capacity a \<and> ar_epoch a \<le> ar_epoch a'"
  by (induction rule: arena_next.induct)
    (auto simp: alloc_bottom_def alloc_top_def arena_ops resize_persistent_capacity_def Let_def split: option.splits if_splits)

lemma arena_steps_frame:
  "arena_next\<^sup>*\<^sup>* a a' \<Longrightarrow> ar_base a' = ar_base a \<and> ar_capacity a' = ar_capacity a \<and> ar_epoch a \<le> ar_epoch a'"
proof (induction rule: rtranclp.induct)
  case (rtrancl_into_rtrancl a b c)
  then show ?case using arena_next_frame [of b c] by auto
qed simp

lemma reset_stale:
  assumes "arena_next\<^sup>*\<^sup>* a a1" "arena_reset a1 = Inr a2 \<or> reset_unchecked a1 = Inr a2 \<or> reset_top_unchecked a1 = Inr a2"
    and "arena_next\<^sup>*\<^sup>* a2 a3" "ah_epoch h \<le> ar_epoch a"
  shows "handle_get h a3 = (if addr_is_ephemeral a3 (ah_addr h) then Inl Stale else Inr (ah_addr h))"
proof -
  have r: "ar_base a2 = ar_base a1 \<and> ar_capacity a2 = ar_capacity a1 \<and> ar_epoch a2 = ar_epoch a1 + 1"
    using assms(2) by (auto simp: arena_reset_def reset_unchecked_def reset_top_unchecked_def split: option.splits)
  show ?thesis
    using arena_steps_frame [OF assms(1)] r arena_steps_frame [OF assms(3)] assms(4)
    by (auto simp: handle_get_def addr_is_live_def addr_is_ephemeral_def)
qed

text \<open>A block taken at the current epoch resolves as long as no epoch passes.\<close>

lemma same_epoch_live: "ah_epoch h = ar_epoch a \<Longrightarrow> handle_get h a = Inr (ah_addr h)"
  by (simp add: handle_get_def addr_is_live_def)

text \<open>
  After the persistent region has grown over it, a block is taken for a persistent one, whatever the
  epoch of its handle.
\<close>

lemma resized_over_live:
  assumes "arena_ok a" "resize_persistent n a = Inr a'" "p < n"
  shows "handle_get \<lparr> ah_addr = ar_base a + p, ah_epoch = e \<rparr> a' = Inr (ar_base a + p)"
proof -
  have "n \<le> ar_capacity a" "ar_base a' = ar_base a" "ar_persistent a' = n"
    using assms(2) by (auto simp: resize_persistent_def split: if_splits option.splits)
  moreover have "ar_base a + ar_capacity a < 2 ^ 64" using assms(1) by (simp add: arena_ok_def)
  ultimately show ?thesis using assms(3) by (simp add: handle_get_def addr_is_live_def)
qed

section \<open>Resizing in place\<close>

text \<open>
  \<open>resize_persistent_capacity\<close> keeps the persistent prefix that both sizes share, moves the bytes of the
  bottom end behind the new boundary, and leaves the top end where it is.
\<close>

lemma resize_capacity_bytes:
  assumes "arena_ok a" "resize_persistent_capacity n a = Some (Inr a')"
  shows "take (min n (ar_persistent a)) (ar_bytes a') = take (min n (ar_persistent a)) (ar_bytes a)"
    and "take (ar_bottom a' - n) (drop n (ar_bytes a')) = take (ar_bottom a - ar_persistent a) (drop (ar_persistent a) (ar_bytes a))"
    and "drop (ar_top a') (ar_bytes a') = drop (ar_top a) (ar_bytes a)" and "ar_top a' = ar_top a" and "ar_persistent a' = n"
  using assms
  by (auto simp: arena_ok_def resize_persistent_capacity_def copy_within_def Let_def min_def take_append drop_append
      split: option.splits if_splits)


section \<open>A concrete arena\<close>

definition sample_arena :: arena where
  "sample_arena = arena_over 4096 (replicate 64 0) Owned"

text \<open>The same arena with half of it persistent.\<close>

definition reserved_arena :: arena where
  "reserved_arena = sample_arena \<lparr> ar_persistent := 32, ar_bottom := 32, ar_bottom_peak := 32 \<rparr>"

end
