(* ===== verification/Admission.thy ===== *)
theory Admission
  imports Wcmu_Module Arena_Safety
begin

text \<open>
  The accepted module: its chunks are regions, the table of its memory analysis covers what runs are
  charged, and the resource check has compared every stream's entry with the capacity.
\<close>

text \<open>The blocks around the instructions a bound is about are linked.\<close>

definition span_linked :: "chunk \<Rightarrow> bool" where
  "span_linked c =
     (case chunk_span c of
        Inl err \<Rightarrow> True
      | Inr (s, e) \<Rightarrow> s \<le> e \<and> e \<le> length (ch_ops c) \<and> top_level (ch_ops c) s \<and> top_level (ch_ops c) e)"

lemma span_region:
  assumes "pass1 m c = Inr ()" "span_linked c" "chunk_span c = Inr (s, e)"
  shows "region (ch_ops c) None 0 s e"
  using assms(2,3) by (intro pass1_region [OF assms(1)]) (simp_all add: span_linked_def)

lemma accepted_spans:
  assumes "verify_structural m = Some (Inr ())" "list_all span_linked (m_chunks m)" "k < length (m_chunks m)"
    and "chunk_span (m_chunks m ! k) = Inr (s, e)"
  shows "region (ch_ops (m_chunks m ! k)) None 0 s e"
proof -
  obtain always where "verify_chunks m always (m_chunks m) = Some (Inr ())"
    using verify_structuralD [OF assms(1)] by blast
  then have "verify_chunk (m_chunks m ! k) m always = Some (Inr ())"
    using verify_chunks_each assms(3) nth_mem by blast
  from verify_chunkD(1) [OF this] show ?thesis
    using assms(2-4) by (intro span_region) (auto simp: list_all_iff)
qed

text \<open>The heap bytes reported for a chunk bound what any run of it is charged, with everything it calls.\<close>

lemma module_heap_covered:
  assumes "verify_structural m = Some (Inr ())" "list_all span_linked (m_chunks m)"
    and "module_wcmu_with_bounds m bounds vsb = Some (Inr ws)"
    and "chunk_allocs m (per_site_native_wcmu bounds) (external_native_wcmu bounds) k n"
  shows "capped n \<le> snd (ws ! k)"
  by (rule attested.table_covers [OF assms(3) [unfolded module_wcmu_with_bounds_def] accepted_spans [OF assms(1,2)] assms(4)])

lemma enforce_capacity_each:
  "enforce_arena_capacity cs capacity ws = Inr () \<Longrightarrow> length ws = length cs \<Longrightarrow> k < length cs \<Longrightarrow>
     ch_block_type (cs ! k) = BT_Stream \<Longrightarrow> budget_total (chunk_budget (ws ! k)) \<le> capacity"
proof (induction cs capacity ws arbitrary: k rule: enforce_arena_capacity.induct)
  case (1 c cs capacity w ws)
  then show ?case by (cases k) (auto split: if_splits)
qed simp_all

lemma module_table_length:
  assumes "module_wcmu_with_bounds m bounds vsb = Some (Inr ws)"
  shows "length ws = length (m_chunks m)"
proof -
  from assms obtain tbl where "length tbl = length (m_chunks m)" "ws = map (\<lambda>w. case w of Some w \<Rightarrow> w | None \<Rightarrow> (0, 0)) tbl"
    unfolding module_wcmu_with_bounds_def using module_table_entries by blast
  then show ?thesis by simp
qed

end
