(* ===== verification/Word_Arith.thy ===== *)
theory Word_Arith
  imports Bytecode "HOL-Library.Signed_Division"
begin

text \<open>
  Integer arithmetic of the virtual machine: the traits \<open>Word\<close> and \<open>WideWord\<close> of \<open>src/src/word.rs\<close>,
  which the macro \<open>impl_word_pair\<close> instantiates at 8, 16, 32 and 64 bits with a wide type of twice the
  width, and the helpers of \<open>src/src/vm.rs\<close> that split a wide result into the outputs of a checked
  instruction.  The word type is \<open>'w\<close> and the wide one \<open>'v\<close>; where a lemma needs it, \<open>'v\<close> is twice as long.
\<close>

section \<open>Words\<close>

definition from_i64_wrap :: "64 word \<Rightarrow> 'w::len word" where
  "from_i64_wrap n = scast n"

definition to_i64 :: "'w::len word \<Rightarrow> 64 word" where
  "to_i64 w = scast w"

definition to_usize_checked :: "'w::len word \<Rightarrow> nat option" where
  "to_usize_checked w = (if sint (to_i64 w) < 0 then None else Some (nat (sint (to_i64 w))))"

definition widen :: "'w::len word \<Rightarrow> 'v::len word" where
  "widen w = scast w"

definition from_wide_wrap :: "'v::len word \<Rightarrow> 'w::len word" where
  "from_wide_wrap w = scast w"

definition word_min :: "'w::len word" where
  "word_min = word_of_int (- (2 ^ (LENGTH('w) - 1)))"

definition word_max :: "'w::len word" where
  "word_max = word_of_int (2 ^ (LENGTH('w) - 1) - 1)"

text \<open>Rust divides towards zero; the machine tests for a zero divisor first.\<close>

definition sdivide :: "'w::len word \<Rightarrow> 'w word \<Rightarrow> 'w word" where
  "sdivide a b = word_of_int (sint a sdiv sint b)"

definition sremainder :: "'w::len word \<Rightarrow> 'w word \<Rightarrow> 'w word" where
  "sremainder a b = word_of_int (sint a smod sint b)"

text \<open>\<open>high_half\<close>: an arithmetic shift by the width of the word.\<close>

definition high_half :: "nat \<Rightarrow> 'v::len word \<Rightarrow> 'v word" where
  "high_half word_bits w = signed_drop_bit word_bits w"

section \<open>Outputs of the checked instructions\<close>

text \<open>\<open>bytecode::truncate_int_to_declared_width\<close>: sign extension from the declared width.\<close>

definition truncate_int_to_declared_width :: "64 word \<Rightarrow> u8 \<Rightarrow> 64 word" where
  "truncate_int_to_declared_width v word_bits_log2 =
     (if 6 \<le> word_bits_log2 then v
      else let shift = 64 - 2 ^ unat word_bits_log2 in signed_drop_bit shift (push_bit shift v))"

text \<open>The low and high halves and the flag: 0 in range, 1 overflow, 2 underflow.\<close>

definition checked_flag :: "'v::len word \<Rightarrow> 'v word \<Rightarrow> 'v word \<Rightarrow> 64 word" where
  "checked_flag declared_min declared_max r =
     (if declared_min \<le>s r \<and> r \<le>s declared_max then 0 else if declared_max <s r then 1 else 2)"

definition checked_arith_outputs ::
  "'w::len itself \<Rightarrow> 'v::len word \<Rightarrow> u8 \<Rightarrow> 'w word \<times> 'w word \<times> 'w word" where
  "checked_arith_outputs ty r word_bits_log2 =
     (let declared_bits = 2 ^ unat word_bits_log2;
          narrow = (declared_bits < LENGTH('w));
          one_widened = (widen (from_i64_wrap 1 :: 'w word) :: 'v word);
          declared_max = (if narrow then push_bit (declared_bits - 1) one_widened - one_widened else widen (word_max :: 'w word));
          declared_min = (if narrow then - push_bit (declared_bits - 1) one_widened else widen (word_min :: 'w word));
          low_raw = (from_wide_wrap r :: 'w word);
          low = (from_i64_wrap (truncate_int_to_declared_width (to_i64 low_raw) word_bits_log2) :: 'w word);
          high = (if narrow then from_wide_wrap (signed_drop_bit declared_bits (r - widen low))
                  else from_wide_wrap (high_half LENGTH('w) r) :: 'w word)
      in (low, high, from_i64_wrap (checked_flag declared_min declared_max r)))"

text \<open>A \<open>Fixed\<close> always has the runtime's width.\<close>

definition fixed_checked_outputs :: "'w::len itself \<Rightarrow> 'v::len word \<Rightarrow> 'w word \<times> 64 word" where
  "fixed_checked_outputs ty r =
     (from_wide_wrap r, checked_flag (widen (word_min :: 'w word)) (widen (word_max :: 'w word)) r)"

text \<open>Clamping of a wide result to the word range, as the saturating \<open>Fixed\<close> instructions do.\<close>

definition saturate_wide :: "'v::len word \<Rightarrow> 'w::len word" where
  "saturate_wide r =
     (if widen (word_max :: 'w word) <s r then word_max
      else if r <s widen (word_min :: 'w word) then word_min else from_wide_wrap r)"

section \<open>Values of the conversions\<close>

lemma sint_widen:
  assumes "LENGTH('w::len) \<le> LENGTH('v::len)"
  shows "sint (widen (w :: 'w word) :: 'v word) = sint w"
  unfolding widen_def using assms by (simp add: sint_up_scast is_up)

lemma sint_word_of_int_in_range:
  assumes "- (2 ^ (LENGTH('w) - 1)) \<le> k" "k < 2 ^ (LENGTH('w) - 1)"
  shows "sint (word_of_int k :: 'w::len word) = k"
  using assms by (simp add: signed_of_int signed_take_bit_int_eq_self_iff)

lemma sint_word_min: "sint (word_min :: 'w::len word) = - (2 ^ (LENGTH('w) - 1))"
  unfolding word_min_def by (rule sint_word_of_int_in_range) auto

lemma sint_word_max: "sint (word_max :: 'w::len word) = 2 ^ (LENGTH('w) - 1) - 1"
  unfolding word_max_def by (rule sint_word_of_int_in_range) auto

lemma sint_bounds: "- (2 ^ (LENGTH('w) - 1)) \<le> sint (w :: 'w::len word) \<and> sint w < 2 ^ (LENGTH('w) - 1)"
  using sint_range_size [of w] by (simp add: word_size)

lemma sint_from_wide_wrap:
  "sint (from_wide_wrap r :: 'w::len word) = signed_take_bit (LENGTH('w) - 1) (sint (r :: 'v::len word))"
  unfolding from_wide_wrap_def by (simp add: signed_scast_eq)

text \<open>The wide type holds every sum, difference, product, negation and quotient of two words exactly.\<close>

lemma wide_exact:
  fixes x y :: "'w::len word"
  assumes v: "LENGTH('v::len) = 2 * LENGTH('w)"
  shows "sint (widen x + widen y :: 'v word) = sint x + sint y"
    and "sint (widen x - widen y :: 'v word) = sint x - sint y"
    and "sint (widen x * widen y :: 'v word) = sint x * sint y"
    and "sint (- widen x :: 'v word) = - sint x"
proof -
  let ?h = "2 ^ (LENGTH('w) - 1) :: int"
  have w: "LENGTH('w) \<le> LENGTH('v)" using v by simp
  have pos: "1 \<le> ?h" by simp
  have n: "LENGTH('v) - 1 = Suc ((LENGTH('w) - 1) + (LENGTH('w) - 1))"
    using v len_gt_0 [where 'a = 'w] by linarith
  have hh: "2 * (?h * ?h) = 2 ^ (LENGTH('v) - 1)"
    unfolding n power_Suc power_add by (rule refl)
  have hle: "?h \<le> ?h * ?h" using mult_left_mono [OF pos, of ?h] pos by linarith
  from hh hle have big: "2 * ?h \<le> 2 ^ (LENGTH('v) - 1)" by linarith
  have x: "- ?h \<le> sint x" "sint x < ?h" and y: "- ?h \<le> sint y" "sint y < ?h"
    using sint_bounds [of x] sint_bounds [of y] by auto
  have wx: "(widen z :: 'v word) = word_of_int (sint z)" for z :: "'w word"
    by (simp add: widen_def)
  have abs: "\<bar>sint x * sint y\<bar> \<le> ?h * ?h"
    unfolding abs_mult using x y by (intro mult_mono) auto
  have lt: "?h * ?h < 2 ^ (LENGTH('v) - 1)" using hh hle pos by linarith
  show "sint (widen x + widen y :: 'v word) = sint x + sint y"
    unfolding wx of_int_add [symmetric] using x y big by (intro sint_word_of_int_in_range) linarith+
  show "sint (widen x - widen y :: 'v word) = sint x - sint y"
    unfolding wx of_int_diff [symmetric] using x y big by (intro sint_word_of_int_in_range) linarith+
  show "sint (widen x * widen y :: 'v word) = sint x * sint y"
    unfolding wx of_int_mult [symmetric] using abs lt by (intro sint_word_of_int_in_range) linarith+
  show "sint (- widen x :: 'v word) = - sint x"
    unfolding wx of_int_minus [symmetric] using x big pos by (intro sint_word_of_int_in_range) linarith+
qed

section \<open>The checked outputs are exact\<close>

lemma drop_push_signed_take_bit:
  "n \<le> m \<Longrightarrow> drop_bit n (signed_take_bit m (push_bit n (k :: int))) = signed_take_bit (m - n) k"
  by (rule bit_eqI) (auto simp: bit_drop_bit_eq bit_signed_take_bit_iff bit_push_bit_iff min_def)

lemma sint_truncate:
  assumes "word_bits_log2 < 6"
  shows "sint (truncate_int_to_declared_width v word_bits_log2)
    = signed_take_bit (2 ^ unat word_bits_log2 - 1) (sint v)"
proof -
  define d :: nat where "d = 2 ^ unat word_bits_log2"
  have "unat word_bits_log2 < 6" using assms by (simp add: word_less_nat_alt)
  then have d: "1 \<le> d" "d < 64"
    using power_strict_increasing [of "unat word_bits_log2" 6 "2::nat"] by (simp_all add: d_def)
  have "sint (truncate_int_to_declared_width v word_bits_log2)
      = drop_bit (64 - d) (signed_take_bit 63 (push_bit (64 - d) (sint v)))"
    using not_le [THEN iffD2, OF assms] by (simp add: truncate_int_to_declared_width_def d_def Let_def sint_signed_drop_bit_eq signed_push_bit_eq)
  also have "\<dots> = signed_take_bit (63 - (64 - d)) (sint v)"
    using d by (intro drop_push_signed_take_bit) simp
  also have "63 - (64 - d) = d - 1" using d by simp
  finally show ?thesis by (simp add: d_def)
qed

lemma sint_to_i64: "LENGTH('w::len) \<le> 64 \<Longrightarrow> sint (to_i64 (w :: 'w word)) = sint w"
  by (simp add: to_i64_def sint_up_scast is_up)

lemma sint_from_i64_wrap: "sint (from_i64_wrap v :: 'w::len word) = signed_take_bit (LENGTH('w) - 1) (sint v)"
  by (simp add: from_i64_wrap_def signed_scast_eq)

lemma signed_take_bit_low: "n \<le> m \<Longrightarrow> signed_take_bit n (signed_take_bit m (k :: int)) = signed_take_bit n k"
  by (simp add: signed_take_bit_signed_take_bit min_def)

text \<open>The low half is the result cut to the declared width and read with its sign.\<close>

lemma sint_checked_low:
  assumes w: "LENGTH('w::len) \<le> 64" and d: "2 ^ unat k \<le> LENGTH('w)"
  shows "sint (from_i64_wrap (truncate_int_to_declared_width (to_i64 (from_wide_wrap r :: 'w word)) k) :: 'w word)
    = signed_take_bit (2 ^ unat k - 1) (sint (r :: 'v::len word))"
proof (cases "6 \<le> k")
  case True
  then have "(2::nat) ^ 6 \<le> 2 ^ unat k" by (intro power_increasing) (simp_all add: word_le_nat_alt)
  with w d have "2 ^ unat k = LENGTH('w)" by simp
  with True w show ?thesis
    by (simp add: truncate_int_to_declared_width_def sint_from_i64_wrap sint_to_i64 sint_from_wide_wrap)
next
  case False
  have "min (LENGTH('w) - 1) (min (2 ^ unat k - 1) (LENGTH('w) - 1)) = 2 ^ unat k - 1"
    using d by simp
  with False w show ?thesis
    by (simp add: sint_from_i64_wrap sint_truncate sint_to_i64 sint_from_wide_wrap signed_take_bit_signed_take_bit not_le)
qed

lemma div_in_range:
  assumes "0 < D" "- (D * H) \<le> x" "x < D * (H :: int)"
  shows "- H \<le> x div D" "x div D < H"
proof -
  have x: "x = D * (x div D) + x mod D" "0 \<le> x mod D" "x mod D < D" using assms(1) by simp_all
  show "x div D < H"
  proof (rule ccontr)
    assume "\<not> ?thesis"
    then have "D * H \<le> D * (x div D)" using assms(1) by (intro mult_left_mono) auto
    with x assms(3) show False by linarith
  qed
  show "- H \<le> x div D"
  proof (rule ccontr)
    assume "\<not> ?thesis"
    then have "D * (x div D) \<le> D * (- H - 1)" using assms(1) by (intro mult_left_mono) auto
    also have "\<dots> = - (D * H) - D" by (simp add: algebra_simps)
    finally show False using x assms(2) by linarith
  qed
qed

lemma signed_take_bit_decomp: "\<exists>q. n = q * 2 ^ Suc m + signed_take_bit m (n :: int)"
proof -
  have "take_bit (Suc m) n = take_bit (Suc m) (signed_take_bit m n)"
    by (simp add: take_bit_signed_take_bit)
  then have "2 ^ Suc m dvd n - signed_take_bit m n"
    by (simp add: take_bit_eq_mod mod_eq_dvd_iff)
  then show ?thesis by (auto simp: dvd_def algebra_simps)
qed

lemma widen_one:
  assumes "2 \<le> LENGTH('w::len)" "LENGTH('w) \<le> LENGTH('v::len)"
  shows "(widen (from_i64_wrap 1 :: 'w word) :: 'v word) = word_of_int 1"
proof -
  have "sint (from_i64_wrap 1 :: 'w word) = 1"
  proof -
    have "(1::int) < 2 ^ (LENGTH('w) - 1)" using assms(1) by simp
    then show ?thesis unfolding sint_from_i64_wrap by (simp add: signed_take_bit_int_eq_self)
  qed
  moreover have "(widen w :: 'v word) = word_of_int (sint w)" for w :: "'w word" by (simp add: widen_def)
  ultimately show ?thesis by presburger
qed

text \<open>The bounds the flag is taken against are those of the declared width.\<close>

lemma declared_bounds:
  assumes v: "LENGTH('v::len) = 2 * LENGTH('w::len)" and d: "2 \<le> d" "d \<le> LENGTH('w)"
  defines "one \<equiv> widen (from_i64_wrap 1 :: 'w word) :: 'v word"
  shows "sint (if d < LENGTH('w) then push_bit (d - 1) one - one else widen (word_max :: 'w word)) = 2 ^ (d - 1) - 1"
    and "sint (if d < LENGTH('w) then - push_bit (d - 1) one else widen (word_min :: 'w word)) = - (2 ^ (d - 1))"
proof -
  have one: "one = word_of_int 1" unfolding one_def by (rule widen_one) (use v d in auto)
  have le: "(2::int) ^ (d - 1) \<le> 2 ^ (LENGTH('v) - 1)" using v d by (intro power_increasing) auto
  have push: "push_bit (d - 1) one = word_of_int (2 ^ (d - 1))"
    by (simp add: one push_bit_eq_mult)
  have pos: "(1::int) \<le> 2 ^ (d - 1)" by simp
  have "sint (push_bit (d - 1) one - one) = 2 ^ (d - 1) - 1"
    unfolding push unfolding one of_int_diff [symmetric]
    using le pos by (intro sint_word_of_int_in_range) linarith+
  moreover have "sint (- push_bit (d - 1) one) = - (2 ^ (d - 1))"
    unfolding push of_int_minus [symmetric] using le pos by (intro sint_word_of_int_in_range) linarith+
  ultimately show
      "sint (if d < LENGTH('w) then push_bit (d - 1) one - one else widen (word_max :: 'w word)) = 2 ^ (d - 1) - 1"
      "sint (if d < LENGTH('w) then - push_bit (d - 1) one else widen (word_min :: 'w word)) = - (2 ^ (d - 1))"
    using d v by (auto simp: sint_widen sint_word_max sint_word_min)
qed

lemma checked_flag_value:
  "checked_flag lo hi r = (if sint r < sint lo then 2 else if sint hi < sint r then 1 else 0)"
  if "sint lo \<le> sint hi"
  using that by (auto simp: checked_flag_def word_sle_eq word_sless_alt)

text \<open>
  The outputs determine the true result: at the runtime's width the low half is read without sign, below it
  with its sign.  The flag says on which side of the declared range the result lies.
\<close>

definition low_value :: "nat \<Rightarrow> 'w::len word \<Rightarrow> int" where
  "low_value declared_bits low = (if declared_bits < LENGTH('w) then sint low else uint low)"

lemma checked_high:
  assumes v: "LENGTH('v::len) = 2 * LENGTH('w::len)" and d: "2 \<le> d" "d < LENGTH('w)"
    and n: "\<bar>sint r\<bar> \<le> 2 ^ (2 * d - 2)" and low: "sint (low :: 'w word) = signed_take_bit (d - 1) (sint r)"
  shows "sint r = sint (from_wide_wrap (signed_drop_bit d (r - widen low :: 'v word)) :: 'w word) * 2 ^ d + sint low"
proof -
  from signed_take_bit_decomp [of "sint r" "d - 1"] d obtain q where q: "sint r = q * 2 ^ d + sint low"
    by (auto simp: low)
  have lb: "- (2 ^ (d - 1)) \<le> sint low" "sint low < 2 ^ (d - 1)"
    unfolding low by (simp_all add: signed_take_bit_int_greater_eq_minus_exp signed_take_bit_int_less_exp)
  have p: "(2::int) ^ d = 2 * 2 ^ (d - 1)" using d by (cases d) auto
  have p2: "(2::int) ^ (2 * d - 2) = 2 ^ d * 2 ^ (d - 2)"
    using d by (simp add: power_add [symmetric])
  have p3: "(2::int) ^ (d - 1) = 2 * 2 ^ (d - 2)" using d by (cases "d - 1") (auto simp: numeral_2_eq_2)
  have q': "\<bar>q\<bar> \<le> 2 ^ (d - 2) + 1"
  proof (rule ccontr)
    assume "\<not> ?thesis"
    then have "2 ^ d * (2 ^ (d - 2) + 2) \<le> 2 ^ d * \<bar>q\<bar>" by (intro mult_left_mono) auto
    moreover have "2 ^ d * \<bar>q\<bar> = \<bar>sint r - sint low\<bar>" using q by (simp add: abs_mult mult.commute)
    moreover have "\<bar>sint r - sint low\<bar> \<le> 2 ^ d * 2 ^ (d - 2) + 2 ^ (d - 1)" using n lb unfolding p2 by linarith
    moreover have "0 < (2::int) ^ (d - 1)" by simp
    moreover have "2 ^ d * (2 ^ (d - 2) + 2) = 2 ^ d * 2 ^ (d - 2) + 4 * (2::int) ^ (d - 1)"
      using p by (simp add: algebra_simps)
    ultimately show False by linarith
  qed
  have hw: "(2::int) ^ (d - 2) + 1 < 2 ^ (LENGTH('w) - 1)"
  proof -
    have "(2::int) ^ d \<le> 2 ^ (LENGTH('w) - 1)" using d by (intro power_increasing) auto
    with p p3 show ?thesis by (smt (verit) one_le_power)
  qed
  have diff: "sint (r - widen low :: 'v word) = q * 2 ^ d"
  proof -
    have "\<bar>q\<bar> * 2 ^ d \<le> (2 ^ (d - 2) + 1) * 2 ^ d" using q' by (intro mult_right_mono) auto
    also have "\<dots> < 2 ^ (LENGTH('w) - 1) * 2 ^ d" using hw by (intro mult_strict_right_mono) auto
    also have "\<dots> \<le> 2 ^ (LENGTH('w) - 1) * 2 ^ LENGTH('w)" using d by (intro mult_left_mono power_increasing) auto
    also have "\<dots> = 2 ^ (LENGTH('v) - 1)" using v d by (simp add: power_add [symmetric] mult_2)
    finally have "\<bar>q * 2 ^ d\<bar> < 2 ^ (LENGTH('v) - 1)" by (simp add: abs_mult)
    moreover have "r - widen low = word_of_int (q * 2 ^ d)"
    proof -
      have "r - widen low = word_of_int (sint r - sint low)" by (simp add: widen_def)
      then show ?thesis using q by simp
    qed
    ultimately show ?thesis by (simp only:) (rule sint_word_of_int_in_range; linarith)
  qed
  have "sint (from_wide_wrap (signed_drop_bit d (r - widen low :: 'v word)) :: 'w word) = q"
  proof -
    have "- (2 ^ (LENGTH('w) - 1)) \<le> q" "q < 2 ^ (LENGTH('w) - 1)" using q' hw by linarith+
    then show ?thesis
      unfolding sint_from_wide_wrap sint_signed_drop_bit_eq diff
      by (simp add: drop_bit_eq_div signed_take_bit_int_eq_self)
  qed
  with q show ?thesis by simp
qed

text \<open>Low half, high half and flag of one wide result.\<close>

lemma checked_outputs_exact:
  fixes r :: "'v::len word" and low high flag :: "'w::len word"
  assumes v: "LENGTH('v) = 2 * LENGTH('w)" and w: "LENGTH('w) \<le> 64"
    and d: "2 \<le> (2::nat) ^ unat k" "2 ^ unat k \<le> LENGTH('w)"
    and n: "\<bar>sint r\<bar> \<le> 2 ^ (2 * 2 ^ unat k - 2)"
    and out: "checked_arith_outputs TYPE('w) r k = (low, high, flag)"
  shows "sint r = sint high * 2 ^ (2 ^ unat k) + low_value (2 ^ unat k) low"
    and "flag = from_i64_wrap (if sint r < - (2 ^ (2 ^ unat k - 1)) then 2
           else if 2 ^ (2 ^ unat k - 1) - 1 < sint r then 1 else 0)"
proof -
  define d where "d = (2::nat) ^ unat k"
  have d2: "2 \<le> d" "d \<le> LENGTH('w)" using assms(3,4) by (simp_all add: d_def)
  note out = out [unfolded checked_arith_outputs_def Let_def, folded d_def]
  have low: "sint low = signed_take_bit (d - 1) (sint r)"
    using out sint_checked_low [OF w assms(4), of r] by (auto simp: d_def)
  show "sint r = sint high * 2 ^ (2 ^ unat k) + low_value (2 ^ unat k) low"
  proof (cases "d < LENGTH('w)")
    case True
    then have "high = from_wide_wrap (signed_drop_bit d (r - widen low))" using out by auto
    with checked_high [OF v d2(1) True _ low] n True show ?thesis by (simp add: low_value_def d_def)
  next
    case False
    with d2 have dw: "d = LENGTH('w)" by simp
    have high: "sint high = signed_take_bit (LENGTH('w) - 1) (drop_bit d (sint r))"
      using out dw by (auto simp: sint_from_wide_wrap high_half_def sint_signed_drop_bit_eq)
    have b: "- (2 ^ (LENGTH('v) - 1)) \<le> sint r" "sint r < 2 ^ (LENGTH('v) - 1)" using sint_bounds [of r] by auto
    have e: "LENGTH('v) - 1 = d + (d - 1)" using v dw d2 by linarith
    have "- (2 ^ (d - 1)) \<le> drop_bit d (sint r)" "drop_bit d (sint r) < 2 ^ (d - 1)"
      using div_in_range [of "2 ^ d" "2 ^ (d - 1)" "sint r"] b unfolding e power_add drop_bit_eq_div by simp_all
    then have h: "sint high = sint r div 2 ^ d"
      unfolding high dw [symmetric] by (simp add: signed_take_bit_int_eq_self drop_bit_eq_div)
    have "uint low = take_bit d (sint low)" using dw by (simp add: uint_sint)
    also have "\<dots> = take_bit d (sint r)" using d2 by (simp add: low take_bit_signed_take_bit)
    finally have "uint low = sint r mod 2 ^ d" by (simp add: take_bit_eq_mod)
    with h False show ?thesis by (simp only: low_value_def d_def if_False div_mult_mod_eq)
  qed
  show "flag = from_i64_wrap (if sint r < - (2 ^ (2 ^ unat k - 1)) then 2
      else if 2 ^ (2 ^ unat k - 1) - 1 < sint r then 1 else 0)"
    using out declared_bounds [OF v d2] by (auto simp: checked_flag_value d_def)
qed

end
