(* ===== verification/Machine_Values.thy ===== *)
theory Machine_Values
  imports Word_Arith Arena
begin

text \<open>
  Runtime values (\<open>GenericValue\<close> of \<open>src/src/bytecode.rs\<close> at the widths of the bundled machine, \<open>i64\<close>
  and \<open>f64\<close>) and their flat bodies (\<open>src/src/flat_value.rs\<close>): bytes in the arena behind a handle, read and
  written by \<open>read_scalar_le\<close> and \<open>write_scalar_le\<close>.  Addresses outside the arena belong to the \<open>image\<close>, the
  constant memory of the host that holds the bytecode and the pool of constants.  Strings are lists of
  bytes.  A host object occurs only as its index (\<open>OpaqueRef\<close>), the form the operand stack carries.  A float
  is its 64 bits; the operations of the processor on floats are a parameter.
\<close>

section \<open>Floats\<close>

record float_ops =
  fo_add :: "u64 \<Rightarrow> u64 \<Rightarrow> u64"
  fo_sub :: "u64 \<Rightarrow> u64 \<Rightarrow> u64"
  fo_mul :: "u64 \<Rightarrow> u64 \<Rightarrow> u64"
  fo_div :: "u64 \<Rightarrow> u64 \<Rightarrow> u64"
  fo_rem :: "u64 \<Rightarrow> u64 \<Rightarrow> u64"
  fo_eq :: "u64 \<Rightarrow> u64 \<Rightarrow> bool"
  fo_partial_cmp :: "u64 \<Rightarrow> u64 \<Rightarrow> int option"
  fo_of_i64 :: "u64 \<Rightarrow> u64"
  fo_to_i64 :: "u64 \<Rightarrow> u64"
  fo_to_f32 :: "u64 \<Rightarrow> u32"
  fo_of_f32 :: "u32 \<Rightarrow> u64"

text \<open>Negation and classification are fixed by the format: a sign bit, 11 bits of exponent, 52 of fraction.\<close>

definition float_neg :: "u64 \<Rightarrow> u64" where
  "float_neg f = xor f (push_bit 63 1)"

definition float_exponent_full :: "u64 \<Rightarrow> bool" where
  "float_exponent_full f = (and (drop_bit 52 f) 0x7FF = 0x7FF)"

definition float_is_nan :: "u64 \<Rightarrow> bool" where
  "float_is_nan f = (float_exponent_full f \<and> take_bit 52 f \<noteq> 0)"

definition float_is_infinite :: "u64 \<Rightarrow> bool" where
  "float_is_infinite f = (float_exponent_full f \<and> take_bit 52 f = 0)"

definition float_checked_flag :: "u64 \<Rightarrow> u64" where
  "float_checked_flag f =
     (if float_is_nan f then 4
      else if float_is_infinite f then (if \<not> bit f 63 then 1 else 2) else 0)"

section \<open>Values\<close>

record flat_composite =
  fc_addr :: nat
  fc_len :: nat
  fc_epoch :: nat

record kstring =
  ks_addr :: nat
  ks_len :: nat
  ks_epoch :: nat

datatype 'b value_body = Flat flat_composite | Boxed 'b

datatype 'v boxed_struct = BoxedStruct string "(string \<times> 'v) list"
datatype 'v boxed_enum = BoxedEnum string string u64 nat "'v list"

datatype kvalue =
    V_Unit
  | V_Bool bool
  | V_Int u64
  | V_Byte u8
  | V_Fixed u64
  | V_Float u64
  | V_StaticStr string
  | V_KStr kstring
  | V_Tuple "kvalue list value_body"
  | V_Array "kvalue list value_body"
  | V_Struct "kvalue boxed_struct value_body"
  | V_Enum "kvalue boxed_enum value_body"
  | V_None
  | V_OpaqueRef u32

section \<open>Memory\<close>

type_synonym image = "nat \<Rightarrow> u8"

definition byte_at :: "arena \<Rightarrow> image \<Rightarrow> nat \<Rightarrow> u8" where
  "byte_at a im addr =
     (if ar_base a \<le> addr \<and> addr < ar_base a + length (ar_bytes a) then ar_bytes a ! (addr - ar_base a) else im addr)"

definition bytes_at :: "arena \<Rightarrow> image \<Rightarrow> nat \<Rightarrow> nat \<Rightarrow> u8 list" where
  "bytes_at a im addr n = map (\<lambda>i. byte_at a im (addr + i)) [0..<n]"

text \<open>A checked write of a slice, and \<open>slice.get(offset..offset + n)\<close>.\<close>

definition put_slice :: "u8 list \<Rightarrow> nat \<Rightarrow> u8 list \<Rightarrow> u8 list option" where
  "put_slice dst offset bs =
     (if offset + length bs \<le> length dst
      then Some (take offset dst @ bs @ drop (offset + length bs) dst) else None)"

definition get_slice :: "u8 list \<Rightarrow> nat \<Rightarrow> nat \<Rightarrow> u8 list option" where
  "get_slice src offset n = (if offset + n \<le> length src then Some (take n (drop offset src)) else None)"

definition write_arena :: "arena \<Rightarrow> nat \<Rightarrow> u8 list \<Rightarrow> arena" where
  "write_arena a off bs =
     a \<lparr> ar_bytes := take off (ar_bytes a) @ bs @ drop (off + length bs) (ar_bytes a) \<rparr>"

section \<open>Flat bodies\<close>

text \<open>The empty body: a dangling, aligned address that is never read.\<close>

definition fc_empty :: flat_composite where
  "fc_empty = \<lparr> fc_addr = 1, fc_len = 0, fc_epoch = 0 \<rparr>"

definition fc_resolve :: "flat_composite \<Rightarrow> arena \<Rightarrow> image \<Rightarrow> stale + u8 list" where
  "fc_resolve fc a im =
     bindR (handle_get \<lparr> ah_addr = fc_addr fc, ah_epoch = fc_epoch fc \<rparr> a) (\<lambda>addr. Inr (bytes_at a im addr (fc_len fc)))"

text \<open>
  \<open>build_in_arena\<close>: the body's bytes are what \<open>fill\<close> computes once the storage is taken; \<open>None\<close> of the
  fill is its error, after which nothing refers to the storage.
\<close>

definition build_in_arena ::
  "arena \<Rightarrow> nat \<Rightarrow> (arena \<Rightarrow> u8 list option) \<Rightarrow> alloc_error + flat_composite option \<times> arena" where
  "build_in_arena a n fill =
     (if n = 0 then Inr (Some fc_empty, a)
      else bindR (alloc_top_bytes n a) (\<lambda>(off, b).
        case fill b of
          None \<Rightarrow> Inr (None, b)
        | Some bs \<Rightarrow> Inr (Some \<lparr> fc_addr = ar_base b + off, fc_len = n, fc_epoch = ar_epoch b \<rparr>, write_arena b off bs)))"

definition nested_view :: "flat_composite \<Rightarrow> nat \<Rightarrow> nat \<Rightarrow> arena \<Rightarrow> stale + flat_composite" where
  "nested_view fc offset len a =
     bindR (handle_get \<lparr> ah_addr = fc_addr fc, ah_epoch = fc_epoch fc \<rparr> a) (\<lambda>addr.
       case checked_add offset len of
         None \<Rightarrow> Inl Stale
       | Some fin \<Rightarrow>
           if fin > fc_len fc then Inl Stale
           else if len = 0 then Inr fc_empty
           else Inr \<lparr> fc_addr = addr + offset, fc_len = len, fc_epoch = fc_epoch fc \<rparr>)"

fun wrap_flat :: "composite_kind \<Rightarrow> flat_composite \<Rightarrow> kvalue" where
  "wrap_flat CK_Tuple fc = V_Tuple (Flat fc)"
| "wrap_flat CK_Array fc = V_Array (Flat fc)"
| "wrap_flat CK_Struct fc = V_Struct (Flat fc)"
| "wrap_flat CK_Enum fc = V_Enum (Flat fc)"

definition flat_nested_field ::
  "flat_composite \<Rightarrow> nat \<Rightarrow> nat \<Rightarrow> composite_kind \<Rightarrow> arena \<Rightarrow> stale + kvalue" where
  "flat_nested_field parent offset n variant a =
     bindR (nested_view parent offset n a) (\<lambda>fc. Inr (wrap_flat variant fc))"

fun flat_composite_ref :: "kvalue \<Rightarrow> flat_composite option" where
  "flat_composite_ref (V_Tuple (Flat fc)) = Some fc"
| "flat_composite_ref (V_Array (Flat fc)) = Some fc"
| "flat_composite_ref (V_Struct (Flat fc)) = Some fc"
| "flat_composite_ref (V_Enum (Flat fc)) = Some fc"
| "flat_composite_ref _ = None"

text \<open>\<open>rewrap_flat_body\<close>: the same kind of composite over another body.\<close>

fun rewrap_flat_body :: "kvalue \<Rightarrow> flat_composite \<Rightarrow> kvalue" where
  "rewrap_flat_body (V_Tuple (Flat _)) fc = V_Tuple (Flat fc)"
| "rewrap_flat_body (V_Array (Flat _)) fc = V_Array (Flat fc)"
| "rewrap_flat_body (V_Struct (Flat _)) fc = V_Struct (Flat fc)"
| "rewrap_flat_body (V_Enum (Flat _)) fc = V_Enum (Flat fc)"
| "rewrap_flat_body v fc = v"

section \<open>Scalars in flat bodies\<close>

text \<open>The panic stands for a slice index the code does not check, at widths no loader admits.\<close>

datatype scalar_error = SE_OutOfBounds | SE_ReferenceKind | SE_UnsupportedWidth | SE_Panic

definition le8 :: "u64 \<Rightarrow> u8 list" where
  "le8 w = map (\<lambda>i. ucast (drop_bit (8 * i) w)) [0..<8]"

definition le4 :: "u32 \<Rightarrow> u8 list" where
  "le4 w = map (\<lambda>i. ucast (drop_bit (8 * i) w)) [0..<4]"

fun from_le :: "u8 list \<Rightarrow> 'w::len word" where
  "from_le [] = 0"
| "from_le (b # bs) = or (ucast b) (push_bit 8 (from_le bs))"

definition or_bounds :: "'a option \<Rightarrow> scalar_error + 'a" where
  "or_bounds r = (case r of None \<Rightarrow> Inl SE_OutOfBounds | Some x \<Rightarrow> Inr x)"

fun write_scalar_le :: "float_ops \<Rightarrow> kvalue \<Rightarrow> u8 list \<Rightarrow> nat \<Rightarrow> nat \<Rightarrow> nat \<Rightarrow> scalar_error + u8 list" where
  "write_scalar_le fo V_Unit dst offset wb fb = Inr dst"
| "write_scalar_le fo V_None dst offset wb fb = Inr dst"
| "write_scalar_le fo (V_Bool b) dst offset wb fb = or_bounds (put_slice dst offset [if b then 1 else 0])"
| "write_scalar_le fo (V_Byte b) dst offset wb fb = or_bounds (put_slice dst offset [b])"
| "write_scalar_le fo (V_Int w) dst offset wb fb =
     (if wb > 8 then Inl SE_UnsupportedWidth else or_bounds (put_slice dst offset (take wb (le8 (to_i64 w)))))"
| "write_scalar_le fo (V_Fixed w) dst offset wb fb =
     (if wb > 8 then Inl SE_UnsupportedWidth else or_bounds (put_slice dst offset (take wb (le8 (to_i64 w)))))"
| "write_scalar_le fo (V_Float f) dst offset wb fb =
     (if fb = 8 then or_bounds (put_slice dst offset (le8 f))
      else if fb = 4 then or_bounds (put_slice dst offset (le4 (fo_to_f32 fo f)))
      else Inl SE_UnsupportedWidth)"
| "write_scalar_le fo (V_KStr ks) dst offset wb fb =
     (if wb < 8 then Inl SE_UnsupportedWidth
      else if wb > 8 then Inl SE_Panic
      else bindR (or_bounds (put_slice dst offset (le8 (of_nat (ks_addr ks)))))
             (\<lambda>dst. or_bounds (put_slice dst (offset + wb) (le8 (of_nat (ks_len ks))))))"
| "write_scalar_le fo _ dst offset wb fb = Inl SE_UnsupportedWidth"

text \<open>The sign extension of a narrow word from its top bit.\<close>

definition read_word_le :: "u8 list \<Rightarrow> nat \<Rightarrow> nat \<Rightarrow> scalar_error + u64" where
  "read_word_le src offset wb =
     (if wb > 8 then Inl SE_UnsupportedWidth
      else bindR (or_bounds (get_slice src offset wb)) (\<lambda>bs.
        let n = from_le bs in
        if wb = 0 then Inl SE_Panic
        else if wb < 8 \<and> and n (push_bit (wb * 8 - 1) 1) \<noteq> 0 then Inr (or n (not (push_bit (wb * 8) 1 - 1)))
        else Inr n))"

fun read_scalar_le :: "float_ops \<Rightarrow> u8 list \<Rightarrow> nat \<Rightarrow> scalar_kind \<Rightarrow> nat \<Rightarrow> nat \<Rightarrow> scalar_error + kvalue" where
  "read_scalar_le fo src offset SK_Unit wb fb = Inr V_Unit"
| "read_scalar_le fo src offset SK_Bool wb fb = bindR (or_bounds (nth_opt src offset)) (\<lambda>b. Inr (V_Bool (b \<noteq> 0)))"
| "read_scalar_le fo src offset SK_Byte wb fb = bindR (or_bounds (nth_opt src offset)) (\<lambda>b. Inr (V_Byte b))"
| "read_scalar_le fo src offset SK_Int wb fb = bindR (read_word_le src offset wb) (\<lambda>n. Inr (V_Int (from_i64_wrap n)))"
| "read_scalar_le fo src offset SK_Fixed wb fb = bindR (read_word_le src offset wb) (\<lambda>n. Inr (V_Fixed (from_i64_wrap n)))"
| "read_scalar_le fo src offset SK_Float wb fb =
     (if fb = 8 then bindR (or_bounds (get_slice src offset 8)) (\<lambda>bs. Inr (V_Float (from_le bs)))
      else if fb = 4 then bindR (or_bounds (get_slice src offset 4)) (\<lambda>bs. Inr (V_Float (fo_of_f32 fo (from_le bs))))
      else Inl SE_UnsupportedWidth)"
| "read_scalar_le fo src offset SK_Text wb fb = Inl SE_ReferenceKind"
| "read_scalar_le fo src offset SK_Opaque wb fb = Inl SE_ReferenceKind"

section \<open>Flat eligibility and packing\<close>

fun flat_tuple_scalar_kind :: "kvalue \<Rightarrow> scalar_kind option" where
  "flat_tuple_scalar_kind V_Unit = Some SK_Unit"
| "flat_tuple_scalar_kind (V_Bool b) = Some SK_Bool"
| "flat_tuple_scalar_kind (V_Byte b) = Some SK_Byte"
| "flat_tuple_scalar_kind (V_Int w) = Some SK_Int"
| "flat_tuple_scalar_kind (V_Fixed w) = Some SK_Fixed"
| "flat_tuple_scalar_kind (V_Float f) = Some SK_Float"
| "flat_tuple_scalar_kind (V_KStr ks) = Some SK_Text"
| "flat_tuple_scalar_kind _ = None"

definition flat_field_size :: "kvalue \<Rightarrow> nat \<Rightarrow> nat \<Rightarrow> nat \<Rightarrow> nat option" where
  "flat_field_size v wb fb ab =
     (case v of
        V_OpaqueRef i \<Rightarrow> Some (size_in_bytes SK_Opaque wb fb ab)
      | _ \<Rightarrow> (case flat_tuple_scalar_kind v of
                Some kind \<Rightarrow> Some (size_in_bytes kind wb fb ab)
              | None \<Rightarrow> map_option fc_len (flat_composite_ref v)))"

fun flat_tuple_element_with_refs :: "kvalue \<Rightarrow> nat \<Rightarrow> nat \<Rightarrow> nat \<Rightarrow> bool" where
  "flat_tuple_element_with_refs (V_OpaqueRef i) wb fb ab = True"
| "flat_tuple_element_with_refs (V_StaticStr s) wb fb ab = (8 \<le> wb)"
| "flat_tuple_element_with_refs (V_KStr ks) wb fb ab = (8 \<le> wb)"
| "flat_tuple_element_with_refs v wb fb ab = (flat_field_size v wb fb ab \<noteq> None)"

text \<open>The sum of the field sizes, if every field is eligible.\<close>

fun flat_sizes :: "kvalue list \<Rightarrow> nat \<Rightarrow> nat \<Rightarrow> nat \<Rightarrow> nat option" where
  "flat_sizes [] wb fb ab = Some 0"
| "flat_sizes (v # vs) wb fb ab =
     (case flat_field_size v wb fb ab of
        None \<Rightarrow> None
      | Some n \<Rightarrow> map_option (\<lambda>k. n + k) (flat_sizes vs wb fb ab))"

definition ok_opt :: "'e + 'a \<Rightarrow> 'a option" where
  "ok_opt r = (case r of Inl e \<Rightarrow> None | Inr x \<Rightarrow> Some x)"

text \<open>The fill closure: one field at the running offset; \<open>None\<close> aborts the pack.\<close>

definition pack_field ::
  "float_ops \<Rightarrow> image \<Rightarrow> nat \<Rightarrow> nat \<Rightarrow> nat \<Rightarrow> arena \<Rightarrow> kvalue \<Rightarrow> u8 list \<times> nat \<Rightarrow> (u8 list \<times> nat) option" where
  "pack_field fo im wb fb ab a v st =
     (case st of (dst, off) \<Rightarrow>
       case v of
         V_OpaqueRef index \<Rightarrow>
           (let field = size_in_bytes SK_Opaque wb fb ab; le = le8 (ucast index) in
            if field > length le \<or> (\<exists>b \<in> set (drop field le). b \<noteq> 0) then None
            else map_option (\<lambda>d. (d, off + field)) (put_slice dst off (take field le)))
       | _ \<Rightarrow>
         (case flat_tuple_scalar_kind v of
            Some kind \<Rightarrow> map_option (\<lambda>d. (d, off + size_in_bytes kind wb fb ab)) (ok_opt (write_scalar_le fo v dst off wb fb))
          | None \<Rightarrow>
            (case flat_composite_ref v of
               Some fc \<Rightarrow>
                 (case fc_resolve fc a im of
                    Inl _ \<Rightarrow> None
                  | Inr bs \<Rightarrow> map_option (\<lambda>d. (d, off + length bs)) (put_slice dst off bs))
             | None \<Rightarrow> None)))"

fun pack_fields ::
  "float_ops \<Rightarrow> image \<Rightarrow> nat \<Rightarrow> nat \<Rightarrow> nat \<Rightarrow> arena \<Rightarrow> kvalue list \<Rightarrow> u8 list \<times> nat \<Rightarrow> (u8 list \<times> nat) option" where
  "pack_fields fo im wb fb ab a [] st = Some st"
| "pack_fields fo im wb fb ab a (v # vs) st = Option.bind (pack_field fo im wb fb ab a v st) (pack_fields fo im wb fb ab a vs)"

text \<open>\<open>pack_flat_in_arena\<close>; the slack behind the fields is zeroed.\<close>

definition pack_flat_in_arena ::
  "float_ops \<Rightarrow> image \<Rightarrow> kvalue list \<Rightarrow> nat \<Rightarrow> nat \<Rightarrow> nat \<Rightarrow> nat \<Rightarrow> arena \<Rightarrow> alloc_error + flat_composite option \<times> arena" where
  "pack_flat_in_arena fo im vs min_bytes wb fb ab a =
     (case flat_sizes vs wb fb ab of
        None \<Rightarrow> Inr (None, a)
      | Some packed \<Rightarrow>
          let n = max packed min_bytes in
          if n > 65535 then Inr (None, a)
          else build_in_arena a n (\<lambda>b.
            map_option (\<lambda>(dst, off). take off dst @ replicate (n - off) 0)
              (pack_fields fo im wb fb ab b vs (replicate n 0, 0))))"

section \<open>Boxed composites\<close>

fun new_composite_boxed :: "composite_kind \<Rightarrow> string \<Rightarrow> string list \<Rightarrow> kvalue list \<Rightarrow> kvalue" where
  "new_composite_boxed CK_Tuple type_name names vs = V_Tuple (Boxed vs)"
| "new_composite_boxed CK_Array type_name names vs = V_Array (Boxed vs)"
| "new_composite_boxed CK_Struct type_name names vs = V_Struct (Boxed (BoxedStruct type_name (zip names vs)))"
| "new_composite_boxed CK_Enum type_name names vs =
     V_Enum (Boxed (BoxedEnum type_name (case names of [] \<Rightarrow> [] | n # _ \<Rightarrow> n) 0 0 vs))"

section \<open>Equality\<close>

text \<open>
  \<open>PartialEq\<close> of values.  Flat bodies are equal only if both are empty, since the comparison has no arena
  to read them with; handles of strings compare by their epoch; the hints of a boxed enum are ignored.
\<close>

definition flat_eq :: "flat_composite \<Rightarrow> flat_composite \<Rightarrow> bool" where
  "flat_eq a b = (fc_len a = 0 \<and> fc_len b = 0)"

fun kvalue_eq :: "float_ops \<Rightarrow> kvalue \<Rightarrow> kvalue \<Rightarrow> bool"
  and kvalues_eq :: "float_ops \<Rightarrow> kvalue list \<Rightarrow> kvalue list \<Rightarrow> bool"
  and fields_eq :: "float_ops \<Rightarrow> (string \<times> kvalue) list \<Rightarrow> (string \<times> kvalue) list \<Rightarrow> bool" where
  "kvalue_eq fo V_Unit v = (v = V_Unit)"
| "kvalue_eq fo V_None v = (v = V_None)"
| "kvalue_eq fo (V_Bool a) v = (v = V_Bool a)"
| "kvalue_eq fo (V_Int a) v = (v = V_Int a)"
| "kvalue_eq fo (V_Byte a) v = (v = V_Byte a)"
| "kvalue_eq fo (V_Fixed a) v = (v = V_Fixed a)"
| "kvalue_eq fo (V_Float a) v = (case v of V_Float b \<Rightarrow> fo_eq fo a b | _ \<Rightarrow> False)"
| "kvalue_eq fo (V_StaticStr a) v = (v = V_StaticStr a)"
| "kvalue_eq fo (V_KStr a) v = (case v of V_KStr b \<Rightarrow> ks_epoch a = ks_epoch b | _ \<Rightarrow> False)"
| "kvalue_eq fo (V_Tuple (Flat a)) v = (case v of V_Tuple (Flat b) \<Rightarrow> flat_eq a b | _ \<Rightarrow> False)"
| "kvalue_eq fo (V_Tuple (Boxed xs)) v = (case v of V_Tuple (Boxed ys) \<Rightarrow> kvalues_eq fo xs ys | _ \<Rightarrow> False)"
| "kvalue_eq fo (V_Array (Flat a)) v = (case v of V_Array (Flat b) \<Rightarrow> flat_eq a b | _ \<Rightarrow> False)"
| "kvalue_eq fo (V_Array (Boxed xs)) v = (case v of V_Array (Boxed ys) \<Rightarrow> kvalues_eq fo xs ys | _ \<Rightarrow> False)"
| "kvalue_eq fo (V_Struct (Flat a)) v = (case v of V_Struct (Flat b) \<Rightarrow> flat_eq a b | _ \<Rightarrow> False)"
| "kvalue_eq fo (V_Struct (Boxed (BoxedStruct n xs))) v =
     (case v of V_Struct (Boxed (BoxedStruct m ys)) \<Rightarrow> n = m \<and> fields_eq fo xs ys | _ \<Rightarrow> False)"
| "kvalue_eq fo (V_Enum (Flat a)) v = (case v of V_Enum (Flat b) \<Rightarrow> flat_eq a b | _ \<Rightarrow> False)"
| "kvalue_eq fo (V_Enum (Boxed (BoxedEnum n c _ _ xs))) v =
     (case v of V_Enum (Boxed (BoxedEnum m d _ _ ys)) \<Rightarrow> n = m \<and> c = d \<and> kvalues_eq fo xs ys | _ \<Rightarrow> False)"
| "kvalue_eq fo (V_OpaqueRef a) v = (v = V_OpaqueRef a)"
| "kvalues_eq fo [] ys = (ys = [])"
| "kvalues_eq fo (x # xs) ys = (case ys of [] \<Rightarrow> False | y # ys' \<Rightarrow> kvalue_eq fo x y \<and> kvalues_eq fo xs ys')"
| "fields_eq fo [] ys = (ys = [])"
| "fields_eq fo ((k, x) # xs) ys =
     (case ys of [] \<Rightarrow> False | (l, y) # ys' \<Rightarrow> k = l \<and> kvalue_eq fo x y \<and> fields_eq fo xs ys')"

end
