(* ===== verification/Machine_State.thy ===== *)
theory Machine_State
  imports Machine_Values
begin

text \<open>
  The state of the virtual machine (\<open>src/src/vm.rs\<close>): operand stack, call frames, arena, data segment,
  breakpoints and the flags of suspension; constants and data slots.  The operand stack is a list with its
  top at the end, as the \<open>Vec\<close> of the code; the frames have the innermost one first.

  Parameters of the machine, in the record \<open>host\<close>: the operations on floats; the constant memory and the
  address of a string constant in it; the pooled templates of constant composites, which the constructor
  builds; the registered natives and their classification; the conversion of a host value into a machine value at the machine's
  boundary (\<open>correct_native_enum_hints\<close>, \<open>into_arena_canonical\<close> and \<open>intern_opaque_arcs\<close>); and whether
  \<open>try_reserve\<close> of the arena-backed vectors, a third-party container, finds room, also when the vectors are reserved anew after an error.  Messages of
  errors are left out.  \<open>VM_Panic\<close> is not a \<open>VmError\<close>: it marks where the Rust code would panic.
\<close>

section \<open>Errors and outcomes\<close>

datatype vm_error =
    VM_StackUnderflow | VM_TypeError | VM_DivisionByZero | VM_IndexOutOfBounds int nat
  | VM_FieldNotFound string string | VM_NativeError | VM_NativeErrorCode u64 | VM_InvalidBytecode
  | VM_RefinementFailed | VM_NoMatchingHead | VM_NoMatchingArm | VM_CheckedArithNoArm | VM_EnumVariantUnmapped
  | VM_AssertionFailed | VM_LoopLimitExceeded | VM_VerifyError | VM_LoadError | VM_OutOfArena | VM_NotSuspended
  | VM_HostHalt | VM_Panic

datatype vm_error_category = Halt | SoftScript | SoftHost

text \<open>A panic unwinds the host, which the code does not classify; it is put with the errors that halt.\<close>

fun error_category :: "vm_error \<Rightarrow> vm_error_category" where
  "error_category VM_TypeError = SoftScript"
| "error_category VM_DivisionByZero = SoftScript"
| "error_category (VM_IndexOutOfBounds i n) = SoftScript"
| "error_category (VM_FieldNotFound t f) = SoftScript"
| "error_category VM_RefinementFailed = SoftScript"
| "error_category VM_NoMatchingHead = SoftScript"
| "error_category VM_NoMatchingArm = SoftScript"
| "error_category VM_CheckedArithNoArm = SoftScript"
| "error_category VM_EnumVariantUnmapped = SoftScript"
| "error_category VM_AssertionFailed = SoftScript"
| "error_category VM_LoopLimitExceeded = SoftScript"
| "error_category VM_NativeError = SoftHost"
| "error_category (VM_NativeErrorCode c) = SoftHost"
| "error_category _ = Halt"

datatype vm_state = Yielded kvalue | Finished kvalue | Reset_Reached | BreakpointHit nat nat

section \<open>State\<close>

text \<open>
  With \<open>ExecutionChecks::Proven\<close> (\<open>vm_proven\<close>) a proof must be present (\<open>vm_pop_proof\<close>), and a state of the proof
  restricts which entry point may run next.
\<close>

datatype proof_state =
    PS_Inactive | PS_Ready | PS_Prepared | PS_Yielded | PS_Reset | PS_Breakpoint | PS_Finished | PS_Poisoned

record call_frame =
  cf_chunk :: nat
  cf_ip :: nat
  cf_base :: nat

record vm =
  vm_stack :: "kvalue list"
  vm_frames :: "call_frame list"
  vm_arena :: arena
  vm_private :: "kvalue list"
  vm_shared :: "u8 list option"
  vm_breakpoints :: "(nat \<times> nat) list"
  vm_skip_breakpoint_at :: "(nat \<times> nat) option"
  vm_reified_host_error :: "vm_error option"
  vm_fault_location :: "(nat \<times> nat) option"
  vm_started :: bool
  vm_suspended_at_reset :: bool
  vm_proven :: bool
  vm_pop_proof :: bool
  vm_proof_state :: proof_state

record host =
  h_floats :: float_ops
  h_image :: image
  h_str_addr :: "nat \<Rightarrow> nat \<Rightarrow> nat"
  h_templates :: "nat \<Rightarrow> nat \<Rightarrow> kvalue option"
  h_import :: "arena \<Rightarrow> kvalue \<Rightarrow> alloc_error + kvalue \<times> arena"
  h_native_external :: "string \<Rightarrow> bool"
  h_rereserve :: "arena \<Rightarrow> arena"
  h_native :: "string \<Rightarrow> (arena \<Rightarrow> kvalue list \<Rightarrow> (vm_error + kvalue) \<times> arena) option"
  h_reserve_stack :: "arena \<Rightarrow> nat \<Rightarrow> arena option"
  h_reserve_frames :: "arena \<Rightarrow> nat \<Rightarrow> arena option"

section \<open>The module\<close>

definition chunk_op_count :: "kmodule \<Rightarrow> nat \<Rightarrow> nat" where
  "chunk_op_count m ci = (case nth_opt (m_chunks m) ci of None \<Rightarrow> 0 | Some c \<Rightarrow> length (ch_ops c))"

definition chunk_local_count :: "kmodule \<Rightarrow> nat \<Rightarrow> nat" where
  "chunk_local_count m ci = (case nth_opt (m_chunks m) ci of None \<Rightarrow> 0 | Some c \<Rightarrow> unat (ch_local_count c))"

definition module_word_bytes :: "kmodule \<Rightarrow> nat" where
  "module_word_bytes m = 2 ^ unat (m_word_bits_log2 m) div 8"

definition module_float_bytes :: "kmodule \<Rightarrow> nat" where
  "module_float_bytes m = 2 ^ unat (m_float_bits_log2 m) div 8"

definition module_addr_bytes :: "kmodule \<Rightarrow> nat" where
  "module_addr_bytes m = 2 ^ unat (m_addr_bits_log2 m) div 8"

definition narrow_float :: "float_ops \<Rightarrow> kmodule \<Rightarrow> u64 \<Rightarrow> u64" where
  "narrow_float fo m v =
     (if 6 \<le> m_float_bits_log2 m then v
      else if m_float_bits_log2 m = 5 then fo_of_f32 fo (fo_to_f32 fo v) else v)"

section \<open>Constants\<close>

fun from_const :: "const_value \<Rightarrow> kvalue" where
  "from_const CV_Unit = V_Unit"
| "from_const (CV_Bool b) = V_Bool b"
| "from_const (CV_Int i) = V_Int (from_i64_wrap i)"
| "from_const (CV_Byte b) = V_Byte b"
| "from_const (CV_Fixed i) = V_Fixed (from_i64_wrap i)"
| "from_const (CV_Float f) = V_Float f"
| "from_const (CV_StaticStr s) = V_StaticStr s"
| "from_const (CV_Tuple items) = V_Tuple (Boxed (map from_const items))"
| "from_const (CV_Array items) = V_Array (Boxed (map from_const items))"
| "from_const (CV_Struct type_name fs) =
     V_Struct (Boxed (BoxedStruct type_name (map (\<lambda>(k, v). (k, from_const v)) fs)))"
| "from_const (CV_Enum type_name variant disc fs) =
     (case disc of
        Some d \<Rightarrow> V_Enum (Boxed (BoxedEnum type_name variant d 0 (map from_const fs)))
      | None \<Rightarrow> V_Enum (Boxed (BoxedEnum type_name variant 0 0 (map from_const fs))))"
| "from_const CV_None = V_None"

definition module_const :: "kmodule \<Rightarrow> nat \<Rightarrow> nat \<Rightarrow> const_value option" where
  "module_const m ci idx = Option.bind (nth_opt (m_chunks m) ci) (\<lambda>c. nth_opt (ch_constants c) idx)"

definition chunk_const_str :: "kmodule \<Rightarrow> nat \<Rightarrow> nat \<Rightarrow> string option" where
  "chunk_const_str m ci idx = (case module_const m ci idx of Some (CV_StaticStr s) \<Rightarrow> Some s | _ \<Rightarrow> None)"

definition chunk_const :: "host \<Rightarrow> kmodule \<Rightarrow> nat \<Rightarrow> nat \<Rightarrow> kvalue" where
  "chunk_const h m ci idx =
     (case chunk_const_str m ci idx of
        Some s \<Rightarrow>
          if s = [] then V_StaticStr []
          else V_KStr \<lparr> ks_addr = h_str_addr h ci idx, ks_len = length s, ks_epoch = 0 \<rparr>
      | None \<Rightarrow>
          (case h_templates h ci idx of
             Some template \<Rightarrow> template
           | None \<Rightarrow> (case module_const m ci idx of Some v \<Rightarrow> from_const v | None \<Rightarrow> V_Unit)))"

definition module_template :: "kmodule \<Rightarrow> nat \<Rightarrow> nat \<Rightarrow> string \<times> string list" where
  "module_template m ci idx =
     (case Option.bind (nth_opt (m_chunks m) ci) (\<lambda>c. nth_opt (ch_struct_templates c) idx) of
        None \<Rightarrow> ([], [])
      | Some t \<Rightarrow> (st_type_name t, st_field_names t))"

section \<open>Strings\<close>

text \<open>The bytes of a string, and the number of characters of valid UTF-8: all but continuation bytes.\<close>

definition string_bytes :: "string \<Rightarrow> u8 list" where
  "string_bytes s = map of_char s"

definition ks_resolve :: "kstring \<Rightarrow> arena \<Rightarrow> image \<Rightarrow> stale + u8 list" where
  "ks_resolve ks a im =
     bindR (handle_get \<lparr> ah_addr = ks_addr ks, ah_epoch = ks_epoch ks \<rparr> a) (\<lambda>addr. Inr (bytes_at a im addr (ks_len ks)))"

definition utf8_chars :: "u8 list \<Rightarrow> nat" where
  "utf8_chars bs = length (filter (\<lambda>b. and b 0xC0 \<noteq> 0x80) bs)"

fun as_str_with_arena :: "kvalue \<Rightarrow> arena \<Rightarrow> image \<Rightarrow> stale + u8 list option" where
  "as_str_with_arena (V_StaticStr s) a im = Inr (Some (string_bytes s))"
| "as_str_with_arena (V_KStr ks) a im = bindR (ks_resolve ks a im) (\<lambda>bs. Inr (Some bs))"
| "as_str_with_arena v a im = Inr None"

text \<open>\<open>KString::alloc\<close>: a copy of the string in the top region.\<close>

definition kstring_alloc :: "arena \<Rightarrow> string \<Rightarrow> alloc_error + kstring \<times> arena" where
  "kstring_alloc a s =
     bindR (alloc_top_bytes (length s) a) (\<lambda>(off, b).
       Inr (\<lparr> ks_addr = ar_base b + off, ks_len = length s, ks_epoch = ar_epoch b \<rparr>, write_arena b off (string_bytes s)))"

section \<open>Reading a scalar field\<close>

definition of_stale :: "stale + 'a \<Rightarrow> vm_error + 'a" where
  "of_stale r = (case r of Inl Stale \<Rightarrow> Inl VM_InvalidBytecode | Inr x \<Rightarrow> Inr x)"

definition of_scalar :: "scalar_error + 'a \<Rightarrow> vm_error + 'a" where
  "of_scalar r = (case r of Inl SE_Panic \<Rightarrow> Inl VM_Panic | Inl _ \<Rightarrow> Inl VM_InvalidBytecode | Inr x \<Rightarrow> Inr x)"

definition of_alloc :: "alloc_error + 'a \<Rightarrow> vm_error + 'a" where
  "of_alloc r = (case r of Inl AllocError \<Rightarrow> Inl VM_OutOfArena | Inr x \<Rightarrow> Inr x)"

definition of_bounds :: "'a option \<Rightarrow> vm_error + 'a" where
  "of_bounds r = (case r of None \<Rightarrow> Inl VM_InvalidBytecode | Some x \<Rightarrow> Inr x)"

text \<open>One word of a flat \<open>Text\<close> field, unsigned.\<close>

definition read_text_word :: "u8 list \<Rightarrow> nat \<Rightarrow> nat \<Rightarrow> vm_error + nat" where
  "read_text_word bs wb o' =
     bindR (of_bounds (get_slice bs o' wb)) (\<lambda>src. if wb > 8 then Inl VM_Panic else Inr (unat (from_le src :: u64)))"

definition read_flat_scalar ::
  "host \<Rightarrow> kmodule \<Rightarrow> u8 list \<Rightarrow> nat \<Rightarrow> scalar_kind \<Rightarrow> nat \<Rightarrow> vm_error + kvalue" where
  "read_flat_scalar h m bs offset kind ref_epoch =
     (let wb = module_word_bytes m; fb = module_float_bytes m in
      case kind of
        SK_Opaque \<Rightarrow>
          (let field = size_in_bytes SK_Opaque wb fb (module_addr_bytes m) in
           bindR (of_bounds (if field \<le> 8 then get_slice bs offset field else None))
             (\<lambda>src. Inr (V_OpaqueRef (ucast (from_le src :: u64)))))
      | SK_Text \<Rightarrow>
          bindR (read_text_word bs wb offset) (\<lambda>ptr.
          bindR (read_text_word bs wb (offset + wb)) (\<lambda>len.
            if ptr = 0 then Inr (V_StaticStr [])
            else Inr (V_KStr \<lparr> ks_addr = ptr, ks_len = len, ks_epoch = ref_epoch \<rparr>)))
      | _ \<Rightarrow> of_scalar (read_scalar_le (h_floats h) bs offset kind wb fb))"

section \<open>The data segment\<close>

definition shared_slot_count :: "kmodule \<Rightarrow> nat" where
  "shared_slot_count m =
     (case m_data_layout m of None \<Rightarrow> 0 | Some dl \<Rightarrow> length (filter (\<lambda>s. slot_visibility s = Shared) (dl_slots dl)))"

definition private_slot_count :: "kmodule \<Rightarrow> nat" where
  "private_slot_count m = data_len m - shared_slot_count m"

text \<open>The entry of a private composite slot: the first one, in a table sorted by slot.\<close>

definition private_composite_pool_offset :: "kmodule \<Rightarrow> nat \<Rightarrow> nat option" where
  "private_composite_pool_offset m slot =
     (case m_data_layout m of
        None \<Rightarrow> None
      | Some dl \<Rightarrow>
          if slot < 65536
          then map_option (\<lambda>e. unat (pcs_offset e))
                 (List.find (\<lambda>e. unat (pcs_slot e) = slot) (dl_private_composite_layout dl))
          else None)"

definition private_storage :: "kmodule \<Rightarrow> nat" where
  "private_storage m = private_slot_count m * 32"

definition private_composite_slot_end :: "kmodule \<Rightarrow> arena \<Rightarrow> nat \<Rightarrow> nat" where
  "private_composite_slot_end m a rel_offset =
     (let pool = ar_persistent a - private_storage m in
      case m_data_layout m of
        None \<Rightarrow> pool
      | Some dl \<Rightarrow>
          (let higher = filter (\<lambda>o'. rel_offset < o') (map (\<lambda>e. unat (pcs_offset e)) (dl_private_composite_layout dl)) in
           if higher = [] then pool else Min (set higher)))"

definition shared_layout_entry :: "kmodule \<Rightarrow> nat \<Rightarrow> shared_slot_layout option" where
  "shared_layout_entry m slot = Option.bind (m_data_layout m) (\<lambda>dl. nth_opt (dl_shared_layout dl) slot)"

definition read_shared_from_buffer :: "host \<Rightarrow> kmodule \<Rightarrow> vm \<Rightarrow> nat \<Rightarrow> vm_error + kvalue \<times> arena" where
  "read_shared_from_buffer h m vm slot =
     (case shared_layout_entry m slot of
        None \<Rightarrow> Inl VM_Panic
      | Some e \<Rightarrow>
        (case vm_shared vm of
           None \<Rightarrow> Inl VM_NativeError
         | Some buf \<Rightarrow>
             if \<not> shared_slot_is_composite e then
               (case scalar_from_tag (ssl_kind e) of
                  None \<Rightarrow> Inl VM_InvalidBytecode
                | Some sk \<Rightarrow>
                    bindR (of_scalar (read_scalar_le (h_floats h) buf (unat (ssl_offset e)) sk (module_word_bytes m) (module_float_bytes m)))
                      (\<lambda>v. Inr (v, vm_arena vm)))
             else
               (case composite_from_tag (and (ssl_kind e) (not 0x80)) of
                  None \<Rightarrow> Inl VM_InvalidBytecode
                | Some ck \<Rightarrow>
                    (case get_slice buf (unat (ssl_offset e)) (unat (ssl_len e)) of
                       None \<Rightarrow> Inl VM_Panic
                     | Some src \<Rightarrow>
                         bindR (of_alloc (build_in_arena (vm_arena vm) (unat (ssl_len e)) (\<lambda>_. Some src))) (\<lambda>(fc, b).
                           case fc of None \<Rightarrow> Inl VM_InvalidBytecode | Some fc \<Rightarrow> Inr (wrap_flat ck fc, b))))))"

definition read_data_slot :: "host \<Rightarrow> kmodule \<Rightarrow> vm \<Rightarrow> nat \<Rightarrow> vm_error + kvalue \<times> arena" where
  "read_data_slot h m vm slot =
     (if slot < shared_slot_count m then read_shared_from_buffer h m vm slot
      else case nth_opt (vm_private vm) (slot - shared_slot_count m) of
             None \<Rightarrow> Inl VM_Panic
           | Some v \<Rightarrow> Inr (v, vm_arena vm))"

text \<open>The body of a private composite is copied to its place behind the table of private values.\<close>

definition persist_composite_body :: "host \<Rightarrow> kmodule \<Rightarrow> arena \<Rightarrow> kvalue \<Rightarrow> nat \<Rightarrow> vm_error + kvalue \<times> arena" where
  "persist_composite_body h m a v rel_offset =
     (case flat_composite_ref v of
        None \<Rightarrow> Inl VM_Panic
      | Some fc \<Rightarrow>
          bindR (of_stale (fc_resolve fc a (h_image h))) (\<lambda>bs.
            let dst_off = private_storage m + rel_offset in
            if rel_offset + length bs > private_composite_slot_end m a rel_offset then Inl VM_InvalidBytecode
            else if dst_off + length bs > ar_persistent a then Inl VM_OutOfArena
            else Inr (rewrap_flat_body v \<lparr> fc_addr = ar_base a + dst_off, fc_len = length bs, fc_epoch = ar_epoch a \<rparr>,
                      write_arena a dst_off bs)))"

definition write_shared_to_buffer :: "host \<Rightarrow> kmodule \<Rightarrow> vm \<Rightarrow> nat \<Rightarrow> kvalue \<Rightarrow> vm_error + vm" where
  "write_shared_to_buffer h m vm slot v =
     (case shared_layout_entry m slot of
        None \<Rightarrow> Inl VM_Panic
      | Some e \<Rightarrow>
          if \<not> shared_slot_is_composite e then
            (case vm_shared vm of
               None \<Rightarrow> Inl VM_NativeError
             | Some buf \<Rightarrow>
                 bindR (of_scalar (write_scalar_le (h_floats h) v buf (unat (ssl_offset e)) (module_word_bytes m) (module_float_bytes m)))
                   (\<lambda>buf. Inr (vm \<lparr> vm_shared := Some buf \<rparr>)))
          else
            (case flat_composite_ref v of
               None \<Rightarrow> Inl VM_TypeError
             | Some fc \<Rightarrow>
                 bindR (of_stale (fc_resolve fc (vm_arena vm) (h_image h))) (\<lambda>body.
                   if length body \<noteq> unat (ssl_len e) then Inl VM_InvalidBytecode
                   else case vm_shared vm of
                          None \<Rightarrow> Inl VM_NativeError
                        | Some buf \<Rightarrow>
                            (case put_slice buf (unat (ssl_offset e)) body of
                               None \<Rightarrow> Inl VM_Panic
                             | Some buf \<Rightarrow> Inr (vm \<lparr> vm_shared := Some buf \<rparr>)))))"

definition write_data_slot :: "host \<Rightarrow> kmodule \<Rightarrow> vm \<Rightarrow> nat \<Rightarrow> kvalue \<Rightarrow> vm_error + vm" where
  "write_data_slot h m vm slot v =
     (if slot < shared_slot_count m then write_shared_to_buffer h m vm slot v
      else
        (let private_idx = slot - shared_slot_count m in
         bindR (case (flat_composite_ref v, private_composite_pool_offset m slot) of
                  (Some fc, Some off) \<Rightarrow> persist_composite_body h m (vm_arena vm) v off
                | _ \<Rightarrow> Inr (v, vm_arena vm)) (\<lambda>(to_store, b).
           if private_idx < length (vm_private vm)
           then Inr (vm \<lparr> vm_private := (vm_private vm)[private_idx := to_store], vm_arena := b \<rparr>)
           else Inl VM_Panic)))"

end
