(* ===== verification/Machine_Ops.thy ===== *)
theory Machine_Ops
  imports Machine_State
begin

text \<open>
  What each instruction computes from its operands: one definition per arm of the dispatch loop
  (\<open>run_inner\<close> of \<open>src/src/vm.rs\<close>), from the popped values, in the order they were pushed, to the values
  pushed.  Theory \<open>Machine\<close> moves them between the stack and these functions.
\<close>

type_synonym pushed = "vm_error + kvalue list"

abbreviation wide_add :: "u64 \<Rightarrow> u64 \<Rightarrow> 128 word" where "wide_add x y \<equiv> widen x + widen y"
abbreviation wide_sub :: "u64 \<Rightarrow> u64 \<Rightarrow> 128 word" where "wide_sub x y \<equiv> widen x - widen y"
abbreviation wide_mul :: "u64 \<Rightarrow> u64 \<Rightarrow> 128 word" where "wide_mul x y \<equiv> widen x * widen y"

section \<open>Immediates, negation and conversions\<close>

definition exec_push_immediate :: "u8 \<Rightarrow> pushed" where
  "exec_push_immediate v =
     (if v = 0 then Inr [V_Unit]
      else if v = 1 then Inr [V_Bool True]
      else if v = 2 then Inr [V_Bool False]
      else if v = 3 then Inr [V_None]
      else if v \<le> 19 then Inr [V_Int (from_i64_wrap (ucast (v - 4)))]
      else Inl VM_InvalidBytecode)"

fun exec_neg :: "float_ops \<Rightarrow> kmodule \<Rightarrow> kvalue \<Rightarrow> pushed" where
  "exec_neg fo m (V_Byte x) = Inr [V_Byte (- x)]"
| "exec_neg fo m (V_Fixed x) = Inr [V_Fixed (- x)]"
| "exec_neg fo m (V_Float x) = Inr [V_Float (narrow_float fo m (float_neg x))]"
| "exec_neg fo m v = Inl VM_TypeError"

fun exec_not :: "kvalue \<Rightarrow> pushed" where
  "exec_not (V_Bool b) = Inr [V_Bool (\<not> b)]"
| "exec_not v = Inl VM_TypeError"

fun exec_int_to_float :: "float_ops \<Rightarrow> kmodule \<Rightarrow> kvalue \<Rightarrow> pushed" where
  "exec_int_to_float fo m (V_Int i) = Inr [V_Float (narrow_float fo m (fo_of_i64 fo (to_i64 i)))]"
| "exec_int_to_float fo m v = Inl VM_TypeError"

fun exec_float_to_int :: "float_ops \<Rightarrow> kvalue \<Rightarrow> pushed" where
  "exec_float_to_int fo (V_Float f) = Inr [V_Int (from_i64_wrap (fo_to_i64 fo f))]"
| "exec_float_to_int fo v = Inl VM_TypeError"

fun exec_word_to_byte :: "kvalue \<Rightarrow> pushed" where
  "exec_word_to_byte (V_Int i) = Inr [V_Byte (ucast (and (to_i64 i) 0xFF))]"
| "exec_word_to_byte v = Inl VM_TypeError"

fun exec_byte_to_word :: "kvalue \<Rightarrow> pushed" where
  "exec_byte_to_word (V_Byte b) = Inr [V_Int (from_i64_wrap (ucast b))]"
| "exec_byte_to_word v = Inl VM_TypeError"

fun exec_word_to_fixed :: "u8 \<Rightarrow> kvalue \<Rightarrow> pushed" where
  "exec_word_to_fixed frac_bits (V_Int i) =
     Inr [V_Fixed
       (if 128 \<le> frac_bits then
          (let v = sint (to_i64 i) in if v > 0 then word_max else if v < 0 then word_min else from_i64_wrap 0)
        else saturate_wide (push_bit (unat frac_bits) (widen i :: 128 word)))]"
| "exec_word_to_fixed frac_bits v = Inl VM_TypeError"

fun exec_fixed_to_word :: "u8 \<Rightarrow> kvalue \<Rightarrow> pushed" where
  "exec_fixed_to_word frac_bits (V_Fixed bits) = Inr [V_Int (signed_drop_bit (unat frac_bits) bits)]"
| "exec_fixed_to_word frac_bits v = Inl VM_TypeError"

section \<open>Plain arithmetic\<close>

definition exec_add ::
  "float_ops \<Rightarrow> kmodule \<Rightarrow> kvalue \<Rightarrow> kvalue \<Rightarrow> pushed"
where
  "exec_add fo m a b =
     (case (a, b) of
        (V_Byte x, V_Byte y) \<Rightarrow> Inr [V_Byte (x + y)]
      | (V_Fixed x, V_Fixed y) \<Rightarrow> Inr [V_Fixed (x + y)]
      | (V_Float x, V_Float y) \<Rightarrow> Inr [V_Float (narrow_float fo m (fo_add fo x y))]
      | _ \<Rightarrow> Inl VM_TypeError)"

text \<open>\<open>binary_arith\<close>: bytes go through the word operation and are masked.\<close>

definition binary_arith ::
  "float_ops \<Rightarrow> kmodule \<Rightarrow> (u64 \<Rightarrow> u64 \<Rightarrow> u64) \<Rightarrow> (u64 \<Rightarrow> u64 \<Rightarrow> u64) \<Rightarrow> kvalue \<Rightarrow> kvalue \<Rightarrow> pushed"
where
  "binary_arith fo m int_op float_op a b =
     (case (a, b) of
        (V_Byte x, V_Byte y) \<Rightarrow> Inr [V_Byte (ucast (and (to_i64 (int_op (from_i64_wrap (ucast x)) (from_i64_wrap (ucast y)))) 0xFF))]
      | (V_Fixed x, V_Fixed y) \<Rightarrow> Inr [V_Fixed (int_op x y)]
      | (V_Float x, V_Float y) \<Rightarrow> Inr [V_Float (narrow_float fo m (float_op x y))]
      | _ \<Rightarrow> Inl VM_TypeError)"

definition exec_fixed_mul ::
  "u8 \<Rightarrow> kvalue \<Rightarrow> kvalue \<Rightarrow> pushed"
where
  "exec_fixed_mul frac_bits a b =
     (case (a, b) of
        (V_Fixed x, V_Fixed y) \<Rightarrow> Inr [V_Fixed (saturate_wide (signed_drop_bit (unat frac_bits) (wide_mul x y)))]
      | _ \<Rightarrow> Inl VM_TypeError)"

definition exec_fixed_div ::
  "u8 \<Rightarrow> kvalue \<Rightarrow> kvalue \<Rightarrow> pushed"
where
  "exec_fixed_div frac_bits a b =
     (case (a, b) of
        (V_Fixed x, V_Fixed y) \<Rightarrow> (if y = 0 then Inr [V_Fixed x, V_Fixed 0, V_Int 3]
          else Inr [V_Fixed (saturate_wide (sdivide (push_bit (unat frac_bits) (widen x :: 128 word)) (widen y))),
                    V_Fixed 0, V_Int 0])
      | _ \<Rightarrow> Inl VM_TypeError)"

section \<open>Checked arithmetic\<close>

definition int_outputs :: "kmodule \<Rightarrow> 128 word \<Rightarrow> kvalue list" where
  "int_outputs m r =
     (case checked_arith_outputs TYPE(64) r (m_word_bits_log2 m) of (low, high, flag) \<Rightarrow> [V_Int low, V_Int high, V_Int flag])"

definition fixed_outputs :: "128 word \<Rightarrow> kvalue list" where
  "fixed_outputs r =
     (case fixed_checked_outputs TYPE(64) r of (low, flag) \<Rightarrow> [V_Fixed low, V_Fixed 0, V_Int (from_i64_wrap flag)])"

definition float_outputs :: "u64 \<Rightarrow> kvalue list" where
  "float_outputs r = [V_Float r, V_Float 0, V_Int (from_i64_wrap (float_checked_flag r))]"

definition byte_outputs :: "int \<Rightarrow> u64 \<Rightarrow> kvalue list" where
  "byte_outputs r flag = [V_Byte (word_of_int r), V_Byte 0, V_Int (from_i64_wrap flag)]"

definition exec_checked_add ::
  "float_ops \<Rightarrow> kmodule \<Rightarrow> kvalue \<Rightarrow> kvalue \<Rightarrow> pushed"
where
  "exec_checked_add fo m a b =
     (case (a, b) of
        (V_Int x, V_Int y) \<Rightarrow> Inr (int_outputs m (wide_add x y))
      | (V_Byte x, V_Byte y) \<Rightarrow> (let r = uint x + uint y in Inr (byte_outputs r (if r > 0xFF then 1 else 0)))
      | (V_Float x, V_Float y) \<Rightarrow> Inr (float_outputs (narrow_float fo m (fo_add fo x y)))
      | (V_Fixed x, V_Fixed y) \<Rightarrow> Inr (fixed_outputs (wide_add x y))
      | _ \<Rightarrow> Inl VM_TypeError)"

definition exec_checked_sub ::
  "float_ops \<Rightarrow> kmodule \<Rightarrow> kvalue \<Rightarrow> kvalue \<Rightarrow> pushed"
where
  "exec_checked_sub fo m a b =
     (case (a, b) of
        (V_Int x, V_Int y) \<Rightarrow> Inr (int_outputs m (wide_sub x y))
      | (V_Byte x, V_Byte y) \<Rightarrow> (let r = uint x - uint y in Inr (byte_outputs r (if r < 0 then 2 else 0)))
      | (V_Float x, V_Float y) \<Rightarrow> Inr (float_outputs (narrow_float fo m (fo_sub fo x y)))
      | (V_Fixed x, V_Fixed y) \<Rightarrow> Inr (fixed_outputs (wide_sub x y))
      | _ \<Rightarrow> Inl VM_TypeError)"

definition exec_checked_mul ::
  "float_ops \<Rightarrow> kmodule \<Rightarrow> u8 \<Rightarrow> kvalue \<Rightarrow> kvalue \<Rightarrow> pushed"
where
  "exec_checked_mul fo m frac_bits a b =
     (case (a, b) of
        (V_Int x, V_Int y) \<Rightarrow> Inr (int_outputs m (wide_mul x y))
      | (V_Byte x, V_Byte y) \<Rightarrow> (let r = uint x * uint y in Inr (byte_outputs r (if r > 0xFF then 1 else 0)))
      | (V_Float x, V_Float y) \<Rightarrow> Inr (float_outputs (narrow_float fo m (fo_mul fo x y)))
      | (V_Fixed x, V_Fixed y) \<Rightarrow> (if 64 \<le> frac_bits then Inl VM_InvalidBytecode
          else Inr (fixed_outputs (signed_drop_bit (unat frac_bits) (wide_mul x y))))
      | _ \<Rightarrow> Inl VM_TypeError)"

fun exec_checked_neg :: "kmodule \<Rightarrow> kvalue \<Rightarrow> pushed" where
  "exec_checked_neg m (V_Int x) = Inr (int_outputs m (- widen x))"
| "exec_checked_neg m (V_Fixed x) = Inr (fixed_outputs (- widen x))"
| "exec_checked_neg m v = Inl VM_TypeError"

text \<open>\<open>Div\<close> and \<open>CheckedDiv\<close>: flag 3 with the numerator for a zero divisor.\<close>

definition exec_div ::
  "float_ops \<Rightarrow> kmodule \<Rightarrow> u8 \<Rightarrow> kvalue \<Rightarrow> kvalue \<Rightarrow> pushed"
where
  "exec_div fo m frac_bits a b =
     (case (a, b) of
        (V_Int x, V_Int y) \<Rightarrow> (if y = 0 then Inr [V_Int x, V_Int 0, V_Int 3]
          else Inr (int_outputs m (sdivide (widen x :: 128 word) (widen y))))
      | (V_Byte x, V_Byte y) \<Rightarrow> (if y = 0 then Inr [V_Byte x, V_Byte 0, V_Int 3] else Inr [V_Byte (x div y), V_Byte 0, V_Int 0])
      | (V_Float x, V_Float y) \<Rightarrow> Inr (float_outputs (narrow_float fo m (fo_div fo x y)))
      | (V_Fixed x, V_Fixed y) \<Rightarrow> (if y = 0 then Inr [V_Fixed x, V_Fixed 0, V_Int 3]
          else if 64 \<le> frac_bits then Inl VM_InvalidBytecode
          else Inr (fixed_outputs (sdivide (push_bit (unat frac_bits) (widen x :: 128 word)) (widen y))))
      | _ \<Rightarrow> Inl VM_TypeError)"

text \<open>\<open>Mod\<close> and \<open>CheckedMod\<close>; only the former takes floats.\<close>

definition exec_mod ::
  "float_ops \<Rightarrow> kmodule \<Rightarrow> bool \<Rightarrow> kvalue \<Rightarrow> kvalue \<Rightarrow> pushed"
where
  "exec_mod fo m floats a b =
     (case (a, b) of
        (V_Int x, V_Int y) \<Rightarrow> (if y = 0 then Inr [V_Int x, V_Int 0, V_Int 3]
          else let r = sremainder (widen x :: 128 word) (widen y)
               in Inr [V_Int (from_wide_wrap r), V_Int (from_wide_wrap (high_half 64 r)), V_Int 0])
      | (V_Byte x, V_Byte y) \<Rightarrow> (if y = 0 then Inr [V_Byte x, V_Byte 0, V_Int 3] else Inr [V_Byte (x mod y), V_Byte 0, V_Int 0])
      | (V_Fixed x, V_Fixed y) \<Rightarrow> (if y = 0 then Inr [V_Fixed x, V_Fixed 0, V_Int 3]
          else Inr [V_Fixed (from_wide_wrap (sremainder (widen x :: 128 word) (widen y))), V_Fixed 0, V_Int 0])
      | (V_Float x, V_Float y) \<Rightarrow> (if floats then Inr (float_outputs (narrow_float fo m (fo_rem fo x y))) else Inl VM_TypeError)
      | _ \<Rightarrow> Inl VM_TypeError)"

section \<open>Bits\<close>

definition exec_bitwise ::
  "(u64 \<Rightarrow> u64 \<Rightarrow> u64) \<Rightarrow> kvalue \<Rightarrow> kvalue \<Rightarrow> pushed"
where
  "exec_bitwise f a b =
     (case (a, b) of
        (V_Int x, V_Int y) \<Rightarrow> Inr [V_Int (f x y)]
      | _ \<Rightarrow> Inl VM_TypeError)"

text \<open>The count is taken modulo the width; a right shift keeps the sign.\<close>

definition shift_count :: "u64 \<Rightarrow> nat" where
  "shift_count c = unat (and (ucast (to_i64 c) :: u32) 63)"

definition exec_shl :: "kvalue \<Rightarrow> kvalue \<Rightarrow> pushed" where
  "exec_shl = exec_bitwise (\<lambda>v c. push_bit (shift_count c) v)"

definition exec_shr :: "kvalue \<Rightarrow> kvalue \<Rightarrow> pushed" where
  "exec_shr = exec_bitwise (\<lambda>v c. signed_drop_bit (shift_count c) v)"

section \<open>Comparison\<close>

fun is_string :: "kvalue \<Rightarrow> bool" where
  "is_string (V_StaticStr s) = True"
| "is_string (V_KStr ks) = True"
| "is_string v = False"

text \<open>The bytes of a string operand; a stale handle is a type error.\<close>

definition string_operand :: "host \<Rightarrow> arena \<Rightarrow> kvalue \<Rightarrow> vm_error + u8 list" where
  "string_operand h a v =
     (case as_str_with_arena v a (h_image h) of
        Inl Stale \<Rightarrow> Inl VM_TypeError | Inr None \<Rightarrow> Inr [] | Inr (Some bs) \<Rightarrow> Inr bs)"

definition string_content_eq :: "host \<Rightarrow> arena \<Rightarrow> kvalue \<Rightarrow> kvalue \<Rightarrow> vm_error + bool option" where
  "string_content_eq h a x y =
     (if is_string x \<and> is_string y
      then bindR (string_operand h a x) (\<lambda>xs. bindR (string_operand h a y) (\<lambda>ys. Inr (Some (xs = ys))))
      else Inr None)"

definition reject_untyped_flat_composite_cmp :: "kvalue \<Rightarrow> kvalue \<Rightarrow> vm_error + unit" where
  "reject_untyped_flat_composite_cmp a b =
     (if flat_composite_ref a \<noteq> None \<and> flat_composite_ref b \<noteq> None then Inl VM_TypeError else Inr ())"

text \<open>\<open>CmpEq\<close>, and with \<open>negate\<close> \<open>CmpNe\<close>.\<close>

definition exec_cmp_eq :: "host \<Rightarrow> arena \<Rightarrow> bool \<Rightarrow> kvalue \<Rightarrow> kvalue \<Rightarrow> pushed" where
  "exec_cmp_eq h a negate x y =
     bindR (string_content_eq h a x y) (\<lambda>r.
       case r of
         Some eq \<Rightarrow> Inr [V_Bool (eq \<noteq> negate)]
       | None \<Rightarrow> bindR (reject_untyped_flat_composite_cmp x y) (\<lambda>_. Inr [V_Bool (kvalue_eq (h_floats h) x y \<noteq> negate)]))"

text \<open>An ordering is an integer: negative, zero or positive.\<close>

fun bytes_cmp :: "u8 list \<Rightarrow> u8 list \<Rightarrow> int" where
  "bytes_cmp [] [] = 0"
| "bytes_cmp [] (y # ys) = -1"
| "bytes_cmp (x # xs) [] = 1"
| "bytes_cmp (x # xs) (y # ys) = (if x < y then -1 else if y < x then 1 else bytes_cmp xs ys)"

definition value_cmp ::
  "host \<Rightarrow> arena \<Rightarrow> kvalue \<Rightarrow> kvalue \<Rightarrow> vm_error + int"
where
  "value_cmp h ar a b =
     (case (a, b) of
        (V_Int x, V_Int y) \<Rightarrow> Inr (sgn (sint x - sint y))
      | (V_Byte x, V_Byte y) \<Rightarrow> Inr (sgn (uint x - uint y))
      | (V_Fixed x, V_Fixed y) \<Rightarrow> Inr (sgn (sint x - sint y))
      | (V_Float x, V_Float y) \<Rightarrow> Inr (case fo_partial_cmp (h_floats h) x y of Some c \<Rightarrow> c | None \<Rightarrow> 0)
      | _ \<Rightarrow> (if is_string a \<and> is_string b
          then bindR (string_operand h ar a) (\<lambda>xs. bindR (string_operand h ar b) (\<lambda>ys. Inr (bytes_cmp xs ys)))
          else Inl VM_TypeError))"

definition compare_op :: "host \<Rightarrow> arena \<Rightarrow> (int \<Rightarrow> bool) \<Rightarrow> kvalue \<Rightarrow> kvalue \<Rightarrow> pushed" where
  "compare_op h ar pred a b = bindR (value_cmp h ar a b) (\<lambda>ord. Inr [V_Bool (pred ord)])"

section \<open>Access to composites\<close>

text \<open>A flat scalar field and a nested composite field of a flat body.\<close>

definition flat_field :: "host \<Rightarrow> kmodule \<Rightarrow> arena \<Rightarrow> flat_composite \<Rightarrow> u16 \<Rightarrow> scalar_kind \<Rightarrow> pushed" where
  "flat_field h m a fc offset kind =
     bindR (of_stale (fc_resolve fc a (h_image h))) (\<lambda>bs.
     bindR (read_flat_scalar h m bs (unat offset) kind (fc_epoch fc)) (\<lambda>v. Inr [v]))"

definition nested_field :: "arena \<Rightarrow> flat_composite \<Rightarrow> u16 \<Rightarrow> u16 \<Rightarrow> composite_kind \<Rightarrow> pushed" where
  "nested_field a fc offset n variant =
     bindR (of_stale (flat_nested_field fc (unat offset) (unat n) variant a)) (\<lambda>v. Inr [v])"

definition boxed_field :: "kmodule \<Rightarrow> nat \<Rightarrow> u16 \<Rightarrow> kvalue boxed_struct \<Rightarrow> pushed" where
  "boxed_field m ci name_const b =
     (case b of BoxedStruct type_name fs \<Rightarrow>
       (case chunk_const_str m ci (unat name_const) of
          None \<Rightarrow> Inl VM_InvalidBytecode
        | Some field_name \<Rightarrow>
            (case map_of fs field_name of
               Some v \<Rightarrow> Inr [v]
             | None \<Rightarrow> Inl (VM_FieldNotFound type_name field_name))))"

definition boxed_element :: "kvalue list \<Rightarrow> u8 \<Rightarrow> pushed" where
  "boxed_element elems index =
     (if unat index \<ge> length elems then Inl (VM_IndexOutOfBounds (int (unat index)) (length elems))
      else Inr [elems ! unat index])"

definition exec_get_field :: "host \<Rightarrow> kmodule \<Rightarrow> nat \<Rightarrow> arena \<Rightarrow> struct_field \<Rightarrow> kvalue \<Rightarrow> pushed" where
  "exec_get_field h m ci a field v =
     (case v of
        V_Struct body \<Rightarrow>
          (case (field, body) of
             (SF_Flat offset kind, Flat fc) \<Rightarrow> flat_field h m a fc offset kind
           | (SF_FlatNested offset n variant, Flat fc) \<Rightarrow> nested_field a fc offset n variant
           | (SF_Boxed name_const, Boxed b) \<Rightarrow> boxed_field m ci name_const b
           | _ \<Rightarrow> Inl VM_InvalidBytecode)
      | _ \<Rightarrow> Inl VM_TypeError)"

definition exec_get_tuple_field :: "host \<Rightarrow> kmodule \<Rightarrow> arena \<Rightarrow> tuple_field \<Rightarrow> kvalue \<Rightarrow> pushed" where
  "exec_get_tuple_field h m a field v =
     (case v of
        V_Tuple body \<Rightarrow>
          (case (field, body) of
             (TF_Boxed index, Boxed elems) \<Rightarrow> boxed_element elems index
           | (TF_Flat offset kind, Flat fc) \<Rightarrow> flat_field h m a fc offset kind
           | (TF_FlatNested offset n variant, Flat fc) \<Rightarrow> nested_field a fc offset n variant
           | _ \<Rightarrow> Inl VM_InvalidBytecode)
      | _ \<Rightarrow> Inl VM_TypeError)"

definition exec_get_enum_field :: "host \<Rightarrow> kmodule \<Rightarrow> arena \<Rightarrow> enum_field \<Rightarrow> kvalue \<Rightarrow> pushed" where
  "exec_get_enum_field h m a field v =
     (case v of
        V_Enum body \<Rightarrow>
          (case (field, body) of
             (EF_Boxed index, Boxed (BoxedEnum type_name variant disc min_payload fs)) \<Rightarrow> boxed_element fs index
           | (EF_Flat offset kind, Flat fc) \<Rightarrow> flat_field h m a fc offset kind
           | (EF_FlatNested offset n variant, Flat fc) \<Rightarrow> nested_field a fc offset n variant
           | _ \<Rightarrow> Inl VM_InvalidBytecode)
      | _ \<Rightarrow> Inl VM_TypeError)"

text \<open>
  The outcome of an indexed access: the element, the index, the four limbs of the bound, lowest first,
  each sign-extended from its byte, and the flag.
\<close>

definition bound_limbs :: "u32 \<Rightarrow> kvalue list" where
  "bound_limbs bound = map (\<lambda>b. V_Int (from_i64_wrap (scast b))) (le4 bound)"

definition bool_word :: "bool \<Rightarrow> kvalue" where
  "bool_word b = V_Int (from_i64_wrap (if b then 1 else 0))"

definition index_outcome :: "kvalue \<Rightarrow> u64 \<Rightarrow> u32 \<Rightarrow> bool \<Rightarrow> kvalue list" where
  "index_outcome v index bound invalid = [v, V_Int index] @ bound_limbs bound @ [bool_word invalid]"

definition index_outcome_bound :: "nat \<Rightarrow> vm_error + u32" where
  "index_outcome_bound len = (if len < 2 ^ 32 then Inr (of_nat len) else Inl VM_InvalidBytecode)"

definition index_invalid :: "u64 \<Rightarrow> u32 \<Rightarrow> bool" where
  "index_invalid i bound = (sint (to_i64 i) < 0 \<or> sint (to_i64 i) \<ge> uint bound)"

definition get_index_flat :: "host \<Rightarrow> kmodule \<Rightarrow> arena \<Rightarrow> scalar_kind \<Rightarrow> flat_composite \<Rightarrow> u64 \<Rightarrow> pushed" where
  "get_index_flat h m a kind fc i =
     (let idx = sint (to_i64 i);
          esize = size_in_bytes kind (module_word_bytes m) (module_float_bytes m) (module_addr_bytes m) in
      bindR (of_stale (fc_resolve fc a (h_image h))) (\<lambda>bs.
        if esize = 0 then
          (if idx < 0 then Inl (VM_IndexOutOfBounds idx 0)
           else bindR (read_flat_scalar h m bs 0 kind (fc_epoch fc)) (\<lambda>v. Inr [v]))
        else
          (let len = length bs div esize in
           if has_bounds_outcome (AE_Flat kind) then
             (if length bs mod esize \<noteq> 0 then Inl VM_InvalidBytecode
              else bindR (index_outcome_bound len) (\<lambda>bound.
                let invalid = index_invalid i bound in
                bindR (if invalid then Inr (if kind = SK_Byte then V_Byte 0 else V_Int (from_i64_wrap 0))
                       else read_flat_scalar h m bs (nat idx * esize) kind (fc_epoch fc))
                  (\<lambda>v. Inr (index_outcome v i bound invalid))))
           else if idx < 0 \<or> nat idx \<ge> len then Inl (VM_IndexOutOfBounds idx len)
           else bindR (read_flat_scalar h m bs (nat idx * esize) kind (fc_epoch fc)) (\<lambda>v. Inr [v]))))"

definition get_index_nested ::
  "arena \<Rightarrow> nat \<Rightarrow> composite_kind \<Rightarrow> flat_composite \<Rightarrow> u64 \<Rightarrow> vm_error + kvalue list \<times> arena" where
  "get_index_nested a esize variant fc i =
     (let len = (if esize = 0 then 0 else fc_len fc div esize) in
      bindR (index_outcome_bound len) (\<lambda>bound.
        let invalid = index_invalid i bound in
        bindR
          (if invalid then
             bindR (of_alloc (build_in_arena a esize (\<lambda>_. Some (replicate esize 0)))) (\<lambda>(fc, b).
               case fc of
                 None \<Rightarrow> Inl VM_InvalidBytecode
               | Some zeroed \<Rightarrow> bindR (of_stale (flat_nested_field zeroed 0 esize variant b)) (\<lambda>v. Inr (v, b)))
           else bindR (of_stale (flat_nested_field fc (nat (sint (to_i64 i)) * esize) esize variant a)) (\<lambda>v. Inr (v, a)))
          (\<lambda>(v, b). Inr (index_outcome v i bound invalid, b))))"

text \<open>The body of a boxed array is total as well: an invalid index reads \<open>Unit\<close>.\<close>

definition get_index_boxed :: "kvalue list \<Rightarrow> u64 \<Rightarrow> pushed" where
  "get_index_boxed arr i =
     bindR (index_outcome_bound (length arr)) (\<lambda>bound.
       let invalid = index_invalid i bound in
       Inr (index_outcome (if invalid then V_Unit else arr ! nat (sint (to_i64 i))) i bound invalid))"

definition exec_get_index ::
  "host \<Rightarrow> kmodule \<Rightarrow> arena \<Rightarrow> array_elem \<Rightarrow> kvalue \<Rightarrow> kvalue \<Rightarrow> vm_error + kvalue list \<times> arena" where
  "exec_get_index h m a elem container index =
     (case (container, index) of
        (V_Array body, V_Int i) \<Rightarrow>
          (case (elem, body) of
             (AE_Boxed, Boxed arr) \<Rightarrow> bindR (get_index_boxed arr i) (\<lambda>vs. Inr (vs, a))
           | (AE_Flat kind, Flat fc) \<Rightarrow> bindR (get_index_flat h m a kind fc i) (\<lambda>vs. Inr (vs, a))
           | (AE_FlatNested n variant, Flat fc) \<Rightarrow> get_index_nested a (unat n) variant fc i
           | _ \<Rightarrow> Inl VM_InvalidBytecode)
      | _ \<Rightarrow> Inl VM_TypeError)"

fun exec_len :: "host \<Rightarrow> arena \<Rightarrow> kvalue \<Rightarrow> pushed" where
  "exec_len h a (V_Array (Boxed arr)) = Inr [V_Int (from_i64_wrap (of_nat (length arr)))]"
| "exec_len h a (V_Array (Flat fc)) = Inl VM_InvalidBytecode"
| "exec_len h a (V_StaticStr s) = Inr [V_Int (from_i64_wrap (of_nat (utf8_chars (string_bytes s))))]"
| "exec_len h a (V_KStr ks) =
     bindR (string_operand h a (V_KStr ks)) (\<lambda>bs. Inr [V_Int (from_i64_wrap (of_nat (utf8_chars bs)))])"
| "exec_len h a (V_Tuple (Boxed elems)) = Inr [V_Int (from_i64_wrap (of_nat (length elems)))]"
| "exec_len h a (V_Tuple (Flat fc)) = Inl VM_InvalidBytecode"
| "exec_len h a v = Inl VM_TypeError"

section \<open>Type tests\<close>

definition names_match :: "kmodule \<Rightarrow> nat \<Rightarrow> u16 \<Rightarrow> u16 \<Rightarrow> string \<Rightarrow> string \<Rightarrow> bool" where
  "names_match m ci enum_const var_const type_name variant =
     (chunk_const_str m ci (unat enum_const) = Some type_name \<and> chunk_const_str m ci (unat var_const) = Some variant)"

fun enum_matches :: "host \<Rightarrow> kmodule \<Rightarrow> nat \<Rightarrow> arena \<Rightarrow> u16 \<Rightarrow> u16 \<Rightarrow> u64 \<Rightarrow> kvalue \<Rightarrow> vm_error + bool" where
  "enum_matches h m ci a enum_const var_const disc (V_Enum (Boxed (BoxedEnum type_name variant d pad fs))) =
     Inr (names_match m ci enum_const var_const type_name variant)"
| "enum_matches h m ci a enum_const var_const disc (V_Enum (Flat fc)) =
     (case fc_resolve fc a (h_image h) of
        Inl _ \<Rightarrow> Inr False
      | Inr bs \<Rightarrow>
          bindR (of_scalar (read_scalar_le (h_floats h) bs 0 SK_Int (module_word_bytes m) (module_float_bytes m)))
            (\<lambda>v. Inr ((case v of V_Int w \<Rightarrow> to_i64 w | _ \<Rightarrow> 0) = disc)))"
| "enum_matches h m ci a enum_const var_const disc V_None =
     Inr (names_match m ci enum_const var_const ''Option'' ''None'')"
| "enum_matches h m ci a enum_const var_const disc v = Inr False"

definition exec_is_enum :: "host \<Rightarrow> kmodule \<Rightarrow> nat \<Rightarrow> arena \<Rightarrow> u16 \<Rightarrow> u16 \<Rightarrow> u64 \<Rightarrow> kvalue \<Rightarrow> pushed" where
  "exec_is_enum h m ci a enum_const var_const disc v =
     bindR (enum_matches h m ci a enum_const var_const disc v) (\<lambda>b. Inr [V_Bool b])"

fun exec_is_struct :: "string \<Rightarrow> kvalue \<Rightarrow> pushed" where
  "exec_is_struct expected (V_Struct (Boxed (BoxedStruct type_name fs))) = Inr [V_Bool (type_name = expected)]"
| "exec_is_struct expected (V_Struct (Flat fc)) = Inl VM_InvalidBytecode"
| "exec_is_struct expected v = Inr [V_Bool False]"

fun exec_bounds_check :: "u16 \<Rightarrow> kvalue \<Rightarrow> pushed" where
  "exec_bounds_check bound (V_Int n) =
     Inr (bound_limbs (ucast bound) @ [bool_word (index_invalid n (ucast bound))])"
| "exec_bounds_check bound v = Inl VM_TypeError"

section \<open>Construction of composites\<close>

text \<open>An owned string in a flat composite moves into the arena first.\<close>

fun text_fields_to_arena :: "arena \<Rightarrow> kvalue list \<Rightarrow> vm_error + kvalue list \<times> arena" where
  "text_fields_to_arena a [] = Inr ([], a)"
| "text_fields_to_arena a (V_StaticStr s # vs) =
     bindR (of_alloc (kstring_alloc a s)) (\<lambda>(ks, b).
     bindR (text_fields_to_arena b vs) (\<lambda>(ws, c). Inr (V_KStr ks # ws, c)))"
| "text_fields_to_arena a (v # vs) = bindR (text_fields_to_arena a vs) (\<lambda>(ws, c). Inr (v # ws, c))"

fun wants_flat :: "kmodule \<Rightarrow> new_composite_operand \<Rightarrow> kvalue list \<Rightarrow> bool" where
  "wants_flat m (NC_Flat kind n byte_size) vs =
     (kind = CK_Struct \<or> kind = CK_Enum
      \<or> list_all (\<lambda>v. flat_tuple_element_with_refs v (module_word_bytes m) (module_float_bytes m) (module_addr_bytes m)) vs)"
| "wants_flat m (NC_Boxed kind n meta) vs = False"

fun flat_min_bytes :: "new_composite_operand \<Rightarrow> nat" where
  "flat_min_bytes (NC_Flat kind n byte_size) = (if kind = CK_Tuple \<or> kind = CK_Array then 0 else unat byte_size)"
| "flat_min_bytes (NC_Boxed kind n meta) = 0"

definition new_composite_flat ::
  "host \<Rightarrow> kmodule \<Rightarrow> new_composite_operand \<Rightarrow> kvalue list \<Rightarrow> arena \<Rightarrow> vm_error + kvalue \<times> arena" where
  "new_composite_flat h m operand vs a =
     bindR (text_fields_to_arena a vs) (\<lambda>(vs, a).
     bindR (of_alloc (pack_flat_in_arena (h_floats h) (h_image h) vs (flat_min_bytes operand)
              (module_word_bytes m) (module_float_bytes m) (module_addr_bytes m) a)) (\<lambda>(packed, a).
       case packed of
         Some fc \<Rightarrow> Inr (wrap_flat (nc_kind operand) fc, a)
       | None \<Rightarrow>
           (case nc_kind operand of
              CK_Tuple \<Rightarrow> Inr (V_Tuple (Boxed vs), a)
            | CK_Array \<Rightarrow> Inr (V_Array (Boxed vs), a)
            | _ \<Rightarrow> Inl VM_InvalidBytecode)))"

fun new_composite_boxed_operand ::
  "kmodule \<Rightarrow> nat \<Rightarrow> new_composite_operand \<Rightarrow> kvalue list \<Rightarrow> vm_error + kvalue" where
  "new_composite_boxed_operand m ci (NC_Boxed kind n meta) vs =
     (case (if kind = CK_Struct \<or> kind = CK_Enum then module_template m ci (unat meta) else ([], [])) of
        (type_name, names) \<Rightarrow> Inr (new_composite_boxed kind type_name names vs))"
| "new_composite_boxed_operand m ci (NC_Flat kind n byte_size) vs =
     (case kind of
        CK_Tuple \<Rightarrow> Inr (V_Tuple (Boxed vs))
      | CK_Array \<Rightarrow> Inr (V_Array (Boxed vs))
      | _ \<Rightarrow> Inl VM_InvalidBytecode)"

definition exec_new_composite ::
  "host \<Rightarrow> kmodule \<Rightarrow> nat \<Rightarrow> new_composite_operand \<Rightarrow> kvalue list \<Rightarrow> arena \<Rightarrow> vm_error + kvalue \<times> arena" where
  "exec_new_composite h m ci operand vs a =
     (if wants_flat m operand vs then new_composite_flat h m operand vs a
      else bindR (new_composite_boxed_operand m ci operand vs) (\<lambda>v. Inr (v, a)))"

end
