(* ===== verification/Machine.thy ===== *)
theory Machine
  imports Machine_Ops
begin

text \<open>
  The dispatch loop of the virtual machine (\<open>src/src/vm.rs\<close>): \<open>exec_op\<close> is one arm of \<open>run_inner\<close> with its
  stack traffic, \<open>step\<close> one turn of the loop, \<open>run_inner\<close> the loop itself, and \<open>call_function\<close>, \<open>resume\<close>,
  \<open>resume_from_breakpoint\<close> and \<open>reset_after_error\<close> the entry points of the host.  An error ends the run; the
  state it leaves is only defined after \<open>reset_after_error\<close>, so it is not part of the result.
\<close>

section \<open>The operand stack\<close>

definition push :: "host \<Rightarrow> kvalue \<Rightarrow> vm \<Rightarrow> vm_error + vm" where
  "push h v vm =
     (case h_reserve_stack h (vm_arena vm) (length (vm_stack vm) + 1) of
        None \<Rightarrow> Inl VM_OutOfArena
      | Some a \<Rightarrow> Inr (vm \<lparr> vm_stack := vm_stack vm @ [v], vm_arena := a \<rparr>))"

fun push_all :: "host \<Rightarrow> kvalue list \<Rightarrow> vm \<Rightarrow> vm_error + vm" where
  "push_all h [] vm = Inr vm"
| "push_all h (v # vs) vm = bindR (push h v vm) (push_all h vs)"

definition push_frame :: "host \<Rightarrow> call_frame \<Rightarrow> vm \<Rightarrow> vm_error + vm" where
  "push_frame h f vm =
     (case h_reserve_frames h (vm_arena vm) (length (vm_frames vm) + 1) of
        None \<Rightarrow> Inl VM_OutOfArena
      | Some a \<Rightarrow> Inr (vm \<lparr> vm_frames := f # vm_frames vm, vm_arena := a \<rparr>))"

definition pop :: "vm \<Rightarrow> vm_error + kvalue \<times> vm" where
  "pop vm =
     (if vm_stack vm = [] then Inl VM_StackUnderflow
      else Inr (last (vm_stack vm), vm \<lparr> vm_stack := butlast (vm_stack vm) \<rparr>))"

definition peek_operand :: "vm \<Rightarrow> vm_error + kvalue" where
  "peek_operand vm = (if vm_stack vm = [] then Inl VM_StackUnderflow else Inr (last (vm_stack vm)))"

definition operand_start :: "nat \<Rightarrow> vm \<Rightarrow> vm_error + nat" where
  "operand_start n vm =
     (case checked_sub (length (vm_stack vm)) n of None \<Rightarrow> Inl VM_StackUnderflow | Some k \<Rightarrow> Inr k)"

definition truncate :: "nat \<Rightarrow> vm \<Rightarrow> vm" where
  "truncate n vm = vm \<lparr> vm_stack := take n (vm_stack vm) \<rparr>"

definition set_ip :: "nat \<Rightarrow> vm \<Rightarrow> vm" where
  "set_ip t vm =
     vm \<lparr> vm_frames := (case vm_frames vm of [] \<Rightarrow> [] | f # fs \<Rightarrow> f \<lparr> cf_ip := t \<rparr> # fs) \<rparr>"

text \<open>Instructions that replace a fixed number of operands by the values computed from them.\<close>

definition unary :: "host \<Rightarrow> (kvalue \<Rightarrow> pushed) \<Rightarrow> vm \<Rightarrow> vm_error + vm" where
  "unary h f vm = bindR (pop vm) (\<lambda>(a, vm). bindR (f a) (\<lambda>vs. push_all h vs vm))"

definition binary :: "host \<Rightarrow> (kvalue \<Rightarrow> kvalue \<Rightarrow> pushed) \<Rightarrow> vm \<Rightarrow> vm_error + vm" where
  "binary h f vm =
     bindR (pop vm) (\<lambda>(b, vm). bindR (pop vm) (\<lambda>(a, vm). bindR (f a b) (\<lambda>vs. push_all h vs vm)))"

definition peeking :: "host \<Rightarrow> (kvalue \<Rightarrow> pushed) \<Rightarrow> vm \<Rightarrow> vm_error + vm" where
  "peeking h f vm = bindR (peek_operand vm) (\<lambda>a. bindR (f a) (\<lambda>vs. push_all h vs vm))"

definition or_invalid :: "bool \<Rightarrow> (vm_error + 'a) \<Rightarrow> vm_error + 'a" where
  "or_invalid ok r = (if ok then r else Inl VM_InvalidBytecode)"

section \<open>Instructions that touch more than the operands\<close>

definition frame_base :: "vm \<Rightarrow> nat" where
  "frame_base vm = (case vm_frames vm of [] \<Rightarrow> 0 | f # fs \<Rightarrow> cf_base f)"

definition exec_get_local :: "host \<Rightarrow> nat \<Rightarrow> vm \<Rightarrow> vm_error + vm" where
  "exec_get_local h slot vm =
     (case nth_opt (vm_stack vm) (frame_base vm + slot) of None \<Rightarrow> Inl VM_Panic | Some v \<Rightarrow> push h v vm)"

definition exec_set_local :: "nat \<Rightarrow> vm \<Rightarrow> vm_error + vm" where
  "exec_set_local slot vm =
     bindR (pop vm) (\<lambda>(v, vm).
       if frame_base vm + slot < length (vm_stack vm)
       then Inr (vm \<lparr> vm_stack := (vm_stack vm)[frame_base vm + slot := v] \<rparr>) else Inl VM_Panic)"

definition exec_get_data :: "host \<Rightarrow> kmodule \<Rightarrow> nat \<Rightarrow> vm \<Rightarrow> vm_error + vm" where
  "exec_get_data h m slot vm =
     or_invalid (slot < data_len m) (bindR (read_data_slot h m vm slot) (\<lambda>(v, a). push h v (vm \<lparr> vm_arena := a \<rparr>)))"

definition exec_set_data :: "host \<Rightarrow> kmodule \<Rightarrow> nat \<Rightarrow> vm \<Rightarrow> vm_error + vm" where
  "exec_set_data h m slot vm =
     or_invalid (slot < data_len m) (bindR (pop vm) (\<lambda>(v, vm). write_data_slot h m vm slot v))"

fun is_index_fallback :: "kvalue \<Rightarrow> bool" where
  "is_index_fallback (V_Int w) = True"
| "is_index_fallback (V_Byte b) = True"
| "is_index_fallback V_Unit = True"
| "is_index_fallback v = False"

fun as_index :: "kvalue \<Rightarrow> vm_error + u64" where
  "as_index (V_Int n) = Inr n"
| "as_index v = Inl VM_TypeError"

definition exec_get_data_indexed :: "host \<Rightarrow> kmodule \<Rightarrow> u32 \<Rightarrow> u32 \<Rightarrow> vm \<Rightarrow> vm_error + vm" where
  "exec_get_data_indexed h m base len vm =
     bindR (pop vm) (\<lambda>(fallback, vm).
     if \<not> is_index_fallback fallback then Inl VM_TypeError
     else bindR (pop vm) (\<lambda>(i, vm).
     bindR (as_index i) (\<lambda>index.
     or_invalid (unat base + unat len \<le> data_len m)
       (let invalid = index_invalid index len in
        bindR (if invalid then Inr (fallback, vm_arena vm)
               else read_data_slot h m vm (unat base + nat (sint (to_i64 index)))) (\<lambda>(v, a).
        push_all h (index_outcome v index len invalid) (vm \<lparr> vm_arena := a \<rparr>))))))"

definition exec_set_data_indexed :: "host \<Rightarrow> kmodule \<Rightarrow> u32 \<Rightarrow> u32 \<Rightarrow> vm \<Rightarrow> vm_error + vm" where
  "exec_set_data_indexed h m base len vm =
     bindR (pop vm) (\<lambda>(i, vm).
     bindR (as_index i) (\<lambda>index.
     bindR (pop vm) (\<lambda>(v, vm).
     or_invalid (unat base + unat len \<le> data_len m)
       (let invalid = index_invalid index len in
        bindR (if invalid then Inr vm else write_data_slot h m vm (unat base + nat (sint (to_i64 index))) v)
          (push_all h ([V_Int index] @ bound_limbs len @ [bool_word invalid]))))))"

text \<open>\<open>If\<close> jumps on \<open>false\<close>, \<open>BreakIf\<close> on \<open>true\<close>.\<close>

definition exec_branch :: "bool \<Rightarrow> nat \<Rightarrow> vm \<Rightarrow> vm_error + vm" where
  "exec_branch on target vm =
     bindR (pop vm) (\<lambda>(v, vm).
       case v of V_Bool b \<Rightarrow> Inr (if b = on then set_ip target vm else vm) | _ \<Rightarrow> Inl VM_TypeError)"

definition get_index_op :: "host \<Rightarrow> kmodule \<Rightarrow> array_elem \<Rightarrow> vm \<Rightarrow> vm_error + vm" where
  "get_index_op h m elem vm =
     bindR (pop vm) (\<lambda>(index, vm). bindR (pop vm) (\<lambda>(container, vm).
     bindR (exec_get_index h m (vm_arena vm) elem container index) (\<lambda>(vs, a). push_all h vs (vm \<lparr> vm_arena := a \<rparr>))))"

definition new_composite_op :: "host \<Rightarrow> kmodule \<Rightarrow> nat \<Rightarrow> new_composite_operand \<Rightarrow> vm \<Rightarrow> vm_error + vm" where
  "new_composite_op h m ci operand vm =
     bindR (operand_start (unat (nc_count operand)) vm) (\<lambda>start.
     bindR (exec_new_composite h m ci operand (drop start (vm_stack vm)) (vm_arena vm)) (\<lambda>(v, a).
       push h v (truncate start vm \<lparr> vm_arena := a \<rparr>)))"

definition is_enum_op :: "host \<Rightarrow> kmodule \<Rightarrow> nat \<Rightarrow> u16 \<Rightarrow> u16 \<Rightarrow> u16 \<Rightarrow> vm \<Rightarrow> vm_error + vm" where
  "is_enum_op h m ci enum_const var_const disc_const vm =
     (case chunk_const h m ci (unat disc_const) of
        V_Int w \<Rightarrow> peeking h (exec_is_enum h m ci (vm_arena vm) enum_const var_const (to_i64 w)) vm
      | _ \<Rightarrow> Inl VM_InvalidBytecode)"

definition is_struct_op :: "host \<Rightarrow> kmodule \<Rightarrow> nat \<Rightarrow> u16 \<Rightarrow> vm \<Rightarrow> vm_error + vm" where
  "is_struct_op h m ci type_const vm =
     (case chunk_const_str m ci (unat type_const) of
        None \<Rightarrow> Inl VM_InvalidBytecode
      | Some expected \<Rightarrow> peeking h (exec_is_struct expected) vm)"

section \<open>Traps\<close>

definition pop_word :: "vm \<Rightarrow> vm_error + u64 \<times> vm" where
  "pop_word vm = bindR (pop vm) (\<lambda>(v, vm). bindR (as_index v) (\<lambda>n. Inr (n, vm)))"

text \<open>The four limbs of the bound, highest first on the stack, then the index.\<close>

fun pop_bound :: "nat \<Rightarrow> u32 \<Rightarrow> vm \<Rightarrow> vm_error + u32 \<times> vm" where
  "pop_bound 0 bound vm = Inr (bound, vm)"
| "pop_bound (Suc byte) bound vm =
     bindR (pop_word vm) (\<lambda>(n, vm). pop_bound byte (or bound (push_bit (byte * 8) (ucast (ucast (to_i64 n) :: u8)))) vm)"

definition index_trap :: "vm \<Rightarrow> vm_error + vm_error" where
  "index_trap vm =
     bindR (pop_bound 4 0 vm) (\<lambda>(bound, vm).
     bindR (pop_word vm) (\<lambda>(index, vm). Inr (VM_IndexOutOfBounds (sint (to_i64 index)) (unat bound))))"

definition host_trap :: "vm \<Rightarrow> vm_error + vm_error" where
  "host_trap vm =
     bindR (pop_word vm) (\<lambda>(n, vm').
       let code = to_i64 n in
       Inr (case vm_reified_host_error vm of
              None \<Rightarrow> VM_NativeErrorCode code
            | Some (VM_NativeErrorCode c) \<Rightarrow> VM_NativeErrorCode (if c = code then c else code)
            | Some e \<Rightarrow> if code = -1 then e else VM_NativeErrorCode code))"

definition exec_trap :: "u16 \<Rightarrow> vm \<Rightarrow> vm_error" where
  "exec_trap kind_code vm =
     (case trap_from_code kind_code of
        None \<Rightarrow> VM_InvalidBytecode
      | Some RefinementFailed \<Rightarrow> VM_RefinementFailed
      | Some NoMatchingHead \<Rightarrow> VM_NoMatchingHead
      | Some NoMatchingArm \<Rightarrow> VM_NoMatchingArm
      | Some CheckedArithNoArm \<Rightarrow> VM_CheckedArithNoArm
      | Some EnumVariantUnmapped \<Rightarrow> VM_EnumVariantUnmapped
      | Some ZeroDivisor \<Rightarrow> VM_DivisionByZero
      | Some AssertionFailed \<Rightarrow> VM_AssertionFailed
      | Some LoopLimitExceeded \<Rightarrow> VM_LoopLimitExceeded
      | Some IndexOutOfBounds \<Rightarrow> (case index_trap vm of Inl e \<Rightarrow> e | Inr e \<Rightarrow> e)
      | Some HostError \<Rightarrow> (case host_trap vm of Inl e \<Rightarrow> e | Inr e \<Rightarrow> e))"

section \<open>Calls, suspension and reset\<close>

text \<open>A call: the arguments become the first locals, the others \<open>Unit\<close>.\<close>

definition exec_call :: "host \<Rightarrow> kmodule \<Rightarrow> nat \<Rightarrow> nat \<Rightarrow> vm \<Rightarrow> vm_error + vm" where
  "exec_call h m idx arg_count vm =
     or_invalid (idx < length (m_chunks m))
       (bindR (operand_start arg_count vm) (\<lambda>new_base.
        case checked_sub (chunk_local_count m idx) arg_count of
          None \<Rightarrow> Inl VM_InvalidBytecode
        | Some extra \<Rightarrow>
            bindR (push_all h (replicate extra V_Unit) vm)
              (push_frame h \<lparr> cf_chunk = idx, cf_ip = 0, cf_base = new_base \<rparr>)))"

definition exec_return :: "host \<Rightarrow> vm \<Rightarrow> vm_error + vm_state option \<times> vm" where
  "exec_return h vm =
     bindR (pop vm) (\<lambda>(result, vm).
       case vm_frames vm of
         [] \<Rightarrow> Inl VM_Panic
       | old # fs \<Rightarrow>
           (let vm = truncate (cf_base old) vm \<lparr> vm_frames := fs \<rparr> in
            if fs = [] then Inr (Some (Finished result), vm)
            else bindR (push h result vm) (\<lambda>vm. Inr (None, vm))))"

text \<open>A dynamic string, one in the region a reset reclaims, may not be yielded, also inside boxed values.\<close>

fun value_has_ephemeral_str :: "arena \<Rightarrow> kvalue \<Rightarrow> bool" where
  "value_has_ephemeral_str a (V_KStr ks) = addr_is_ephemeral a (ks_addr ks)"
| "value_has_ephemeral_str a (V_Tuple (Boxed items)) = list_ex (value_has_ephemeral_str a) items"
| "value_has_ephemeral_str a (V_Array (Boxed items)) = list_ex (value_has_ephemeral_str a) items"
| "value_has_ephemeral_str a (V_Struct (Boxed (BoxedStruct n fs))) = list_ex (\<lambda>(k, v). value_has_ephemeral_str a v) fs"
| "value_has_ephemeral_str a (V_Enum (Boxed (BoxedEnum n c disc pad fs))) = list_ex (value_has_ephemeral_str a) fs"
| "value_has_ephemeral_str a v = False"

definition exec_yield :: "vm \<Rightarrow> vm_error + vm_state option \<times> vm" where
  "exec_yield vm =
     bindR (pop vm) (\<lambda>(output, vm).
       if value_has_ephemeral_str (vm_arena vm) output then Inl VM_TypeError
       else Inr (Some (Yielded output), vm))"

text \<open>\<open>reset_arena_internal\<close>; the machine ignores an exhausted epoch.\<close>

definition reset_arena_top :: "arena \<Rightarrow> arena" where
  "reset_arena_top a = (case reset_top_unchecked a of Inl _ \<Rightarrow> a | Inr b \<Rightarrow> b)"

definition stream_entry :: "kmodule \<Rightarrow> nat \<Rightarrow> nat option" where
  "stream_entry m ci = Option.bind (nth_opt (m_chunks m) ci) (\<lambda>c. map_option Suc (position (\<lambda>x. x = Stream) (ch_ops c)))"

definition exec_reset :: "kmodule \<Rightarrow> nat \<Rightarrow> vm \<Rightarrow> vm_error + vm_state option \<times> vm" where
  "exec_reset m ci vm =
     (let base = frame_base vm; local_count = chunk_local_count m ci in
      if base + local_count > length (vm_stack vm) then Inl VM_Panic
      else case stream_entry m ci of
             None \<Rightarrow> Inl VM_InvalidBytecode
           | Some pos \<Rightarrow>
               Inr (Some Reset_Reached,
                 set_ip pos (vm \<lparr> vm_stack := take base (vm_stack vm) @ replicate local_count V_Unit,
                   vm_arena := reset_arena_top (vm_arena vm) \<rparr>)))"

text \<open>
  A native call.  With the high bit of the count set a failure of the host becomes a pair of a code and
  a flag on the stack; other failures propagate.
\<close>

definition import_value :: "host \<Rightarrow> kvalue \<Rightarrow> vm \<Rightarrow> vm_error + kvalue \<times> vm" where
  "import_value h v vm =
     bindR (of_alloc (h_import h (vm_arena vm) v)) (\<lambda>(v, a). Inr (v, vm \<lparr> vm_arena := a \<rparr>))"

definition native_result :: "host \<Rightarrow> bool \<Rightarrow> vm_error + kvalue \<Rightarrow> vm \<Rightarrow> vm_error + vm" where
  "native_result h reify result vm =
     (case result of
        Inr v \<Rightarrow>
          bindR (import_value h v vm) (\<lambda>(v, vm).
            if reify then push_all h [v, V_Int 0] (vm \<lparr> vm_reified_host_error := None \<rparr>) else push_all h [v] vm)
      | Inl e \<Rightarrow>
          if reify \<and> error_category e = SoftHost
          then push_all h [V_Int (from_i64_wrap (case e of VM_NativeErrorCode code \<Rightarrow> code | _ \<Rightarrow> -1)), V_Int 1]
                 (vm \<lparr> vm_reified_host_error := Some e \<rparr>)
          else Inl e)"

definition exec_native :: "host \<Rightarrow> kmodule \<Rightarrow> nat \<Rightarrow> u8 \<Rightarrow> vm \<Rightarrow> vm_error + vm" where
  "exec_native h m idx arg_count vm =
     (let reify = (and arg_count 0x80 \<noteq> 0); n = unat (and arg_count 0x7F) in
      bindR (operand_start n vm) (\<lambda>start.
        case nth_opt (m_native_names m) idx of
          None \<Rightarrow> Inl VM_InvalidBytecode
        | Some name \<Rightarrow>
            (case h_native h name of
               None \<Rightarrow> Inl VM_InvalidBytecode
             | Some func \<Rightarrow>
                 (case func (vm_arena vm) (drop start (vm_stack vm)) of
                    (result, a) \<Rightarrow> native_result h reify result (truncate start vm \<lparr> vm_arena := a \<rparr>)))))"

section \<open>The dispatch\<close>

definition go_on :: "vm_error + vm \<Rightarrow> vm_error + vm_state option \<times> vm" where
  "go_on r = bindR r (\<lambda>vm. Inr (None, vm))"

text \<open>The instruction pointer has already moved to the next instruction.\<close>

primrec exec_op :: "host \<Rightarrow> kmodule \<Rightarrow> nat \<Rightarrow> op \<Rightarrow> vm \<Rightarrow> vm_error + vm_state option \<times> vm" where
  "exec_op h m ci (Const idx) vm = go_on (push h (chunk_const h m ci (unat idx)) vm)"
| "exec_op h m ci (GetLocal slot) vm = go_on (exec_get_local h (unat slot) vm)"
| "exec_op h m ci (SetLocal slot) vm = go_on (exec_set_local (unat slot) vm)"
| "exec_op h m ci (GetData slot) vm = go_on (exec_get_data h m (unat slot) vm)"
| "exec_op h m ci (SetData slot) vm = go_on (exec_set_data h m (unat slot) vm)"
| "exec_op h m ci (GetDataIndexed base len) vm = go_on (exec_get_data_indexed h m base len vm)"
| "exec_op h m ci (SetDataIndexed base len) vm = go_on (exec_set_data_indexed h m base len vm)"
| "exec_op h m ci (BoundsCheck bound) vm = go_on (peeking h (exec_bounds_check bound) vm)"
| "exec_op h m ci Add vm = go_on (binary h (exec_add (h_floats h) m) vm)"
| "exec_op h m ci Sub vm = go_on (binary h (binary_arith (h_floats h) m (\<lambda>x y. x - y) (fo_sub (h_floats h))) vm)"
| "exec_op h m ci Mul vm = go_on (binary h (binary_arith (h_floats h) m (\<lambda>x y. x * y) (fo_mul (h_floats h))) vm)"
| "exec_op h m ci Div vm = go_on (binary h (exec_div (h_floats h) m 0) vm)"
| "exec_op h m ci Mod vm = go_on (binary h (exec_mod (h_floats h) m True) vm)"
| "exec_op h m ci Neg vm = go_on (unary h (exec_neg (h_floats h) m) vm)"
| "exec_op h m ci CmpEq vm = go_on (binary h (exec_cmp_eq h (vm_arena vm) False) vm)"
| "exec_op h m ci CmpNe vm = go_on (binary h (exec_cmp_eq h (vm_arena vm) True) vm)"
| "exec_op h m ci CmpLt vm = go_on (binary h (compare_op h (vm_arena vm) (\<lambda>c. c < 0)) vm)"
| "exec_op h m ci CmpGt vm = go_on (binary h (compare_op h (vm_arena vm) (\<lambda>c. c > 0)) vm)"
| "exec_op h m ci CmpLe vm = go_on (binary h (compare_op h (vm_arena vm) (\<lambda>c. c \<le> 0)) vm)"
| "exec_op h m ci CmpGe vm = go_on (binary h (compare_op h (vm_arena vm) (\<lambda>c. c \<ge> 0)) vm)"
| "exec_op h m ci Not_op vm = go_on (unary h exec_not vm)"
| "exec_op h m ci (If_op target) vm = go_on (exec_branch False (unat target) vm)"
| "exec_op h m ci (Else_op target) vm = go_on (Inr (set_ip (unat target) vm))"
| "exec_op h m ci EndIf vm = go_on (Inr vm)"
| "exec_op h m ci (Loop target) vm = go_on (Inr vm)"
| "exec_op h m ci (EndLoop target) vm = go_on (Inr (set_ip (unat target) vm))"
| "exec_op h m ci (Break target) vm = go_on (Inr (set_ip (unat target) vm))"
| "exec_op h m ci (BreakIf target) vm = go_on (exec_branch True (unat target) vm)"
| "exec_op h m ci Stream vm = go_on (Inr vm)"
| "exec_op h m ci Reset vm = exec_reset m ci vm"
| "exec_op h m ci (Call idx arg_count) vm = go_on (exec_call h m (unat idx) (unat arg_count) vm)"
| "exec_op h m ci Return vm = exec_return h vm"
| "exec_op h m ci Yield vm = exec_yield vm"
| "exec_op h m ci Dup vm = go_on (peeking h (\<lambda>v. Inr [v]) vm)"
| "exec_op h m ci (NewComposite operand) vm = go_on (new_composite_op h m ci operand vm)"
| "exec_op h m ci (GetField f) vm = go_on (unary h (exec_get_field h m ci (vm_arena vm) f) vm)"
| "exec_op h m ci (GetIndex elem) vm = go_on (get_index_op h m elem vm)"
| "exec_op h m ci (GetTupleField f) vm = go_on (unary h (exec_get_tuple_field h m (vm_arena vm) f) vm)"
| "exec_op h m ci (GetEnumField f) vm = go_on (unary h (exec_get_enum_field h m (vm_arena vm) f) vm)"
| "exec_op h m ci Len vm = go_on (unary h (exec_len h (vm_arena vm)) vm)"
| "exec_op h m ci (IsEnum e v d) vm = go_on (is_enum_op h m ci e v d vm)"
| "exec_op h m ci (IsStruct t) vm = go_on (is_struct_op h m ci t vm)"
| "exec_op h m ci IntToFloat vm = go_on (unary h (exec_int_to_float (h_floats h) m) vm)"
| "exec_op h m ci FloatToInt vm = go_on (unary h (exec_float_to_int (h_floats h)) vm)"
| "exec_op h m ci WordToByte vm = go_on (unary h exec_word_to_byte vm)"
| "exec_op h m ci ByteToWord vm = go_on (unary h exec_byte_to_word vm)"
| "exec_op h m ci (WordToFixed frac_bits) vm = go_on (unary h (exec_word_to_fixed frac_bits) vm)"
| "exec_op h m ci (FixedToWord frac_bits) vm = go_on (or_invalid (frac_bits < 64) (unary h (exec_fixed_to_word frac_bits) vm))"
| "exec_op h m ci (FixedMul frac_bits) vm = go_on (or_invalid (frac_bits < 64) (binary h (exec_fixed_mul frac_bits) vm))"
| "exec_op h m ci (FixedDiv frac_bits) vm = go_on (or_invalid (frac_bits < 64) (binary h (exec_fixed_div frac_bits) vm))"
| "exec_op h m ci (Trap kind_code) vm = Inl (exec_trap kind_code vm)"
| "exec_op h m ci CheckedAdd vm = go_on (binary h (exec_checked_add (h_floats h) m) vm)"
| "exec_op h m ci CheckedSub vm = go_on (binary h (exec_checked_sub (h_floats h) m) vm)"
| "exec_op h m ci (CheckedMul frac_bits) vm = go_on (binary h (exec_checked_mul (h_floats h) m frac_bits) vm)"
| "exec_op h m ci CheckedNeg vm = go_on (unary h (exec_checked_neg m) vm)"
| "exec_op h m ci (CheckedDiv frac_bits) vm = go_on (binary h (exec_div (h_floats h) m frac_bits) vm)"
| "exec_op h m ci CheckedMod vm = go_on (binary h (exec_mod (h_floats h) m False) vm)"
| "exec_op h m ci (PushImmediate v) vm = go_on (bindR (exec_push_immediate v) (\<lambda>vs. push_all h vs vm))"
| "exec_op h m ci (PopN n) vm = go_on (bindR (operand_start (unat n) vm) (\<lambda>new_len. Inr (truncate new_len vm)))"
| "exec_op h m ci BitAnd vm = go_on (binary h (exec_bitwise and) vm)"
| "exec_op h m ci BitOr vm = go_on (binary h (exec_bitwise or) vm)"
| "exec_op h m ci BitXor vm = go_on (binary h (exec_bitwise xor) vm)"
| "exec_op h m ci Shl vm = go_on (binary h exec_shl vm)"
| "exec_op h m ci Shr vm = go_on (binary h exec_shr vm)"
| "exec_op h m ci (CallVerifiedNative idx arg_count) vm = go_on (exec_native h m (unat idx) arg_count vm)"
| "exec_op h m ci (CallExternalNative idx arg_count) vm = go_on (exec_native h m (unat idx) arg_count vm)"

section \<open>The loop\<close>

text \<open>Past the last instruction the frame is left with the top of the stack, which stays otherwise as it is.\<close>

definition end_of_chunk :: "host \<Rightarrow> vm \<Rightarrow> vm_error + vm_state option \<times> vm" where
  "end_of_chunk h vm =
     (let result = (if vm_stack vm = [] then V_Unit else last (vm_stack vm));
          fs = tl (vm_frames vm);
          vm = vm \<lparr> vm_stack := butlast (vm_stack vm), vm_frames := fs \<rparr> in
      if fs = [] then Inr (Some (Finished result), vm)
      else bindR (push h result vm) (\<lambda>vm. Inr (None, vm)))"

definition at_breakpoint :: "vm \<Rightarrow> nat \<times> nat \<Rightarrow> bool" where
  "at_breakpoint vm pos = (vm_skip_breakpoint_at vm \<noteq> Some pos \<and> pos \<in> set (vm_breakpoints vm))"

text \<open>The one-shot suppression is consumed, the position recorded and the instruction pointer advanced.\<close>

definition fetch :: "vm \<Rightarrow> nat \<times> nat \<Rightarrow> vm" where
  "fetch vm pos =
     set_ip (Suc (snd pos))
       (vm \<lparr> vm_skip_breakpoint_at :=
               (if vm_breakpoints vm \<noteq> [] \<and> vm_skip_breakpoint_at vm = Some pos then None else vm_skip_breakpoint_at vm),
             vm_fault_location := Some pos \<rparr>)"

definition step :: "host \<Rightarrow> kmodule \<Rightarrow> vm \<Rightarrow> vm_error + vm_state option \<times> vm" where
  "step h m vm =
     (case vm_frames vm of
        [] \<Rightarrow> Inl VM_InvalidBytecode
      | f # fs \<Rightarrow>
          (let ci = cf_chunk f; ip = cf_ip f in
           if chunk_op_count m ci \<le> ip then end_of_chunk h vm
           else if at_breakpoint vm (ci, ip) then Inr (Some (BreakpointHit ci ip), vm)
           else exec_op h m ci (ch_ops (m_chunks m ! ci) ! ip) (fetch vm (ci, ip))))"

text \<open>The loop may run forever: \<open>None\<close> means that the fuel did not suffice.\<close>

fun run_inner :: "nat \<Rightarrow> host \<Rightarrow> kmodule \<Rightarrow> vm \<Rightarrow> (vm_error + vm_state \<times> vm) option" where
  "run_inner 0 h m vm = None"
| "run_inner (Suc fuel) h m vm =
     (case step h m vm of
        Inl e \<Rightarrow> Some (Inl e)
      | Inr (Some st, vm) \<Rightarrow> Some (Inr (st, vm))
      | Inr (None, vm) \<Rightarrow> run_inner fuel h m vm)"

text \<open>
  \<open>run\<close>: on success the outcome is recorded.  A proven machine must have been prepared by an entry point and
  is poisoned while it runs.
\<close>

fun proof_state_of :: "vm_state \<Rightarrow> proof_state" where
  "proof_state_of (Yielded v) = PS_Yielded"
| "proof_state_of (Finished v) = PS_Finished"
| "proof_state_of Reset_Reached = PS_Reset"
| "proof_state_of (BreakpointHit c i) = PS_Breakpoint"

definition finish_run :: "vm_state \<Rightarrow> vm \<Rightarrow> vm" where
  "finish_run st vm =
     vm \<lparr> vm_suspended_at_reset := (st = Reset_Reached), vm_fault_location := None,
       vm_proof_state := (if vm_proven vm then proof_state_of st else vm_proof_state vm) \<rparr>"

definition run :: "nat \<Rightarrow> host \<Rightarrow> kmodule \<Rightarrow> vm \<Rightarrow> (vm_error + vm_state \<times> vm) option" where
  "run fuel h m vm =
     (if vm_proven vm \<and> (\<not> vm_pop_proof vm \<or> vm_proof_state vm \<noteq> PS_Prepared) then Some (Inl VM_VerifyError)
      else bindOR (run_inner fuel h m (if vm_proven vm then vm \<lparr> vm_proof_state := PS_Poisoned \<rparr> else vm))
             (\<lambda>(st, vm). Some (Inr (st, finish_run st vm))))"

section \<open>Entry points\<close>

definition begin_proven_entry :: "proof_state list \<Rightarrow> vm \<Rightarrow> vm_error + vm" where
  "begin_proven_entry allowed vm =
     (if vm_proven vm
      then if vm_pop_proof vm \<and> vm_proof_state vm \<in> set allowed then Inr (vm \<lparr> vm_proof_state := PS_Poisoned \<rparr>) else Inl VM_VerifyError
      else Inr vm)"

definition prepare_proven_run :: "vm \<Rightarrow> vm" where
  "prepare_proven_run vm = (if vm_proven vm then vm \<lparr> vm_proof_state := PS_Prepared \<rparr> else vm)"

text \<open>\<open>TypeTag::admits\<close>.\<close>

fun admits :: "type_tag \<Rightarrow> kvalue \<Rightarrow> bool" where
  "admits TT_Composite v = True"
| "admits TT_Byte v = (case v of V_Byte b \<Rightarrow> True | _ \<Rightarrow> False)"
| "admits TT_Word v = (case v of V_Int w \<Rightarrow> True | _ \<Rightarrow> False)"
| "admits TT_Fixed v = (case v of V_Fixed w \<Rightarrow> True | _ \<Rightarrow> False)"
| "admits TT_Float v = (case v of V_Float f \<Rightarrow> True | _ \<Rightarrow> False)"
| "admits TT_Bool v = (case v of V_Bool b \<Rightarrow> True | _ \<Rightarrow> False)"
| "admits TT_Unit v = (v = V_Unit)"
| "admits TT_Text v = is_string v"

definition flat_shape :: "kvalue \<Rightarrow> (composite_kind \<times> nat) option" where
  "flat_shape v =
     (case v of
        V_Tuple (Flat fc) \<Rightarrow> Some (CK_Tuple, fc_len fc)
      | V_Array (Flat fc) \<Rightarrow> Some (CK_Array, fc_len fc)
      | V_Struct (Flat fc) \<Rightarrow> Some (CK_Struct, fc_len fc)
      | _ \<Rightarrow> None)"

definition check_host_composite_shape :: "kvalue \<Rightarrow> wire_shape \<Rightarrow> vm_error + unit" where
  "check_host_composite_shape v shape =
     (case shape of
        WS_Flat kind n \<Rightarrow>
          (case List.find (\<lambda>k. composite_to_tag k = kind) [CK_Tuple, CK_Array, CK_Struct] of
             None \<Rightarrow> Inr ()
           | Some declared \<Rightarrow>
               if flat_shape v = Some (declared, unat n) then Inr () else Inl VM_TypeError)
      | _ \<Rightarrow> Inr ())"

text \<open>Every native call site agrees with the registration of its function.\<close>

definition check_native_site :: "host \<Rightarrow> kmodule \<Rightarrow> u16 \<times> bool \<Rightarrow> vm_error + unit" where
  "check_native_site h m site =
     (case site of (idx, expected_external) \<Rightarrow>
       case nth_opt (m_native_names m) (unat idx) of
         None \<Rightarrow> Inl VM_InvalidBytecode
       | Some name \<Rightarrow>
           if h_native h name = None then Inl VM_VerifyError
           else if h_native_external h name \<noteq> expected_external then Inl VM_VerifyError else Inr ())"

fun native_site :: "op \<Rightarrow> (u16 \<times> bool) list" where
  "native_site (CallVerifiedNative idx n) = [(idx, False)]"
| "native_site (CallExternalNative idx n) = [(idx, True)]"
| "native_site x = []"

fun check_all :: "('a \<Rightarrow> 'e + unit) \<Rightarrow> 'a list \<Rightarrow> 'e + unit" where
  "check_all f [] = Inr ()"
| "check_all f (x # xs) = bindR (f x) (\<lambda>_. check_all f xs)"

definition verify_native_classifications :: "host \<Rightarrow> kmodule \<Rightarrow> vm_error + unit" where
  "verify_native_classifications h m =
     check_all (check_native_site h m) (concat (map (\<lambda>c. concat (map native_site (ch_ops c))) (m_chunks m)))"

fun push_args :: "host \<Rightarrow> wire_shape list \<Rightarrow> kvalue list \<Rightarrow> vm \<Rightarrow> vm_error + vm" where
  "push_args h shapes [] vm = Inr vm"
| "push_args h shapes (arg # args) vm =
     bindR (import_value h arg vm) (\<lambda>(v, vm).
     bindR (case shapes of [] \<Rightarrow> Inr () | shape # _ \<Rightarrow> check_host_composite_shape v shape) (\<lambda>_.
     bindR (push h v vm) (push_args h (tl shapes) args)))"

definition sig_param_shapes :: "kmodule \<Rightarrow> nat \<Rightarrow> wire_shape list" where
  "sig_param_shapes m ci = (case nth_opt (m_signatures m) ci of None \<Rightarrow> [] | Some sg \<Rightarrow> sig_params sg)"

text \<open>The frame of a call from the host: the arguments, the other locals, the frame.\<close>

definition enter_frame :: "host \<Rightarrow> kmodule \<Rightarrow> nat \<Rightarrow> chunk \<Rightarrow> kvalue list \<Rightarrow> vm \<Rightarrow> vm_error + vm" where
  "enter_frame h m ci c args vm =
     (let base = length (vm_stack vm) in
      bindR (push_args h (sig_param_shapes m ci) args vm) (\<lambda>vm.
      case checked_sub (unat (ch_local_count c)) (length args) of
        None \<Rightarrow> Inl VM_Panic
      | Some extra \<Rightarrow>
          bindR (push_all h (replicate extra V_Unit) vm) (\<lambda>vm.
          bindR (push_frame h \<lparr> cf_chunk = ci, cf_ip = 0, cf_base = base \<rparr> vm) (\<lambda>vm.
          Inr (prepare_proven_run (vm \<lparr> vm_started := True \<rparr>))))))"

definition enter_function :: "host \<Rightarrow> kmodule \<Rightarrow> nat \<Rightarrow> kvalue list \<Rightarrow> vm \<Rightarrow> vm_error + vm" where
  "enter_function h m ci args vm =
     bindR (begin_proven_entry [PS_Ready, PS_Finished] vm) (\<lambda>vm.
     bindR (verify_native_classifications h m) (\<lambda>_.
     case nth_opt (m_chunks m) ci of
       None \<Rightarrow> Inl VM_InvalidBytecode
     | Some c \<Rightarrow>
         if length args \<noteq> unat (ch_param_count c) then Inl VM_TypeError
         else if \<not> list_all (\<lambda>(tag, v). admits tag v) (zip (ch_param_types c) args) then Inl VM_TypeError
         else enter_frame h m ci c args vm))"

definition call_function_after_enter ::
  "nat \<Rightarrow> host \<Rightarrow> kmodule \<Rightarrow> nat \<Rightarrow> kvalue list \<Rightarrow> vm \<Rightarrow> (vm_error + vm_state \<times> vm) option" where
  "call_function_after_enter fuel h m ci args vm = bindOR (Some (enter_function h m ci args vm)) (run fuel h m)"

text \<open>An entry without a buffer of the host: the one of an earlier entry is dropped.\<close>

definition call_function ::
  "nat \<Rightarrow> host \<Rightarrow> kmodule \<Rightarrow> nat \<Rightarrow> kvalue list \<Rightarrow> vm \<Rightarrow> (vm_error + vm_state \<times> vm) option" where
  "call_function fuel h m ci args vm = call_function_after_enter fuel h m ci args (vm \<lparr> vm_shared := None \<rparr>)"

definition call_after_enter ::
  "nat \<Rightarrow> host \<Rightarrow> kmodule \<Rightarrow> kvalue list \<Rightarrow> vm \<Rightarrow> (vm_error + vm_state \<times> vm) option" where
  "call_after_enter fuel h m args vm =
     (case m_entry_point m of
        None \<Rightarrow> Some (Inl VM_InvalidBytecode) | Some entry \<Rightarrow> call_function_after_enter fuel h m entry args vm)"

text \<open>
  The host's buffer of shared data is lent for one entry: its length must be the one the module declares, and
  the machine drops it on return.
\<close>

definition enter_shared :: "kmodule \<Rightarrow> u8 list \<Rightarrow> vm \<Rightarrow> vm_error + vm" where
  "enter_shared m shared vm =
     (let need = unat (m_shared_data_bytes m) in
      if length shared \<noteq> need then Inl VM_NativeError
      else Inr (vm \<lparr> vm_shared := (if need = 0 then None else Some shared) \<rparr>))"

definition leave_shared :: "(vm_error + vm_state \<times> vm) option \<Rightarrow> (vm_error + vm_state \<times> vm) option" where
  "leave_shared r = bindOR r (\<lambda>(st, vm). Some (Inr (st, vm \<lparr> vm_shared := None \<rparr>)))"

definition call_with_shared ::
  "nat \<Rightarrow> host \<Rightarrow> kmodule \<Rightarrow> u8 list \<Rightarrow> kvalue list \<Rightarrow> vm \<Rightarrow> (vm_error + vm_state \<times> vm) option" where
  "call_with_shared fuel h m shared args vm =
     bindOR (Some (enter_shared m shared vm)) (\<lambda>vm. leave_shared (call_after_enter fuel h m args vm))"

definition call_entry ::
  "nat \<Rightarrow> host \<Rightarrow> kmodule \<Rightarrow> kvalue list \<Rightarrow> vm \<Rightarrow> (vm_error + vm_state \<times> vm) option" where
  "call_entry fuel h m args vm = call_with_shared fuel h m [] args vm"

text \<open>
  The input of a resume updates the first parameter of the innermost stream frame, and is pushed as the
  value of the yield unless the machine stopped at a reset.
\<close>

definition frame_block_type :: "kmodule \<Rightarrow> call_frame \<Rightarrow> block_type option" where
  "frame_block_type m f = map_option ch_block_type (nth_opt (m_chunks m) (cf_chunk f))"

definition stream_frame :: "kmodule \<Rightarrow> call_frame list \<Rightarrow> call_frame option" where
  "stream_frame m fs =
     (case List.find (\<lambda>f. frame_block_type m f = Some BT_Stream) fs of
        Some f \<Rightarrow> Some f
      | None \<Rightarrow> if fs = [] then None else Some (last fs))"

definition update_stream_parameter :: "kmodule \<Rightarrow> kvalue \<Rightarrow> vm \<Rightarrow> vm_error + vm" where
  "update_stream_parameter m input vm =
     (case stream_frame m (vm_frames vm) of
        None \<Rightarrow> Inr vm
      | Some f \<Rightarrow>
          (case nth_opt (m_chunks m) (cf_chunk f) of
             None \<Rightarrow> Inr vm
           | Some c \<Rightarrow>
               if ch_block_type c = BT_Stream \<and> ch_param_count c > 0 then
                 if ch_param_types c \<noteq> [] \<and> \<not> admits (hd (ch_param_types c)) input then Inl VM_TypeError
                 else if cf_base f < length (vm_stack vm)
                 then Inr (vm \<lparr> vm_stack := (vm_stack vm)[cf_base f := input] \<rparr>)
                 else Inl VM_Panic
               else Inr vm))"

definition enter_resume :: "host \<Rightarrow> kmodule \<Rightarrow> kvalue \<Rightarrow> vm \<Rightarrow> vm_error + vm" where
  "enter_resume h m input vm =
     bindR (begin_proven_entry [PS_Yielded, PS_Reset] vm) (\<lambda>vm.
     if \<not> vm_started vm \<or> vm_frames vm = [] then Inl VM_NotSuspended
     else
       bindR (import_value h input vm) (\<lambda>(input, vm).
       bindR (case nth_opt (m_signatures m) (cf_chunk (last (vm_frames vm))) of
                None \<Rightarrow> Inr () | Some sg \<Rightarrow> check_host_composite_shape input (sig_resume sg)) (\<lambda>_.
       bindR (update_stream_parameter m input vm) (\<lambda>vm.
       bindR (if vm_suspended_at_reset vm then Inr vm else push h input vm) (\<lambda>vm.
       Inr (prepare_proven_run vm))))))"

definition resume_after_enter ::
  "nat \<Rightarrow> host \<Rightarrow> kmodule \<Rightarrow> kvalue \<Rightarrow> vm \<Rightarrow> (vm_error + vm_state \<times> vm) option" where
  "resume_after_enter fuel h m input vm = bindOR (Some (enter_resume h m input vm)) (run fuel h m)"

definition resume_with_shared ::
  "nat \<Rightarrow> host \<Rightarrow> kmodule \<Rightarrow> u8 list \<Rightarrow> kvalue \<Rightarrow> vm \<Rightarrow> (vm_error + vm_state \<times> vm) option" where
  "resume_with_shared fuel h m shared input vm =
     bindOR (Some (enter_shared m shared vm)) (\<lambda>vm. leave_shared (resume_after_enter fuel h m input vm))"

definition resume ::
  "nat \<Rightarrow> host \<Rightarrow> kmodule \<Rightarrow> kvalue \<Rightarrow> vm \<Rightarrow> (vm_error + vm_state \<times> vm) option" where
  "resume fuel h m input vm = resume_with_shared fuel h m [] input vm"

definition enter_from_breakpoint :: "vm \<Rightarrow> vm_error + vm" where
  "enter_from_breakpoint vm =
     bindR (begin_proven_entry [PS_Breakpoint] vm) (\<lambda>vm.
     case vm_frames vm of
       [] \<Rightarrow> Inl VM_NotSuspended
     | f # fs \<Rightarrow>
         if \<not> vm_started vm then Inl VM_NotSuspended
         else Inr (prepare_proven_run (vm \<lparr> vm_skip_breakpoint_at := Some (cf_chunk f, cf_ip f) \<rparr>)))"

definition resume_from_breakpoint_after_enter ::
  "nat \<Rightarrow> host \<Rightarrow> kmodule \<Rightarrow> vm \<Rightarrow> (vm_error + vm_state \<times> vm) option" where
  "resume_from_breakpoint_after_enter fuel h m vm = bindOR (Some (enter_from_breakpoint vm)) (run fuel h m)"

definition resume_from_breakpoint ::
  "nat \<Rightarrow> host \<Rightarrow> kmodule \<Rightarrow> vm \<Rightarrow> (vm_error + vm_state \<times> vm) option" where
  "resume_from_breakpoint fuel h m vm =
     (if m_shared_data_bytes m \<noteq> 0 then Some (Inl VM_NativeError) else resume_from_breakpoint_after_enter fuel h m vm)"

definition resume_from_breakpoint_with_shared ::
  "nat \<Rightarrow> host \<Rightarrow> kmodule \<Rightarrow> u8 list \<Rightarrow> vm \<Rightarrow> (vm_error + vm_state \<times> vm) option" where
  "resume_from_breakpoint_with_shared fuel h m shared vm =
     bindOR (Some (enter_shared m shared vm)) (\<lambda>vm. leave_shared (resume_from_breakpoint_after_enter fuel h m vm))"

text \<open>
  Recovery: stacks and arena are cleared, the data segment stays.  An exhausted epoch leaves the arena, and
  a proven machine poisoned.
\<close>

definition reset_after_error :: "host \<Rightarrow> vm \<Rightarrow> vm" where
  "reset_after_error h vm =
     (let vm = vm \<lparr> vm_proof_state := (if vm_proven vm then PS_Poisoned else vm_proof_state vm),
                    vm_shared := None, vm_stack := [], vm_frames := [], vm_started := False \<rparr> in
      case reset_unchecked (vm_arena vm) of
        Inl _ \<Rightarrow> vm
      | Inr a \<Rightarrow> vm \<lparr> vm_arena := h_rereserve h a,
                     vm_proof_state := (if vm_pop_proof vm then PS_Ready else vm_proof_state vm) \<rparr>)"

end
