(* ===== verification/Machine_Heap.thy ===== *)
theory Machine_Heap
  imports Admission Machine
begin

text \<open>
  What the virtual machine takes from the top end of its arena, instruction by instruction and over a
  run, against the bytes the memory analysis charges.  The machine packs a tuple or an array by the
  values it finds, and copies an owned string it packs; the analysis adds up the sizes the code declares.
  \<open>size_declared\<close> is the condition under which they agree, \<open>exec_op_takes\<close> the comparison for one
  instruction, and \<open>chunk_run\<close> a run of a chunk on the machine with everything it calls.
\<close>

section \<open>Arena operations\<close>

named_theorems takes_intros \<open>rules that an operation takes at most so many bytes from the top end\<close>

definition stacks_at_bottom :: "host \<Rightarrow> bool" where
  "stacks_at_bottom h \<longleftrightarrow>
     (\<forall>a n b. h_reserve_stack h a n = Some b \<or> h_reserve_frames h a n = Some b \<longrightarrow> ar_top b = ar_top a)"

lemma alloc_top_bytes_takes: "alloc_top_bytes n a = Inr (off, b) \<Longrightarrow> ar_top a = ar_top b + n"
proof -
  assume "alloc_top_bytes n a = Inr (off, b)"
  then obtain l where l: "layout_from_size_align n 1 = Some l" "alloc_top l a = Inr (off, b)"
    by (auto simp: alloc_top_bytes_def split: option.splits)
  have l': "ly_size l = n" "ly_align l = 1" using layout_from_size_align_ok [OF l(1)] by auto
  have "clear_mask x 0 = x" if "x < 2 ^ 64" for x using clear_mask_pow2 [OF that, of 0] by simp
  with l(2) show ?thesis
    by (auto simp: alloc_top_def l' checked_sub_def checked_add_def Let_def split: if_splits)
qed

lemma write_arena_top [simp]: "ar_top (write_arena a off bs) = ar_top a"
  by (simp add: write_arena_def)

lemma build_in_arena_takes: "build_in_arena a n fill = Inr (r, b) \<Longrightarrow> ar_top a = ar_top b + n"
  by (auto simp: build_in_arena_def bindR_Inr dest!: alloc_top_bytes_takes split: if_splits option.splits)

lemma kstring_alloc_takes: "kstring_alloc a s = Inr (ks, b) \<Longrightarrow> ar_top a = ar_top b + length s"
  by (auto simp: kstring_alloc_def bindR_Inr dest!: alloc_top_bytes_takes)

lemma of_alloc_Inr [simp]: "of_alloc r = Inr x \<longleftrightarrow> r = Inr x"
  by (cases r) (auto simp: of_alloc_def split: alloc_error.split)

section \<open>What a composite takes\<close>

text \<open>The bytes of the owned strings among the values, and of the values packed one after another.\<close>

fun owned_text :: "kvalue \<Rightarrow> nat" where
  "owned_text (V_StaticStr s) = length s"
| "owned_text v = 0"

fun packed_bytes :: "kmodule \<Rightarrow> kvalue \<Rightarrow> nat" where
  "packed_bytes m (V_StaticStr s) = size_in_bytes SK_Text (module_word_bytes m) (module_float_bytes m) (module_addr_bytes m)"
| "packed_bytes m v =
     (case flat_field_size v (module_word_bytes m) (module_float_bytes m) (module_addr_bytes m) of None \<Rightarrow> 0 | Some n \<Rightarrow> n)"

abbreviation text_bytes :: "kvalue list \<Rightarrow> nat" where
  "text_bytes vs \<equiv> sum_list (map owned_text vs)"

abbreviation body_bytes :: "kmodule \<Rightarrow> kvalue list \<Rightarrow> nat" where
  "body_bytes m vs \<equiv> sum_list (map (packed_bytes m) vs)"

lemma packed_bytes_size:
  "flat_field_size v (module_word_bytes m) (module_float_bytes m) (module_addr_bytes m) = Some n \<Longrightarrow> packed_bytes m v = n"
  by (cases v) (auto simp: flat_field_size_def)

lemma text_fields_take:
  "text_fields_to_arena a vs = Inr (ws, b) \<Longrightarrow> ar_top a = ar_top b + text_bytes vs \<and> body_bytes m ws = body_bytes m vs"
proof (induction a vs arbitrary: ws b rule: text_fields_to_arena.induct)
  case (2 a s vs)
  then show ?case
    by (auto simp: bindR_Inr flat_field_size_def dest!: kstring_alloc_takes)
qed (auto simp: bindR_Inr)

lemma flat_sizes_sum:
  "flat_sizes vs (module_word_bytes m) (module_float_bytes m) (module_addr_bytes m) = Some n \<Longrightarrow> n = body_bytes m vs"
  by (induction vs arbitrary: n) (auto simp: packed_bytes_size split: option.splits)

lemma pack_flat_takes:
  assumes "pack_flat_in_arena fo im vs k (module_word_bytes m) (module_float_bytes m) (module_addr_bytes m) a = Inr (r, b)"
  shows "ar_top a \<le> ar_top b + max (body_bytes m vs) k"
  using assms flat_sizes_sum [of vs m]
  by (auto simp: pack_flat_in_arena_def Let_def dest!: build_in_arena_takes split: option.splits if_splits)

text \<open>
  A composite takes the bytes of the owned strings it packs, and the larger of its packed size and the size
  a struct or an enum declares.
\<close>

lemma new_composite_takes:
  assumes "exec_new_composite h m ci operand vs a = Inr (v, b)"
  shows "ar_top a \<le> ar_top b + (if wants_flat m operand vs then text_bytes vs + max (body_bytes m vs) (flat_min_bytes operand) else 0)"
proof (cases "wants_flat m operand vs")
  case True
  then obtain ws a1 packed b' where ws: "text_fields_to_arena a vs = Inr (ws, a1)"
    and pack: "pack_flat_in_arena (h_floats h) (h_image h) ws (flat_min_bytes operand)
              (module_word_bytes m) (module_float_bytes m) (module_addr_bytes m) a1 = Inr (packed, b')"
    and rest: "(case packed of
         Some fc \<Rightarrow> Inr (wrap_flat (nc_kind operand) fc, b')
       | None \<Rightarrow>
           (case nc_kind operand of
              CK_Tuple \<Rightarrow> Inr (V_Tuple (Boxed ws), b')
            | CK_Array \<Rightarrow> Inr (V_Array (Boxed ws), b')
            | _ \<Rightarrow> Inl VM_InvalidBytecode)) = (Inr (v, b) :: vm_error + kvalue \<times> arena)"
    using assms by (auto simp: exec_new_composite_def new_composite_flat_def bindR_Inr)
  from rest have "b' = b" by (auto split: option.splits composite_kind.splits)
  with text_fields_take [OF ws, of m] pack_flat_takes [OF pack] show ?thesis using True by simp
next
  case False
  with assms show ?thesis by (auto simp: exec_new_composite_def bindR_Inr)
qed


section \<open>What an instruction takes\<close>

definition takes :: "nat \<Rightarrow> arena \<Rightarrow> vm_error + vm \<Rightarrow> bool" where
  "takes n a r \<longleftrightarrow> (\<forall>vm'. r = Inr vm' \<longrightarrow> ar_top a \<le> ar_top (vm_arena vm') + n)"

lemma takes_simps [simp]:
  "takes n a (Inl e)" "takes n a (Inr vm) \<longleftrightarrow> ar_top a \<le> ar_top (vm_arena vm) + n"
  by (simp_all add: takes_def)

lemma takes_bind: "(\<And>x. r = Inr x \<Longrightarrow> takes n a (f x)) \<Longrightarrow> takes n a (bindR r f)"
  by (cases r) simp_all

lemma takes_pop: "(\<And>v vm1. vm_arena vm1 = vm_arena vm \<Longrightarrow> takes n a (f (v, vm1))) \<Longrightarrow> takes n a (bindR (pop vm) f)"
  by (auto simp: pop_def intro: takes_bind)

lemma takes_guarded: "takes n a r \<Longrightarrow> takes n a (or_invalid ok r)"
  by (simp add: or_invalid_def)

lemma takes_push:
  "stacks_at_bottom h \<Longrightarrow> ar_top a \<le> ar_top (vm_arena vm) + n \<Longrightarrow> takes n a (push h v vm)"
  by (auto simp: push_def stacks_at_bottom_def split: option.split)

lemma takes_push_all:
  "stacks_at_bottom h \<Longrightarrow> ar_top a \<le> ar_top (vm_arena vm) + n \<Longrightarrow> takes n a (push_all h vs vm)"
proof (induction vs arbitrary: vm)
  case (Cons v vs)
  show ?case
    unfolding push_all.simps
  proof (rule takes_bind)
    fix vm1 assume "push h v vm = Inr vm1"
    with takes_push [OF Cons.prems, of v] have "ar_top a \<le> ar_top (vm_arena vm1) + n" by simp
    with Cons show "takes n a (push_all h vs vm1)" by blast
  qed
qed simp

lemma takes_push_frame:
  "stacks_at_bottom h \<Longrightarrow> ar_top a \<le> ar_top (vm_arena vm) + n \<Longrightarrow> takes n a (push_frame h f vm)"
  by (auto simp: push_frame_def stacks_at_bottom_def split: option.split)

lemma takes_operands:
  assumes "stacks_at_bottom h"
  shows "takes 0 (vm_arena vm) (unary h f1 vm)" "takes 0 (vm_arena vm) (binary h f2 vm)"
    "takes 0 (vm_arena vm) (peeking h f1 vm)" "takes 0 (vm_arena vm) (bindR r (\<lambda>vs. push_all h vs vm))"
proof -
  have vals: "takes 0 (vm_arena vm) (bindR r (\<lambda>vs. push_all h vs vm))" for r vm
    by (auto intro!: takes_bind takes_push_all assms)
  have vals': "takes 0 (vm_arena vm) (bindR r (\<lambda>vs. push_all h vs vm1))" if "vm_arena vm1 = vm_arena vm" for r vm1
    using vals [of vm1] that by simp
  show "takes 0 (vm_arena vm) (unary h f1 vm)" unfolding unary_def by (rule takes_pop) (simp add: vals')
  show "takes 0 (vm_arena vm) (binary h f2 vm)"
    unfolding binary_def by (rule takes_pop, simp, rule takes_pop) (simp add: vals')
  show "takes 0 (vm_arena vm) (peeking h f1 vm)" unfolding peeking_def by (rule takes_bind) (rule vals)
  show "takes 0 (vm_arena vm) (bindR r (\<lambda>vs. push_all h vs vm))" by (rule vals)
qed

lemma takes_local:
  assumes "stacks_at_bottom h"
  shows "takes 0 (vm_arena vm) (exec_get_local h slot vm)" "takes 0 (vm_arena vm) (exec_set_local slot vm)"
  unfolding exec_get_local_def exec_set_local_def
  by (auto intro!: takes_pop takes_push assms split: option.split)

lemma takes_branch: "takes 0 (vm_arena vm) (exec_branch on target vm)"
  unfolding exec_branch_def by (auto intro!: takes_pop simp: set_ip_def split: kvalue.split)

lemma takes_type_tests:
  assumes "stacks_at_bottom h"
  shows "takes 0 (vm_arena vm) (is_enum_op h m ci e v d vm)" "takes 0 (vm_arena vm) (is_struct_op h m ci t vm)"
  using takes_operands(3) [OF assms] by (auto simp: is_enum_op_def is_struct_op_def split: kvalue.split option.split)

lemma takes_pop_n: "takes 0 (vm_arena vm) (bindR (operand_start n vm) (\<lambda>k. Inr (truncate k vm)))"
  by (auto intro!: takes_bind simp: truncate_def)

lemma takes_call:
  assumes "stacks_at_bottom h"
  shows "takes 0 (vm_arena vm) (exec_call h m idx n vm)"
  unfolding exec_call_def
proof (intro takes_guarded takes_bind)
  fix k
  show "takes 0 (vm_arena vm) (case checked_sub (chunk_local_count m idx) n of None \<Rightarrow> Inl VM_InvalidBytecode
    | Some extra \<Rightarrow> bindR (push_all h (replicate extra V_Unit) vm) (push_frame h \<lparr> cf_chunk = idx, cf_ip = 0, cf_base = k \<rparr>))"
  proof (cases "checked_sub (chunk_local_count m idx) n")
    case (Some extra)
    have "takes 0 (vm_arena vm) (push_frame h f vm1)" if "push_all h (replicate extra V_Unit) vm = Inr vm1" for vm1 f
      using takes_push_all [OF assms, of "vm_arena vm" vm 0 "replicate extra V_Unit"] that
      by (intro takes_push_frame assms) simp
    then show ?thesis unfolding Some by (auto intro: takes_bind)
  qed simp
qed

section \<open>Data slots\<close>

lemma read_slot_takes:
  assumes "read_data_slot h m vm slot = Inr (v, a)"
  shows "ar_top (vm_arena vm) \<le> ar_top a + slot_copyout (shared_layout_of m) slot"
proof -
  have entry: "nth_opt (shared_layout_of m) slot = shared_layout_entry m slot"
    by (simp add: shared_layout_of_def shared_layout_entry_def nth_opt_def split: option.split)
  show ?thesis
    using assms
    by (auto simp: read_data_slot_def read_shared_from_buffer_def slot_copyout_def entry bindR_Inr Let_def
        dest!: build_in_arena_takes split: if_splits option.splits)
qed

lemma write_slot_takes: "takes 0 (vm_arena vm) (write_data_slot h m vm slot v)"
proof -
  have shared: "takes 0 (vm_arena vm) (write_shared_to_buffer h m vm slot v)"
    by (auto simp: write_shared_to_buffer_def intro!: takes_bind split: option.split)
  have "ar_top b = ar_top (vm_arena vm)" if "persist_composite_body h m (vm_arena vm) v off = Inr (w, b)" for off w b
    using that by (auto simp: persist_composite_body_def bindR_Inr Let_def split: option.splits if_splits)
  with shared show ?thesis
    by (auto simp: write_data_slot_def Let_def intro!: takes_bind split: option.splits)
qed

lemma takes_data:
  assumes "stacks_at_bottom h"
  shows "takes (slot_copyout (shared_layout_of m) slot) (vm_arena vm) (exec_get_data h m slot vm)"
    and "takes 0 (vm_arena vm) (exec_set_data h m slot vm)"
proof -
  show "takes (slot_copyout (shared_layout_of m) slot) (vm_arena vm) (exec_get_data h m slot vm)"
    unfolding exec_get_data_def by (auto intro!: takes_guarded takes_bind takes_push assms dest: read_slot_takes)
  show "takes 0 (vm_arena vm) (exec_set_data h m slot vm)"
    unfolding exec_set_data_def by (auto intro!: takes_guarded takes_pop) (metis write_slot_takes)
qed


lemma index_in_range: "\<not> index_invalid i len \<Longrightarrow> nat (sint (to_i64 i)) < unat len"
  by (auto simp: index_invalid_def not_le not_less nat_less_iff)

lemma takes_data_indexed:
  assumes "stacks_at_bottom h"
  shows "takes (max_or 0 (map (\<lambda>i. slot_copyout (shared_layout_of m) (unat base + i)) [0..<unat len])) (vm_arena vm)
      (exec_get_data_indexed h m base len vm)" (is "takes ?n _ _")
    and "takes 0 (vm_arena vm) (exec_set_data_indexed h m base len vm)"
proof -
  have read: "ar_top (vm_arena vm1) \<le> ar_top a + ?n"
    if "read_data_slot h m vm1 (unat base + nat (sint (to_i64 i))) = Inr (v, a)" "\<not> index_invalid i len" for vm1 i v a
  proof -
    have "nat (sint (to_i64 i)) \<in> set [0..<unat len]" using index_in_range [OF that(2)] by simp
    then have "slot_copyout (shared_layout_of m) (unat base + nat (sint (to_i64 i))) \<le> ?n"
      by (intro max_or_ge) (auto intro!: image_eqI)
    with read_slot_takes [OF that(1)] show ?thesis by simp
  qed
  have "takes ?n (vm_arena vm1) (bindR (if index_invalid i len then Inr (fallback, vm_arena vm1)
      else read_data_slot h m vm1 (unat base + nat (sint (to_i64 i))))
      (\<lambda>(v, a). push_all h (index_outcome v i len (index_invalid i len)) (vm1 \<lparr> vm_arena := a \<rparr>)))" for vm1 i fallback
    by (auto intro!: takes_bind takes_push_all assms dest: read)
  then have core: "takes ?n a (bindR (if index_invalid i len then Inr (fallback, a)
      else read_data_slot h m vm1 (unat base + nat (sint (to_i64 i))))
      (\<lambda>(v, a). push_all h (index_outcome v i len (index_invalid i len)) (vm1 \<lparr> vm_arena := a \<rparr>)))"
    if "vm_arena vm1 = a" for vm1 i fallback a
    using that by blast
  show "takes ?n (vm_arena vm) (exec_get_data_indexed h m base len vm)"
    unfolding exec_get_data_indexed_def Let_def
    apply (intro takes_pop)
    apply (simp only: prod.case split: if_split)
    apply (intro conjI impI takes_simps(1) takes_pop)
    apply (simp only: prod.case)
    apply (intro takes_bind [of "as_index x" for x] takes_guarded)
    apply (rule core)
    apply simp
    done
  have core2: "takes 0 a (bindR (if c then Inr vm1 else write_data_slot h m vm1 s v) (push_all h vs))"
    if "vm_arena vm1 = a" for vm1 c s v vs a
    using write_slot_takes [of vm1 h m s v] that by (auto intro!: takes_bind takes_push_all assms split: if_splits)
  show "takes 0 (vm_arena vm) (exec_set_data_indexed h m base len vm)"
    unfolding exec_set_data_indexed_def Let_def
    apply (intro takes_pop)
    apply (simp only: prod.case)
    apply (intro takes_bind [of "as_index x" for x] takes_pop)
    apply (simp only: prod.case)
    apply (intro takes_guarded)
    apply (rule core2)
    apply simp
    done
qed

section \<open>Composites\<close>

lemma flat_nested_bytes:
  "exec_get_index h m a elem c i = Inr (vs, b) \<Longrightarrow> ar_top a \<le> ar_top b + (case elem of AE_FlatNested sz v \<Rightarrow> unat sz | _ \<Rightarrow> 0)"
  by (auto simp: exec_get_index_def get_index_nested_def bindR_Inr Let_def dest!: build_in_arena_takes
      split: kvalue.splits array_elem.splits value_body.splits if_splits option.splits)

lemma takes_get_index:
  assumes "stacks_at_bottom h"
  shows "takes (heap_alloc (GetIndex elem)) (vm_arena vm) (get_index_op h m elem vm)"
proof -
  have n: "heap_alloc (GetIndex elem) = (case elem of AE_FlatNested sz v \<Rightarrow> unat sz | _ \<Rightarrow> 0)"
    by (simp add: heap_alloc_zero)
  have "takes (heap_alloc (GetIndex elem)) (vm_arena vm1)
      (bindR (exec_get_index h m (vm_arena vm1) elem c i) (\<lambda>(vs, a). push_all h vs (vm1 \<lparr> vm_arena := a \<rparr>)))" for vm1 c i
    unfolding n by (auto intro!: takes_bind takes_push_all assms dest: flat_nested_bytes)
  then have core: "takes (heap_alloc (GetIndex elem)) a
      (bindR (exec_get_index h m a elem c i) (\<lambda>(vs, a). push_all h vs (vm1 \<lparr> vm_arena := a \<rparr>)))"
    if "vm_arena vm1 = a" for vm1 c i a
    using that by blast
  show ?thesis
    unfolding get_index_op_def
    apply (intro takes_pop)
    apply (simp only: prod.case)
    apply (intro takes_pop)
    apply (simp only: prod.case)
    apply (rule core)
    apply simp
    done
qed

text \<open>
  The operands of a flat composite fit its declared size: the owned strings among them are empty and their
  packed size is at most the size.  Other instructions declare nothing.
\<close>

definition operands_of :: "new_composite_operand \<Rightarrow> vm \<Rightarrow> kvalue list" where
  "operands_of operand vm = drop (length (vm_stack vm) - unat (nc_count operand)) (vm_stack vm)"

definition size_declared :: "kmodule \<Rightarrow> op \<Rightarrow> vm \<Rightarrow> bool" where
  "size_declared m x vm =
     (case x of
        NewComposite operand \<Rightarrow>
          let vs = operands_of operand vm in
          wants_flat m operand vs \<longrightarrow> text_bytes vs = 0 \<and> body_bytes m vs \<le> alloc_bytes operand
      | _ \<Rightarrow> True)"

lemma flat_min_bytes_le: "flat_min_bytes operand \<le> alloc_bytes operand"
  by (cases operand) simp_all

lemma takes_new_composite:
  assumes "stacks_at_bottom h" "size_declared m (NewComposite operand) vm"
  shows "takes (heap_alloc (NewComposite operand)) (vm_arena vm) (new_composite_op h m ci operand vm)"
proof -
  have vs: "drop k (vm_stack vm) = operands_of operand vm" if "operand_start (unat (nc_count operand)) vm = Inr k" for k
    using that by (auto simp: operand_start_def operands_of_def checked_sub_def split: if_splits)
  have n: "heap_alloc (NewComposite operand) = alloc_bytes operand" by (simp add: heap_alloc_zero)
  have "ar_top (vm_arena vm) \<le> ar_top b + alloc_bytes operand"
    if "exec_new_composite h m ci operand (operands_of operand vm) (vm_arena vm) = Inr (v, b)" for v b
  proof (cases "wants_flat m operand (operands_of operand vm)")
    case True
    with assms(2) have "text_bytes (operands_of operand vm) = 0" "body_bytes m (operands_of operand vm) \<le> alloc_bytes operand"
      by (simp_all add: size_declared_def Let_def)
    with new_composite_takes [OF that] True flat_min_bytes_le [of operand] show ?thesis by simp
  qed (use new_composite_takes [OF that] in simp)
  then show ?thesis
    unfolding new_composite_op_def n
    by (auto intro!: takes_bind takes_push assms(1) simp: vs truncate_def)
qed


section \<open>One instruction\<close>

lemma go_on_takes: "takes n a r \<Longrightarrow> go_on r = Inr (out, vm') \<Longrightarrow> ar_top a \<le> ar_top (vm_arena vm') + n"
  by (auto simp: go_on_def bindR_Inr)

lemma takes_more: "takes k a r \<Longrightarrow> k \<le> n \<Longrightarrow> takes n a r"
  by (force simp: takes_def)

lemma return_takes:
  assumes "stacks_at_bottom h" "exec_return h vm = Inr (out, vm')"
  shows "ar_top (vm_arena vm) \<le> ar_top (vm_arena vm')"
proof -
  have push: "ar_top (vm_arena vm1) \<le> ar_top (vm_arena vm2)" if "push h v vm1 = Inr vm2" for v vm1 vm2
    using takes_push [OF assms(1), of "vm_arena vm1" vm1 0 v] that by simp
  show ?thesis
  proof (cases "vm_stack vm = [] \<or> vm_frames vm = []")
    case False
    then obtain f fs where "vm_frames vm = f # fs" "vm_stack vm \<noteq> []" by (cases "vm_frames vm") auto
    with assms(2) show ?thesis
      by (auto simp: exec_return_def pop_def truncate_def bindR_Inr Let_def dest!: push split: if_splits)
  qed (use assms(2) in \<open>auto simp: exec_return_def pop_def bindR_Inr split: if_splits\<close>)
qed

lemma yield_takes: "exec_yield vm = Inr (out, vm') \<Longrightarrow> vm_arena vm' = vm_arena vm"
  by (auto simp: exec_yield_def pop_def bindR_Inr split: if_splits)

lemma charge_covers:
  assumes "cr_shared_layout r = shared_layout_of m"
  shows "heap_alloc x \<le> op_iteration_heap x r" "shared_composite_copyout_bytes x (shared_layout_of m) \<le> op_iteration_heap x r"
proof -
  have "unat (w :: u16) \<le> u32_max" for w using unsigned_less [of w, where 'a = nat] by (simp add: u32_max_def)
  moreover from this have "alloc_bytes c \<le> u32_max" for c by (cases c) simp_all
  ultimately have h: "heap_alloc x \<le> u32_max"
    by (cases x) (auto simp: heap_alloc_zero split: array_elem.split)
  then show "heap_alloc x \<le> op_iteration_heap x r" by (simp add: op_iteration_heap_def sat_add_def)
  have slot: "slot_copyout l s \<le> u32_max" for l s
    using \<open>\<And>w :: u16. unat w \<le> u32_max\<close> by (auto simp: slot_copyout_def split: option.split)
  have "max_or 0 xs \<le> u32_max" if "\<forall>y \<in> set xs. y \<le> u32_max" for xs using that by (auto simp: max_or_def)
  with slot have "shared_composite_copyout_bytes x (shared_layout_of m) \<le> u32_max"
    by (cases x) (auto simp: shared_composite_copyout_bytes_def)
  then show "shared_composite_copyout_bytes x (shared_layout_of m) \<le> op_iteration_heap x r"
    using assms by (simp add: op_iteration_heap_def sat_add_def)
qed

lemma takes_push_here: "stacks_at_bottom h \<Longrightarrow> takes 0 (vm_arena vm) (push h v vm)"
  by (rule takes_push) simp_all

lemmas takes_instructions = takes_push_here takes_operands takes_local takes_type_tests takes_data(2)
  takes_data_indexed(2)

text \<open>
  An instruction other than a call, a native call and \<open>Reset\<close> takes at most the bytes the analysis charges
  for it, if its operands fit the size it declares.
\<close>

theorem exec_op_takes:
  assumes h: "stacks_at_bottom h" and own: "own_bytes (ctl_of x)" "x \<noteq> Reset" and size: "size_declared m x vm"
    and layout: "cr_shared_layout r = shared_layout_of m"
    and run: "exec_op h m ci x vm = Inr (out, vm')"
  shows "ar_top (vm_arena vm) \<le> ar_top (vm_arena vm') + op_iteration_heap x r"
proof -
  note charge = charge_covers [OF layout]
  note none = go_on_takes [OF takes_more [OF _ le0]]
  show ?thesis
  proof (cases x)
    case (GetData s)
    then show ?thesis
      using go_on_takes [OF takes_more [OF takes_data(1) [OF h] charge(2) [of x, unfolded GetData shared_composite_copyout_bytes_def op.case]]] run
      by auto
  next
    case (GetDataIndexed b n)
    then show ?thesis
      using go_on_takes [OF takes_more [OF takes_data_indexed(1) [OF h]
          charge(2) [of x, unfolded GetDataIndexed shared_composite_copyout_bytes_def op.case]]] run
      by auto
  next
    case (NewComposite operand)
    then show ?thesis
      using go_on_takes [OF takes_more [OF takes_new_composite [OF h] charge(1)]] run size by auto
  next
    case (GetIndex e)
    then show ?thesis using go_on_takes [OF takes_more [OF takes_get_index [OF h] charge(1)]] run by auto
  next
    case Return
    then show ?thesis using return_takes [OF h] run by fastforce
  next
    case Yield
    then show ?thesis using yield_takes run by simp
  qed (use own run in \<open>auto dest!: none [rotated] intro!: takes_instructions [OF h] takes_branch takes_guarded takes_pop_n simp: set_ip_def\<close>)
qed


section \<open>A run on the machine\<close>

text \<open>The next turn of the loop dispatches the instruction at \<open>i\<close> of chunk \<open>k\<close>.\<close>

definition dispatches :: "kmodule \<Rightarrow> nat \<Rightarrow> nat \<Rightarrow> vm \<Rightarrow> bool" where
  "dispatches m k i vm \<longleftrightarrow>
     (case vm_frames vm of
        [] \<Rightarrow> False
      | f # fs \<Rightarrow> cf_chunk f = k \<and> cf_ip f = i \<and> i < chunk_op_count m k \<and> \<not> at_breakpoint vm (k, i))"

lemma step_dispatches:
  "dispatches m k i vm \<Longrightarrow> step h m vm = exec_op h m k (ch_ops (m_chunks m ! k) ! i) (fetch vm (k, i))"
  by (auto simp: dispatches_def step_def Let_def split: list.splits)

lemma fetch_same [simp]: "vm_arena (fetch vm pos) = vm_arena vm" "size_declared m x (fetch vm pos) = size_declared m x vm"
  by (auto simp: fetch_def set_ip_def size_declared_def operands_of_def split: op.split)

text \<open>
  \<open>chunk_run k vm vm'\<close>: the machine goes from \<open>vm\<close> to \<open>vm'\<close> along a run of chunk \<open>k\<close> within its span, with
  everything it calls, in which loops respect the bounds extracted for them.  Operands fit declared
  sizes; the run ends before a \<open>Reset\<close>, which gives the top end back.  A native takes at its call site at
  most what is attested for one call, and what natives take beyond that in a frame is within the
  attested total of its external natives.  When the machine is suspended the host resumes it with an
  input whose import takes nothing from the top end.
\<close>

inductive chunk_run :: "host \<Rightarrow> kmodule \<Rightarrow> nat list \<Rightarrow> (chunk \<Rightarrow> nat \<Rightarrow> nat) \<Rightarrow> nat \<Rightarrow> vm \<Rightarrow> vm \<Rightarrow> bool"
  and frame_run :: "host \<Rightarrow> kmodule \<Rightarrow> nat list \<Rightarrow> (chunk \<Rightarrow> nat \<Rightarrow> nat) \<Rightarrow> nat \<Rightarrow> nat list \<Rightarrow> vm \<Rightarrow> vm \<Rightarrow> nat \<Rightarrow> bool"
  for h m natives add_external where
  cr_run: "k < length (m_chunks m) \<Longrightarrow> chunk_span (m_chunks m ! k) = Inr (s, e) \<Longrightarrow>
     bounded_run (m_chunks m ! k) s e tr oc \<Longrightarrow> frame_run h m natives add_external k tr vm vm' x \<Longrightarrow>
     capped x \<le> add_external (m_chunks m ! k) 0 \<Longrightarrow> chunk_run h m natives add_external k vm vm'"
| fr_nil: "frame_run h m natives add_external k [] vm vm 0"
| fr_op: "dispatches m k i vm \<Longrightarrow> own_bytes (ctl_of (ch_ops (m_chunks m ! k) ! i)) \<Longrightarrow> ch_ops (m_chunks m ! k) ! i \<noteq> Reset \<Longrightarrow>
     size_declared m (ch_ops (m_chunks m ! k) ! i) vm \<Longrightarrow> step h m vm = Inr (out, vm1) \<Longrightarrow>
     frame_run h m natives add_external k tr vm1 vm' x \<Longrightarrow> frame_run h m natives add_external k (i # tr) vm vm' x"
| fr_call: "dispatches m k i vm \<Longrightarrow> ch_ops (m_chunks m ! k) ! i = Call callee a \<Longrightarrow> step h m vm = Inr (out, vm1) \<Longrightarrow>
     chunk_run h m natives add_external (unat callee) vm1 vm2 \<Longrightarrow>
     frame_run h m natives add_external k tr vm2 vm' x \<Longrightarrow> frame_run h m natives add_external k (i # tr) vm vm' x"
| fr_native: "dispatches m k i vm \<Longrightarrow>
     ch_ops (m_chunks m ! k) ! i = CallVerifiedNative idx a \<or> ch_ops (m_chunks m ! k) ! i = CallExternalNative idx a \<Longrightarrow>
     step h m vm = Inr (out, vm1) \<Longrightarrow>
     ar_top (vm_arena vm) \<le> ar_top (vm_arena vm1) + resolve_native (table_resolver m natives []) idx + y \<Longrightarrow>
     frame_run h m natives add_external k tr vm1 vm' x \<Longrightarrow> frame_run h m natives add_external k (i # tr) vm vm' (y + x)"
| fr_resume: "enter_resume h m input (finish_run st vm) = Inr vm1 \<Longrightarrow> ar_top (vm_arena vm1) = ar_top (vm_arena vm) \<Longrightarrow>
     frame_run h m natives add_external k tr vm1 vm' x \<Longrightarrow> frame_run h m natives add_external k tr vm vm' x"
| fr_breakpoint: "enter_from_breakpoint (finish_run st vm) = Inr vm1 \<Longrightarrow>
     frame_run h m natives add_external k tr vm1 vm' x \<Longrightarrow> frame_run h m natives add_external k tr vm vm' x"

lemma enter_breakpoint_arena: "enter_from_breakpoint (finish_run st vm) = Inr vm1 \<Longrightarrow> vm_arena vm1 = vm_arena vm"
  by (auto simp: enter_from_breakpoint_def begin_proven_entry_def finish_run_def prepare_proven_run_def bindR_Inr
      split: if_splits list.splits)

text \<open>The bytes such a run takes are charged.\<close>

theorem runs_charged:
  assumes h: "stacks_at_bottom h"
  shows "chunk_run h m natives add_external k vm vm' \<Longrightarrow>
      \<exists>n. chunk_allocs m natives add_external k n \<and> ar_top (vm_arena vm) \<le> ar_top (vm_arena vm') + n"
    and "frame_run h m natives add_external k tr vm vm' x \<Longrightarrow>
      \<exists>n. path_allocs m natives add_external k tr n \<and> ar_top (vm_arena vm) \<le> ar_top (vm_arena vm') + n + x"
proof (induction rule: chunk_run_frame_run.inducts)
  case (cr_run k s e tr oc vm vm' x)
  then obtain n where n: "path_allocs m natives add_external k tr n" "ar_top (vm_arena vm) \<le> ar_top (vm_arena vm') + n + x" by blast
  with ca_run [OF cr_run(1-3) n(1) cr_run(6)] show ?case by (auto simp: add.assoc)
next
  case (fr_nil k vm)
  then show ?case using pa_nil by fastforce
next
  case (fr_op k i vm out vm1 tr vm' x)
  let ?op = "ch_ops (m_chunks m ! k) ! i" and ?r = "table_resolver m natives []"
  obtain n where n: "path_allocs m natives add_external k tr n" "ar_top (vm_arena vm1) \<le> ar_top (vm_arena vm') + n + x"
    using fr_op.IH by blast
  have layout: "cr_shared_layout ?r = shared_layout_of m" by (simp add: table_resolver_def)
  have "ar_top (vm_arena vm) \<le> ar_top (vm_arena vm1) + op_iteration_heap ?op ?r"
    using exec_op_takes [OF h fr_op(2,3) _ layout, of "fetch vm (k, i)" k out vm1] fr_op(4,5) step_dispatches [OF fr_op(1), of h]
    by simp
  with n show ?case using pa_op [OF fr_op(2) refl n(1)] by (intro exI [of _ "op_iteration_heap ?op ?r + n"]) simp
next
  case (fr_call k i vm callee a out vm1 vm2 tr vm' x)
  obtain n1 n2 where n: "chunk_allocs m natives add_external (unat callee) n1" "ar_top (vm_arena vm1) \<le> ar_top (vm_arena vm2) + n1"
      "path_allocs m natives add_external k tr n2" "ar_top (vm_arena vm2) \<le> ar_top (vm_arena vm') + n2 + x"
    using fr_call.IH by blast
  have "ar_top (vm_arena vm) \<le> ar_top (vm_arena vm1)"
    using go_on_takes [OF takes_call [OF h]] fr_call(3) step_dispatches [OF fr_call(1), of h] fr_call(2) by fastforce
  with n show ?case using pa_call [OF fr_call(2) n(1,3)] by (intro exI [of _ "n1 + n2"]) simp
next
  case (fr_native k i vm idx a out vm1 y tr vm' x)
  obtain n where n: "path_allocs m natives add_external k tr n" "ar_top (vm_arena vm1) \<le> ar_top (vm_arena vm') + n + x"
    using fr_native.IH by blast
  with fr_native(4) show ?case
    using pa_native [OF fr_native(2) order_refl n(1)]
    by (intro exI [of _ "resolve_native (table_resolver m natives []) idx + n"]) simp
next
  case (fr_resume input st vm vm1 k tr vm' x)
  then show ?case by simp
next
  case (fr_breakpoint st vm vm1 k tr vm' x)
  then show ?case using enter_breakpoint_arena [OF fr_breakpoint(1)] by simp
qed

lemma machine_heap_covered:
  assumes "verify_structural m = Some (Inr ())" "list_all span_linked (m_chunks m)"
    and "module_wcmu_with_bounds m bounds vsb = Some (Inr table)" "stacks_at_bottom h"
    and "chunk_run h m (per_site_native_wcmu bounds) (external_native_wcmu bounds) k vm vm'"
  shows "capped (ar_top (vm_arena vm) - ar_top (vm_arena vm')) \<le> snd (table ! k)"
proof -
  obtain n where "chunk_allocs m (per_site_native_wcmu bounds) (external_native_wcmu bounds) k n"
    "ar_top (vm_arena vm) - ar_top (vm_arena vm') \<le> n"
    using runs_charged(1) [OF assms(4,5)] by (auto simp: le_diff_conv)
  then show ?thesis using module_heap_covered [OF assms(1-3)] capped_mono le_trans by blast
qed

lemma served_by_budget:
  assumes "capped t \<le> snd w" "budget_total (chunk_budget w) \<le> capacity" "capacity < u32_max"
    and "arena_ok a" "arena_reset a = Inr a'" "capacity \<le> ar_capacity a - ar_persistent a"
    and "requested False rs \<le> t" "requested True rs \<le> fst w"
  shows "\<exists>a''. run_requests rs a' = Inr a''"
proof (rule budget_suffices [OF assms(4,5)])
  show "budget_total (chunk_budget w) \<le> ar_capacity a - ar_persistent a" using assms(2,6) by simp
  have "snd w < u32_max" using assms(2,3) by (auto simp: budget_total_def chunk_budget_def saturating_add64_def u32_max_def)
  with assms(1,7) show "requested False rs \<le> top_bytes (chunk_budget w)" by (simp add: chunk_budget_def capped_def min_def split: if_splits)
  show "requested True rs \<le> bottom_bytes (chunk_budget w)" using assms(8) by (simp add: chunk_budget_def)
qed

end
