(* ===== verification/Wcmu_Stack.thy ===== *)
theory Wcmu_Stack
  imports Wcmu
begin

text \<open>
  The operand-stack part of the memory walk.  Where the code has one stack height per position
  (branches of an \<open>If\<close> meet at the same height, and a loop leaves the stack as it found it), the peak
  the walk reports is reached by no control path: \<open>wcmu_region_bounds_stack\<close>.  The heights are a
  certificate that a checker evaluates.  The condition on loops is needed: the walk resumes after a loop
  at the height of its entry, whatever its breaks leave on the stack.
\<close>

section \<open>What a run reaches\<close>

text \<open>A run of a region stays at or below \<open>lim\<close>; \<open>g\<close> is what it reaches at a position.\<close>

definition stays ::
  "op list \<Rightarrow> (nat \<Rightarrow> int) \<Rightarrow> nat \<Rightarrow> nat \<Rightarrow> int \<Rightarrow> bool \<Rightarrow> bool \<Rightarrow> bool" where
  "stays ops g s e lim ft bk \<longleftrightarrow>
     (\<forall>tr oc. rexec ops any_passes s e tr oc \<longrightarrow>
        (\<forall>i \<in> set tr. g i \<le> lim) \<and> (oc = Fall \<longrightarrow> ft) \<and> (oc = Brk \<longrightarrow> bk))"

lemma staysD:
  "stays ops g s e lim ft bk \<Longrightarrow> rexec ops any_passes s e tr oc \<Longrightarrow>
     (\<forall>i \<in> set tr. g i \<le> lim) \<and> (oc = Fall \<longrightarrow> ft) \<and> (oc = Brk \<longrightarrow> bk)"
  unfolding stays_def by blast

lemma staysI:
  assumes "\<And>tr oc. rexec ops any_passes s e tr oc \<Longrightarrow>
     (\<forall>i \<in> set tr. g i \<le> lim) \<and> (oc = Fall \<longrightarrow> ft) \<and> (oc = Brk \<longrightarrow> bk)"
  shows "stays ops g s e lim ft bk"
  using assms unfolding stays_def by blast

lemma stays_mono: "stays ops g s e lim ft bk \<Longrightarrow> lim \<le> lim' \<Longrightarrow> (bk \<Longrightarrow> bk') \<Longrightarrow> stays ops g s e lim' ft bk'"
  unfolding stays_def by fastforce

lemma stays_nil: "ft \<Longrightarrow> stays ops g s s lim ft bk"
  by (auto simp: stays_def dest: rexec_nil_inv)

lemma stays_step:
  assumes "stays ops g (Suc s) e lim ft bk" "s \<noteq> e" "g s \<le> lim"
    and "ctl_linear (ctl_of (ops ! s)) \<or> ctl_exits (ctl_of (ops ! s))
      \<or> ctl_of (ops ! s) = C_EndIf \<or> ctl_of (ops ! s) = C_BreakIf t \<and> bk"
  shows "stays ops g s e lim ft bk"
proof (rule staysI)
  fix tr oc assume "rexec ops any_passes s e tr oc"
  with assms(2,4) consider "tr = []" "oc = Part" | "tr = [s]" "oc = Part \<or> oc = Brk \<and> bk"
    | u where "tr = s # u" "rexec ops any_passes (Suc s) e u oc"
    by (auto dest: rexec_lin_inv rexec_exit_inv rexec_breakif_inv)
  then show "(\<forall>i \<in> set tr. g i \<le> lim) \<and> (oc = Fall \<longrightarrow> ft) \<and> (oc = Brk \<longrightarrow> bk)"
    using assms(3) staysD [OF assms(1)] by cases auto
qed

lemma stays_exit:
  assumes "ctl_exits (ctl_of (ops ! s))" "s \<noteq> e" "g s \<le> lim"
  shows "stays ops g s e lim ft bk"
  using assms by (auto simp: stays_def dest!: rexec_exit_inv)

lemma stays_break:
  assumes "ctl_of (ops ! s) = C_Break t" "s \<noteq> e" "g s \<le> lim" "bk"
  shows "stays ops g s e lim ft bk"
  using assms by (auto simp: stays_def dest!: rexec_break_inv)

lemma stays_if:
  assumes body: "stays ops g (Suc s) t lim f1 k1" and rest: "stays ops g t e lim ft bk"
    and c: "ctl_of (ops ! s) = C_If t" "else_target ops t = None" "s \<noteq> e"
    and s: "g s \<le> lim" and brs: "k1 \<Longrightarrow> bk"
  shows "stays ops g s e lim ft bk"
proof (rule staysI)
  fix tr oc assume "rexec ops any_passes s e tr oc"
  from this c show "(\<forall>i \<in> set tr. g i \<le> lim) \<and> (oc = Fall \<longrightarrow> ft) \<and> (oc = Brk \<longrightarrow> bk)"
  proof (cases rule: rexec_if_inv)
    case (stop tr1 oc1)
    then show ?thesis using staysD [OF body stop(2)] s brs by auto
  next
    case (thn tr1 tr2)
    then show ?thesis using staysD [OF body thn(2)] staysD [OF rest thn(3)] s by auto
  next
    case (skip tr2)
    then show ?thesis using staysD [OF rest skip(2)] s by auto
  qed simp
qed

lemma stays_ifelse:
  assumes thn: "stays ops g (Suc s) m lim f1 k1" and els: "stays ops g (Suc m) q lim f2 k2"
    and rest: "f1 \<or> f2 \<Longrightarrow> stays ops g q e lim ft bk" and m: "f1 \<Longrightarrow> g m \<le> lim"
    and c: "ctl_of (ops ! s) = C_If (Suc m)" "else_target ops (Suc m) = Some q" "s \<noteq> e"
    and s: "g s \<le> lim" and brs: "k1 \<or> k2 \<Longrightarrow> bk"
  shows "stays ops g s e lim ft bk"
proof (rule staysI)
  fix tr oc assume "rexec ops any_passes s e tr oc"
  from this c show "(\<forall>i \<in> set tr. g i \<le> lim) \<and> (oc = Fall \<longrightarrow> ft) \<and> (oc = Brk \<longrightarrow> bk)"
  proof (cases rule: rexec_ifelse_inv)
    case (tstop tr1 oc1)
    then show ?thesis using staysD [OF thn tstop(2)] s brs by auto
  next
    case (estop tr1 oc1)
    then show ?thesis using staysD [OF els estop(2)] s brs by auto
  next
    case (thn tr1 tr2)
    then have "f1" using staysD [OF assms(1)] by blast
    then show ?thesis using thn staysD [OF assms(1) thn(2)] staysD [OF rest thn(3)] m s by auto
  next
    case (els tr1 tr2)
    then have "f2" using staysD [OF assms(2)] by blast
    then show ?thesis using els staysD [OF assms(2) els(2)] staysD [OF rest els(3)] s by auto
  qed simp
qed

lemma stays_passes:
  assumes body: "stays ops g (Suc s) b lim f1 k1" and b: "f1 \<Longrightarrow> g b \<le> lim"
  shows "lexec ops any_passes s (Suc b) k fin tr oc \<Longrightarrow> (\<forall>i \<in> set tr. g i \<le> lim) \<and> (oc = Brk \<longrightarrow> k1)"
proof (induction k arbitrary: tr)
  case 0
  then show ?case using staysD [OF body] by (auto dest!: lexec_0_inv)
next
  case (Suc k)
  then obtain tr1 tr2 where t: "tr = tr1 @ b # tr2" "rexec ops any_passes (Suc s) b tr1 Fall"
    "lexec ops any_passes s (Suc b) k fin tr2 oc" by (auto dest!: lexec_Suc_inv)
  with Suc.IH [OF t(3)] staysD [OF body t(2)] b show ?case by auto
qed

lemma stays_loop:
  assumes body: "stays ops g (Suc s) b lim f1 lk" and b: "f1 \<Longrightarrow> g b \<le> lim"
    and rest: "lk \<Longrightarrow> stays ops g (Suc b) e lim ft bk"
    and c: "ctl_of (ops ! s) = C_Loop (Suc b)" "s \<noteq> e" and s: "g s \<le> lim"
  shows "stays ops g s e lim ft bk"
proof (rule staysI)
  fix tr oc assume "rexec ops any_passes s e tr oc"
  from this c show "(\<forall>i \<in> set tr. g i \<le> lim) \<and> (oc = Fall \<longrightarrow> ft) \<and> (oc = Brk \<longrightarrow> bk)"
  proof (cases rule: rexec_loop_inv)
    case (stop tr1 k fin)
    then show ?thesis using stays_passes [OF body b stop(2)] s by auto
  next
    case (leave tr1 tr2 k fin)
    then have "lk" using stays_passes [OF body b leave(2)] by blast
    then show ?thesis using leave stays_passes [OF body b leave(2)] staysD [OF rest leave(4)] s by auto
  qed simp
qed

section \<open>Heights\<close>

definition height_max :: int where
  "height_max = 2 ^ 20"

definition op_net :: "chunk \<Rightarrow> nat \<Rightarrow> int" where
  "op_net chunk i = snd (op_depth_effect (ch_ops chunk ! i))"

text \<open>How far an instruction rises above the height it starts at; a call, by the frame of its callee.\<close>

definition op_rise :: "chunk \<Rightarrow> call_resolver \<Rightarrow> nat \<Rightarrow> nat \<Rightarrow> int" where
  "op_rise chunk r vsb i =
     (case ch_ops chunk ! i of
        Call callee n \<Rightarrow> max (int (fst (resolve_chunk r callee) div vsb) - int (unat n)) 1
      | x \<Rightarrow> int (stack_growth x))"

text \<open>The positions an instruction hands its height to; the walk passes \<open>Reset\<close> by.\<close>

fun height_succs :: "ctl \<Rightarrow> nat \<Rightarrow> nat list" where
  "height_succs C_Reset i = [Suc i]"
| "height_succs c i = frame_succs c i"

text \<open>
  The certificate: a height for every position and the end, the same along every edge, in range, and
  the same after a loop as before it.
\<close>

definition height_ok_at :: "chunk \<Rightarrow> call_resolver \<Rightarrow> nat \<Rightarrow> (nat \<Rightarrow> int) \<Rightarrow> nat \<Rightarrow> bool" where
  "height_ok_at chunk r vsb h i \<longleftrightarrow>
     h i + op_rise chunk r vsb i \<le> height_max
   \<and> list_all (\<lambda>j. h j = h i + op_net chunk i) (height_succs (ctl_of (ch_ops chunk ! i)) i)
   \<and> (case ctl_of (ch_ops chunk ! i) of C_Loop t \<Rightarrow> h t = h i | _ \<Rightarrow> True)
   \<and> (case ch_ops chunk ! i of
        Call callee n \<Rightarrow> int (fst (resolve_chunk r callee) div vsb) \<le> height_max | _ \<Rightarrow> True)"

definition heights_ok :: "chunk \<Rightarrow> call_resolver \<Rightarrow> nat \<Rightarrow> (nat \<Rightarrow> int) \<Rightarrow> bool" where
  "heights_ok chunk r vsb h \<longleftrightarrow>
     list_all (\<lambda>i. 0 \<le> h i \<and> h i \<le> height_max) [0..<Suc (length (ch_ops chunk))]
   \<and> list_all (height_ok_at chunk r vsb h) [0..<length (ch_ops chunk)]"

lemma heights_range: "heights_ok chunk r vsb h \<Longrightarrow> i \<le> length (ch_ops chunk) \<Longrightarrow> 0 \<le> h i \<and> h i \<le> height_max"
  by (cases "i = length (ch_ops chunk)") (simp_all add: heights_ok_def list_all_iff)

lemma heights_at: "heights_ok chunk r vsb h \<Longrightarrow> i < length (ch_ops chunk) \<Longrightarrow> height_ok_at chunk r vsb h i"
  by (simp add: heights_ok_def list_all_iff)

lemma heights_edge:
  "heights_ok chunk r vsb h \<Longrightarrow> i < length (ch_ops chunk) \<Longrightarrow> j \<in> set (height_succs (ctl_of (ch_ops chunk ! i)) i) \<Longrightarrow>
     h j = h i + op_net chunk i"
  by (drule (1) heights_at) (simp add: height_ok_at_def list_all_iff)

lemma heights_loop:
  "heights_ok chunk r vsb h \<Longrightarrow> i < length (ch_ops chunk) \<Longrightarrow> ctl_of (ch_ops chunk ! i) = C_Loop t \<Longrightarrow> h t = h i"
  by (drule (1) heights_at) (simp add: height_ok_at_def)

lemma heights_rise:
  "heights_ok chunk r vsb h \<Longrightarrow> i < length (ch_ops chunk) \<Longrightarrow> h i + op_rise chunk r vsb i \<le> height_max"
  by (drule (1) heights_at) (simp add: height_ok_at_def)

lemma heights_call:
  "heights_ok chunk r vsb h \<Longrightarrow> i < length (ch_ops chunk) \<Longrightarrow> ch_ops chunk ! i = Call callee n \<Longrightarrow>
     int (fst (resolve_chunk r callee) div vsb) \<le> height_max"
  by (drule (1) heights_at) (simp add: height_ok_at_def)

text \<open>The marks of the blocks change nothing.\<close>

lemma marks_neutral:
  assumes "ctl_of (ch_ops chunk ! i) \<in> {C_EndIf, C_Else t, C_EndLoop t, C_Loop t}"
  shows "op_net chunk i = 0 \<and> op_rise chunk r vsb i = 0"
  using assms by (cases "ch_ops chunk ! i") (auto simp: op_net_def op_rise_def)


section \<open>One instruction\<close>

lemma wrap_i32_small [simp]: "- (2 ^ 31) \<le> x \<Longrightarrow> x < 2 ^ 31 \<Longrightarrow> wrap_i32 x = x"
  by (simp add: wrap_i32_def)

lemma wrap_i32_near: "- 2147483648 \<le> x \<Longrightarrow> x < 2147483648 \<Longrightarrow> wrap_i32 x = x"
  by simp

lemma height_max_eq: "height_max = 1048576"
  by (simp add: height_max_def)

text \<open>
  At height \<open>h s\<close> and with \<open>b\<close> the height at which the walk counts from zero, the accounting of the
  instruction at \<open>s\<close> moves the offset by its net effect and raises the peak to what it reaches.
\<close>

lemma op_net_le_rise: "op_net chunk i \<le> op_rise chunk r vsb i"
proof (cases "ch_ops chunk ! i")
  case (Call callee n)
  have "1 - int (unat n) \<le> 1" by simp
  with Call show ?thesis by (simp add: op_net_def op_rise_def max.coboundedI2 del: int_nat_eq)
qed (auto simp: op_net_def op_rise_def)

lemma mcu_charge_stack:
  assumes "mc_offset st = x" "\<bar>x + int g\<bar> < 2 ^ 31" "\<bar>x + (int g - int k)\<bar> < 2 ^ 31"
  shows "mc_offset (mcu_charge g k bytes st) = x + (int g - int k)"
    and "mc_peak (mcu_charge g k bytes st) = max (mc_peak st) (nat (x + int g))"
  using assms by (auto simp: mcu_charge_def mcu_during_def)

lemma mcu_call_stack:
  assumes "mc_offset st = x" "resolve_chunk r callee = (w, y)" "- height_max \<le> x" "x \<le> height_max"
    and "int (w div vsb) \<le> height_max"
  shows "mc_offset (mcu_call r vsb callee n st) = x + (1 - int (unat n))"
    and "mc_peak (mcu_call r vsb callee n st) = max (mc_peak st) (nat (x + max (int (w div vsb) - int (unat n)) 1))"
proof -
  have n: "int (unat n) < 256" using unsigned_less [of n, where 'a = int] by simp
  have c: "as_i32 (w div vsb) = int (w div vsb)" using assms(5) by (simp add: as_i32_def height_max_def)
  have nn: "0 \<le> int (unat n)" by simp
  have "wrap_i32 (x + (1 - int (unat n))) = x + (1 - int (unat n))"
    by (rule wrap_i32_near) (use assms(3,4) [unfolded height_max_eq] n nn in linarith)+
  then show "mc_offset (mcu_call r vsb callee n st) = x + (1 - int (unat n))"
    using assms(1) by (simp add: mcu_call_def Let_def del: int_nat_eq)
  have dd: "0 \<le> int (w div vsb)" by simp
  have "wrap_i32 (x + int (w div vsb)) = x + int (w div vsb)"
    "wrap_i32 (x + int (w div vsb) - int (unat n)) = x + int (w div vsb) - int (unat n)"
    "wrap_i32 (x + 1) = x + 1"
    by (rule wrap_i32_near; use assms(3-5) [unfolded height_max_eq] n nn dd in linarith)+
  then show "mc_peak (mcu_call r vsb callee n st) = max (mc_peak st) (nat (x + max (int (w div vsb) - int (unat n)) 1))"
    using assms(1,2) c
    by (simp add: mcu_call_def Let_def max_add_distrib_right add_diff_eq del: int_nat_eq)
qed

lemma mcu_op_stack:
  assumes h: "heights_ok chunk r vsb h" "s < length (ch_ops chunk)"
    and o: "mc_offset st = h s - b" "0 \<le> b" "b \<le> height_max" "h s - b \<le> int (mc_peak st)"
    and nx: "- height_max \<le> h s + op_net chunk s" "h s + op_net chunk s \<le> height_max"
  defines "a \<equiv> mcu_op r vsb (ch_ops chunk ! s) st"
  shows "mc_offset a = h s + op_net chunk s - b"
    and "mc_peak a = max (mc_peak st) (nat (h s + op_rise chunk r vsb s - b))"
proof -
  note hs = heights_range [OF h(1) less_imp_le [OF h(2)]] and rs = heights_rise [OF h]
  let ?x = "ch_ops chunk ! s"
  have charge: "mc_offset (mcu_charge (stack_growth ?x) (stack_shrink ?x) bytes st) = h s + op_net chunk s - b
      \<and> mc_peak (mcu_charge (stack_growth ?x) (stack_shrink ?x) bytes st) = max (mc_peak st) (nat (h s + int (stack_growth ?x) - b))"
    if "op_rise chunk r vsb s = int (stack_growth ?x)" for bytes
  proof -
    have net: "op_net chunk s = int (stack_growth ?x) - int (stack_shrink ?x)" by (simp add: op_net_def stack_models_agree)
    have "\<bar>h s - b + int (stack_growth ?x)\<bar> < 2 ^ 31" "\<bar>h s - b + (int (stack_growth ?x) - int (stack_shrink ?x))\<bar> < 2 ^ 31"
      using hs rs that o nx net unfolding height_max_def by auto
    note c = mcu_charge_stack [OF o(1) this, of bytes]
    have "mc_offset (mcu_charge (stack_growth ?x) (stack_shrink ?x) bytes st) = h s + op_net chunk s - b"
      using c(1) net by linarith
    moreover have "h s - b + int (stack_growth ?x) = h s + int (stack_growth ?x) - b" by simp
    ultimately show ?thesis using c(2) by simp
  qed
  have "mc_offset a = h s + op_net chunk s - b \<and> mc_peak a = max (mc_peak st) (nat (h s + op_rise chunk r vsb s - b))"
  proof (cases ?x)
    case (Call callee n)
    obtain w y where w: "resolve_chunk r callee = (w, y)" by fastforce
    have "- height_max \<le> h s - b" "h s - b \<le> height_max" "int (w div vsb) \<le> height_max"
      using hs o heights_call [OF h Call] w by auto
    from mcu_call_stack [OF o(1) w this] Call w show ?thesis
      by (simp add: a_def mcu_op_def op_net_def op_rise_def algebra_simps del: int_nat_eq)
  next
    case (Else_op t)
    then show ?thesis using o(1,4) by (simp add: a_def mcu_op_def op_net_def op_rise_def)
  next
    case EndIf
    then show ?thesis using o(1,4) by (simp add: a_def mcu_op_def op_net_def op_rise_def)
  next
    case (EndLoop t)
    then show ?thesis using o(1,4) by (simp add: a_def mcu_op_def op_net_def op_rise_def)
  qed (use charge in \<open>simp_all add: a_def mcu_op_def op_rise_def\<close>)
  then show "mc_offset a = h s + op_net chunk s - b"
    and "mc_peak a = max (mc_peak st) (nat (h s + op_rise chunk r vsb s - b))" by blast+
qed

section \<open>The walk\<close>

text \<open>
  Peaks stay far below \<open>2 ^ 32\<close>: a level of nesting adds at most the range of heights, and there are
  at most \<open>MAX_REGION_DEPTH\<close> levels.
\<close>

definition peak_lim :: "nat \<Rightarrow> int" where
  "peak_lim d = int (258 - d) * 2097152"

lemma peak_lim_Suc: "d \<le> MAX_REGION_DEPTH \<Longrightarrow> height_max + peak_lim (Suc d) \<le> peak_lim d"
  by (simp add: peak_lim_def height_max_eq MAX_REGION_DEPTH_def of_nat_diff)

lemma peak_lim_ge: "d \<le> MAX_REGION_DEPTH \<Longrightarrow> height_max \<le> peak_lim d"
  by (simp add: peak_lim_def height_max_eq MAX_REGION_DEPTH_def of_nat_diff)

lemma peak_lim_small: "peak_lim d < 4294967296"
proof -
  have "int (258 - d) \<le> 258" by simp
  then have "peak_lim d \<le> 258 * 2097152" unfolding peak_lim_def by (intro mult_right_mono) simp_all
  then show ?thesis by simp
qed

text \<open>The state of the walk at a position, counting from the height \<open>b\<close>.\<close>

definition at_height :: "(nat \<Rightarrow> int) \<Rightarrow> int \<Rightarrow> nat \<Rightarrow> nat \<Rightarrow> mcu_state \<Rightarrow> bool" where
  "at_height h b d s st \<longleftrightarrow> 0 \<le> b \<and> b \<le> height_max \<and> mc_offset st = h s - b \<and> h s - b \<le> int (mc_peak st)
     \<and> int (mc_peak st) \<le> peak_lim d"

abbreviation reach :: "chunk \<Rightarrow> call_resolver \<Rightarrow> nat \<Rightarrow> (nat \<Rightarrow> int) \<Rightarrow> nat \<Rightarrow> int" where
  "reach chunk r vsb h \<equiv> \<lambda>i. h i + op_rise chunk r vsb i"

text \<open>What a result says about the region it is for.\<close>

definition peak_result ::
  "chunk \<Rightarrow> call_resolver \<Rightarrow> nat \<Rightarrow> (nat \<Rightarrow> int) \<Rightarrow> int \<Rightarrow> nat \<Rightarrow> nat \<Rightarrow> nat \<Rightarrow> nat \<Rightarrow> mcu_outcome \<Rightarrow> mcu_result list \<Rightarrow> bool" where
  "peak_result chunk r vsb h b d s e pk out new \<longleftrightarrow>
     pk \<le> mo_peak_above_initial out \<and> int (mo_peak_above_initial out) \<le> peak_lim d
   \<and> (\<forall>x. mo_delta out = Some x \<longrightarrow> x = h e - b \<and> h e - b \<le> int (mo_peak_above_initial out))
   \<and> (\<forall>x \<in> set new. int (mr_peak_above_initial x) \<le> peak_lim d)
   \<and> stays (ch_ops chunk) (reach chunk r vsb h) s e (int (mo_peak_above_initial out) + b) (mo_delta out \<noteq> None) (new \<noteq> [])"

definition peak_walk_sound ::
  "chunk \<Rightarrow> call_resolver \<Rightarrow> nat \<Rightarrow> (nat \<Rightarrow> int) \<Rightarrow> nat \<Rightarrow> nat \<Rightarrow> nat \<Rightarrow> bool" where
  "peak_walk_sound chunk r vsb h d s e \<longleftrightarrow>
     (\<forall>fuel st brs out brs' b.
        wcmu_region_at fuel chunk s e st brs r vsb d = Some (Inr (out, brs')) \<longrightarrow> at_height h b d s st \<longrightarrow>
        (\<exists>new. brs' = brs @ new \<and> peak_result chunk r vsb h b d s e (mc_peak st) out new))"

lemma peak_walk_soundD:
  assumes "peak_walk_sound chunk r vsb h d s e" "wcmu_region_at fuel chunk s e st brs r vsb d = Some (Inr (out, brs'))"
    "at_height h b d s st"
  obtains new where "brs' = brs @ new" "peak_result chunk r vsb h b d s e (mc_peak st) out new"
  using assms unfolding peak_walk_sound_def by blast

lemma peak_walk_soundI:
  assumes "\<And>fuel st brs out brs' b.
     wcmu_region_at (Suc fuel) chunk s e st brs r vsb d = Some (Inr (out, brs')) \<Longrightarrow> at_height h b d s st \<Longrightarrow>
     \<exists>new. brs' = brs @ new \<and> peak_result chunk r vsb h b d s e (mc_peak st) out new"
  shows "peak_walk_sound chunk r vsb h d s e"
  unfolding peak_walk_sound_def
proof (intro allI impI)
  fix fuel st brs out brs' b
  assume "wcmu_region_at fuel chunk s e st brs r vsb d = Some (Inr (out, brs'))" "at_height h b d s st"
  with assms show "\<exists>new. brs' = brs @ new \<and> peak_result chunk r vsb h b d s e (mc_peak st) out new" by (cases fuel) auto
qed

text \<open>The walk after one instruction, at a position that receives its height.\<close>

lemma peak_op:
  assumes h: "heights_ok chunk r vsb h" "s < length (ch_ops chunk)" "d \<le> MAX_REGION_DEPTH"
    and st: "at_height h b d s st" and nx: "- height_max \<le> h s + op_net chunk s" "h s + op_net chunk s \<le> height_max"
  defines "a \<equiv> mcu_op r vsb (ch_ops chunk ! s) st"
  shows "mc_offset a = h s + op_net chunk s - b" and "reach chunk r vsb h s \<le> int (mc_peak a) + b"
    and "mc_peak st \<le> mc_peak a" and "int (mc_peak a) \<le> peak_lim d"
proof -
  have o: "mc_offset st = h s - b" "0 \<le> b" "b \<le> height_max" "h s - b \<le> int (mc_peak st)" and l: "int (mc_peak st) \<le> peak_lim d"
    using st by (auto simp: at_height_def)
  note op = mcu_op_stack [OF h(1,2) o nx]
  show "mc_offset a = h s + op_net chunk s - b" using op(1) by (simp add: a_def)
  show "reach chunk r vsb h s \<le> int (mc_peak a) + b" "mc_peak st \<le> mc_peak a" using op(2) by (auto simp: a_def)
  have "h s + op_rise chunk r vsb s - b \<le> peak_lim d"
    using heights_rise [OF h(1,2)] peak_lim_ge [OF h(3)] o(2) by linarith
  then show "int (mc_peak a) \<le> peak_lim d" using l op(2) by (auto simp: a_def peak_lim_def)
qed

lemma at_height_op:
  assumes h: "heights_ok chunk r vsb h" "s < length (ch_ops chunk)" "d \<le> MAX_REGION_DEPTH"
    and st: "at_height h b d s st" and t: "t \<le> length (ch_ops chunk)" "h t = h s + op_net chunk s"
  shows "at_height h b d t (mcu_op r vsb (ch_ops chunk ! s) st)"
    and "reach chunk r vsb h s \<le> int (mc_peak (mcu_op r vsb (ch_ops chunk ! s) st)) + b"
    and "mc_peak st \<le> mc_peak (mcu_op r vsb (ch_ops chunk ! s) st)"
proof -
  have nx: "- height_max \<le> h s + op_net chunk s" "h s + op_net chunk s \<le> height_max"
    using heights_range [OF h(1) t(1)] t(2) by (auto simp: height_max_eq)
  note p = peak_op [OF h st nx]
  show "reach chunk r vsb h s \<le> int (mc_peak (mcu_op r vsb (ch_ops chunk ! s) st)) + b"
    "mc_peak st \<le> mc_peak (mcu_op r vsb (ch_ops chunk ! s) st)" using p by auto
  have "h t - b \<le> int (mc_peak (mcu_op r vsb (ch_ops chunk ! s) st))"
    using p(2) op_net_le_rise [of chunk s r vsb] t(2) by linarith
  then show "at_height h b d t (mcu_op r vsb (ch_ops chunk ! s) st)" using st p t(2) by (simp add: at_height_def)
qed

text \<open>An instruction that leaves the frame or the loop hands its height to nobody.\<close>

lemma leaving_net:
  assumes "heights_ok chunk r vsb h" "s < length (ch_ops chunk)"
    and "ctl_exits (ctl_of (ch_ops chunk ! s)) \<or> ctl_of (ch_ops chunk ! s) = C_Break t"
  shows "- height_max \<le> h s + op_net chunk s" "h s + op_net chunk s \<le> height_max"
proof -
  have "- 5 \<le> op_net chunk s \<and> op_net chunk s \<le> 0"
    using assms(3) by (cases "ch_ops chunk ! s") (auto simp: op_net_def)
  with heights_range [OF assms(1) less_imp_le [OF assms(2)]]
  show "- height_max \<le> h s + op_net chunk s" "h s + op_net chunk s \<le> height_max" by (auto simp: height_max_eq)
qed

section \<open>The walk bounds every run\<close>

lemma peak_walk_nil:
  assumes "d \<le> MAX_REGION_DEPTH"
  shows "peak_walk_sound chunk r vsb h d s s"
  using assms
  by (intro peak_walk_soundI) (auto simp: wcmu_region_at.simps(2) at_height_def peak_result_def intro!: stays_nil)

lemma peak_walk_lin:
  assumes h: "heights_ok chunk r vsb h" and rest: "peak_walk_sound chunk r vsb h d (Suc s) e"
    and lt: "s < e" "e \<le> length (ch_ops chunk)" "d \<le> MAX_REGION_DEPTH"
    and c: "ctl_linear (ctl_of (ch_ops chunk ! s)) \<or> ctl_exits (ctl_of (ch_ops chunk ! s))"
  shows "peak_walk_sound chunk r vsb h d s e"
proof (rule peak_walk_soundI)
  fix fuel st brs out brs' b
  assume w: "wcmu_region_at (Suc fuel) chunk s e st brs r vsb d = Some (Inr (out, brs'))" and st: "at_height h b d s st"
  note step = heap_walk_step [OF lt w]
  let ?a = "mcu_op r vsb (ch_ops chunk ! s) st"
  have s: "s < length (ch_ops chunk)" using lt by simp
  from c consider "ctl_linear (ctl_of (ch_ops chunk ! s)) \<or> ctl_of (ch_ops chunk ! s) = C_Reset"
    | "ctl_of (ch_ops chunk ! s) = C_Return \<or> ctl_of (ch_ops chunk ! s) = C_Trap"
    by (cases "ctl_of (ch_ops chunk ! s)") auto
  then show "\<exists>new. brs' = brs @ new \<and> peak_result chunk r vsb h b d s e (mc_peak st) out new"
  proof cases
    case 1
    then have "Suc s \<in> set (height_succs (ctl_of (ch_ops chunk ! s)) s)" by (cases "ctl_of (ch_ops chunk ! s)") auto
    note a = at_height_op [OF h s lt(3) st _ heights_edge [OF h s this]]
    from 1 have "wcmu_region_at fuel chunk (Suc s) e ?a brs r vsb d = Some (Inr (out, brs'))" using step by blast
    from peak_walk_soundD [OF rest this a(1)] s obtain new where n: "brs' = brs @ new"
      "peak_result chunk r vsb h b d (Suc s) e (mc_peak ?a) out new" by auto
    have "reach chunk r vsb h s \<le> int (mo_peak_above_initial out) + b" "mc_peak st \<le> mo_peak_above_initial out"
      using a(2,3) s n(2) by (auto simp: peak_result_def)
    with n(2) c lt have "peak_result chunk r vsb h b d s e (mc_peak st) out new"
      unfolding peak_result_def by (auto intro: stays_step)
    with n(1) show ?thesis by blast
  next
    case 2
    note p = peak_op [OF h s lt(3) st leaving_net [OF h s]]
    from 2 have "brs' = brs \<and> out = mcu_exits (mc_peak ?a) (mc_heap ?a)" using step by blast
    with 2 lt p show ?thesis by (auto simp: mcu_exits_def peak_result_def intro!: stays_exit)
  qed
qed

text \<open>The result after an instruction that goes on, from the result of the rest.\<close>

lemma peak_result_step:
  assumes "peak_result chunk r vsb h b d (Suc s) e pk' out new" "s \<noteq> e" "pk \<le> pk'"
    and "reach chunk r vsb h s \<le> int pk' + b"
    and "ctl_linear (ctl_of (ch_ops chunk ! s)) \<or> ctl_of (ch_ops chunk ! s) = C_EndIf
      \<or> ctl_of (ch_ops chunk ! s) = C_BreakIf t \<and> new \<noteq> []"
  shows "peak_result chunk r vsb h b d s e pk out new"
  using assms unfolding peak_result_def by (auto intro: stays_step)

lemma peak_result_more:
  assumes "peak_result chunk r vsb h b d s e pk out new" "new \<noteq> [] \<Longrightarrow> new' \<noteq> []"
    and "\<And>x. x \<in> set new' \<Longrightarrow> int (mr_peak_above_initial x) \<le> peak_lim d"
  shows "peak_result chunk r vsb h b d s e pk out new'"
  using assms stays_mono [OF _ order_refl, of _ _ _ _ _ _ "new \<noteq> []" "new' \<noteq> []"] unfolding peak_result_def by blast

lemma peak_result_break:
  assumes "peak_result chunk r vsb h b d s e pk out new" "int (mr_peak_above_initial x) \<le> peak_lim d"
  shows "peak_result chunk r vsb h b d s e pk out (x # new)"
  using assms by (intro peak_result_more [OF assms(1)]) (auto simp: peak_result_def)

lemma peak_walk_break:
  assumes h: "heights_ok chunk r vsb h" and rest: "peak_walk_sound chunk r vsb h d (Suc s) e"
    and lt: "s < e" "e \<le> length (ch_ops chunk)" "d \<le> MAX_REGION_DEPTH"
    and c: "ctl_of (ch_ops chunk ! s) = C_Break t \<or> ctl_of (ch_ops chunk ! s) = C_BreakIf t"
  shows "peak_walk_sound chunk r vsb h d s e"
proof (rule peak_walk_soundI)
  fix fuel st brs out brs' b
  assume w: "wcmu_region_at (Suc fuel) chunk s e st brs r vsb d = Some (Inr (out, brs'))" and st: "at_height h b d s st"
  note step = heap_walk_step [OF lt w]
  let ?a = "mcu_op r vsb (ch_ops chunk ! s) st"
  have s: "s < length (ch_ops chunk)" using lt by simp
  from c show "\<exists>new. brs' = brs @ new \<and> peak_result chunk r vsb h b d s e (mc_peak st) out new"
  proof
    assume c: "ctl_of (ch_ops chunk ! s) = C_Break t"
    note p = peak_op [OF h s lt(3) st leaving_net [OF h s disjI2 [OF c]]]
    from c have "brs' = brs @ [mcu_break ?a] \<and> out = mcu_exits (mc_peak ?a) (mc_heap ?a)" using step by blast
    moreover have "stays (ch_ops chunk) (reach chunk r vsb h) s e (int (mc_peak ?a) + b) False True"
      by (rule stays_break [OF c]) (use lt p(2) in simp_all)
    ultimately show ?thesis using p(3,4) by (simp add: mcu_exits_def mcu_break_def peak_result_def)
  next
    assume c: "ctl_of (ch_ops chunk ! s) = C_BreakIf t"
    then have "Suc s \<in> set (height_succs (ctl_of (ch_ops chunk ! s)) s)" by simp
    note a = at_height_op [OF h s lt(3) st _ heights_edge [OF h s this]]
    from c have "wcmu_region_at fuel chunk (Suc s) e ?a (brs @ [mcu_break ?a]) r vsb d = Some (Inr (out, brs'))"
      using step by blast
    from peak_walk_soundD [OF rest this a(1)] s obtain new where n: "brs' = (brs @ [mcu_break ?a]) @ new"
      "peak_result chunk r vsb h b d (Suc s) e (mc_peak ?a) out new" by auto
    have "int (mr_peak_above_initial (mcu_break ?a)) \<le> peak_lim d" using a(1) s by (auto simp: at_height_def mcu_break_def)
    from n(2) this have "peak_result chunk r vsb h b d (Suc s) e (mc_peak ?a) out (mcu_break ?a # new)"
      by (rule peak_result_break)
    then have "peak_result chunk r vsb h b d s e (mc_peak st) out (mcu_break ?a # new)"
    proof (rule peak_result_step)
      show "mc_peak st \<le> mc_peak ?a" "reach chunk r vsb h s \<le> int (mc_peak ?a) + b" using a(2,3) s by simp_all
      show "ctl_linear (ctl_of (ch_ops chunk ! s)) \<or> ctl_of (ch_ops chunk ! s) = C_EndIf
        \<or> ctl_of (ch_ops chunk ! s) = C_BreakIf t \<and> mcu_break ?a # new \<noteq> []" using c by simp
    qed (use lt in simp)
    with n(1) show ?thesis by auto
  qed
qed

text \<open>A sub-region is walked from zero at its own height, and its result lifted to the caller's.\<close>

lemma lift_peak_small:
  assumes "o' \<le> height_max" "int pk \<le> peak_lim (Suc d)" "d \<le> MAX_REGION_DEPTH"
  shows "int (lift_peak o' pk) = max o' 0 + int pk" "int (lift_peak o' pk) \<le> peak_lim d"
proof -
  have "max o' 0 + int pk \<le> peak_lim d"
    using assms(1,2) peak_lim_Suc [OF assms(3)] by (auto simp: height_max_eq)
  moreover have "int (nat (max o' 0)) = max o' 0" by simp
  ultimately have "int (nat (max o' 0) + pk) \<le> peak_lim d" by simp
  with peak_lim_small [of d] have "int (nat (max o' 0) + pk) < 4294967296" by linarith
  then have "nat (max o' 0) + pk < 2 ^ 32" by simp
  then have "lift_peak o' pk = nat (max o' 0) + pk" by (simp add: lift_peak_def wrap_add32_def)
  with \<open>max o' 0 + int pk \<le> peak_lim d\<close>
  show "int (lift_peak o' pk) = max o' 0 + int pk" "int (lift_peak o' pk) \<le> peak_lim d" by simp_all
qed

lemma peak_subregion:
  assumes h: "heights_ok chunk r vsb h" "s \<le> e" "e \<le> length (ch_ops chunk)" "d \<le> MAX_REGION_DEPTH"
    and sound: "peak_walk_sound chunk r vsb h (Suc d) s e"
    and w: "mcu_subregion (mc_offset a) breaks (wcmu_region_at fuel chunk s e mcu_start [] r vsb (Suc d)) = Some (Inr (out, brs))"
    and a: "at_height h b d s a"
  obtains new where "brs = breaks @ new" "peak_result chunk r vsb h b d s e 0 out new"
proof -
  from w obtain out0 sub where w0: "wcmu_region_at fuel chunk s e mcu_start [] r vsb (Suc d) = Some (Inr (out0, sub))"
    and o: "out = lift_outcome (mc_offset a) out0" "brs = breaks @ map (lift_break (mc_offset a)) sub"
    unfolding mcu_subregion_Inr by blast
  have off: "mc_offset a = h s - b" "0 \<le> b" "b \<le> height_max" using a by (auto simp: at_height_def)
  note hs = heights_range [OF h(1)]
  have hse: "0 \<le> h s" "h s \<le> height_max" "0 \<le> h e" "h e \<le> height_max" using hs h(2,3) by auto
  have "at_height h (h s) (Suc d) s mcu_start"
    using hse by (simp add: at_height_def mcu_start_def peak_lim_def)
  from peak_walk_soundD [OF sound w0 this] obtain new where "sub = [] @ new"
    "peak_result chunk r vsb h (h s) (Suc d) s e (mc_peak mcu_start) out0 new" .
  then have res: "peak_result chunk r vsb h (h s) (Suc d) s e 0 out0 sub" by (simp add: mcu_start_def)
  have oh: "mc_offset a \<le> height_max" using off hse by linarith
  note lift = lift_peak_small [OF oh _ h(4)]
  have pk: "int (mo_peak_above_initial out) = max (mc_offset a) 0 + int (mo_peak_above_initial out0)"
    "int (mo_peak_above_initial out) \<le> peak_lim d"
    using lift [of "mo_peak_above_initial out0"] res by (auto simp: o(1) lift_outcome_def peak_result_def)
  have "\<forall>x. mo_delta out = Some x \<longrightarrow> x = h e - b \<and> h e - b \<le> int (mo_peak_above_initial out)"
  proof (intro allI impI)
    fix x assume x: "mo_delta out = Some x"
    from x obtain y where y: "mo_delta out0 = Some y" "x = wrap_i32 (mc_offset a + y)" by (auto simp: o(1) lift_outcome_def)
    then have "y = h e - h s" "h e - h s \<le> int (mo_peak_above_initial out0)" using res by (auto simp: peak_result_def)
    moreover have "wrap_i32 (h e - b) = h e - b"
      by (rule wrap_i32_near) (use off hse in \<open>simp_all add: height_max_eq\<close>)
    ultimately show "x = h e - b \<and> h e - b \<le> int (mo_peak_above_initial out)"
      using y(2) off(1) pk(1) by (auto simp: algebra_simps)
  qed
  moreover have "stays (ch_ops chunk) (reach chunk r vsb h) s e (int (mo_peak_above_initial out) + b) (mo_delta out \<noteq> None)
      (map (lift_break (mc_offset a)) sub \<noteq> [])"
    using res off(1) pk(1) unfolding peak_result_def o(1) lift_outcome_simps by (auto elim!: stays_mono)
  moreover have "\<forall>x \<in> set (map (lift_break (mc_offset a)) sub). int (mr_peak_above_initial x) \<le> peak_lim d"
    using res lift by (auto simp: peak_result_def lift_break_def)
  ultimately have "peak_result chunk r vsb h b d s e 0 out (map (lift_break (mc_offset a)) sub)"
    unfolding peak_result_def using pk(2) le0 by blast
  with o(2) that show thesis by blast
qed

text \<open>Passing the \<open>EndIf\<close> at which branches meet.\<close>

lemma endif_height:
  assumes "heights_ok chunk r vsb h" "q < length (ch_ops chunk)" "ctl_of (ch_ops chunk ! q) = C_EndIf"
  shows "h (Suc q) = h q" "reach chunk r vsb h q = h q"
  using heights_edge [OF assms(1,2), of "Suc q"] marks_neutral [of chunk q _ r vsb] assms(3) by simp_all

lemma peak_result_endif:
  assumes h: "heights_ok chunk r vsb h" "q < length (ch_ops chunk)" "ctl_of (ch_ops chunk ! q) = C_EndIf"
    and res: "peak_result chunk r vsb h b d (Suc q) e pk out new" "q \<noteq> e" and st: "h q - b \<le> int pk"
  shows "peak_result chunk r vsb h b d q e pk out new"
  using res endif_height [OF h] h(3) st by (intro peak_result_step [OF res(1)]) simp_all

text \<open>The state after a join is at the height where the branches meet.\<close>

lemma at_height_join:
  assumes "at_height h b d s a" "peak_result chunk r vsb h b d s m 0 out1 n1" "peak_result chunk r vsb h b d s' q 0 out2 n2"
    and "h m = h q" "mo_delta out1 \<noteq> None \<or> mo_delta out2 \<noteq> None"
  shows "at_height h b d q (mcu_join a out1 out2)"
  using assms by (cases "mo_delta out1"; cases "mo_delta out2"; simp add: at_height_def mcu_join_def peak_result_def max_def)

lemma at_height_skip:
  assumes "at_height h b d s a" "peak_result chunk r vsb h b d s t 0 out1 n1" "h t = h s"
  shows "at_height h b d t (mcu_skip a out1)"
  using assms by (cases "mo_delta out1"; simp add: at_height_def mcu_skip_def peak_result_def max_def)

lemma at_height_eq: "at_height h b d s a \<Longrightarrow> h s' = h s \<Longrightarrow> at_height h b d s' a"
  by (simp add: at_height_def)

text \<open>A branch's or body's result bounds its runs also after its peak has been raised.\<close>

lemma peak_result_stays:
  assumes "peak_result chunk r vsb h b d s e pk out new" "mo_peak_above_initial out \<le> w"
  shows "stays (ch_ops chunk) (reach chunk r vsb h) s e (int w + b) (mo_delta out \<noteq> None) (new \<noteq> [])"
  using assms by (auto simp: peak_result_def elim: stays_mono)

lemma peak_walk_if:
  assumes h: "heights_ok chunk r vsb h"
    and body: "peak_walk_sound chunk r vsb h (Suc d) (Suc s) t" and rest: "peak_walk_sound chunk r vsb h d (Suc t) e"
    and lt: "s < e" "e \<le> length (ch_ops chunk)" "d \<le> MAX_REGION_DEPTH" and t: "Suc s \<le> t" "t < e"
    and c: "ctl_of (ch_ops chunk ! s) = C_If t" "else_target (ch_ops chunk) t = None" "ctl_of (ch_ops chunk ! t) = C_EndIf"
  shows "peak_walk_sound chunk r vsb h d s e"
proof (rule peak_walk_soundI)
  fix fuel st brs out brs' b
  assume w: "wcmu_region_at (Suc fuel) chunk s e st brs r vsb d = Some (Inr (out, brs'))" and st: "at_height h b d s st"
  let ?a = "mcu_op r vsb (ch_ops chunk ! s) st"
  obtain out1 brs1 where
      w1: "mcu_subregion (mc_offset ?a) brs (wcmu_region_at fuel chunk (Suc s) t mcu_start [] r vsb (Suc d))
             = Some (Inr (out1, brs1))"
    and w2: "wcmu_region_at fuel chunk (Suc t) e (mcu_skip ?a out1) brs1 r vsb d = Some (Inr (out, brs'))"
    using wcmu_if_inv [OF w lt c(1,2)] .
  have s: "s < length (ch_ops chunk)" and tl: "t < length (ch_ops chunk)" using lt t by simp_all
  have e: "h (Suc s) = h s + op_net chunk s" "h t = h s + op_net chunk s" using heights_edge [OF h s] c(1) by simp_all
  note a = at_height_op [OF h s lt(3) st _ e(1)] and en = endif_height [OF h tl c(3)]
  have a1: "at_height h b d (Suc s) ?a" using a(1) s by simp
  obtain n1 where n1: "brs1 = brs @ n1" "peak_result chunk r vsb h b d (Suc s) t 0 out1 n1"
    using peak_subregion [OF h t(1) less_imp_le [OF tl] lt(3) body w1 a1] .
  have sk: "at_height h b d t (mcu_skip ?a out1)" using at_height_skip [OF a1 n1(2)] e by simp
  obtain n2 where n2: "brs' = brs1 @ n2" "peak_result chunk r vsb h b d (Suc t) e (mc_peak (mcu_skip ?a out1)) out n2"
    using peak_walk_soundD [OF rest w2 at_height_eq [OF sk en(1)]] .
  have r2: "peak_result chunk r vsb h b d t e (mc_peak (mcu_skip ?a out1)) out n2"
    using sk t by (intro peak_result_endif [OF h tl c(3) n2(2)]) (auto simp: at_height_def)
  then have pk: "mc_peak ?a \<le> mo_peak_above_initial out" "mo_peak_above_initial out1 \<le> mo_peak_above_initial out"
    by (auto simp: peak_result_def mcu_skip_def)
  have "stays (ch_ops chunk) (reach chunk r vsb h) s e (int (mo_peak_above_initial out) + b) (mo_delta out \<noteq> None) (n1 @ n2 \<noteq> [])"
  proof (rule stays_if [OF peak_result_stays [OF n1(2) pk(2)] _ c(1,2)])
    show "stays (ch_ops chunk) (reach chunk r vsb h) t e (int (mo_peak_above_initial out) + b) (mo_delta out \<noteq> None) (n1 @ n2 \<noteq> [])"
      using peak_result_stays [OF r2 order_refl] by (rule stays_mono) auto
  qed (use lt a(2) s pk(1) in auto)
  then have "peak_result chunk r vsb h b d s e (mc_peak st) out (n1 @ n2)"
    using r2 n1(2) a(3) s pk(1) unfolding peak_result_def by auto
  with n1(1) n2(1) show "\<exists>new. brs' = brs @ new \<and> peak_result chunk r vsb h b d s e (mc_peak st) out new" by auto
qed

lemma peak_walk_ifelse:
  assumes h: "heights_ok chunk r vsb h"
    and thn: "peak_walk_sound chunk r vsb h (Suc d) (Suc s) m" and els: "peak_walk_sound chunk r vsb h (Suc d) (Suc m) q"
    and rest: "peak_walk_sound chunk r vsb h d (Suc q) e"
    and lt: "s < e" "e \<le> length (ch_ops chunk)" "d \<le> MAX_REGION_DEPTH" and q: "Suc s \<le> m" "Suc m \<le> q" "q < e"
    and c: "ctl_of (ch_ops chunk ! s) = C_If (Suc m)" "else_target (ch_ops chunk) (Suc m) = Some q"
      "ctl_of (ch_ops chunk ! q) = C_EndIf" "ctl_of (ch_ops chunk ! m) = C_Else q"
  shows "peak_walk_sound chunk r vsb h d s e"
proof (rule peak_walk_soundI)
  fix fuel st brs out brs' b
  assume w: "wcmu_region_at (Suc fuel) chunk s e st brs r vsb d = Some (Inr (out, brs'))" and st: "at_height h b d s st"
  let ?a = "mcu_op r vsb (ch_ops chunk ! s) st"
  obtain out1 brs1 out2 brs2 where
      w1: "mcu_subregion (mc_offset ?a) brs (wcmu_region_at fuel chunk (Suc s) m mcu_start [] r vsb (Suc d))
             = Some (Inr (out1, brs1))"
    and w2: "mcu_subregion (mc_offset ?a) brs1 (wcmu_region_at fuel chunk (Suc m) q mcu_start [] r vsb (Suc d))
             = Some (Inr (out2, brs2))"
    and w3: "if mo_delta out1 = None \<and> mo_delta out2 = None
             then out = mcu_exits (mc_peak (mcu_join ?a out1 out2)) (mc_heap (mcu_join ?a out1 out2)) \<and> brs' = brs2
             else wcmu_region_at fuel chunk (Suc q) e (mcu_join ?a out1 out2) brs2 r vsb d = Some (Inr (out, brs'))"
    using wcmu_ifelse_inv [OF w lt c(1,2)] .
  have s: "s < length (ch_ops chunk)" and ml: "m < length (ch_ops chunk)" and ql: "q < length (ch_ops chunk)" using lt q by simp_all
  have hs: "h (Suc s) = h s + op_net chunk s" "h (Suc m) = h s + op_net chunk s" using heights_edge [OF h s] c(1) by simp_all
  have hm: "h m = h q" "reach chunk r vsb h m = h m"
    using heights_edge [OF h ml, of q] marks_neutral [of chunk m q r vsb] c(4) by simp_all
  note a = at_height_op [OF h s lt(3) st _ hs(1)] and en = endif_height [OF h ql c(3)]
  have a1: "at_height h b d (Suc s) ?a" using a(1) s by simp
  have a2: "at_height h b d (Suc m) ?a" using at_height_eq [OF a1] hs by simp
  obtain n1 where n1: "brs1 = brs @ n1" "peak_result chunk r vsb h b d (Suc s) m 0 out1 n1"
    using peak_subregion [OF h q(1) less_imp_le [OF ml] lt(3) thn w1 a1] .
  obtain n2 where n2: "brs2 = brs1 @ n2" "peak_result chunk r vsb h b d (Suc m) q 0 out2 n2"
    using peak_subregion [OF h q(2) less_imp_le [OF ql] lt(3) els w2 a2] .
  let ?j = "mcu_join ?a out1 out2"
  have "\<exists>n3. brs' = brs2 @ n3 \<and> mc_peak ?j \<le> mo_peak_above_initial out
     \<and> (mo_delta out1 \<noteq> None \<or> mo_delta out2 \<noteq> None \<longrightarrow> peak_result chunk r vsb h b d q e (mc_peak ?j) out n3)
     \<and> (mo_delta out1 = None \<and> mo_delta out2 = None \<longrightarrow> mo_delta out = None \<and> int (mo_peak_above_initial out) \<le> peak_lim d \<and> n3 = [])"
  proof (cases "mo_delta out1 \<noteq> None \<or> mo_delta out2 \<noteq> None")
    case False
    have "int (mc_peak ?j) \<le> peak_lim d" using n1(2) n2(2) a1 by (simp add: peak_result_def at_height_def mcu_join_def of_nat_max)
    with False w3 show ?thesis by (simp add: mcu_exits_def)
  next
    case True
    note jq = at_height_join [OF a1 n1(2) n2(2) hm(1) True]
    from True w3 have "wcmu_region_at fuel chunk (Suc q) e ?j brs2 r vsb d = Some (Inr (out, brs'))" by (auto split: if_splits)
    from peak_walk_soundD [OF rest this at_height_eq [OF jq en(1)]] obtain n3 where n3: "brs' = brs2 @ n3"
      "peak_result chunk r vsb h b d (Suc q) e (mc_peak ?j) out n3" .
    have "peak_result chunk r vsb h b d q e (mc_peak ?j) out n3"
      using jq q by (intro peak_result_endif [OF h ql c(3) n3(2)]) (auto simp: at_height_def)
    with True n3 show ?thesis by (auto simp: peak_result_def)
  qed
  then obtain n3 where n3: "brs' = brs2 @ n3" "mc_peak ?j \<le> mo_peak_above_initial out"
    "mo_delta out1 \<noteq> None \<or> mo_delta out2 \<noteq> None \<Longrightarrow> peak_result chunk r vsb h b d q e (mc_peak ?j) out n3"
    "mo_delta out1 = None \<and> mo_delta out2 = None \<Longrightarrow> mo_delta out = None \<and> int (mo_peak_above_initial out) \<le> peak_lim d \<and> n3 = []"
    by blast
  have pk: "mc_peak ?a \<le> mo_peak_above_initial out" "mo_peak_above_initial out1 \<le> mo_peak_above_initial out"
    "mo_peak_above_initial out2 \<le> mo_peak_above_initial out"
    using n3(2) by (auto simp: mcu_join_def)
  have stays: "stays (ch_ops chunk) (reach chunk r vsb h) s e (int (mo_peak_above_initial out) + b) (mo_delta out \<noteq> None) (n1 @ n2 @ n3 \<noteq> [])"
  proof (rule stays_ifelse [OF peak_result_stays [OF n1(2) pk(2)] peak_result_stays [OF n2(2) pk(3)] _ _ c(1,2)])
    show "stays (ch_ops chunk) (reach chunk r vsb h) q e (int (mo_peak_above_initial out) + b) (mo_delta out \<noteq> None) (n1 @ n2 @ n3 \<noteq> [])"
      if "mo_delta out1 \<noteq> None \<or> mo_delta out2 \<noteq> None"
      using peak_result_stays [OF n3(3) [OF that] order_refl] by (rule stays_mono) auto
    show "reach chunk r vsb h m \<le> int (mo_peak_above_initial out) + b" if "mo_delta out1 \<noteq> None"
      using that n1(2) pk(2) hm by (auto simp: peak_result_def)
  qed (use lt a(2) s pk(1) in auto)
  have "mc_peak st \<le> mo_peak_above_initial out" using a(3) s pk(1) by simp
  moreover have "int (mo_peak_above_initial out) \<le> peak_lim d \<and> (\<forall>x \<in> set n3. int (mr_peak_above_initial x) \<le> peak_lim d)
     \<and> (\<forall>x. mo_delta out = Some x \<longrightarrow> x = h e - b \<and> h e - b \<le> int (mo_peak_above_initial out))"
    using n3(3,4) by (cases "mo_delta out1 = None \<and> mo_delta out2 = None") (auto simp: peak_result_def)
  ultimately have "peak_result chunk r vsb h b d s e (mc_peak st) out (n1 @ n2 @ n3)"
    using stays n1(2) n2(2) unfolding peak_result_def by auto
  with n1(1) n2(1) n3(1) show "\<exists>new. brs' = brs @ new \<and> peak_result chunk r vsb h b d s e (mc_peak st) out new" by auto
qed

lemma max_or_le: "(\<And>x. x \<in> set xs \<Longrightarrow> int x \<le> lim) \<Longrightarrow> 0 \<le> lim \<Longrightarrow> int (max_or 0 xs) \<le> lim"
  by (induction xs) (auto simp: of_nat_max)

lemma peak_walk_loop:
  assumes h: "heights_ok chunk r vsb h"
    and body: "peak_walk_sound chunk r vsb h (Suc d) (Suc s) b'" and rest: "peak_walk_sound chunk r vsb h d (Suc b') e"
    and lt: "s < e" "e \<le> length (ch_ops chunk)" "d \<le> MAX_REGION_DEPTH" and b': "Suc s \<le> b'" "b' < e"
    and c: "ctl_of (ch_ops chunk ! s) = C_Loop (Suc b')" "ctl_of (ch_ops chunk ! b') = C_EndLoop (Suc s)"
  shows "peak_walk_sound chunk r vsb h d s e"
proof (rule peak_walk_soundI)
  fix fuel st brs out brs' b
  assume w: "wcmu_region_at (Suc fuel) chunk s e st brs r vsb d = Some (Inr (out, brs'))" and st: "at_height h b d s st"
  let ?a = "mcu_op r vsb (ch_ops chunk ! s) st"
  obtain out1 lbrs n where
      w1: "mcu_subregion (mc_offset ?a) [] (wcmu_region_at fuel chunk (Suc s) b' mcu_start [] r vsb (Suc d))
             = Some (Inr (out1, lbrs))"
    and n: "mcu_iter_count chunk s out1 = Inr n"
    and w2: "if lbrs = [] \<and> mo_delta out1 = None
             then out = mcu_exits (mc_peak (mcu_loop ?a out1 n lbrs)) (mc_heap (mcu_loop ?a out1 n lbrs)) \<and> brs' = brs
             else wcmu_region_at fuel chunk (Suc b') e (mcu_loop ?a out1 n lbrs) brs r vsb d = Some (Inr (out, brs'))"
    using wcmu_loop_inv [OF w lt c(1)] .
  have s: "s < length (ch_ops chunk)" and bl: "b' < length (ch_ops chunk)" using lt b' by simp_all
  have hs: "h (Suc s) = h s + op_net chunk s" using heights_edge [OF h s] c(1) by simp
  have net: "op_net chunk s = 0" "reach chunk r vsb h b' = h b'"
    using marks_neutral [of chunk s "Suc b'" r vsb] marks_neutral [of chunk b' "Suc s" r vsb] c by simp_all
  note a = at_height_op [OF h s lt(3) st _ hs]
  have a1: "at_height h b d (Suc s) ?a" using a(1) s by simp
  obtain n1 where n1: "lbrs = [] @ n1" "peak_result chunk r vsb h b d (Suc s) b' 0 out1 n1"
    using peak_subregion [OF h b'(1) less_imp_le [OF bl] lt(3) body w1 a1] .
  then have res: "peak_result chunk r vsb h b d (Suc s) b' 0 out1 lbrs" by simp
  let ?l = "mcu_loop ?a out1 n lbrs"
  have lim: "0 \<le> peak_lim d" by (simp add: peak_lim_def)
  have "int (max_or 0 (map mr_peak_above_initial lbrs)) \<le> peak_lim d"
    using res lim by (intro max_or_le) (auto simp: peak_result_def)
  then have l: "at_height h b d (Suc b') ?l"
    using a1 res hs net(1) heights_loop [OF h s c(1)] by (auto simp: at_height_def mcu_loop_def peak_result_def max_def)
  show "\<exists>new. brs' = brs @ new \<and> peak_result chunk r vsb h b d s e (mc_peak st) out new"
  proof (cases "lbrs = [] \<and> mo_delta out1 = None")
    case True
    with w2 have o: "out = mcu_exits (mc_peak ?l) (mc_heap ?l)" "brs' = brs" by auto
    have pk: "mc_peak ?a \<le> mc_peak ?l" "mo_peak_above_initial out1 \<le> mc_peak ?l" by (auto simp: mcu_loop_def)
    have "stays (ch_ops chunk) (reach chunk r vsb h) s e (int (mc_peak ?l) + b) False False"
      using True a(2) s pk(1) lt by (intro stays_loop [OF peak_result_stays [OF res pk(2)] _ _ c(1)]) auto
    then have "peak_result chunk r vsb h b d s e (mc_peak st) out []"
      using l a(3) s pk(1) by (auto simp: o(1) mcu_exits_def peak_result_def at_height_def)
    with o(2) show ?thesis by auto
  next
    case False
    with w2 have "wcmu_region_at fuel chunk (Suc b') e ?l brs r vsb d = Some (Inr (out, brs'))" by argo
    from peak_walk_soundD [OF rest this l] obtain new where new: "brs' = brs @ new"
      "peak_result chunk r vsb h b d (Suc b') e (mc_peak ?l) out new" .
    then have pk: "mc_peak ?a \<le> mo_peak_above_initial out" "mo_peak_above_initial out1 \<le> mo_peak_above_initial out"
      by (auto simp: mcu_loop_def peak_result_def)
    have "stays (ch_ops chunk) (reach chunk r vsb h) s e (int (mo_peak_above_initial out) + b) (mo_delta out \<noteq> None) (new \<noteq> [])"
    proof (rule stays_loop [OF peak_result_stays [OF res pk(2)] _ _ c(1)])
      show "stays (ch_ops chunk) (reach chunk r vsb h) (Suc b') e (int (mo_peak_above_initial out) + b) (mo_delta out \<noteq> None) (new \<noteq> [])"
        by (rule peak_result_stays [OF new(2) order_refl])
      show "reach chunk r vsb h b' \<le> int (mo_peak_above_initial out) + b" if "mo_delta out1 \<noteq> None"
        using that res pk(2) net(2) by (auto simp: peak_result_def)
    qed (use a(2) s pk(1) lt in auto)
    then have "peak_result chunk r vsb h b d s e (mc_peak st) out new"
      using new(2) a(3) s pk(1) unfolding peak_result_def by auto
    with new(1) show ?thesis by blast
  qed
qed

theorem region_peak_sound:
  assumes h: "heights_ok chunk r vsb h"
  shows "region (ch_ops chunk) lx d s e \<Longrightarrow> d \<le> MAX_REGION_DEPTH \<Longrightarrow> peak_walk_sound chunk r vsb h d s e"
proof (induction rule: region.induct)
  case (rg_nil s lx d)
  show ?case by (rule peak_walk_nil [OF rg_nil(2)])
next
  case (rg_lin s lx d e)
  show ?case
    using region_bounds [OF rg_lin(3)] rg_lin(5) by (intro peak_walk_lin [OF h rg_lin.IH _ _ _ rg_lin(2)]) auto
next
  case (rg_break s t lx d e)
  show ?case
    using region_bounds [OF rg_break(4)] rg_break(6) by (intro peak_walk_break [OF h rg_break.IH _ _ _ rg_break(2)]) auto
next
  case (rg_if s t d lx e)
  have "peak_walk_sound chunk r vsb h (Suc d) (Suc s) t" "peak_walk_sound chunk r vsb h d (Suc t) e"
    using rg_if.IH rg_if(3,10) by simp_all
  then show ?case
    by (rule peak_walk_if [OF h _ _ _ _ rg_if(10) _ _ rg_if(2) else_target_no_else [OF rg_if(4,5,2)] rg_if(6)])
      (use region_bounds [OF rg_if(4)] region_bounds [OF rg_if(7)] in auto)
next
  case (rg_ifelse s m d lx q e)
  have "peak_walk_sound chunk r vsb h (Suc d) (Suc s) m" "peak_walk_sound chunk r vsb h (Suc d) (Suc m) q"
    "peak_walk_sound chunk r vsb h d (Suc q) e"
    using rg_ifelse.IH rg_ifelse(3,14) by simp_all
  then show ?case
    by (rule peak_walk_ifelse [OF h _ _ _ _ _ rg_ifelse(14) _ _ _ rg_ifelse(2) else_target_else [OF rg_ifelse(5,6)]
          rg_ifelse(9,6)])
      (use region_bounds [OF rg_ifelse(4)] region_bounds [OF rg_ifelse(7)] region_bounds [OF rg_ifelse(10)] in auto)
next
  case (rg_loop s b d lx e)
  have "peak_walk_sound chunk r vsb h (Suc d) (Suc s) b" "peak_walk_sound chunk r vsb h d (Suc b) e"
    using rg_loop.IH rg_loop(3,10) by simp_all
  then show ?case
    by (rule peak_walk_loop [OF h _ _ _ _ rg_loop(10) _ _ rg_loop(2,6)])
      (use region_bounds [OF rg_loop(4)] region_bounds [OF rg_loop(7)] in auto)
qed

text \<open>
  The reported peak bounds, on every control path from the start of the region, what any instruction
  dispatched inside it reaches above the height of the start.
\<close>

theorem wcmu_region_bounds_stack:
  assumes "heights_ok chunk r vsb h" and "region (ch_ops chunk) None 0 s e"
    and "wcmu_region chunk s e r vsb = Some (Inr (out, brs))"
    and "rexec (ch_ops chunk) any_passes s e tr oc" and "i \<in> set tr"
  shows "h i - h s + op_rise chunk r vsb i \<le> int (mo_peak_above_initial out)"
proof -
  have "0 \<le> h s" "h s \<le> height_max"
    using heights_range [OF assms(1)] region_bounds [OF assms(2)] by auto
  then have "at_height h (h s) 0 s mcu_start" by (simp add: at_height_def mcu_start_def peak_lim_def)
  from peak_walk_soundD [OF region_peak_sound [OF assms(1,2) le0] assms(3) [unfolded wcmu_region_def] this]
  obtain new where "peak_result chunk r vsb h (h s) 0 s e (mc_peak mcu_start) out new" by blast
  then have "stays (ch_ops chunk) (reach chunk r vsb h) s e (int (mo_peak_above_initial out) + h s) (mo_delta out \<noteq> None) (new \<noteq> [])"
    by (simp add: peak_result_def)
  from staysD [OF this assms(4)] assms(5) show ?thesis by force
qed

text \<open>The heights are the heights of the machine: a path's net effect is the difference of its ends'.\<close>

definition path_net :: "chunk \<Rightarrow> nat list \<Rightarrow> int" where
  "path_net chunk tr = sum_list (map (op_net chunk) tr)"

lemma path_net_simps [simp]:
  "path_net chunk [] = 0" "path_net chunk (i # tr) = op_net chunk i + path_net chunk tr"
  by (simp_all add: path_net_def)

lemma height_of_path:
  assumes h: "heights_ok chunk r vsb h"
  shows "fpath (ch_ops chunk) s (tr @ i # tr') j \<Longrightarrow> h i = h s + path_net chunk tr"
proof (induction tr arbitrary: s)
  case Nil
  then show ?case by (auto elim: fpath_ConsE)
next
  case (Cons k tr)
  from Cons.prems obtain s' where k: "k = s" "s < length (ch_ops chunk)" and s': "s' \<in> set (frame_succs (ctl_of (ch_ops chunk ! s)) s)"
    and p: "fpath (ch_ops chunk) s' (tr @ i # tr') j"
    by (auto elim!: fpath_ConsE)
  have "s' \<in> set (height_succs (ctl_of (ch_ops chunk ! s)) s)" using s' by (cases "ctl_of (ch_ops chunk ! s)") auto
  from heights_edge [OF h k(2) this] Cons.IH [OF p] k(1) show ?case by simp
qed

theorem wcmu_bounds_stack_paths:
  assumes h: "heights_ok chunk r vsb h" and reg: "region (ch_ops chunk) None 0 s e"
    and walk: "wcmu_region chunk s e r vsb = Some (Inr (out, brs))"
    and path: "fpath (ch_ops chunk) s (tr @ i # tr') j" and e: "e \<notin> set (tr @ [i])"
  shows "path_net chunk tr + op_rise chunk r vsb i \<le> int (mo_peak_above_initial out)"
proof -
  have i: "h i - h s + op_rise chunk r vsb i \<le> int (mo_peak_above_initial out)"
    using region_splits [OF reg path]
  proof (cases rule: splitsE)
    case part
    then show ?thesis by (rule wcmu_region_bounds_stack [OF h reg walk]) simp
  next
    case (fall tr1 tr2)
    have tr2: "tr2 = [] \<or> hd tr2 = e" using fall(3) by (cases tr2) (auto elim: fpath_ConsE)
    from fall(1) obtain us where "tr1 = tr @ us \<and> us @ tr2 = i # tr' \<or> tr = tr1 @ us \<and> tr2 = us @ i # tr'"
      unfolding append_eq_append_conv2 by metis
    with tr2 e have "i \<in> set tr1" by (cases us) auto
    with fall(2) show ?thesis by (intro wcmu_region_bounds_stack [OF h reg walk])
  qed simp
  with height_of_path [OF h path] show ?thesis by simp
qed

end
