(* ===== verification/Machine_Errors.thy ===== *)
theory Machine_Errors
  imports Control_Flow Machine
begin

text \<open>
  What the instructions of the machine compute and how they fail.  The errors are graded by a predicate \<open>P\<close>
  that holds at least of the guards, the errors of operands, storage and host that every checked operation
  may raise; the lemmas are proved once for all such grades and used at two: everything but a stack
  underflow, and everything but the faults of the language.
\<close>

section \<open>Graded computations\<close>

text \<open>\<open>raises P r\<close>: a failure is in \<open>P\<close>.  \<open>yields P n r\<close>: also, a success gives \<open>n\<close> values.\<close>

definition raises :: "(vm_error \<Rightarrow> bool) \<Rightarrow> vm_error + 'a \<Rightarrow> bool" where
  "raises P r = (case r of Inr x \<Rightarrow> True | Inl e \<Rightarrow> P e)"

definition yields :: "(vm_error \<Rightarrow> bool) \<Rightarrow> nat \<Rightarrow> pushed \<Rightarrow> bool" where
  "yields P n r = (case r of Inr vs \<Rightarrow> length vs = n | Inl e \<Rightarrow> P e)"

definition yields_with :: "(vm_error \<Rightarrow> bool) \<Rightarrow> nat \<Rightarrow> (vm_error + kvalue list \<times> arena) \<Rightarrow> bool" where
  "yields_with P n r = (case r of Inr (vs, a) \<Rightarrow> length vs = n | Inl e \<Rightarrow> P e)"

named_theorems yields_intros \<open>number of values an instruction computes\<close>
named_theorems raises_intros \<open>failures of a computation\<close>

lemma yields_simps [simp]: "yields P n (Inr vs) \<longleftrightarrow> length vs = n" "yields P n (Inl e) \<longleftrightarrow> P e"
  by (simp_all add: yields_def)

lemma raises_simps [simp]: "raises P (Inr v)" "raises P (Inl e) \<longleftrightarrow> P e"
  by (simp_all add: raises_def)

lemma yields_with_simps [simp]:
  "yields_with P n (Inr (vs, a)) \<longleftrightarrow> length vs = n" "yields_with P n (Inl e) \<longleftrightarrow> P e"
  by (simp_all add: yields_with_def)

lemma yields_bind [yields_intros]:
  "raises P r \<Longrightarrow> (\<And>x. r = Inr x \<Longrightarrow> yields P n (f x)) \<Longrightarrow> yields P n (bindR r f)"
  by (cases r) auto

lemma raises_bind [raises_intros]:
  "raises P r \<Longrightarrow> (\<And>x. r = Inr x \<Longrightarrow> raises P (f x)) \<Longrightarrow> raises P (bindR r f)"
  by (cases r) auto

lemma yields_with_bind:
  "raises P r \<Longrightarrow> (\<And>x. r = Inr x \<Longrightarrow> yields_with P n (f x)) \<Longrightarrow> yields_with P n (bindR r f)"
  by (cases r) auto

lemma yields_with_pure: "yields P n r \<Longrightarrow> yields_with P n (bindR r (\<lambda>vs. Inr (vs, a)))"
  by (cases r) auto

text \<open>\<open>lenient\<close>: the grade holds of everything but a stack underflow.\<close>

definition lenient :: "(vm_error \<Rightarrow> bool) \<Rightarrow> bool" where
  "lenient P \<longleftrightarrow> (\<forall>e. e \<noteq> VM_StackUnderflow \<longrightarrow> P e)"

text \<open>How many values an indexed access gives.\<close>

definition index_values :: "array_elem \<Rightarrow> nat" where
  "index_values e = (if has_bounds_outcome e then 7 else 1)"

lemma length_outputs [simp]:
  "length (int_outputs m r) = 3" "length (fixed_outputs r) = 3" "length (float_outputs f) = 3" "length (byte_outputs b w) = 3"
  by (auto simp: int_outputs_def fixed_outputs_def float_outputs_def byte_outputs_def split: prod.split)

lemma length_bound_limbs [simp]: "length (bound_limbs b) = 4"
  by (simp add: bound_limbs_def le4_def)

lemma length_index_outcome [simp]: "length (index_outcome v i b inv') = 7"
  by (simp add: index_outcome_def)

text \<open>The width of a word must be at least a byte, as the verifier checks.\<close>

lemma scalar_bytes_pos:
  "3 \<le> unat (m_word_bits_log2 m) \<Longrightarrow> has_bounds_outcome (AE_Flat kind) \<Longrightarrow>
   0 < size_in_bytes kind (module_word_bytes m) fb ab"
proof -
  assume "3 \<le> unat (m_word_bits_log2 m)" and outcome: "has_bounds_outcome (AE_Flat kind)"
  then have "(2::nat) ^ 3 \<le> 2 ^ unat (m_word_bits_log2 m)" by (intro power_increasing) auto
  then have "0 < module_word_bytes m" by (simp add: module_word_bytes_def div_greater_zero_iff)
  with outcome show ?thesis by (cases kind) auto
qed

section \<open>Every instruction, for every grade\<close>

locale error_class =
  fixes P :: "vm_error \<Rightarrow> bool"
  assumes guards [simp]: "P VM_TypeError" "P VM_InvalidBytecode" "P VM_OutOfArena" "P VM_NativeError" "P VM_Panic"
begin

lemma raises_conversions [raises_intros]:
  "raises P (of_stale s)" "raises P (of_scalar c)" "raises P (of_alloc l)" "raises P (of_bounds b)"
  by (auto simp: of_stale_def of_scalar_def of_alloc_def of_bounds_def
      split: sum.splits option.splits stale.splits scalar_error.splits alloc_error.splits)

lemma raises_read_text_word [raises_intros]: "raises P (read_text_word bs wb k)"
  by (auto simp: read_text_word_def intro!: raises_intros)

lemma raises_read_flat_scalar [raises_intros]: "raises P (read_flat_scalar h m bs k kind e)"
  by (auto simp: read_flat_scalar_def Let_def intro!: raises_intros split: scalar_kind.split)

lemma raises_string_operand [raises_intros]: "raises P (string_operand h a v)"
  by (auto simp: string_operand_def split: sum.split option.split stale.split)

lemma raises_string_content_eq [raises_intros]: "raises P (string_content_eq h a x y)"
  by (auto simp: string_content_eq_def intro!: raises_intros)

lemma raises_reject [raises_intros]: "raises P (reject_untyped_flat_composite_cmp x y)"
  by (simp add: reject_untyped_flat_composite_cmp_def)

lemma raises_value_cmp [raises_intros]: "raises P (value_cmp h a x y)"
  by (cases x; cases y) (auto simp: value_cmp_def intro!: raises_intros)

lemma raises_index_outcome_bound [raises_intros]: "raises P (index_outcome_bound n)"
  by (simp add: index_outcome_bound_def)

lemma raises_enum_matches [raises_intros]: "raises P (enum_matches h m ci a e v d x)"
  by (cases "(h, m, ci, a, e, v, d, x)" rule: enum_matches.cases)
    (auto intro!: raises_intros split: sum.split)

lemma raises_text_fields [raises_intros]: "raises P (text_fields_to_arena a vs)"
proof (induction vs arbitrary: a)
  case (Cons v vs)
  then show ?case by (cases v) (auto intro!: raises_intros split: prod.split)
qed simp

lemma raises_new_composite_boxed [raises_intros]: "raises P (new_composite_boxed_operand m ci oper vs)"
  by (cases oper) (auto split: composite_kind.split prod.split)

lemma raises_new_composite [raises_intros]: "raises P (exec_new_composite h m ci oper vs a)"
  by (auto simp: exec_new_composite_def new_composite_flat_def intro!: raises_intros
      split: prod.split option.split composite_kind.split)

section \<open>One lemma per instruction\<close>

lemma yields_push_immediate [yields_intros]: "yields P 1 (exec_push_immediate v)"
  by (simp add: exec_push_immediate_def)

lemma yields_conversions [yields_intros]:
  "yields P 1 (exec_neg fo m v)" "yields P 1 (exec_not v)" "yields P 1 (exec_int_to_float fo m v)"
  "yields P 1 (exec_float_to_int fo v)" "yields P 1 (exec_word_to_byte v)" "yields P 1 (exec_byte_to_word v)"
  "yields P 1 (exec_word_to_fixed fb v)" "yields P 1 (exec_fixed_to_word fb v)"
  by (cases v; simp)+

lemma yields_arith [yields_intros]:
  "yields P 1 (exec_add fo m a b)" "yields P 1 (binary_arith fo m iop fop a b)" "yields P 1 (exec_fixed_mul fb a b)"
  "yields P 1 (exec_bitwise bop a b)" "yields P 1 (exec_shl a b)" "yields P 1 (exec_shr a b)"
  by (cases a; cases b; simp add: exec_add_def binary_arith_def exec_fixed_mul_def exec_bitwise_def exec_shl_def exec_shr_def)+

lemma yields_checked [yields_intros]:
  "yields P 3 (exec_checked_add fo m a b)" "yields P 3 (exec_checked_sub fo m a b)" "yields P 3 (exec_checked_mul fo m fb a b)"
  "yields P 3 (exec_div fo m fb a b)" "yields P 3 (exec_mod fo m fl a b)" "yields P 3 (exec_fixed_div fb a b)"
  by (cases a; cases b; simp add: exec_checked_add_def exec_checked_sub_def exec_checked_mul_def exec_div_def
      exec_mod_def exec_fixed_div_def Let_def)+

lemma yields_checked_neg [yields_intros]: "yields P 3 (exec_checked_neg m v)"
  by (cases v) simp_all

lemma yields_compare [yields_intros]:
  "yields P 1 (exec_cmp_eq h a neg x y)" "yields P 1 (compare_op h a p x y)"
  by (auto simp: exec_cmp_eq_def compare_op_def intro!: yields_intros raises_intros split: option.split)

lemma yields_flat_fields [yields_intros]:
  "yields P 1 (flat_field h m a fc k kind)" "yields P 1 (nested_field a fc k n variant)"
  by (auto simp: flat_field_def nested_field_def intro!: yields_intros raises_intros)

lemma yields_boxed_fields:
  "lenient P \<Longrightarrow> yields P 1 (boxed_field m ci nm b)" "lenient P \<Longrightarrow> yields P 1 (boxed_element elems i)"
  by (auto simp: boxed_field_def boxed_element_def lenient_def split: boxed_struct.split option.split)

text \<open>Reading a boxed field may fail with a fault of the language.\<close>

lemma yields_get_field:
  "lenient P \<or> (\<forall>k. sf \<noteq> SF_Boxed k) \<Longrightarrow> yields P 1 (exec_get_field h m ci a sf v)"
  "lenient P \<or> (\<forall>k. tf \<noteq> TF_Boxed k) \<Longrightarrow> yields P 1 (exec_get_tuple_field h m a tf v)"
  "lenient P \<or> (\<forall>k. ef \<noteq> EF_Boxed k) \<Longrightarrow> yields P 1 (exec_get_enum_field h m a ef v)"
  by (auto simp: exec_get_field_def exec_get_tuple_field_def exec_get_enum_field_def simp del: One_nat_def
      intro!: yields_intros yields_boxed_fields
      split: kvalue.split struct_field.split tuple_field.split enum_field.split value_body.split boxed_enum.split)

lemma yields_len [yields_intros]: "yields P 1 (exec_len h a v)"
  by (cases "(h, a, v)" rule: exec_len.cases) (auto intro!: yields_intros raises_intros)

lemma yields_type_tests [yields_intros]:
  "yields P 1 (exec_is_enum h m ci a e v d x)" "yields P 1 (exec_is_struct s x)"
proof -
  show "yields P 1 (exec_is_enum h m ci a e v d x)" by (auto simp: exec_is_enum_def intro!: yields_intros raises_intros)
  show "yields P 1 (exec_is_struct s x)" by (cases "(s, x)" rule: exec_is_struct.cases) simp_all
qed

lemma yields_bounds_check [yields_intros]: "yields P 5 (exec_bounds_check b v)"
  by (cases v) simp_all

lemma yields_get_index_flat:
  assumes "3 \<le> unat (m_word_bits_log2 m)" "lenient P \<or> has_bounds_outcome (AE_Flat kind)"
  shows "yields P (index_values (AE_Flat kind)) (get_index_flat h m a kind fc i)"
  using assms(2) scalar_bytes_pos [OF assms(1), of kind "module_float_bytes m" "module_addr_bytes m"]
  by (auto simp: get_index_flat_def index_values_def Let_def lenient_def simp del: One_nat_def has_bounds_outcome.simps
      intro!: yields_intros raises_intros)

lemma yields_get_index_boxed: "yields P 7 (get_index_boxed arr i)"
  by (auto simp: get_index_boxed_def Let_def intro!: yields_intros raises_intros)

lemma yields_get_index_nested: "yields_with P 7 (get_index_nested a n variant fc i)"
  by (auto simp: get_index_nested_def Let_def intro!: yields_with_bind raises_intros split: option.split)

lemma yields_get_index:
  assumes "3 \<le> unat (m_word_bits_log2 m)" "lenient P \<or> has_bounds_outcome elem"
  shows "yields_with P (index_values elem) (exec_get_index h m a elem container index)"
proof -
  have "yields_with P (index_values elem) (case (elem, body) of
          (AE_Boxed, Boxed arr) \<Rightarrow> bindR (get_index_boxed arr i) (\<lambda>vs. Inr (vs, a))
        | (AE_Flat kind, Flat fc) \<Rightarrow> bindR (get_index_flat h m a kind fc i) (\<lambda>vs. Inr (vs, a))
        | (AE_FlatNested n variant, Flat fc) \<Rightarrow> get_index_nested a (unat n) variant fc i
        | _ \<Rightarrow> Inl VM_InvalidBytecode)" for body i
    using yields_get_index_boxed yields_get_index_nested assms(2)
    by (cases elem; cases body)
      (auto intro!: yields_with_pure yields_get_index_flat [OF assms(1)] simp: index_values_def [of AE_Boxed]
        index_values_def [of "AE_FlatNested n v" for n v] simp del: has_bounds_outcome.simps(1))
  then show ?thesis by (auto simp: exec_get_index_def split: kvalue.split)
qed

end

end
