(* ===== verification/Machine_Stack.thy ===== *)
theory Machine_Stack
  imports Machine_Errors
begin

text \<open>
  What the dispatch loop does to the operand stack and to the instruction pointer, read off from the
  definitions of theory \<open>Machine\<close>: every instruction needs and moves exactly the operands that
  \<open>op_depth_effect\<close> (\<open>src/src/verify.rs\<close>) says, and the next instruction is one of \<open>frame_succs\<close>.  So the
  tables and the control paths of the verifier speak about this machine.
\<close>

section \<open>Moves of the operand stack\<close>

text \<open>A host error that was put aside for a trap is an error of the host.\<close>

definition soft_reified :: "vm_error option \<Rightarrow> bool" where
  "soft_reified r = (case r of None \<Rightarrow> True | Some e \<Rightarrow> error_category e = SoftHost)"

text \<open>
  \<open>moves P k n vm r\<close>: the computation needs \<open>k\<close> operands, replaces them by \<open>n\<close> values and leaves the frames
  alone; it reports an underflow only when fewer than \<open>k\<close> operands are there.
\<close>

definition moves :: "(vm_error \<Rightarrow> bool) \<Rightarrow> nat \<Rightarrow> nat \<Rightarrow> vm \<Rightarrow> vm_error + vm \<Rightarrow> bool" where
  "moves P k n vm r =
     (case r of
        Inr vm' \<Rightarrow> k \<le> length (vm_stack vm) \<and> length (vm_stack vm') + k = length (vm_stack vm) + n \<and> vm_frames vm' = vm_frames vm
          \<and> (soft_reified (vm_reified_host_error vm) \<longrightarrow> soft_reified (vm_reified_host_error vm'))
      | Inl e \<Rightarrow> P e \<or> e = VM_StackUnderflow \<and> length (vm_stack vm) < k)"

lemma moves_Inl [simp]: "moves P k n vm (Inl e) \<longleftrightarrow> P e \<or> e = VM_StackUnderflow \<and> length (vm_stack vm) < k"
  by (simp add: moves_def)

lemma moves_Inr:
  "moves P k n vm (Inr vm') \<longleftrightarrow>
   k \<le> length (vm_stack vm) \<and> length (vm_stack vm') + k = length (vm_stack vm) + n \<and> vm_frames vm' = vm_frames vm
     \<and> (soft_reified (vm_reified_host_error vm) \<longrightarrow> soft_reified (vm_reified_host_error vm'))"
  by (simp add: moves_def)

lemma moves_seq:
  assumes "moves P k n vm r" and "\<And>vm'. r = Inr vm' \<Longrightarrow> moves P j i vm' (f vm')" and "j \<le> n" and "n' = n - j + i"
  shows "moves P k n' vm (bindR r f)"
proof (cases r)
  case (Inl e)
  with assms(1) show ?thesis by simp
next
  case (Inr vm')
  with assms(1) have 1: "k \<le> length (vm_stack vm)" "length (vm_stack vm') + k = length (vm_stack vm) + n"
    "vm_frames vm' = vm_frames vm"
    "soft_reified (vm_reified_host_error vm) \<longrightarrow> soft_reified (vm_reified_host_error vm')" by (simp_all add: moves_Inr)
  from assms(2) [OF Inr] show ?thesis
  proof (cases "f vm'")
    case (Inl e)
    with assms(2) [OF \<open>r = Inr vm'\<close>] 1 assms(3) \<open>r = Inr vm'\<close> show ?thesis by auto
  next
    case (Inr vm2)
    with assms(2) [OF \<open>r = Inr vm'\<close>] 1 assms(3,4) \<open>r = Inr vm'\<close> show ?thesis by (auto simp: moves_Inr)
  qed
qed

lemma moves_of_same:
  "moves P k n vm' r \<Longrightarrow> length (vm_stack vm') = length (vm_stack vm) \<Longrightarrow> vm_frames vm' = vm_frames vm \<Longrightarrow>
   soft_reified (vm_reified_host_error vm) \<longrightarrow> soft_reified (vm_reified_host_error vm') \<Longrightarrow> moves P k n vm r"
  by (cases r) (auto simp: moves_Inr)

lemma moves_bind_pure:
  "raises P r \<Longrightarrow> (\<And>x. r = Inr x \<Longrightarrow> moves P k n vm (f x)) \<Longrightarrow> moves P k n vm (bindR r f)"
  by (cases r) auto

lemma operand_start_simps:
  "operand_start n vm = (if n \<le> length (vm_stack vm) then Inr (length (vm_stack vm) - n) else Inl VM_StackUnderflow)"
  by (simp add: operand_start_def checked_sub_def)

lemma set_ip_same: "vm_frames vm = f # fs \<Longrightarrow> cf_ip f = t \<Longrightarrow> vm_frames (set_ip t vm) = vm_frames vm"
  by (simp add: set_ip_def)

text \<open>
  The instructions that stay in the frame and do not suspend.  \<open>agrees\<close> says of one of them that the outcome
  is the one the verifier's tables announce.
\<close>

fun stays_in_frame :: "op \<Rightarrow> bool" where
  "stays_in_frame (Call idx n) = False"
| "stays_in_frame Return = False"
| "stays_in_frame Reset = False"
| "stays_in_frame Yield = False"
| "stays_in_frame x = True"

definition continues_at :: "nat \<Rightarrow> vm \<Rightarrow> vm \<Rightarrow> bool" where
  "continues_at t vm vm' \<longleftrightarrow> vm_frames vm' = vm_frames (set_ip t vm)"

definition agrees :: "(vm_error \<Rightarrow> bool) \<Rightarrow> op \<Rightarrow> nat \<Rightarrow> vm \<Rightarrow> vm_error + vm_state option \<times> vm \<Rightarrow> bool" where
  "agrees P x ip vm r =
     (case r of
        Inl e \<Rightarrow> P e \<or> e = VM_StackUnderflow \<and> int (length (vm_stack vm)) < fst (op_depth_effect x)
      | Inr (st, vm') \<Rightarrow> st = None \<and> fst (op_depth_effect x) \<le> int (length (vm_stack vm))
          \<and> int (length (vm_stack vm')) = int (length (vm_stack vm)) + snd (op_depth_effect x)
          \<and> (soft_reified (vm_reified_host_error vm) \<longrightarrow> soft_reified (vm_reified_host_error vm'))
          \<and> (\<exists>t \<in> set (frame_succs (ctl_of x) ip). continues_at t vm vm'))"

text \<open>
  The errors of natives: in the grade, or soft errors of the host, which a call with the reify flag turns into
  values.  \<open>clear_op\<close> are the instructions that raise no fault of the language.
\<close>

definition native_errors :: "(vm_error \<Rightarrow> bool) \<Rightarrow> host \<Rightarrow> bool" where
  "native_errors P h \<longleftrightarrow>
     (\<forall>name f a vs e. h_native h name = Some f \<longrightarrow> fst (f a vs) = Inl e \<longrightarrow> P e \<or> error_category e = SoftHost)"

fun clear_op :: "op \<Rightarrow> bool" where
  "clear_op (Trap k) = False"
| "clear_op (GetIndex e) = has_bounds_outcome e"
| "clear_op (GetField f) = (case f of SF_Boxed k \<Rightarrow> False | _ \<Rightarrow> True)"
| "clear_op (GetTupleField f) = (case f of TF_Boxed k \<Rightarrow> False | _ \<Rightarrow> True)"
| "clear_op (GetEnumField f) = (case f of EF_Boxed k \<Rightarrow> False | _ \<Rightarrow> True)"
| "clear_op (CallVerifiedNative idx n) = (and n 0x80 \<noteq> 0)"
| "clear_op (CallExternalNative idx n) = (and n 0x80 \<noteq> 0)"
| "clear_op x = True"

context error_class begin

lemma moves_push: "moves P 0 1 vm (push h v vm)"
  by (simp add: push_def moves_Inr split: option.split)

lemma moves_push_all: "moves P 0 (length vs) vm (push_all h vs vm)"
proof (induction vs arbitrary: vm)
  case (Cons v vs)
  show ?case
    by (simp, rule moves_seq [where n = 1 and j = 0 and i = "length vs"]) (use moves_push Cons in auto)
qed (simp add: moves_Inr)

lemma moves_push_all_at:
  "length vs = n \<Longrightarrow> vm_stack vm' = vm_stack vm \<Longrightarrow> vm_frames vm' = vm_frames vm \<Longrightarrow>
   soft_reified (vm_reified_host_error vm) \<longrightarrow> soft_reified (vm_reified_host_error vm') \<Longrightarrow> moves P 0 n vm (push_all h vs vm')"
  using moves_push_all [of vs vm' h] by (auto intro: moves_of_same)

text \<open>Popping gives a value beside the machine.\<close>

lemma moves_pop:
  assumes "\<And>v vm'. length (vm_stack vm) = Suc (length (vm_stack vm')) \<Longrightarrow> vm_frames vm' = vm_frames vm \<Longrightarrow>
             vm_reified_host_error vm' = vm_reified_host_error vm \<Longrightarrow> moves P k n vm' (f (v, vm'))"
  shows "moves P (Suc k) n vm (bindR (pop vm) f)"
proof (cases "vm_stack vm = []")
  case True
  then show ?thesis by (simp add: pop_def)
next
  case False
  let ?vm = "vm \<lparr> vm_stack := butlast (vm_stack vm) \<rparr>"
  from False have "moves P k n ?vm (f (last (vm_stack vm), ?vm))" by (intro assms) auto
  moreover from False obtain l where "length (vm_stack vm) = Suc l" by (cases "vm_stack vm") auto
  ultimately show ?thesis using False by (cases "f (last (vm_stack vm), ?vm)") (auto simp: pop_def moves_Inr)
qed

lemma moves_values: "yields P n r \<Longrightarrow> moves P 0 n vm (bindR r (\<lambda>vs. push_all h vs vm))"
  using moves_push_all [of _ vm h] by (cases r) auto

lemma moves_unary: "(\<And>a. yields P n (f a)) \<Longrightarrow> moves P 1 n vm (unary h f vm)"
  unfolding unary_def One_nat_def by (rule moves_pop) (simp add: moves_values)

lemma moves_binary: "(\<And>a b. yields P n (f a b)) \<Longrightarrow> moves P 2 n vm (binary h f vm)"
  unfolding binary_def numeral_2_eq_2
  by (rule moves_pop, simp, rule moves_pop) (simp add: moves_values)

lemma moves_peeking:
  assumes "\<And>a. yields P n (f a)" shows "moves P 1 (Suc n) vm (peeking h f vm)"
proof (cases "vm_stack vm = []")
  case False
  then obtain l where "length (vm_stack vm) = Suc l" by (cases "vm_stack vm") auto
  moreover have "moves P 0 n vm (bindR (f (last (vm_stack vm))) (\<lambda>vs. push_all h vs vm))" by (rule moves_values) (rule assms)
  ultimately show ?thesis using False
    by (cases "bindR (f (last (vm_stack vm))) (\<lambda>vs. push_all h vs vm)") (auto simp: peeking_def peek_operand_def moves_Inr)
qed (simp add: peeking_def peek_operand_def)

lemma moves_guarded: "moves P k n vm r \<Longrightarrow> moves P k n vm (or_invalid ok r)"
  by (simp add: or_invalid_def)

section \<open>Instructions that touch more than the operands\<close>

lemma moves_get_local: "moves P 0 1 vm (exec_get_local h slot vm)"
  by (simp add: exec_get_local_def moves_push del: One_nat_def split: option.split)

lemma moves_set_local: "moves P 1 0 vm (exec_set_local slot vm)"
  unfolding exec_set_local_def One_nat_def by (rule moves_pop) (simp add: moves_Inr)

lemma raises_read_shared [raises_intros]: "raises P (read_shared_from_buffer h m vm slot)"
  by (auto simp: read_shared_from_buffer_def intro!: raises_intros split: option.split)

lemma raises_read_data_slot [raises_intros]: "raises P (read_data_slot h m vm slot)"
  by (auto simp: read_data_slot_def intro!: raises_intros split: option.split)

lemma raises_persist [raises_intros]: "raises P (persist_composite_body h m a v k)"
  by (auto simp: persist_composite_body_def Let_def intro!: raises_intros split: option.split)

lemma moves_write_shared: "moves P 0 0 vm (write_shared_to_buffer h m vm slot v)"
  by (auto simp: write_shared_to_buffer_def moves_Inr intro!: moves_bind_pure raises_intros split: option.split)

lemma moves_write_data_slot: "moves P 0 0 vm (write_data_slot h m vm slot v)"
  by (auto simp: write_data_slot_def Let_def moves_Inr intro!: moves_write_shared moves_bind_pure raises_intros split: option.split)

lemma moves_get_data: "moves P 0 1 vm (exec_get_data h m slot vm)"
  unfolding exec_get_data_def
  by (rule moves_guarded, rule moves_bind_pure)
    (auto simp del: One_nat_def intro!: raises_intros moves_of_same [OF moves_push])

lemma moves_set_data: "moves P 1 0 vm (exec_set_data h m slot vm)"
  unfolding exec_set_data_def One_nat_def
  by (rule moves_guarded, rule moves_pop) (simp add: moves_write_data_slot)

lemma raises_as_index [raises_intros]: "raises P (as_index v)"
  by (cases v) simp_all

lemma moves_get_data_indexed: "moves P 2 7 vm (exec_get_data_indexed h m base len vm)"
  unfolding exec_get_data_indexed_def numeral_2_eq_2
  by (rule moves_pop, simp, intro impI moves_pop)
    (auto simp: Let_def intro!: moves_bind_pure moves_guarded raises_intros moves_push_all_at)

lemma moves_set_data_indexed: "moves P 2 6 vm (exec_set_data_indexed h m base len vm)"
proof -
  have push6: "moves P 0 6 vm1 (push_all h ([V_Int i] @ bound_limbs l @ [bool_word b]) vm1)" for vm1 i l b
    using moves_push_all [of "[V_Int i] @ bound_limbs l @ [bool_word b]" vm1 h] by simp
  have store: "moves P 0 6 vm1 (bindR (if c then Inr vm1 else write_data_slot h m vm1 s v)
      (push_all h ([V_Int i] @ bound_limbs l @ [bool_word b])))" for vm1 c s v i l b
    by (rule moves_seq [where n = 0 and j = 0 and i = 6]) (auto simp: moves_Inr moves_write_data_slot push6 [simplified])
  show ?thesis
    unfolding exec_set_data_indexed_def numeral_2_eq_2
    apply (rule moves_pop, simp only: prod.case, rule moves_bind_pure, rule raises_as_index, rule moves_pop)
    apply (simp only: prod.case Let_def, rule moves_guarded, rule store)
    done
qed

lemma moves_get_index:
  assumes "3 \<le> unat (m_word_bits_log2 m)" "lenient P \<or> has_bounds_outcome elem"
  shows "moves P 2 (index_values elem) vm (get_index_op h m elem vm)"
proof -
  have "moves P 0 (index_values elem) vm1
          (bindR (exec_get_index h m a elem c i) (\<lambda>(vs, a). push_all h vs (vm1 \<lparr> vm_arena := a \<rparr>)))" for vm1 a c i
    using yields_get_index [OF assms, where h = h and a = a and container = c and index = i]
    by (cases "exec_get_index h m a elem c i") (auto intro: moves_push_all_at)
  then show ?thesis
    unfolding get_index_op_def numeral_2_eq_2 by (intro moves_pop) (simp, intro moves_pop, simp)
qed

lemma moves_new_composite: "moves P (unat (nc_count operand)) 1 vm (new_composite_op h m ci operand vm)"
proof -
  let ?n = "unat (nc_count operand)"
  have "moves P ?n 1 vm (push h v (truncate (length (vm_stack vm) - ?n) vm \<lparr> vm_arena := a \<rparr>))"
    if "?n \<le> length (vm_stack vm)" for v a
    using that moves_push [of "truncate (length (vm_stack vm) - ?n) vm \<lparr> vm_arena := a \<rparr>" h v]
    by (cases "push h v (truncate (length (vm_stack vm) - ?n) vm \<lparr> vm_arena := a \<rparr>)") (auto simp: moves_Inr truncate_def)
  then show ?thesis
    by (auto simp: new_composite_op_def operand_start_simps intro!: moves_bind_pure raises_intros)
qed

lemma moves_pop_n: "moves P n 0 vm (bindR (operand_start n vm) (\<lambda>k. Inr (truncate k vm)))"
  by (auto simp: operand_start_simps moves_Inr truncate_def)

lemma moves_is_enum: "moves P 1 2 vm (is_enum_op h m ci e v d vm)"
  using moves_peeking [OF yields_type_tests(1), of vm h] by (auto simp: is_enum_op_def numeral_2_eq_2 split: kvalue.split)

lemma moves_is_struct: "moves P 1 2 vm (is_struct_op h m ci t vm)"
  using moves_peeking [OF yields_type_tests(2), of vm h] by (auto simp: is_struct_op_def numeral_2_eq_2 split: option.split)

lemma moves_native_result:
  assumes "\<And>e. r = Inl e \<Longrightarrow> P e \<or> reify \<and> error_category e = SoftHost"
  shows "moves P 0 (if reify then 2 else 1) vm (native_result h reify r vm)"
proof -
  have "soft_reified e \<Longrightarrow> moves P 0 2 vm (push_all h [v, w] (vm \<lparr> vm_arena := a, vm_reified_host_error := e \<rparr>))"
    "moves P 0 1 vm (push_all h [v] (vm \<lparr> vm_arena := a \<rparr>))"
    "soft_reified e \<Longrightarrow> moves P 0 2 vm (push_all h [v, w] (vm \<lparr> vm_reified_host_error := e \<rparr>))" for v w a e
    by (rule moves_push_all_at; simp)+
  with assms show ?thesis
    by (cases r) (auto simp: native_result_def import_value_def of_alloc_def soft_reified_def simp del: push_all.simps
        split: sum.split alloc_error.split)
qed

lemma moves_native:
  assumes "native_errors P h" "lenient P \<or> and n 0x80 \<noteq> 0"
  shows "moves P (unat (and n 0x7F)) (if and n 0x80 \<noteq> 0 then 2 else 1) vm (exec_native h m idx n vm)"
proof -
  let ?n = "unat (and n 0x7F)" and ?res = "if and n 0x80 \<noteq> 0 then 2 else (1::nat)"
  let ?low = "\<lambda>a. truncate (length (vm_stack vm) - ?n) vm \<lparr> vm_arena := a \<rparr>"
  have "moves P ?n ?res vm (native_result h (and n 0x80 \<noteq> 0) r (?low a))"
    if "?n \<le> length (vm_stack vm)" and r: "\<And>e. r = Inl e \<Longrightarrow> P e \<or> and n 0x80 \<noteq> 0 \<and> error_category e = SoftHost" for r a
  proof -
    have "moves P 0 ?res (?low a) (native_result h (and n 0x80 \<noteq> 0) r (?low a))"
      by (rule moves_native_result) (rule r)
    with that(1) show ?thesis
      by (cases "native_result h (and n 0x80 \<noteq> 0) r (?low a)") (auto simp: moves_Inr truncate_def)
  qed
  moreover have "P e \<or> and n 0x80 \<noteq> 0 \<and> error_category e = SoftHost"
    if "h_native h name = Some f" "fst (f (vm_arena vm) vs) = Inl e" for name f vs e
  proof -
    have "P e \<or> error_category e = SoftHost" using assms(1) that unfolding native_errors_def by blast
    moreover have "error_category e = SoftHost \<Longrightarrow> lenient P \<Longrightarrow> P e" by (cases e) (auto simp: lenient_def)
    ultimately show ?thesis using assms(2) by blast
  qed
  ultimately show ?thesis
    by (auto simp: exec_native_def Let_def operand_start_simps simp del: One_nat_def split: option.split prod.split)
      (metis fst_conv)+
qed

section \<open>The dispatch\<close>

lemma agrees_linear:
  assumes "moves P k n vm r" "frame_succs (ctl_of x) ip = [Suc ip]" "op_depth_effect x = (int k, int n - int k)"
    "vm_frames vm = f # fs" "cf_ip f = Suc ip"
  shows "agrees P x ip vm (go_on r)"
  using assms set_ip_same [OF assms(4,5)]
  by (cases r) (auto simp: agrees_def go_on_def moves_Inr continues_at_def)

lemma moves_exec_branch:
  assumes "vm_frames vm = f # fs" "cf_ip f = Suc ip" "frame_succs (ctl_of x) ip = ss" "set ss = {Suc ip, t}" "op_depth_effect x = (1, -1)"
  shows "agrees P x ip vm (go_on (exec_branch on t vm))"
proof (cases "vm_stack vm = []")
  case True
  with assms show ?thesis by (simp add: exec_branch_def pop_def go_on_def agrees_def)
next
  case False
  then obtain l where l: "length (vm_stack vm) = Suc l" by (cases "vm_stack vm") auto
  let ?vm = "vm \<lparr> vm_stack := butlast (vm_stack vm) \<rparr>"
  have "exec_branch on t vm = (case last (vm_stack vm) of V_Bool b \<Rightarrow> Inr (if b = on then set_ip t ?vm else ?vm) | _ \<Rightarrow> Inl VM_TypeError)"
    using False by (simp add: exec_branch_def pop_def)
  then show ?thesis
    using assms l set_ip_same [OF assms(1,2)]
    by (cases "last (vm_stack vm)") (auto simp: agrees_def go_on_def continues_at_def set_ip_def)
qed

lemma agrees_jump:
  assumes "vm_frames vm = f # fs" "frame_succs (ctl_of x) ip = [t]" "op_depth_effect x = (0, 0)"
  shows "agrees P x ip vm (go_on (Inr (set_ip t vm)))"
  using assms by (auto simp: agrees_def go_on_def continues_at_def set_ip_def)

text \<open>A trap takes the operands of its outcome: five for a bad index, one for an error of the host.\<close>

lemma pop_word_underflow: "pop_word vm = Inl VM_StackUnderflow \<Longrightarrow> vm_stack vm = []"
  by (cases "last (vm_stack vm)") (auto simp: pop_word_def pop_def split: if_splits)

lemma pop_word_length: "pop_word vm = Inr (n, vm') \<Longrightarrow> length (vm_stack vm) = Suc (length (vm_stack vm'))"
  by (cases "vm_stack vm") (auto simp: pop_word_def pop_def bindR_Inr split: if_splits)

lemma pop_bound_underflow: "pop_bound k b vm = Inl VM_StackUnderflow \<Longrightarrow> length (vm_stack vm) < k"
proof (induction k arbitrary: b vm)
  case (Suc k)
  show ?case
  proof (cases "pop_word vm")
    case (Inl e)
    with Suc.prems pop_word_underflow show ?thesis by auto
  next
    case (Inr p)
    obtain n vm' where "p = (n, vm')" by (cases p)
    with Inr Suc pop_word_length show ?thesis by fastforce
  qed
qed simp

lemma pop_bound_length: "pop_bound k b vm = Inr (c, vm') \<Longrightarrow> length (vm_stack vm) = k + length (vm_stack vm')"
proof (induction k arbitrary: b vm)
  case (Suc k)
  then obtain n vm1 where "pop_word vm = Inr (n, vm1)" by (auto simp: bindR_Inr)
  with Suc pop_word_length [OF this] show ?case by auto
qed simp

lemma index_trap_underflow: "index_trap vm = Inl VM_StackUnderflow \<Longrightarrow> length (vm_stack vm) < 5"
proof (cases "pop_bound 4 0 vm")
  case (Inl e)
  moreover assume "index_trap vm = Inl VM_StackUnderflow"
  ultimately show ?thesis using pop_bound_underflow [of 4 0 vm] by (simp add: index_trap_def)
next
  case (Inr p)
  obtain b vm' where "p = (b, vm')" by (cases p)
  moreover assume "index_trap vm = Inl VM_StackUnderflow"
  ultimately show ?thesis using Inr pop_word_underflow [of vm'] pop_bound_length [of 4 0 vm b vm']
    by (cases "pop_word vm'") (auto simp: index_trap_def)
qed

lemma host_trap_no_underflow:
  assumes "soft_reified (vm_reified_host_error vm)"
  shows "host_trap vm = Inl VM_StackUnderflow \<Longrightarrow> vm_stack vm = []" and "host_trap vm \<noteq> Inr VM_StackUnderflow"
  using assms pop_word_underflow [of vm]
  by (cases "pop_word vm"; cases "vm_reified_host_error vm"; cases "the (vm_reified_host_error vm)";
      auto simp: host_trap_def soft_reified_def Let_def split: if_splits)+

lemma agrees_trap:
  assumes "soft_reified (vm_reified_host_error vm)" "lenient P"
  shows "agrees P (Trap k) ip vm (Inl (exec_trap k vm))"
proof (cases "exec_trap k vm = VM_StackUnderflow")
  case False
  with assms(2) show ?thesis by (simp add: agrees_def lenient_def)
next
  case True
  then obtain t where t: "trap_from_code k = Some t" by (cases "trap_from_code k") (auto simp: exec_trap_def)
  with True trap_from_code_sound [OF t] show ?thesis
    using index_trap_underflow [of vm] host_trap_no_underflow [OF assms(1)]
    by (cases t) (auto simp: agrees_def exec_trap_def index_trap_def bindR_def split: sum.splits)
qed

lemma moves_stay: "moves P 0 0 vm (Inr vm)"
  by (simp add: moves_Inr)

lemma yields_dup [yields_intros]: "yields P 1 (Inr [v])"
  by simp

lemmas moves_instructions =
  moves_stay moves_push moves_values moves_unary moves_binary moves_peeking moves_guarded moves_pop_n
  moves_get_local moves_set_local moves_get_data moves_set_data moves_get_data_indexed moves_set_data_indexed
  moves_new_composite moves_is_enum moves_is_struct

theorem exec_op_agrees:
  assumes "stays_in_frame x" "lenient P \<and> soft_reified (vm_reified_host_error vm) \<or> clear_op x"
    and "vm_frames vm = f # fs" "cf_ip f = Suc ip" "3 \<le> unat (m_word_bits_log2 m)" "native_errors P h"
  shows "agrees P x ip vm (exec_op h m ci x vm)"
proof -
  note lin = agrees_linear [OF _ _ _ assms(3,4)]
  note br = moves_exec_branch [OF assms(3,4)]
  have "agrees P (If_op t) ip vm (go_on (exec_branch False (unat t) vm))"
    "agrees P (BreakIf t) ip vm (go_on (exec_branch True (unat t) vm))" for t
    by (rule br, simp, force, simp)+
  moreover have "agrees P x ip vm (exec_op h m ci x vm)" if "x = GetField sf" for sf
    using assms(2) unfolding that
    by (simp del: One_nat_def) (rule lin, rule moves_unary, rule yields_get_field, auto split: struct_field.splits)
  moreover have "agrees P x ip vm (exec_op h m ci x vm)" if "x = GetTupleField tf" for tf
    using assms(2) unfolding that
    by (simp del: One_nat_def) (rule lin, rule moves_unary, rule yields_get_field, auto split: tuple_field.splits)
  moreover have "agrees P x ip vm (exec_op h m ci x vm)" if "x = GetEnumField ef" for ef
    using assms(2) unfolding that
    by (simp del: One_nat_def) (rule lin, rule moves_unary, rule yields_get_field, auto split: enum_field.splits)
  moreover have "agrees P x ip vm (exec_op h m ci x vm)" if "x = GetIndex e" for e
    using assms(2) unfolding that
    by simp (rule lin, rule moves_get_index [OF assms(5)], auto simp: index_values_def)
  moreover have "agrees P x ip vm (exec_op h m ci x vm)" if "x = CallVerifiedNative i n \<or> x = CallExternalNative i n" for i n
    using that assms(2) by (elim disjE; simp) (rule lin, rule moves_native [OF assms(6)], simp_all)+
  moreover have "agrees P x ip vm (exec_op h m ci x vm)" if "x = Trap k" for k
    using that assms(2) by (simp add: agrees_trap)
  ultimately show ?thesis
    using assms(1)
    by (cases x)
      (simp_all del: One_nat_def add: agrees_jump [OF assms(3)],
       (rule lin, (rule moves_instructions yields_intros)+, simp, simp)+)
qed

end

end
