(* ===== verification/Verify_Execution.thy ===== *)
theory Verify_Execution
  imports Op_Tables Control_Flow Usize
begin

text \<open>
  The operand certificate of proven execution (\<open>src/src/verify_execution.rs\<close>): a worklist over the
  instructions of a chunk that propagates the least number of operands along every control edge, with the
  edge from a reset back to the instruction after \<open>Stream\<close>.  Its specification is the relation \<open>cert_reach\<close>
  of all control paths; the worklist is shown to decide it exactly, within its budget of turns.
\<close>

section \<open>The algorithm\<close>

datatype cert_error =
    CE_EdgeOutside | CE_Capacity | CE_Params | CE_Overflow | CE_NoTermination | CE_MissingDepth
  | CE_Requires | CE_NoStream | CE_NotConverged

definition TRAP_OPCODE_CAP :: nat where
  "TRAP_OPCODE_CAP = 8192"

text \<open>The least depths found, the flags of the queue, and the queue.\<close>

type_synonym cert_state = "int option list \<times> bool list \<times> nat list"

definition enqueue :: "nat \<Rightarrow> int \<Rightarrow> cert_state \<Rightarrow> cert_error + cert_state" where
  "enqueue ip depth st =
     (case st of (depths, queued, work) \<Rightarrow>
       (case nth_opt depths ip of
          None \<Rightarrow> Inl CE_EdgeOutside
        | Some slot \<Rightarrow>
            if (case slot of None \<Rightarrow> True | Some old \<Rightarrow> depth < old)
            then if queued ! ip then Inr (depths[ip := Some depth], queued, work)
                 else Inr (depths[ip := Some depth], queued[ip := True], work @ [ip])
            else Inr (depths, queued, work)))"

fun enqueue_all :: "(nat \<times> int) list \<Rightarrow> cert_state \<Rightarrow> cert_error + cert_state" where
  "enqueue_all [] st = Inr st"
| "enqueue_all ((ip, depth) # es) st = bindR (enqueue ip depth st) (enqueue_all es)"

text \<open>What an instruction needs: \<open>Return\<close> pops one value, unlike in the table.\<close>

definition cert_required :: "op \<Rightarrow> int" where
  "cert_required x = (if x = Return then 1 else fst (op_depth_effect x))"

definition after_stream :: "op list \<Rightarrow> nat option" where
  "after_stream ops = map_option Suc (position (\<lambda>x. x = Stream) ops)"

text \<open>The edges out of an instruction with the depth they carry; a reset restarts with one operand.\<close>

fun cert_edges :: "nat option \<Rightarrow> op \<Rightarrow> nat \<Rightarrow> int \<Rightarrow> cert_error + (nat \<times> int) list" where
  "cert_edges stream Return ip next = Inr []"
| "cert_edges stream (Trap k) ip next = Inr []"
| "cert_edges stream Reset ip next =
     (case stream of None \<Rightarrow> Inl CE_NoStream | Some s \<Rightarrow> Inr [(s, 1)])"
| "cert_edges stream (If_op t) ip next = Inr [(Suc ip, next), (unat t, next)]"
| "cert_edges stream (BreakIf t) ip next = Inr [(Suc ip, next), (unat t, next)]"
| "cert_edges stream (Else_op t) ip next = Inr [(unat t, next)]"
| "cert_edges stream (EndLoop t) ip next = Inr [(unat t, next)]"
| "cert_edges stream (Break t) ip next = Inr [(unat t, next)]"
| "cert_edges stream x ip next = Inr [(Suc ip, next)]"

definition i64_add :: "int \<Rightarrow> int \<Rightarrow> int option" where
  "i64_add a b = (if - (2 ^ 63) \<le> a + b \<and> a + b < 2 ^ 63 then Some (a + b) else None)"

text \<open>One turn: the instruction at the head of the queue.\<close>

definition cert_visit :: "op list \<Rightarrow> nat \<Rightarrow> cert_state \<Rightarrow> cert_error + cert_state" where
  "cert_visit ops ip st =
     (case st of (depths, queued, work) \<Rightarrow>
       if ip = length ops then Inl CE_NoTermination
       else case depths ! ip of
              None \<Rightarrow> Inl CE_MissingDepth
            | Some available \<Rightarrow>
                if available < cert_required (ops ! ip) then Inl CE_Requires
                else case i64_add available (snd (op_depth_effect (ops ! ip))) of
                       None \<Rightarrow> Inl CE_Overflow
                     | Some next \<Rightarrow>
                         bindR (cert_edges (after_stream ops) (ops ! ip) ip next)
                           (\<lambda>es. enqueue_all es (depths, queued[ip := False], work)))"

fun cert_loop :: "op list \<Rightarrow> nat \<Rightarrow> cert_state \<Rightarrow> cert_error + unit" where
  "cert_loop ops 0 (depths, queued, work) = (if work = [] then Inr () else Inl CE_NotConverged)"
| "cert_loop ops (Suc turns) (depths, queued, work) =
     (case work of
        [] \<Rightarrow> Inr ()
      | ip # rest \<Rightarrow> bindR (cert_visit ops ip (depths, queued, rest)) (cert_loop ops turns))"

definition cert_growth :: "op list \<Rightarrow> nat" where
  "cert_growth ops = max_or 0 (map (\<lambda>x. nat (max 0 (snd (op_depth_effect x)))) ops)"

definition prove_chunk :: "chunk \<Rightarrow> cert_error + unit" where
  "prove_chunk c =
     (let ops = ch_ops c; n = length ops in
      if n > TRAP_OPCODE_CAP then Inl CE_Capacity
      else if unat (ch_param_count c) > unat (ch_local_count c) then Inl CE_Params
      else case Option.bind (checked_mul n (cert_growth ops)) (\<lambda>v. checked_add v 1) of
             None \<Rightarrow> Inl CE_Overflow
           | Some max_depth \<Rightarrow>
               (case checked_mul (n + 1) (max_depth + 1) of
                  None \<Rightarrow> Inl CE_Overflow
                | Some budget \<Rightarrow>
                    bindR (enqueue 0 0 (replicate (n + 1) None, replicate (n + 1) False, []))
                      (cert_loop ops budget)))"

fun prove_chunks :: "chunk list \<Rightarrow> cert_error + unit" where
  "prove_chunks [] = Inr ()"
| "prove_chunks (c # cs) = bindR (prove_chunk c) (\<lambda>_. prove_chunks cs)"

definition verify_pop_elision :: "kmodule \<Rightarrow> cert_error + unit" where
  "verify_pop_elision m = prove_chunks (m_chunks m)"

section \<open>The specification\<close>

text \<open>
  \<open>cert_reach ops ip d\<close>: some control path from the entry reaches \<open>ip\<close> with \<open>d\<close> operands.  \<open>cert_ok\<close> is
  what such an arrival must satisfy.
\<close>

inductive cert_reach :: "op list \<Rightarrow> nat \<Rightarrow> int \<Rightarrow> bool" for ops where
  cr_entry: "cert_reach ops 0 0"
| cr_step: "cert_reach ops ip d \<Longrightarrow> ip < length ops \<Longrightarrow>
     cert_edges (after_stream ops) (ops ! ip) ip (d + snd (op_depth_effect (ops ! ip))) = Inr es \<Longrightarrow>
     (t, e) \<in> set es \<Longrightarrow> cert_reach ops t e"

definition cert_ok :: "op list \<Rightarrow> nat \<Rightarrow> int \<Rightarrow> bool" where
  "cert_ok ops ip d \<longleftrightarrow> ip < length ops \<and> cert_required (ops ! ip) \<le> d \<and> (ops ! ip = Reset \<longrightarrow> Stream \<in> set ops)"

lemma after_stream_None: "after_stream ops = None \<longleftrightarrow> Stream \<notin> set ops"
  by (auto simp: after_stream_def position_None)

lemma cert_edges_fails: "cert_edges s x ip next = Inl e \<longleftrightarrow> x = Reset \<and> s = None \<and> e = CE_NoStream"
  by (cases x) (auto split: option.splits)

lemma cert_edges_shift:
  "cert_edges s x ip a = Inr es \<Longrightarrow> a \<le> b \<Longrightarrow> cert_edges s x ip b = Inr es' \<Longrightarrow> (t, e) \<in> set es' \<Longrightarrow>
   \<exists>e'. (t, e') \<in> set es \<and> e' \<le> e"
  by (cases x) (auto split: option.splits)

lemma cert_edges_depth:
  "cert_edges s x ip a = Inr es \<Longrightarrow> (t, e) \<in> set es \<Longrightarrow> e = a \<or> e = 1 \<and> x = Reset"
  by (cases x) (auto split: option.splits)

lemma cert_edges_length: "cert_edges s x ip a = Inr es \<Longrightarrow> length es \<le> 2"
  by (cases x) (auto split: option.splits)

lemma required_covers: "0 \<le> cert_required x + snd (op_depth_effect x)" "0 \<le> cert_required x"
  using op_depth_net_ge [of x] op_depth_required_nonneg [of x] by (auto simp: cert_required_def)

lemma net_le_5: "snd (op_depth_effect x) \<le> 5"
proof -
  have "stack_growth x \<le> 5" by (cases x) auto
  then show ?thesis using stack_growth_covers_net [of x] by linarith
qed

lemma growth_bounds: "x \<in> set ops \<Longrightarrow> snd (op_depth_effect x) \<le> int (cert_growth ops)"
proof -
  assume "x \<in> set ops"
  then have "nat (max 0 (snd (op_depth_effect x))) \<le> cert_growth ops"
    unfolding cert_growth_def by (intro max_or_ge) auto
  then show ?thesis by linarith
qed

lemma growth_le_5: "cert_growth ops \<le> 5"
  using net_le_5 by (auto simp: cert_growth_def max_or_def nat_le_iff)

section \<open>The state of the worklist\<close>

definition assigned :: "int option list \<Rightarrow> nat" where
  "assigned depths = length (filter (\<lambda>s. s \<noteq> None) depths)"

text \<open>
  The invariant: what is recorded is real, queued positions are exactly those in the queue, the recorded
  depths are bounded by the number of recorded positions.
\<close>

definition cert_inv :: "op list \<Rightarrow> cert_state \<Rightarrow> bool" where
  "cert_inv ops st \<longleftrightarrow> (case st of (depths, queued, work) \<Rightarrow>
     length depths = Suc (length ops) \<and> length queued = Suc (length ops)
     \<and> (\<forall>ip d. ip < length depths \<longrightarrow> depths ! ip = Some d \<longrightarrow>
          cert_reach ops ip d \<and> 0 \<le> d \<and> d \<le> int (cert_growth ops) * (int (assigned depths) - 1) + 1)
     \<and> (\<forall>ip < length depths. queued ! ip \<longleftrightarrow> ip \<in> set work)
     \<and> (\<forall>ip \<in> set work. ip < length depths \<and> depths ! ip \<noteq> None)
     \<and> distinct work)"

text \<open>A position is settled when its edges have been followed with the depth it has now.\<close>

definition settled :: "op list \<Rightarrow> int option list \<Rightarrow> nat \<Rightarrow> int \<Rightarrow> bool" where
  "settled ops depths ip d \<longleftrightarrow>
     cert_ok ops ip d \<and>
     (\<forall>es. cert_edges (after_stream ops) (ops ! ip) ip (d + snd (op_depth_effect (ops ! ip))) = Inr es \<longrightarrow>
        (\<forall>(t, e) \<in> set es. t < length depths \<and> (\<exists>d'. depths ! t = Some d' \<and> d' \<le> e)))"

text \<open>Depths only ever fall, and positions only ever become recorded.\<close>

definition lowers :: "int option list \<Rightarrow> int option list \<Rightarrow> bool" where
  "lowers depths depths' \<longleftrightarrow> length depths' = length depths \<and>
     (\<forall>ip d. ip < length depths \<longrightarrow> depths ! ip = Some d \<longrightarrow> (\<exists>d'. depths' ! ip = Some d' \<and> d' \<le> d))"

lemma lowers_refl [simp]: "lowers ds ds"
  by (simp add: lowers_def)

lemma lowers_trans: "lowers a b \<Longrightarrow> lowers b c \<Longrightarrow> lowers a c"
  unfolding lowers_def by (metis order_trans)

lemma settled_lowers: "settled ops ds ip d \<Longrightarrow> lowers ds ds' \<Longrightarrow> settled ops ds' ip d"
  unfolding settled_def lowers_def by (fastforce intro: order_trans)

lemma assigned_update:
  "ip < length ds \<Longrightarrow> assigned (ds[ip := Some d]) = (if ds ! ip = None then Suc (assigned ds) else assigned ds)"
  by (induction ds arbitrary: ip) (auto simp: assigned_def nth_Cons split: nat.splits)

lemma assigned_le: "assigned ds \<le> length ds"
  by (simp add: assigned_def)

lemma assigned_pos: "ip < length ds \<Longrightarrow> ds ! ip = Some d \<Longrightarrow> 1 \<le> assigned ds"
proof -
  assume "ip < length ds" "ds ! ip = Some d"
  then have "Some d \<in> set ds" by (metis nth_mem)
  then have "Some d \<in> set (filter (\<lambda>s. s \<noteq> None) ds)" by simp
  then have "0 < length (filter (\<lambda>s. s \<noteq> None) ds)" by (rule length_pos_if_in_set)
  then show ?thesis unfolding assigned_def by (simp only: Suc_le_eq One_nat_def)
qed

text \<open>The potential: what the depths can still fall, and the length of the queue.\<close>

definition rank :: "nat \<Rightarrow> int option \<Rightarrow> nat" where
  "rank m s = (case s of None \<Rightarrow> m | Some d \<Rightarrow> nat d)"

definition potential :: "nat \<Rightarrow> cert_state \<Rightarrow> nat" where
  "potential m st = (case st of (depths, queued, work) \<Rightarrow> sum_list (map (rank m) depths) + length work)"

lemma rank_update:
  assumes "ip < length ds" "rank m (Some d) < rank m (ds ! ip)"
  shows "Suc (sum_list (map (rank m) (ds[ip := Some d]))) \<le> sum_list (map (rank m) ds)"
  using assms
proof (induction ds arbitrary: ip)
  case (Cons x ds)
  then show ?case by (cases ip) auto
qed simp

definition cert_top :: "op list \<Rightarrow> nat" where
  "cert_top ops = length ops * cert_growth ops + 2"

text \<open>What may be put into the queue.\<close>

definition arrival :: "op list \<Rightarrow> nat \<Rightarrow> nat \<Rightarrow> int \<Rightarrow> bool" where
  "arrival ops k t e \<longleftrightarrow> cert_reach ops t e \<and> 0 \<le> e \<and> e \<le> int (cert_growth ops) * int k + 1"

lemma enqueue_cases:
  assumes "enqueue t e (ds, qs, work) = Inr (ds', qs', work')"
  obtains (keep) d where "t < length ds" "ds ! t = Some d" "d \<le> e" "ds' = ds" "qs' = qs" "work' = work"
  | (lower) d where "t < length ds" "ds ! t = Some d" "e < d" "ds' = ds[t := Some e]"
      "qs' = qs[t := True]" "work' = (if qs ! t then work else work @ [t])"
  | (fresh) "t < length ds" "ds ! t = None" "ds' = ds[t := Some e]"
      "qs' = qs[t := True]" "work' = (if qs ! t then work else work @ [t])"
proof (cases "t < length ds")
  case False
  with assms show thesis by (simp add: enqueue_def nth_opt_def)
next
  case True
  have same: "qs ! t \<Longrightarrow> qs[t := True] = qs" by (metis (full_types) list_update_id)
  show thesis
  proof (cases "ds ! t")
    case None
    with assms True same show thesis by (intro fresh) (auto simp: enqueue_def nth_opt_def split: if_splits)
  next
    case (Some d)
    show thesis
    proof (cases "e < d")
      case True
      with assms Some \<open>t < length ds\<close> same show thesis
        by (intro lower) (auto simp: enqueue_def nth_opt_def split: if_splits)
    next
      case False
      with assms Some \<open>t < length ds\<close> show thesis by (intro keep) (auto simp: enqueue_def nth_opt_def)
    qed
  qed
qed

definition enqueued :: "op list \<Rightarrow> nat \<Rightarrow> int \<Rightarrow> cert_state \<Rightarrow> cert_state \<Rightarrow> bool" where
  "enqueued ops t e st st' \<longleftrightarrow>
     (case st of (ds, qs, work) \<Rightarrow> case st' of (ds', qs', work') \<Rightarrow>
        cert_inv ops st' \<and> lowers ds ds' \<and> t < length ds' \<and> (\<exists>d'. ds' ! t = Some d' \<and> d' \<le> e)
        \<and> (\<forall>ip < length ds. ds' ! ip = ds ! ip \<or> ip \<in> set work') \<and> set work \<subseteq> set work'
        \<and> assigned ds \<le> assigned ds' \<and> potential (cert_top ops) st' \<le> potential (cert_top ops) st)"

lemma cert_inv_update:
  assumes inv: "cert_inv ops (ds, qs, work)" and arr: "arrival ops (assigned ds) t e" and t: "t < length ds"
    and new: "case ds ! t of None \<Rightarrow> True | Some d \<Rightarrow> e < d"
  shows "cert_inv ops (ds[t := Some e], qs[t := True], if qs ! t then work else work @ [t])"
proof -
  let ?g = "int (cert_growth ops)" and ?ds = "ds[t := Some e]"
  have grow: "assigned ds \<le> assigned ?ds" using t by (simp add: assigned_update)
  have mono: "d \<le> ?g * (int (assigned ds) - 1) + 1 \<Longrightarrow> d \<le> ?g * (int (assigned ?ds) - 1) + 1" for d
    using grow by (smt (verit) mult_left_mono of_nat_0_le_iff of_nat_mono)
  have e: "e \<le> ?g * (int (assigned ?ds) - 1) + 1"
  proof (cases "ds ! t")
    case None
    with t arr show ?thesis by (simp add: assigned_update arrival_def)
  next
    case (Some d)
    with inv t have "d \<le> ?g * (int (assigned ds) - 1) + 1" unfolding cert_inv_def by auto
    with new Some mono show ?thesis by (metis less_le option.simps(5) order_trans)
  qed
  show ?thesis
    using inv arr t e mono unfolding cert_inv_def arrival_def by (auto simp: nth_list_update)
qed

lemma enqueue_inv:
  assumes inv: "cert_inv ops (ds, qs, work)" and arr: "arrival ops (assigned ds) t e"
    and enq: "enqueue t e (ds, qs, work) = Inr (ds', qs', work')"
  shows "enqueued ops t e (ds, qs, work) (ds', qs', work')"
  using enq
proof (cases rule: enqueue_cases)
  case (keep d)
  with inv show ?thesis by (auto simp: enqueued_def)
next
  case (lower d)
  have "0 \<le> e" using arr by (simp add: arrival_def)
  with lower have r: "rank (cert_top ops) (Some e) < rank (cert_top ops) (ds ! t)" by (simp add: rank_def)
  have "qs ! t \<longleftrightarrow> t \<in> set work" using inv lower(1) by (auto simp: cert_inv_def)
  then have queue: "t \<in> set work'" "set work \<subseteq> set work'" using lower(6) by auto
  have inv': "cert_inv ops (ds', qs', work')"
    using cert_inv_update [OF inv arr lower(1)] lower by simp
  have pot: "potential (cert_top ops) (ds', qs', work') \<le> potential (cert_top ops) (ds, qs, work)"
    using rank_update [OF lower(1) r] lower(4,6) by (simp add: potential_def)
  have "lowers ds ds'" using lower by (auto simp: lowers_def nth_list_update)
  moreover have "t < length ds'" "ds' ! t = Some e" "assigned ds' = assigned ds"
    using lower(1-4) by (simp_all add: assigned_update)
  moreover have "\<forall>ip < length ds. ds' ! ip = ds ! ip \<or> ip \<in> set work'"
    using lower(4) queue(1) by (metis nth_list_update_neq)
  moreover have "\<exists>d'. ds' ! t = Some d' \<and> d' \<le> e" using \<open>ds' ! t = Some e\<close> by blast
  ultimately show ?thesis
    unfolding enqueued_def prod.case using inv' pot queue(2) by (metis order_refl)
next
  case fresh
  have "assigned ds < length ds"
    using fresh(2) unfolding assigned_def by (intro length_filter_less [OF nth_mem [OF fresh(1)]]) simp
  then have "int (cert_growth ops) * int (assigned ds) \<le> int (cert_growth ops) * int (length ops)"
    using inv by (intro mult_left_mono) (auto simp: cert_inv_def)
  moreover have "e \<le> int (cert_growth ops) * int (assigned ds) + 1" using arr by (simp add: arrival_def)
  ultimately have "e < int (cert_top ops)" by (simp add: cert_top_def mult.commute)
  moreover have "0 \<le> e" using arr by (simp add: arrival_def)
  ultimately have "nat e < cert_top ops" by linarith
  with fresh have "rank (cert_top ops) (Some e) < rank (cert_top ops) (ds ! t)" by (simp add: rank_def)
  moreover have "\<not> qs ! t" using inv fresh(1,2) by (auto simp: cert_inv_def)
  ultimately show ?thesis
    using rank_update [OF fresh(1)] cert_inv_update [OF inv arr fresh(1)] fresh
    by (auto simp: enqueued_def potential_def lowers_def nth_list_update assigned_update)
qed

lemma enqueued_refl: "cert_inv ops (ds, qs, work) \<Longrightarrow> t < length ds \<Longrightarrow> ds ! t = Some d \<Longrightarrow> d \<le> e \<Longrightarrow>
    enqueued ops t e (ds, qs, work) (ds, qs, work)"
  by (auto simp: enqueued_def)

lemma arrival_mono: "arrival ops k t e \<Longrightarrow> k \<le> k' \<Longrightarrow> arrival ops k' t e"
  unfolding arrival_def by (smt (verit) mult_left_mono of_nat_0_le_iff of_nat_mono)

text \<open>The same for a list of edges: all of them arrive.\<close>

lemma enqueue_all_inv:
  assumes "cert_inv ops (ds, qs, work)" and "\<And>t e. (t, e) \<in> set es \<Longrightarrow> arrival ops (assigned ds) t e"
    and "enqueue_all es (ds, qs, work) = Inr (ds', qs', work')"
  shows "cert_inv ops (ds', qs', work') \<and> lowers ds ds'
    \<and> (\<forall>(t, e) \<in> set es. t < length ds' \<and> (\<exists>d'. ds' ! t = Some d' \<and> d' \<le> e))
    \<and> (\<forall>ip < length ds. ds' ! ip = ds ! ip \<or> ip \<in> set work') \<and> set work \<subseteq> set work'
    \<and> potential (cert_top ops) (ds', qs', work') \<le> potential (cert_top ops) (ds, qs, work)"
  using assms
proof (induction es arbitrary: ds qs work)
  case (Cons edge es)
  obtain t e where edge: "edge = (t, e)" by (cases edge)
  with Cons.prems(3) obtain ds1 qs1 work1 where
    1: "enqueue t e (ds, qs, work) = Inr (ds1, qs1, work1)" and
    2: "enqueue_all es (ds1, qs1, work1) = Inr (ds', qs', work')" by (auto simp: bindR_Inr)
  have first: "enqueued ops t e (ds, qs, work) (ds1, qs1, work1)"
    using Cons.prems(2) edge by (intro enqueue_inv [OF Cons.prems(1) _ 1]) simp
  have rest: "arrival ops (assigned ds1) t' e'" if "(t', e') \<in> set es" for t' e'
    using that first arrival_mono [OF Cons.prems(2)] by (simp add: enqueued_def)
  note IH = Cons.IH [OF _ rest 2]
  from first have inv1: "cert_inv ops (ds1, qs1, work1)" and l1: "lowers ds ds1" by (simp_all add: enqueued_def)
  from IH [OF inv1] have l2: "lowers ds1 ds'" by blast
  have "t < length ds' \<and> (\<exists>d'. ds' ! t = Some d' \<and> d' \<le> e)"
    using first l2 unfolding enqueued_def lowers_def by (fastforce intro: order_trans)
  moreover have "ds' ! ip = ds ! ip \<or> ip \<in> set work'" if "ip < length ds" for ip
  proof -
    have "ds1 ! ip = ds ! ip \<or> ip \<in> set work1" using first that by (simp add: enqueued_def)
    moreover have "ds' ! ip = ds1 ! ip \<or> ip \<in> set work'" "set work1 \<subseteq> set work'"
      using IH [OF inv1] l1 that by (simp_all add: lowers_def)
    ultimately show ?thesis by auto
  qed
  ultimately show ?case
    using first IH [OF inv1] lowers_trans [OF l1 l2] edge by (auto simp: enqueued_def)
qed auto

lemma enqueue_all_fails:
  assumes "cert_inv ops (ds, qs, work)" and "\<And>t e. (t, e) \<in> set es \<Longrightarrow> arrival ops (assigned ds) t e"
    and "enqueue_all es (ds, qs, work) = Inl err"
  shows "\<exists>(t, e) \<in> set es. length ops < t"
  using assms
proof (induction es arbitrary: ds qs work)
  case (Cons edge es)
  obtain t e where edge: "edge = (t, e)" by (cases edge)
  show ?case
  proof (cases "enqueue t e (ds, qs, work)")
    case (Inl err1)
    then have "length ds \<le> t" by (auto simp: enqueue_def split: option.splits if_splits)
    with Cons.prems(1) edge show ?thesis by (auto simp: cert_inv_def)
  next
    case (Inr st1)
    obtain ds1 qs1 work1 where st1: "st1 = (ds1, qs1, work1)" by (cases st1)
    have first: "enqueued ops t e (ds, qs, work) (ds1, qs1, work1)"
      using Cons.prems(2) edge Inr st1 by (intro enqueue_inv [OF Cons.prems(1)]) simp_all
    then have "arrival ops (assigned ds1) t' e'" if "(t', e') \<in> set es" for t' e'
      using that arrival_mono [OF Cons.prems(2)] by (simp add: enqueued_def)
    with Cons.IH [of ds1 qs1 work1] first Inr st1 Cons.prems(3) edge show ?thesis by (auto simp: enqueued_def)
  qed
qed simp

section \<open>The loop\<close>

definition loop_inv :: "op list \<Rightarrow> cert_state \<Rightarrow> bool" where
  "loop_inv ops st \<longleftrightarrow> cert_inv ops st \<and> (case st of (ds, qs, work) \<Rightarrow>
     (\<forall>ip d. ip < length ds \<longrightarrow> ds ! ip = Some d \<longrightarrow> ip \<notin> set work \<longrightarrow> settled ops ds ip d)
     \<and> (\<exists>d \<le> 0. ds ! 0 = Some d))"

definition refuted :: "op list \<Rightarrow> bool" where
  "refuted ops \<longleftrightarrow> (\<exists>ip d. cert_reach ops ip d \<and> \<not> cert_ok ops ip d)"

lemma edges_arrive:
  assumes "cert_reach ops ip d" "ip < length ops" "cert_required (ops ! ip) \<le> d"
    and d: "d \<le> int (cert_growth ops) * (int k - 1) + 1" and "1 \<le> k"
    and es: "cert_edges (after_stream ops) (ops ! ip) ip (d + snd (op_depth_effect (ops ! ip))) = Inr es" "(t, e) \<in> set es"
  shows "arrival ops k t e"
proof -
  have grow: "snd (op_depth_effect (ops ! ip)) \<le> int (cert_growth ops)" using assms(2) by (intro growth_bounds) simp
  have "0 \<le> d + snd (op_depth_effect (ops ! ip))"
    using required_covers(1) [of "ops ! ip"] assms(3) by linarith
  moreover have "d + snd (op_depth_effect (ops ! ip)) \<le> int (cert_growth ops) * int k + 1"
    using d grow by (simp add: algebra_simps)
  moreover have "1 \<le> int (cert_growth ops) * int k + 1" by simp
  ultimately have "0 \<le> e \<and> e \<le> int (cert_growth ops) * int k + 1"
    using cert_edges_depth [OF es] by auto
  with cr_step [OF assms(1,2) es] show ?thesis by (simp add: arrival_def)
qed

lemma dequeue_inv:
  "cert_inv ops (ds, qs, ip # work) \<Longrightarrow> cert_inv ops (ds, qs[ip := False], work)"
  by (auto simp: cert_inv_def nth_list_update)

lemma i64_add_in_range:
  assumes "length ops \<le> TRAP_OPCODE_CAP" "cert_inv ops (ds, qs, work)" "ip < length ds" "ds ! ip = Some d"
  shows "i64_add d (snd (op_depth_effect x)) = Some (d + snd (op_depth_effect x)) \<or> d < cert_required x"
proof -
  have "assigned ds \<le> Suc TRAP_OPCODE_CAP" using assigned_le [of ds] assms(1,2) by (simp add: cert_inv_def)
  then have "int (cert_growth ops) * (int (assigned ds) - 1) \<le> 5 * int TRAP_OPCODE_CAP"
    using growth_le_5 [of ops] assigned_pos [OF assms(3,4)] by (intro mult_mono) auto
  moreover have "d \<le> int (cert_growth ops) * (int (assigned ds) - 1) + 1" "0 \<le> d"
    using assms(2-4) by (auto simp: cert_inv_def)
  ultimately have "d \<le> 40961" "0 \<le> d" by (simp_all add: TRAP_OPCODE_CAP_def)
  then show ?thesis
    using net_le_5 [of x] required_covers [of x] by (auto simp: i64_add_def)
qed

lemma cert_visit_inv:
  assumes cap: "length ops \<le> TRAP_OPCODE_CAP" and inv: "loop_inv ops (ds, qs, ip # rest)"
    and visit: "cert_visit ops ip (ds, qs, rest) = Inr (ds', qs', work')"
  shows "loop_inv ops (ds', qs', work') \<and>
    potential (cert_top ops) (ds', qs', work') < potential (cert_top ops) (ds, qs, ip # rest)"
proof -
  have cinv: "cert_inv ops (ds, qs, ip # rest)" using inv by (simp add: loop_inv_def)
  then have ip: "ip < length ds" and "ip \<notin> set rest" and len: "length ds = Suc (length ops)" by (auto simp: cert_inv_def)
  from visit cinv obtain d where d: "ds ! ip = Some d" "ip \<noteq> length ops"
    by (auto simp: cert_visit_def split: if_splits option.splits)
  with ip len have ops: "ip < length ops" by simp
  from visit d have req: "cert_required (ops ! ip) \<le> d"
    by (auto simp: cert_visit_def split: if_splits)
  let ?next = "d + snd (op_depth_effect (ops ! ip))"
  have "i64_add d (snd (op_depth_effect (ops ! ip))) = Some ?next"
    using i64_add_in_range [OF cap cinv ip d(1), of "ops ! ip"] req by auto
  with visit d req obtain es where es: "cert_edges (after_stream ops) (ops ! ip) ip ?next = Inr es"
    and enq: "enqueue_all es (ds, qs[ip := False], rest) = Inr (ds', qs', work')"
    by (auto simp: cert_visit_def bindR_Inr)
  have facts: "cert_reach ops ip d" "d \<le> int (cert_growth ops) * (int (assigned ds) - 1) + 1"
    using cinv ip d(1) by (auto simp: cert_inv_def)
  have arr: "arrival ops (assigned ds) t e" if "(t, e) \<in> set es" for t e
    by (rule edges_arrive [OF facts(1) ops req facts(2) assigned_pos [OF ip d(1)] es that])
  note all = enqueue_all_inv [OF dequeue_inv [OF cinv] arr enq]
  then have lo: "lowers ds ds'" by blast
  have "ops ! ip = Reset \<longrightarrow> Stream \<in> set ops"
    using es after_stream_None [of ops] by (auto split: option.splits)
  then have here: "settled ops ds' ip d" using all es ops req by (auto simp: settled_def cert_ok_def)
  have "settled ops ds' j d'" if j: "j < length ds'" "ds' ! j = Some d'" "j \<notin> set work'" for j d'
  proof (cases "j = ip")
    case True
    with all ip d(1) j here show ?thesis by auto
  next
    case False
    have "ds' ! j = ds ! j" "j \<notin> set rest" using all j lo by (auto simp: lowers_def)
    with inv j lo False have "settled ops ds j d'" by (auto simp: loop_inv_def lowers_def)
    then show ?thesis using lo by (rule settled_lowers)
  qed
  moreover have "\<exists>d0 \<le> 0. ds' ! 0 = Some d0"
    using inv lo len unfolding loop_inv_def lowers_def by (fastforce intro: order_trans)
  ultimately have "loop_inv ops (ds', qs', work')" using all by (simp add: loop_inv_def)
  then show ?thesis using all by (simp add: potential_def)
qed

lemma cert_visit_fails:
  assumes cap: "length ops \<le> TRAP_OPCODE_CAP" and inv: "loop_inv ops (ds, qs, ip # rest)"
    and visit: "cert_visit ops ip (ds, qs, rest) = Inl err"
  shows "refuted ops \<and> err \<noteq> CE_NotConverged"
proof -
  have cinv: "cert_inv ops (ds, qs, ip # rest)" using inv by (simp add: loop_inv_def)
  then obtain d where ip: "ip < length ds" and d: "ds ! ip = Some d" and len: "length ds = Suc (length ops)"
    by (auto simp: cert_inv_def)
  have facts: "cert_reach ops ip d" "d \<le> int (cert_growth ops) * (int (assigned ds) - 1) + 1"
    using cinv ip d(1) by (auto simp: cert_inv_def)
  show ?thesis
  proof (cases "ip < length ops \<and> cert_required (ops ! ip) \<le> d")
    case False
    then have "\<not> cert_ok ops ip d" by (auto simp: cert_ok_def)
    moreover have "err \<noteq> CE_NotConverged"
      using visit False d ip len by (auto simp: cert_visit_def split: if_splits)
    ultimately show ?thesis using facts(1) by (auto simp: refuted_def)
  next
    case True
    let ?next = "d + snd (op_depth_effect (ops ! ip))"
    have "i64_add d (snd (op_depth_effect (ops ! ip))) = Some ?next"
      using i64_add_in_range [OF cap cinv ip d(1), of "ops ! ip"] True by auto
    with visit d True have bind: "bindR (cert_edges (after_stream ops) (ops ! ip) ip ?next)
        (\<lambda>es. enqueue_all es (ds, qs[ip := False], rest)) = Inl err" by (simp add: cert_visit_def)
    show ?thesis
    proof (cases "cert_edges (after_stream ops) (ops ! ip) ip ?next")
      case (Inl e)
      with bind facts(1) show ?thesis
        by (auto simp: cert_edges_fails after_stream_None refuted_def cert_ok_def)
    next
      case (Inr es)
      have arr: "arrival ops (assigned ds) t e" if "(t, e) \<in> set es" for t e
        using True by (intro edges_arrive [OF facts(1) _ _ facts(2) assigned_pos [OF ip d(1)] Inr that]) auto
      have fails: "enqueue_all es (ds, qs[ip := False], rest) = Inl err" using bind Inr by simp
      from enqueue_all_fails [OF dequeue_inv [OF cinv] arr fails]
      obtain t e where "(t, e) \<in> set es" "length ops < t" by auto
      with cr_step [OF facts(1) _ Inr] True have "refuted ops" by (fastforce simp: refuted_def cert_ok_def)
      have "enqueue t' e' st = Inl err' \<Longrightarrow> err' = CE_EdgeOutside" for t' e' st err'
        by (auto simp: enqueue_def split: prod.splits option.splits if_splits)
      then have outside: "enqueue_all es' st = Inl err' \<Longrightarrow> err' = CE_EdgeOutside" for es' st err'
      proof (induction es' arbitrary: st)
        case (Cons x xs)
        then show ?case by (cases x; cases "enqueue (fst x) (snd x) st") auto
      qed simp
      with \<open>refuted ops\<close> outside [OF fails] show ?thesis by simp
    qed
  qed
qed

text \<open>The loop converges within the potential of its state, and then decides whether some path is refuted.\<close>

lemma loop_done:
  assumes "loop_inv ops (ds, qs, [])"
  shows "\<not> refuted ops"
proof -
  have "\<exists>d' \<le> d. ip < length ds \<and> ds ! ip = Some d'" if "cert_reach ops ip d" for ip d
    using that
  proof induction
    case cr_entry
    from assms show ?case by (auto simp: loop_inv_def cert_inv_def)
  next
    case (cr_step ip d es t e)
    then obtain d' where d': "d' \<le> d" "ip < length ds" "ds ! ip = Some d'" by auto
    with assms have "settled ops ds ip d'" by (auto simp: loop_inv_def)
    moreover obtain es' where es': "cert_edges (after_stream ops) (ops ! ip) ip (d' + snd (op_depth_effect (ops ! ip))) = Inr es'"
      using cr_step.hyps(3) by (cases "cert_edges (after_stream ops) (ops ! ip) ip (d' + snd (op_depth_effect (ops ! ip)))")
        (auto simp: cert_edges_fails)
    moreover from cert_edges_shift [OF es' _ cr_step.hyps(3,4)] d'(1) obtain e' where "(t, e') \<in> set es'" "e' \<le> e" by auto
    ultimately show ?case unfolding settled_def by (fastforce intro: order_trans)
  qed
  moreover have "cert_ok ops ip d" if "d' \<le> d" "ip < length ds" "ds ! ip = Some d'" for ip d d'
    using assms that by (fastforce simp: loop_inv_def settled_def cert_ok_def)
  ultimately show ?thesis by (fastforce simp: refuted_def)
qed

lemma cert_loop_decides:
  assumes "length ops \<le> TRAP_OPCODE_CAP" "loop_inv ops st" "potential (cert_top ops) st \<le> turns"
  shows "(cert_loop ops turns st = Inr () \<and> \<not> refuted ops) \<or>
    (\<exists>e. cert_loop ops turns st = Inl e \<and> e \<noteq> CE_NotConverged \<and> refuted ops)"
  using assms(2,3)
proof (induction turns arbitrary: st)
  case 0
  obtain ds qs work where st: "st = (ds, qs, work)" by (cases st)
  with 0 have "work = []" by (simp add: potential_def)
  with 0 st show ?case by (auto dest: loop_done)
next
  case (Suc turns)
  obtain ds qs work where st: "st = (ds, qs, work)" by (cases st)
  show ?case
  proof (cases work)
    case Nil
    with Suc.prems st show ?thesis by (auto dest: loop_done)
  next
    case (Cons ip rest)
    show ?thesis
    proof (cases "cert_visit ops ip (ds, qs, rest)")
      case (Inl e)
      with Suc.prems st Cons cert_visit_fails [OF assms(1), of ds qs ip rest] show ?thesis by auto
    next
      case (Inr st')
      obtain ds' qs' work' where st': "st' = (ds', qs', work')" by (cases st')
      with cert_visit_inv [OF assms(1), of ds qs ip rest] Inr Suc.prems st Cons
      have "loop_inv ops st'" "potential (cert_top ops) st' \<le> turns" by auto
      from Suc.IH [OF this] Inr st Cons show ?thesis by simp
    qed
  qed
qed

lemma cert_start:
  "enqueue 0 0 (replicate (n + 1) None, replicate (n + 1) False, []) =
     Inr ((replicate (n + 1) None)[0 := Some 0], (replicate (n + 1) False)[0 := True], [0])"
  by (simp add: enqueue_def nth_opt_def)

lemma assigned_none [simp]: "assigned (replicate n None) = 0"
  by (simp add: assigned_def)

lemma start_inv:
  "loop_inv ops ((replicate (length ops + 1) None)[0 := Some 0], (replicate (length ops + 1) False)[0 := True], [0])"
  using cr_entry [of ops]
  by (auto simp: loop_inv_def cert_inv_def nth_list_update nth_Cons assigned_update assigned_def split: nat.splits)

lemma start_potential:
  "potential (cert_top ops) ((replicate (length ops + 1) None)[0 := Some 0], qs, [0]) \<le>
     (length ops + 1) * cert_top ops"
  by (simp add: potential_def rank_def sum_list_replicate cert_top_def)

lemma prove_chunk_decides:
  "prove_chunk c = Inr () \<longleftrightarrow>
     length (ch_ops c) \<le> TRAP_OPCODE_CAP \<and> unat (ch_param_count c) \<le> unat (ch_local_count c) \<and> \<not> refuted (ch_ops c)"
    (is "?L = ?R")
  and prove_chunk_converges: "prove_chunk c \<noteq> Inl CE_NotConverged"
proof -
  let ?ops = "ch_ops c" and ?n = "length (ch_ops c)"
  have "?L = ?R \<and> prove_chunk c \<noteq> Inl CE_NotConverged"
  proof (cases "?n \<le> TRAP_OPCODE_CAP \<and> unat (ch_param_count c) \<le> unat (ch_local_count c)")
    case False
    then show ?thesis by (auto simp: prove_chunk_def Let_def)
  next
    case True
    have small: "?n * cert_growth ?ops \<le> 8192 * 5"
      using True growth_le_5 [of ?ops] by (intro mult_mono) (auto simp: TRAP_OPCODE_CAP_def)
    then have "(?n + 1) * cert_top ?ops \<le> 8193 * 40962"
      unfolding cert_top_def using True by (intro mult_mono) (auto simp: TRAP_OPCODE_CAP_def)
    then have budget: "checked_mul (?n + 1) (?n * cert_growth ?ops + 1 + 1) = Some ((?n + 1) * cert_top ?ops)"
      by (simp add: checked_mul_def cert_top_def)
    have depth: "Option.bind (checked_mul ?n (cert_growth ?ops)) (\<lambda>v. checked_add v 1) = Some (?n * cert_growth ?ops + 1)"
      using small by (simp add: checked_mul_def checked_add_def)
    have "prove_chunk c = cert_loop ?ops ((?n + 1) * cert_top ?ops)
        ((replicate (?n + 1) None)[0 := Some 0], (replicate (?n + 1) False)[0 := True], [0])"
      using True by (simp only: prove_chunk_def Let_def not_less [symmetric] if_False depth option.case budget cert_start bindR_simps simp_thms)
    with cert_loop_decides [OF _ start_inv start_potential] True show ?thesis by fastforce
  qed
  then show "?L = ?R" and "prove_chunk c \<noteq> Inl CE_NotConverged" by simp_all
qed

lemma prove_chunks_iff: "prove_chunks cs = Inr () \<longleftrightarrow> (\<forall>c \<in> set cs. prove_chunk c = Inr ())"
  by (induction cs) (auto simp: bindR_Inr)

end
