(* ===== verification/Certified_Runs.thy ===== *)
theory Certified_Runs
  imports Machine_Stack Verify_Execution
begin

text \<open>
  What the operand certificate of \<open>verify_execution.rs\<close> buys on the machine of \<open>vm.rs\<close>: the frames of a
  certified module always hold the operands the certificate counts.  Between the entries of a host the
  machine is suspended with one operand fewer, the one a resume brings, except after a reset, where the
  machine brings none although the certificate counts one.
\<close>

abbreviation not_underflow :: "vm_error \<Rightarrow> bool" where
  "not_underflow \<equiv> \<lambda>e. e \<noteq> VM_StackUnderflow"

interpretation underflow: error_class not_underflow
  by unfold_locales simp_all

section \<open>Frames that hold their operands\<close>

text \<open>
  A frame of a chunk, below \<open>limit\<close> values of the stack: some certified arrival at its position has all its
  operands above the locals.  The frame of a caller ends one value above the base of its callee, the result.
\<close>

definition frame_ok :: "kmodule \<Rightarrow> nat \<Rightarrow> call_frame \<Rightarrow> bool" where
  "frame_ok m limit f \<longleftrightarrow>
     (\<exists>c d. nth_opt (m_chunks m) (cf_chunk f) = Some c \<and> cert_reach (ch_ops c) (cf_ip f) d
        \<and> int (cf_base f) + int (unat (ch_local_count c)) + d \<le> int limit)"

fun frames_ok :: "kmodule \<Rightarrow> nat \<Rightarrow> call_frame list \<Rightarrow> bool" where
  "frames_ok m limit [] = True"
| "frames_ok m limit (f # fs) = (frame_ok m limit f \<and> frames_ok m (Suc (cf_base f)) fs)"

definition machine_ok :: "kmodule \<Rightarrow> vm \<Rightarrow> bool" where
  "machine_ok m vm \<longleftrightarrow> frames_ok m (length (vm_stack vm)) (vm_frames vm) \<and> soft_reified (vm_reified_host_error vm)"

lemma frames_ok_mono: "frames_ok m limit fs \<Longrightarrow> limit \<le> limit' \<Longrightarrow> frames_ok m limit' fs"
  by (cases fs) (fastforce simp: frame_ok_def)+

lemma certified_chunk:
  assumes "verify_pop_elision m = Inr ()" "nth_opt (m_chunks m) ci = Some c" "cert_reach (ch_ops c) ip d"
  shows "cert_ok (ch_ops c) ip d" "0 \<le> d"
proof -
  from assms(1,2) have "prove_chunk c = Inr ()" by (auto simp: verify_pop_elision_def prove_chunks_iff)
  with assms(3) show 1: "cert_ok (ch_ops c) ip d" by (auto simp: prove_chunk_decides refuted_def)
  show "0 \<le> d" using 1 required_covers(2) [of "ch_ops c ! ip"] by (simp add: cert_ok_def)
qed

lemma stays_edges:
  "stays_in_frame x \<Longrightarrow> t \<in> set (frame_succs (ctl_of x) ip) \<Longrightarrow> \<exists>es. cert_edges s x ip next = Inr es \<and> (t, next) \<in> set es"
  by (cases x) auto

section \<open>One turn\<close>

text \<open>
  How a machine may be left: the answer of a yield is still to come; after a reset the frame restarts with
  its locals only; a finished machine has no frames.
\<close>

fun paused_ok :: "kmodule \<Rightarrow> vm_state \<Rightarrow> vm \<Rightarrow> bool" where
  "paused_ok m (Yielded v) vm = frames_ok m (Suc (length (vm_stack vm))) (vm_frames vm)"
| "paused_ok m Reset_Reached vm =
     (case vm_frames vm of
        [] \<Rightarrow> False
      | f # fs \<Rightarrow>
          (\<exists>c. nth_opt (m_chunks m) (cf_chunk f) = Some c \<and> Reset \<in> set (ch_ops c) \<and> after_stream (ch_ops c) = Some (cf_ip f)
             \<and> cf_base f + unat (ch_local_count c) \<le> length (vm_stack vm))
          \<and> frames_ok m (Suc (cf_base f)) fs)"
| "paused_ok m (BreakpointHit c i) vm = frames_ok m (length (vm_stack vm)) (vm_frames vm)"
| "paused_ok m (Finished v) vm = (vm_frames vm = [])"

definition outcome_ok :: "kmodule \<Rightarrow> vm_error + vm_state option \<times> vm \<Rightarrow> bool" where
  "outcome_ok m r =
     (case r of
        Inl e \<Rightarrow> e \<noteq> VM_StackUnderflow
      | Inr (None, vm) \<Rightarrow> machine_ok m vm
      | Inr (Some st, vm) \<Rightarrow> paused_ok m st vm \<and> soft_reified (vm_reified_host_error vm))"

lemma outcome_ok_simps [simp]:
  "outcome_ok m (Inl e) \<longleftrightarrow> e \<noteq> VM_StackUnderflow"
  "outcome_ok m (Inr (None, vm)) \<longleftrightarrow> machine_ok m vm"
  "outcome_ok m (Inr (Some st, vm)) \<longleftrightarrow> paused_ok m st vm \<and> soft_reified (vm_reified_host_error vm)"
  by (simp_all add: outcome_ok_def)

text \<open>The instruction at a position, with its operands there, in a frame that has already moved on.\<close>

definition dispatching ::
  "host \<Rightarrow> kmodule \<Rightarrow> chunk \<Rightarrow> call_frame \<Rightarrow> call_frame list \<Rightarrow> vm \<Rightarrow> nat \<Rightarrow> int \<Rightarrow> bool" where
  "dispatching h m c f fs vm ip d \<longleftrightarrow>
     verify_pop_elision m = Inr () \<and> 3 \<le> unat (m_word_bits_log2 m) \<and> native_errors not_underflow h
     \<and> nth_opt (m_chunks m) (cf_chunk f) = Some c \<and> vm_frames vm = f # fs \<and> cf_ip f = Suc ip
     \<and> cert_reach (ch_ops c) ip d
     \<and> int (cf_base f) + int (unat (ch_local_count c)) + d \<le> int (length (vm_stack vm))
     \<and> frames_ok m (Suc (cf_base f)) fs \<and> soft_reified (vm_reified_host_error vm)"

lemma dispatchingD:
  assumes "dispatching h m c f fs vm ip d"
  shows "verify_pop_elision m = Inr ()" "3 \<le> unat (m_word_bits_log2 m)" "native_errors not_underflow h"
    "nth_opt (m_chunks m) (cf_chunk f) = Some c" "vm_frames vm = f # fs" "cf_ip f = Suc ip"
    "cert_reach (ch_ops c) ip d"
    "int (cf_base f) + int (unat (ch_local_count c)) + d \<le> int (length (vm_stack vm))"
    "frames_ok m (Suc (cf_base f)) fs" "soft_reified (vm_reified_host_error vm)"
  using assms by (simp_all add: dispatching_def)

lemma here:
  assumes D: "dispatching h m c f fs vm ip d"
  shows "ip < length (ch_ops c)" "cert_required (ch_ops c ! ip) \<le> d" "0 \<le> d"
    "ch_ops c ! ip = Reset \<Longrightarrow> Stream \<in> set (ch_ops c)"
  using certified_chunk [OF dispatchingD(1,4,7) [OF D]] by (auto simp: cert_ok_def)

lemma enough:
  assumes D: "dispatching h m c f fs vm ip d"
  shows "fst (op_depth_effect (ch_ops c ! ip)) \<le> int (length (vm_stack vm))"
proof -
  have "fst (op_depth_effect (ch_ops c ! ip)) \<le> cert_required (ch_ops c ! ip)" by (simp add: cert_required_def)
  with here(2) [OF D] dispatchingD(8) [OF D] show ?thesis by linarith
qed

lemma edge:
  assumes D: "dispatching h m c f fs vm ip d" and es: "cert_edges (after_stream (ch_ops c)) (ch_ops c ! ip) ip (d + snd (op_depth_effect (ch_ops c ! ip))) = Inr es"
    and mem: "(t, e) \<in> set es" and "int (cf_base f) + int (unat (ch_local_count c)) + e \<le> int limit"
    and "cf_base g = cf_base f" "cf_chunk g = cf_chunk f" "cf_ip g = t"
  shows "frames_ok m limit (g # fs)"
  using cr_step [OF dispatchingD(7) [OF D] here(1) [OF D] es mem] assms(4-) dispatchingD(4,9) [OF D]
  by (auto simp: frame_ok_def intro!: exI [of _ e])

lemma stays_ok:
  assumes D: "dispatching h m c f fs vm ip d" and "stays_in_frame (ch_ops c ! ip)"
  shows "outcome_ok m (exec_op h m (cf_chunk f) (ch_ops c ! ip) vm)"
proof -
  note certified = dispatchingD(1) [OF D] and chunk = dispatchingD(4) [OF D] and frames = dispatchingD(5,6) [OF D]
    and arrived = dispatchingD(7) [OF D] and room = dispatchingD(8) [OF D] and below = dispatchingD(9) [OF D]
    and soft = dispatchingD(10) [OF D]
  have agr: "agrees not_underflow (ch_ops c ! ip) ip vm (exec_op h m (cf_chunk f) (ch_ops c ! ip) vm)"
    by (rule underflow.exec_op_agrees [OF assms(2) _ frames dispatchingD(2,3) [OF D]])
      (simp add: lenient_def soft)
  show ?thesis
  proof (cases "exec_op h m (cf_chunk f) (ch_ops c ! ip) vm")
    case (Inl e)
    with agr enough [OF D] show ?thesis by (auto simp: agrees_def)
  next
    case (Inr p)
    obtain st vm' where p: "p = (st, vm')" by (cases p)
    with agr Inr obtain t where st: "st = None" and t: "t \<in> set (frame_succs (ctl_of (ch_ops c ! ip)) ip)"
      and len: "int (length (vm_stack vm')) = int (length (vm_stack vm)) + snd (op_depth_effect (ch_ops c ! ip))"
      and fr: "vm_frames vm' = f \<lparr> cf_ip := t \<rparr> # fs" and sr: "soft_reified (vm_reified_host_error vm')"
      using soft frames by (auto simp: agrees_def continues_at_def set_ip_def)
    from stays_edges [OF assms(2) t] obtain es where
      es: "cert_edges (after_stream (ch_ops c)) (ch_ops c ! ip) ip (d + snd (op_depth_effect (ch_ops c ! ip))) = Inr es"
      "(t, d + snd (op_depth_effect (ch_ops c ! ip))) \<in> set es" by blast
    have "frames_ok m (length (vm_stack vm')) (f \<lparr> cf_ip := t \<rparr> # fs)"
      using len room by (intro edge [OF D es]) auto
    with st fr sr p Inr show ?thesis by (simp add: machine_ok_def)
  qed
qed

lemma return_ok:
  assumes D: "dispatching h m c f fs vm ip d" and x: "ch_ops c ! ip = Return"
  shows "outcome_ok m (exec_return h vm)"
proof -
  note certified = dispatchingD(1) [OF D] and chunk = dispatchingD(4) [OF D] and frames = dispatchingD(5,6) [OF D]
    and arrived = dispatchingD(7) [OF D] and room = dispatchingD(8) [OF D] and below = dispatchingD(9) [OF D]
    and soft = dispatchingD(10) [OF D]
  have "1 \<le> d" using here(2) [OF D] x by (simp add: cert_required_def)
  with room have base: "Suc (cf_base f) \<le> length (vm_stack vm)" by linarith
  then have ne: "vm_stack vm \<noteq> []" by auto
  let ?low = "vm \<lparr> vm_stack := take (cf_base f) (butlast (vm_stack vm)), vm_frames := fs \<rparr>"
  have len: "length (vm_stack ?low) = cf_base f" using base by simp
  have result: "exec_return h vm = (if fs = [] then Inr (Some (Finished (last (vm_stack vm))), ?low)
      else bindR (push h (last (vm_stack vm)) ?low) (\<lambda>vm. Inr (None, vm)))"
    using ne frames by (simp add: exec_return_def pop_def truncate_def Let_def)
  show ?thesis
  proof (cases "fs = []")
    case True
    with result soft show ?thesis by simp
  next
    case False
    with result len below soft show ?thesis by (auto simp: push_def machine_ok_def split: option.split)
  qed
qed

lemma yield_ok:
  assumes D: "dispatching h m c f fs vm ip d" and x: "ch_ops c ! ip = Yield"
  shows "outcome_ok m (exec_yield vm)"
proof -
  note certified = dispatchingD(1) [OF D] and chunk = dispatchingD(4) [OF D] and frames = dispatchingD(5,6) [OF D]
    and arrived = dispatchingD(7) [OF D] and room = dispatchingD(8) [OF D] and below = dispatchingD(9) [OF D]
    and soft = dispatchingD(10) [OF D]
  have "1 \<le> d" using here(2) [OF D] x by (simp add: cert_required_def)
  with room have "0 < length (vm_stack vm)" by linarith
  then have ne: "vm_stack vm \<noteq> []" by simp
  have "frames_ok m (length (vm_stack vm)) (f # fs)"
    by (rule edge [OF D, where es = "[(Suc ip, d)]" and e = d]) (use x room frames in auto)
  with ne soft frames show ?thesis by (simp add: exec_yield_def pop_def)
qed

lemma call_ok:
  assumes D: "dispatching h m c f fs vm ip d" and x: "ch_ops c ! ip = Call idx n"
  shows "outcome_ok m (go_on (exec_call h m (unat idx) (unat n) vm))"
proof (cases "unat idx < length (m_chunks m) \<and> unat n \<le> chunk_local_count m (unat idx)")
  case False
  moreover have "int (unat n) \<le> int (length (vm_stack vm))" using enough [OF D] x by simp
  ultimately show ?thesis unfolding of_nat_le_iff
    by (auto simp: exec_call_def or_invalid_def go_on_def operand_start_simps checked_sub_def split: option.splits)
next
  case True
  note certified = dispatchingD(1) [OF D] and chunk = dispatchingD(4) [OF D] and frames = dispatchingD(5,6) [OF D]
    and arrived = dispatchingD(7) [OF D] and room = dispatchingD(8) [OF D] and below = dispatchingD(9) [OF D]
    and soft = dispatchingD(10) [OF D]
  let ?base = "length (vm_stack vm) - unat n" and ?extra = "chunk_local_count m (unat idx) - unat n"
  let ?fill = "replicate ?extra V_Unit" and ?g = "\<lparr> cf_chunk = unat idx, cf_ip = 0, cf_base = ?base \<rparr>"
  have "int (unat n) \<le> int (length (vm_stack vm))" using enough [OF D] x by simp
  then have n: "unat n \<le> length (vm_stack vm)" unfolding of_nat_le_iff .
  have call: "exec_call h m (unat idx) (unat n) vm = bindR (push_all h ?fill vm) (push_frame h ?g)"
    using True n by (simp add: exec_call_def or_invalid_def operand_start_simps checked_sub_def)
  from True obtain c' where c': "nth_opt (m_chunks m) (unat idx) = Some c'" by (auto simp: nth_opt_def)
  then have locals: "chunk_local_count m (unat idx) = unat (ch_local_count c')" by (simp only: chunk_local_count_def option.case)
  have caller: "frames_ok m (Suc ?base) (f # fs)"
    by (rule edge [OF D, where es = "[(Suc ip, d + 1 - int (unat n))]" and e = "d + 1 - int (unat n)"])
      (use x room frames n in auto)
  show ?thesis
  proof (cases "push_all h ?fill vm")
    case (Inl e)
    with underflow.moves_push_all [of ?fill vm h] call show ?thesis by (simp add: go_on_def)
  next
    case (Inr vm1)
    with underflow.moves_push_all [of ?fill vm h] have
      1: "length (vm_stack vm1) = length (vm_stack vm) + ?extra" "vm_frames vm1 = f # fs" "soft_reified (vm_reified_host_error vm1)"
      using soft frames by (simp_all add: moves_Inr)
    have "frame_ok m (length (vm_stack vm1)) ?g"
      using c' 1(1) n True cr_entry locals by (auto simp: frame_ok_def intro!: exI [of _ 0])
    with caller 1 call Inr show ?thesis
      by (auto simp: go_on_def push_frame_def machine_ok_def split: option.split)
  qed
qed

lemma reset_ok:
  assumes D: "dispatching h m c f fs vm ip d" and x: "ch_ops c ! ip = Reset"
  shows "outcome_ok m (exec_reset m (cf_chunk f) vm)"
proof -
  note certified = dispatchingD(1) [OF D] and chunk = dispatchingD(4) [OF D] and frames = dispatchingD(5,6) [OF D]
    and arrived = dispatchingD(7) [OF D] and room = dispatchingD(8) [OF D] and below = dispatchingD(9) [OF D]
    and soft = dispatchingD(10) [OF D]
  let ?ops = "ch_ops c"
  obtain pos where pos: "after_stream ?ops = Some pos"
    using here(4) [OF D x] after_stream_None [of ?ops] by (cases "after_stream ?ops") auto
  have entry: "stream_entry m (cf_chunk f) = Some pos"
    using pos chunk by (auto simp: stream_entry_def after_stream_def nth_opt_def)
  have locals: "chunk_local_count m (cf_chunk f) = unat (ch_local_count c)"
    using chunk by (auto simp: chunk_local_count_def nth_opt_def)
  have len: "cf_base f + unat (ch_local_count c) \<le> length (vm_stack vm)" using room here(3) [OF D] by linarith
  have "Reset \<in> set (ch_ops c)" using x here(1) [OF D] by (metis nth_mem)
  with len locals entry pos chunk frames soft below show ?thesis
    by (simp add: exec_reset_def Let_def frame_base_def set_ip_def min_absorb2)
qed

lemma dispatch_ok:
  assumes D: "dispatching h m c f fs vm ip d"
  shows "outcome_ok m (exec_op h m (cf_chunk f) (ch_ops c ! ip) vm)"
proof (cases "stays_in_frame (ch_ops c ! ip)")
  case True
  then show ?thesis by (rule stays_ok [OF D])
next
  case False
  then show ?thesis
    by (cases "ch_ops c ! ip") (auto dest: return_ok [OF D] yield_ok [OF D] call_ok [OF D] reset_ok [OF D])
qed

lemma step_ok:
  assumes "verify_pop_elision m = Inr ()" "3 \<le> unat (m_word_bits_log2 m)" "native_errors not_underflow h" and ok: "machine_ok m vm"
  shows "outcome_ok m (step h m vm)"
proof (cases "vm_frames vm")
  case Nil
  then show ?thesis by (simp add: step_def)
next
  case (Cons f fs)
  with ok obtain c d where f: "nth_opt (m_chunks m) (cf_chunk f) = Some c" "cert_reach (ch_ops c) (cf_ip f) d"
    "int (cf_base f) + int (unat (ch_local_count c)) + d \<le> int (length (vm_stack vm))"
    and rest: "frames_ok m (Suc (cf_base f)) fs" "soft_reified (vm_reified_host_error vm)"
    by (auto simp: machine_ok_def frame_ok_def)
  have inside: "cf_ip f < length (ch_ops c)"
    using certified_chunk [OF assms(1) f(1,2)] by (simp add: cert_ok_def)
  let ?vm = "fetch vm (cf_chunk f, cf_ip f)" and ?f = "f \<lparr> cf_ip := Suc (cf_ip f) \<rparr>"
  have "dispatching h m c ?f fs ?vm (cf_ip f) d"
    using assms(1-3) f rest Cons by (simp add: dispatching_def fetch_def set_ip_def)
  note next_ok = dispatch_ok [OF this]
  have "chunk_op_count m (cf_chunk f) = length (ch_ops c)" using f(1) by (simp only: chunk_op_count_def option.case)
  moreover have "m_chunks m ! cf_chunk f = c" using f(1) by simp
  ultimately show ?thesis
    using next_ok inside Cons ok rest by (auto simp: step_def Let_def machine_ok_def)
qed

section \<open>Runs and entries\<close>

lemma run_inner_ok:
  assumes "verify_pop_elision m = Inr ()" "3 \<le> unat (m_word_bits_log2 m)" "native_errors not_underflow h"
  shows "machine_ok m vm \<Longrightarrow> run_inner fuel h m vm = Some r \<Longrightarrow>
    (case r of Inl e \<Rightarrow> e \<noteq> VM_StackUnderflow | Inr (st, vm') \<Rightarrow> paused_ok m st vm' \<and> soft_reified (vm_reified_host_error vm'))"
proof (induction fuel arbitrary: vm)
  case (Suc fuel)
  from step_ok [OF assms Suc.prems(1)] Suc.prems(2) Suc.IH show ?case
    by (auto simp: outcome_ok_def split: sum.splits option.splits prod.splits)
qed simp

text \<open>What a host entry leaves behind: an error other than an underflow, or a suspended machine.\<close>

definition answer_ok :: "kmodule \<Rightarrow> vm_error + vm_state \<times> vm \<Rightarrow> bool" where
  "answer_ok m r =
     (case r of
        Inl e \<Rightarrow> e \<noteq> VM_StackUnderflow
      | Inr (st, vm) \<Rightarrow> paused_ok m st vm \<and> soft_reified (vm_reified_host_error vm)
          \<and> vm_suspended_at_reset vm = (st = Reset_Reached))"

lemma finish_run_simps [simp]:
  "vm_stack (finish_run st vm) = vm_stack vm" "vm_frames (finish_run st vm) = vm_frames vm"
  "vm_reified_host_error (finish_run st vm) = vm_reified_host_error vm"
  "vm_suspended_at_reset (finish_run st vm) = (st = Reset_Reached)"
  by (simp_all add: finish_run_def)

lemma paused_ok_cong: "vm_stack vm' = vm_stack vm \<Longrightarrow> vm_frames vm' = vm_frames vm \<Longrightarrow> paused_ok m st vm' = paused_ok m st vm"
  by (cases st) (simp_all split: list.split)

lemma machine_ok_cong:
  "vm_stack vm' = vm_stack vm \<Longrightarrow> vm_frames vm' = vm_frames vm \<Longrightarrow> vm_reified_host_error vm' = vm_reified_host_error vm \<Longrightarrow>
   machine_ok m vm' = machine_ok m vm"
  by (simp add: machine_ok_def)

lemma run_ok:
  assumes "verify_pop_elision m = Inr ()" "3 \<le> unat (m_word_bits_log2 m)" "native_errors not_underflow h"
    and "machine_ok m vm" "run fuel h m vm = Some r"
  shows "answer_ok m r"
proof (cases "vm_proven vm \<and> (\<not> vm_pop_proof vm \<or> vm_proof_state vm \<noteq> PS_Prepared)")
  case True
  with assms(5) show ?thesis by (auto simp: run_def answer_ok_def)
next
  case False
  let ?vm = "if vm_proven vm then vm \<lparr> vm_proof_state := PS_Poisoned \<rparr> else vm"
  have ok: "machine_ok m ?vm" using assms(4) by (simp add: machine_ok_def)
  from False assms(5) obtain r' where r': "run_inner fuel h m ?vm = Some r'"
    by (cases "run_inner fuel h m ?vm") (auto simp: run_def)
  from run_inner_ok [OF assms(1-3) ok r'] False assms(5) r' show ?thesis
    by (cases r') (auto simp: run_def answer_ok_def paused_ok_cong [OF finish_run_simps(1,2)])
qed

text \<open>The entry points bring the machine into a good state, or fail otherwise.\<close>

definition entered_ok :: "kmodule \<Rightarrow> vm_error + vm \<Rightarrow> bool" where
  "entered_ok m r = (case r of Inl e \<Rightarrow> e \<noteq> VM_StackUnderflow | Inr vm \<Rightarrow> machine_ok m vm)"

lemma entered_ok_simps [simp]:
  "entered_ok m (Inl e) \<longleftrightarrow> e \<noteq> VM_StackUnderflow" "entered_ok m (Inr vm) \<longleftrightarrow> machine_ok m vm"
  by (simp_all add: entered_ok_def)

lemma entered_bind: "raises not_underflow r \<Longrightarrow> (\<And>x. r = Inr x \<Longrightarrow> entered_ok m (f x)) \<Longrightarrow> entered_ok m (bindR r f)"
  by (cases r) auto

lemma begin_proven_same:
  "begin_proven_entry allowed vm = Inr vm1 \<Longrightarrow> vm_stack vm1 = vm_stack vm \<and> vm_frames vm1 = vm_frames vm
     \<and> vm_reified_host_error vm1 = vm_reified_host_error vm \<and> vm_suspended_at_reset vm1 = vm_suspended_at_reset vm"
  by (auto simp: begin_proven_entry_def split: if_splits)

lemma nu_begin_proven [raises_intros]: "raises not_underflow (begin_proven_entry allowed vm)"
  by (simp add: begin_proven_entry_def)

lemma prepare_same [simp]:
  "vm_stack (prepare_proven_run vm) = vm_stack vm" "vm_frames (prepare_proven_run vm) = vm_frames vm"
  "vm_reified_host_error (prepare_proven_run vm) = vm_reified_host_error vm"
  by (simp_all add: prepare_proven_run_def)

lemma nu_check_shape [raises_intros]: "raises not_underflow (check_host_composite_shape v shape)"
  by (auto simp: check_host_composite_shape_def split: wire_shape.split option.split)

lemma nu_check_all [raises_intros]: "(\<And>x. raises not_underflow (f x)) \<Longrightarrow> raises not_underflow (check_all f xs)"
  by (induction xs) (auto intro!: raises_intros)

lemma nu_natives [raises_intros]: "raises not_underflow (verify_native_classifications h m)"
  by (auto simp: verify_native_classifications_def check_native_site_def intro!: raises_intros split: prod.split option.split)

lemma nu_import [raises_intros]: "raises not_underflow (import_value h v vm)"
  by (auto simp: import_value_def intro!: raises_intros)

lemma import_same:
  "import_value h v vm = Inr (w, vm1) \<Longrightarrow> vm_stack vm1 = vm_stack vm \<and> vm_frames vm1 = vm_frames vm
     \<and> vm_reified_host_error vm1 = vm_reified_host_error vm \<and> vm_suspended_at_reset vm1 = vm_suspended_at_reset vm"
  by (auto simp: import_value_def bindR_Inr)

lemma moves_push_args: "moves not_underflow 0 (length args) vm (push_args h shapes args vm)"
proof (induction args arbitrary: shapes vm)
  case (Cons arg args)
  have "moves not_underflow 0 (Suc (length args)) vm (bindR (push h w vm1) (push_args h (tl shapes) args))"
    if "import_value h arg vm = Inr (w, vm1)" for w vm1
    by (rule moves_of_same [OF moves_seq [where n = 1 and j = 0 and i = "length args", OF underflow.moves_push Cons.IH]])
      (use import_same [OF that] in auto)
  moreover have "raises not_underflow (case shapes of [] \<Rightarrow> Inr () | shape # _ \<Rightarrow> check_host_composite_shape w shape)" for w
    by (auto intro: raises_intros split: list.split)
  ultimately show ?case
    by (simp del: moves_Inl) (rule moves_bind_pure [OF nu_import], clarsimp, rule moves_bind_pure, auto)
qed (simp add: moves_Inr)

lemma enter_frame_ok:
  assumes c: "nth_opt (m_chunks m) ci = Some c"
    and vm: "vm_frames vm = []" "soft_reified (vm_reified_host_error vm)"
  shows "entered_ok m (enter_frame h m ci c args vm)"
proof (cases "push_args h (sig_param_shapes m ci) args vm")
  case (Inl e)
  with moves_push_args [of args vm h "sig_param_shapes m ci"] show ?thesis by (simp add: enter_frame_def Let_def)
next
  case args: (Inr vm2)
  with moves_push_args [of args vm h "sig_param_shapes m ci"] vm have
    2: "length (vm_stack vm2) = length (vm_stack vm) + length args" "vm_frames vm2 = []" "soft_reified (vm_reified_host_error vm2)"
    by (simp_all add: moves_Inr)
  let ?fill = "replicate (unat (ch_local_count c) - length args) V_Unit"
  show ?thesis
  proof (cases "length args \<le> unat (ch_local_count c)")
    case False
    with args show ?thesis by (simp add: enter_frame_def checked_sub_def Let_def)
  next
    case True
    show ?thesis
    proof (cases "push_all h ?fill vm2")
      case (Inl e)
      with underflow.moves_push_all [of ?fill vm2 h] True args show ?thesis by (simp add: enter_frame_def checked_sub_def Let_def)
    next
      case (Inr vm3)
      with underflow.moves_push_all [of ?fill vm2 h] 2 True have
        3: "length (vm_stack vm3) = length (vm_stack vm) + unat (ch_local_count c)" "vm_frames vm3 = []"
          "soft_reified (vm_reified_host_error vm3)" by (simp_all add: moves_Inr)
      have "frame_ok m (length (vm_stack vm3)) \<lparr> cf_chunk = ci, cf_ip = 0, cf_base = length (vm_stack vm) \<rparr>"
        using c 3(1) cr_entry by (auto simp: frame_ok_def intro!: exI [of _ 0])
      with Inr 3 True args show ?thesis
        by (auto simp: enter_frame_def Let_def checked_sub_def push_frame_def machine_ok_def split: option.split)
    qed
  qed
qed

lemma enter_function_ok:
  assumes "vm_frames vm = []" "soft_reified (vm_reified_host_error vm)"
  shows "entered_ok m (enter_function h m ci args vm)"
  unfolding enter_function_def
  using assms by (auto intro!: entered_bind raises_intros enter_frame_ok split: option.split dest!: begin_proven_same)

text \<open>A resume completes the yield with its input; after a reset the certificate's operand must not be needed.\<close>

lemma update_parameter_same:
  "update_stream_parameter m input vm = Inr vm1 \<Longrightarrow> length (vm_stack vm1) = length (vm_stack vm)
     \<and> vm_frames vm1 = vm_frames vm \<and> vm_reified_host_error vm1 = vm_reified_host_error vm
     \<and> vm_suspended_at_reset vm1 = vm_suspended_at_reset vm"
  by (auto simp: update_stream_parameter_def split: option.splits if_splits)

lemma nu_update_parameter [raises_intros]: "raises not_underflow (update_stream_parameter m input vm)"
  by (auto simp: update_stream_parameter_def split: option.split)

lemma enter_resume_ok:
  assumes "frames_ok m (if vm_suspended_at_reset vm then length (vm_stack vm) else Suc (length (vm_stack vm))) (vm_frames vm)"
    and "soft_reified (vm_reified_host_error vm)"
  shows "entered_ok m (enter_resume h m input vm)"
proof -
  have last: "entered_ok m (bindR (if vm_suspended_at_reset vm1 then Inr vm1 else push h w vm1) (\<lambda>vm. Inr (prepare_proven_run vm)))"
    if "length (vm_stack vm1) = length (vm_stack vm)" "vm_frames vm1 = vm_frames vm"
      "vm_reified_host_error vm1 = vm_reified_host_error vm" "vm_suspended_at_reset vm1 = vm_suspended_at_reset vm" for vm1 w
    using assms that by (auto simp: machine_ok_def push_def split: option.split if_splits)
  have param: "entered_ok m (bindR (update_stream_parameter m w vm1) (\<lambda>vm.
      bindR (if vm_suspended_at_reset vm then Inr vm else push h w vm) (\<lambda>vm. Inr (prepare_proven_run vm))))"
    if "vm_stack vm1 = vm_stack vm" "vm_frames vm1 = vm_frames vm"
      "vm_reified_host_error vm1 = vm_reified_host_error vm" "vm_suspended_at_reset vm1 = vm_suspended_at_reset vm" for vm1 w
    using that by (intro entered_bind [OF nu_update_parameter] last) (auto dest: update_parameter_same)
  have shape: "raises not_underflow (case s of None \<Rightarrow> Inr () | Some sg \<Rightarrow> check_host_composite_shape w (sig_resume sg))" for s w
    by (auto intro: raises_intros split: option.split)
  show ?thesis
    unfolding enter_resume_def
    apply (rule entered_bind [OF nu_begin_proven], drule begin_proven_same)
    apply (simp split del: if_split cong: if_cong)
    apply (rule conjI impI | simp only: entered_ok_simps vm_error.simps simp_thms split: if_split)+
    apply (rule entered_bind [OF nu_import], clarsimp, drule import_same, rule entered_bind [OF shape], rule param; simp)
    done
qed

section \<open>A whole session\<close>

text \<open>
  \<open>answers h m r\<close>: some sequence of entries of the host, each allowed in the state the one before left,
  gives the answer \<open>r\<close>: a call on a machine without frames, a resume of a yield or of a reset, and a resume
  from a breakpoint, each with the buffer of shared data it lends.  A plain resume lends an empty one.
\<close>

inductive answers :: "host \<Rightarrow> kmodule \<Rightarrow> vm_error + vm_state \<times> vm \<Rightarrow> bool" for h m where
  an_call: "vm_frames vm = [] \<Longrightarrow> soft_reified (vm_reified_host_error vm) \<Longrightarrow>
     call_function fuel h m ci args vm = Some r \<or> call_with_shared fuel h m shared args vm = Some r \<Longrightarrow> answers h m r"
| an_again: "answers h m (Inr (Finished v, vm)) \<Longrightarrow>
     call_function fuel h m ci args vm = Some r \<or> call_with_shared fuel h m shared args vm = Some r \<Longrightarrow> answers h m r"
| an_yield: "answers h m (Inr (Yielded v, vm)) \<Longrightarrow> resume_with_shared fuel h m shared input vm = Some r \<Longrightarrow> answers h m r"
| an_reset: "answers h m (Inr (Reset_Reached, vm)) \<Longrightarrow> resume_with_shared fuel h m shared input vm = Some r \<Longrightarrow> answers h m r"
| an_break: "answers h m (Inr (BreakpointHit c i, vm)) \<Longrightarrow>
     resume_from_breakpoint fuel h m vm = Some r \<or> resume_from_breakpoint_with_shared fuel h m shared vm = Some r \<Longrightarrow> answers h m r"

text \<open>Every stream that resets is reached with no operands at its restart, as the compiler emits it.\<close>

definition restarts_empty :: "kmodule \<Rightarrow> bool" where
  "restarts_empty m \<longleftrightarrow>
     (\<forall>c \<in> set (m_chunks m). \<forall>s. Reset \<in> set (ch_ops c) \<longrightarrow> after_stream (ch_ops c) = Some s \<longrightarrow> cert_reach (ch_ops c) s 0)"

lemma entry_run:
  assumes "verify_pop_elision m = Inr ()" "3 \<le> unat (m_word_bits_log2 m)" "native_errors not_underflow h"
    and "entered_ok m r" "bindOR (Some r) (run fuel h m) = Some r'"
  shows "answer_ok m r'"
  using assms(4,5) run_ok [OF assms(1-3)] by (cases r) (auto simp: answer_ok_def)

lemma enter_breakpoint_ok:
  assumes "frames_ok m (length (vm_stack vm)) (vm_frames vm)" "soft_reified (vm_reified_host_error vm)"
  shows "entered_ok m (enter_from_breakpoint vm)"
  unfolding enter_from_breakpoint_def
  using assms by (auto intro!: entered_bind raises_intros simp: machine_ok_def split: list.split dest!: begin_proven_same)

text \<open>The buffer of shared data is lent and dropped without touching the stacks.\<close>

lemma leave_shared_ok: "leave_shared r = Some r' \<Longrightarrow> (\<And>r0. r = Some r0 \<Longrightarrow> answer_ok m r0) \<Longrightarrow> answer_ok m r'"
  by (cases r) (auto simp: leave_shared_def answer_ok_def split: sum.splits
      intro: paused_ok_cong [THEN iffD2, rotated 2])

lemma enter_shared_same:
  "enter_shared m shared vm = Inr vm1 \<Longrightarrow> vm_stack vm1 = vm_stack vm \<and> vm_frames vm1 = vm_frames vm
     \<and> vm_reified_host_error vm1 = vm_reified_host_error vm \<and> vm_suspended_at_reset vm1 = vm_suspended_at_reset vm"
  by (auto simp: enter_shared_def Let_def split: if_splits)

lemma with_shared_ok:
  assumes "bindOR (Some (enter_shared m shared vm)) (\<lambda>vm. leave_shared (f vm)) = Some r"
    and "\<And>vm1 r0. enter_shared m shared vm = Inr vm1 \<Longrightarrow> f vm1 = Some r0 \<Longrightarrow> answer_ok m r0"
  shows "answer_ok m r"
proof (cases "enter_shared m shared vm")
  case (Inl e)
  with assms(1) show ?thesis by (auto simp: answer_ok_def enter_shared_def Let_def split: if_splits)
next
  case (Inr vm1)
  with assms show ?thesis by (auto intro: leave_shared_ok)
qed

lemma call_answer:
  assumes "verify_pop_elision m = Inr ()" "3 \<le> unat (m_word_bits_log2 m)" "native_errors not_underflow h"
    and "vm_frames vm = []" "soft_reified (vm_reified_host_error vm)"
    and "call_function fuel h m ci args vm = Some r \<or> call_with_shared fuel h m shared args vm = Some r"
  shows "answer_ok m r"
proof -
  have after: "answer_ok m r0"
    if "call_function_after_enter fuel h m ci args vm1 = Some r0" "vm_frames vm1 = []" "soft_reified (vm_reified_host_error vm1)"
    for ci vm1 r0
    using entry_run [OF assms(1-3) enter_function_ok [OF that(2,3)]] that(1) by (simp add: call_function_after_enter_def)
  show ?thesis
    using assms(6)
  proof
    assume "call_function fuel h m ci args vm = Some r"
    then show ?thesis using after [of ci "vm \<lparr> vm_shared := None \<rparr>"] assms(4,5) by (simp add: call_function_def)
  next
    assume "call_with_shared fuel h m shared args vm = Some r"
    then show ?thesis
      unfolding call_with_shared_def
    proof (rule with_shared_ok)
      fix vm1 r0 assume "enter_shared m shared vm = Inr vm1" "call_after_enter fuel h m args vm1 = Some r0"
      with enter_shared_same [of m shared vm vm1] assms(4,5) show "answer_ok m r0"
        by (auto simp: call_after_enter_def answer_ok_def [of _ "Inl _"] intro: after split: option.splits)
    qed
  qed
qed

lemma resume_answer:
  assumes "verify_pop_elision m = Inr ()" "3 \<le> unat (m_word_bits_log2 m)" "native_errors not_underflow h"
    and "frames_ok m (if vm_suspended_at_reset vm then length (vm_stack vm) else Suc (length (vm_stack vm))) (vm_frames vm)"
    and "soft_reified (vm_reified_host_error vm)" "resume_with_shared fuel h m shared input vm = Some r"
  shows "answer_ok m r"
  using assms(6) unfolding resume_with_shared_def
proof (rule with_shared_ok)
  fix vm1 r0 assume e: "enter_shared m shared vm = Inr vm1" and r: "resume_after_enter fuel h m input vm1 = Some r0"
  have "entered_ok m (enter_resume h m input vm1)"
    using assms(4,5) enter_shared_same [OF e] by (intro enter_resume_ok) (auto split: if_splits)
  then show "answer_ok m r0" using entry_run [OF assms(1-3)] r by (simp add: resume_after_enter_def)
qed

lemma breakpoint_answer:
  assumes "verify_pop_elision m = Inr ()" "3 \<le> unat (m_word_bits_log2 m)" "native_errors not_underflow h"
    and "frames_ok m (length (vm_stack vm)) (vm_frames vm)" "soft_reified (vm_reified_host_error vm)"
    and "resume_from_breakpoint fuel h m vm = Some r \<or> resume_from_breakpoint_with_shared fuel h m shared vm = Some r"
  shows "answer_ok m r"
proof -
  have after: "answer_ok m r0"
    if "resume_from_breakpoint_after_enter fuel h m vm1 = Some r0" "vm_stack vm1 = vm_stack vm" "vm_frames vm1 = vm_frames vm"
      "vm_reified_host_error vm1 = vm_reified_host_error vm" for vm1 r0
    using entry_run [OF assms(1-3) enter_breakpoint_ok, of vm1] that assms(4,5) by (simp add: resume_from_breakpoint_after_enter_def)
  show ?thesis
    using assms(6)
  proof
    assume "resume_from_breakpoint fuel h m vm = Some r"
    then show ?thesis using after by (auto simp: resume_from_breakpoint_def answer_ok_def [of _ "Inl _"] split: if_splits)
  next
    assume "resume_from_breakpoint_with_shared fuel h m shared vm = Some r"
    then show ?thesis
      unfolding resume_from_breakpoint_with_shared_def
      by (rule with_shared_ok) (auto dest: enter_shared_same intro: after)
  qed
qed

lemma restart_frames:
  assumes "restarts_empty m" "paused_ok m Reset_Reached vm"
  shows "frames_ok m (length (vm_stack vm)) (vm_frames vm)"
proof (cases "vm_frames vm")
  case (Cons f fs)
  with assms(2) obtain c where c: "nth_opt (m_chunks m) (cf_chunk f) = Some c" "Reset \<in> set (ch_ops c)"
    "after_stream (ch_ops c) = Some (cf_ip f)" "cf_base f + unat (ch_local_count c) \<le> length (vm_stack vm)"
    "frames_ok m (Suc (cf_base f)) fs" by auto
  with assms(1) have "cert_reach (ch_ops c) (cf_ip f) 0" by (auto simp: restarts_empty_def)
  moreover have "int (cf_base f) + int (unat (ch_local_count c)) + 0 \<le> int (length (vm_stack vm))" using c(4) by linarith
  ultimately have "frame_ok m (length (vm_stack vm)) f" using c(1) unfolding frame_ok_def by blast
  with c(5) Cons show ?thesis by simp
qed simp

lemma answers_ok:
  assumes "verify_pop_elision m = Inr ()" "3 \<le> unat (m_word_bits_log2 m)" "native_errors not_underflow h" "restarts_empty m"
  shows "answers h m r \<Longrightarrow> answer_ok m r"
proof (induction rule: answers.induct)
  case (an_call vm fuel ci args r shared)
  then show ?case using call_answer [OF assms(1-3)] by blast
next
  case (an_again v vm fuel ci args r shared)
  then have "vm_frames vm = []" "soft_reified (vm_reified_host_error vm)" by (simp_all add: answer_ok_def)
  with an_again.hyps(2) show ?case using call_answer [OF assms(1-3)] by blast
next
  case (an_yield v vm fuel shared input r)
  then show ?case by (intro resume_answer [OF assms(1-3) _ _ an_yield.hyps(2)]) (simp_all add: answer_ok_def)
next
  case (an_reset vm fuel shared input r)
  then have "paused_ok m Reset_Reached vm" by (simp add: answer_ok_def)
  with restart_frames [OF assms(4)] an_reset.IH show ?case
    by (intro resume_answer [OF assms(1-3) _ _ an_reset.hyps(2)]) (simp_all add: answer_ok_def)
next
  case (an_break c i vm fuel r shared)
  then show ?case by (intro breakpoint_answer [OF assms(1-3) _ _ an_break.hyps(2)]) (simp_all add: answer_ok_def)
qed

end
