(* ===== verification/Sample_Machine.thy ===== *)
theory Sample_Machine
  imports Certified_Runs Sample_Modules
begin

text \<open>
  A concrete host and machine, and small certified streams, on which the theorems about the machine are
  instantiated and its behaviour is evaluated.
\<close>

text \<open>The stand-in float operations are never reached by the samples.\<close>

definition sample_floats :: float_ops where
  "sample_floats = \<lparr> fo_add = (\<lambda>x y. x), fo_sub = (\<lambda>x y. x), fo_mul = (\<lambda>x y. x), fo_div = (\<lambda>x y. x), fo_rem = (\<lambda>x y. x),
     fo_eq = (\<lambda>x y. x = y), fo_partial_cmp = (\<lambda>x y. None), fo_of_i64 = (\<lambda>x. x), fo_to_i64 = (\<lambda>x. x),
     fo_to_f32 = (\<lambda>x. 0), fo_of_f32 = (\<lambda>x. 0) \<rparr>"

text \<open>A host without natives whose stacks always find room.\<close>

definition sample_host :: host where
  "sample_host = \<lparr> h_floats = sample_floats, h_image = (\<lambda>a. 0), h_str_addr = (\<lambda>c i. 0), h_templates = (\<lambda>c i. None),
     h_import = (\<lambda>a v. Inr (v, a)), h_native_external = (\<lambda>n. False), h_rereserve = (\<lambda>a. a), h_native = (\<lambda>n. None),
     h_reserve_stack = (\<lambda>a n. Some a), h_reserve_frames = (\<lambda>a n. Some a) \<rparr>"

definition sample_vm :: vm where
  "sample_vm = \<lparr> vm_stack = [], vm_frames = [], vm_arena = arena_over 64 (replicate 8 0) External, vm_private = [],
     vm_shared = None, vm_breakpoints = [], vm_skip_breakpoint_at = None, vm_reified_host_error = None,
     vm_fault_location = None, vm_started = False, vm_suspended_at_reset = False, vm_proven = True,
     vm_pop_proof = True,      vm_proof_state = PS_Ready \<rparr>"

text \<open>A stream without locals.\<close>

definition bare_stream :: "op list \<Rightarrow> kmodule" where
  "bare_stream ops = sample_module [sample_chunk BT_Stream ops \<lparr> ch_local_count := 0, ch_param_count := 0 \<rparr>]"

text \<open>
  A stream whose first iteration consumes an operand pushed before \<open>Stream\<close>; the second has none.  It is the
  accepting example of the tests of \<open>verify_execution.rs\<close>.
\<close>

definition prefixed_stream :: kmodule where
  "prefixed_stream = bare_stream [PushImmediate 11, Stream, PopN 1, PushImmediate 11, Yield, PopN 1, Reset]"

definition plain_stream :: kmodule where
  "plain_stream = bare_stream [Stream, PushImmediate 11, Yield, PopN 1, Reset]"

text \<open>The machine after a call, and after a resume.\<close>

definition after_call :: "kmodule \<Rightarrow> (vm_error + vm_state \<times> vm) option" where
  "after_call m = call_function 20 sample_host m 0 [] sample_vm"

definition after_resume :: "kmodule \<Rightarrow> (vm_error + vm_state \<times> vm) option \<Rightarrow> (vm_error + vm_state \<times> vm) option" where
  "after_resume m r = bindOR r (\<lambda>(st, vm). resume 20 sample_host m (V_Int 5) vm)"

lemma prefixed_certified: "verify_pop_elision prefixed_stream = Inr ()"
  by code_simp

lemma prefixed_verified: "verify_structural prefixed_stream = Some (Inr ())"
  by code_simp

lemma prefixed_underflows:
  "map_option (\<lambda>r. case r of Inl e \<Rightarrow> Some (Inl e) | Inr (st, vm) \<Rightarrow> Some (Inr st)) (after_call prefixed_stream)
     = Some (Some (Inr (Yielded (V_Int 7))))"
  "map_option (\<lambda>r. case r of Inl e \<Rightarrow> Some (Inl e) | Inr (st, vm) \<Rightarrow> Some (Inr st)) (after_resume prefixed_stream (after_call prefixed_stream))
     = Some (Some (Inr Reset_Reached))"
  "after_resume prefixed_stream (after_resume prefixed_stream (after_call prefixed_stream)) = Some (Inl VM_StackUnderflow)"
  by code_simp+

end
