(* ===== verification/Sample_Wcmu.thy ===== *)
theory Sample_Wcmu
  imports Machine_Heap Wcmu_Stack Sample_Machine
begin

text \<open>A run of the sample stream that builds a tuple in its helper, for the memory theorems, and its control paths.\<close>

abbreviation tuple_module :: kmodule where
  "tuple_module \<equiv> sample_module [tuple_stream, tuple_helper]"

lemma tuple_chunks: "m_chunks tuple_module ! 0 = tuple_stream" "m_chunks tuple_module ! Suc 0 = tuple_helper"
  "length (m_chunks tuple_module) = 2"
  by (simp_all add: sample_module_def)

lemma tuple_helper_run: "bounded_run tuple_helper 0 3 [0, 1, 2] Part"
proof -
  let ?ops = "ch_ops tuple_helper"
  have "ctl_exits (ctl_of (?ops ! 2))" by code_simp
  then have "rexec ?ops (within_bound tuple_helper) 2 3 [2] Part" by (intro rx_exit) simp_all
  then have "rexec ?ops (within_bound tuple_helper) (0 + 2) 3 [2] Part" by (simp only: add_0)
  then have "rexec ?ops (within_bound tuple_helper) 0 3 ([0..<0 + 2] @ [2]) Part" by (rule run_linear) code_simp+
  then show ?thesis by (simp add: upt_rec numeral_eq_Suc)
qed

lemma tuple_stream_run: "bounded_run tuple_stream 1 5 [1, 2, 3, 4] Fall"
proof -
  let ?ops = "ch_ops tuple_stream"
  have "rexec ?ops (within_bound tuple_stream) (1 + 4) 5 [] Fall" by (simp add: rx_end)
  then have "rexec ?ops (within_bound tuple_stream) 1 5 ([1..<1 + 4] @ []) Fall" by (rule run_linear) code_simp+
  then show ?thesis by (simp add: upt_rec numeral_eq_Suc)
qed

section \<open>The same run on the machine\<close>

text \<open>The machine behind the \<open>Stream\<close> of the sample, with an arena of eight bytes, and its next states.\<close>

definition tuple_vm :: vm where
  "tuple_vm = sample_vm \<lparr> vm_stack := [V_Int 5, V_Unit, V_Unit, V_Unit],
     vm_frames := [\<lparr> cf_chunk = 0, cf_ip = 1, cf_base = 0 \<rparr>], vm_started := True \<rparr>"

definition turns :: "nat \<Rightarrow> nat \<Rightarrow> vm \<Rightarrow> bool" where
  "turns k i vm \<longleftrightarrow> dispatches tuple_module k i vm
     \<and> (case step sample_host tuple_module vm of Inl e \<Rightarrow> False | Inr r \<Rightarrow> True)"

definition next_vm :: "vm \<Rightarrow> vm" where
  "next_vm vm = (case step sample_host tuple_module vm of Inl e \<Rightarrow> vm | Inr (out, vm') \<Rightarrow> vm')"

definition resumed_vm :: "vm \<Rightarrow> vm" where
  "resumed_vm vm = (case enter_resume sample_host tuple_module (V_Int 6) (finish_run (Yielded V_Unit) vm) of
     Inl e \<Rightarrow> vm | Inr vm' \<Rightarrow> vm')"

definition resumes :: "vm \<Rightarrow> bool" where
  "resumes vm \<longleftrightarrow> (case enter_resume sample_host tuple_module (V_Int 6) (finish_run (Yielded V_Unit) vm) of
     Inl e \<Rightarrow> False | Inr vm' \<Rightarrow> ar_top (vm_arena vm') = ar_top (vm_arena vm))"

lemma turns_step: "turns k i vm \<Longrightarrow> dispatches tuple_module k i vm \<and> (\<exists>out. step sample_host tuple_module vm = Inr (out, next_vm vm))"
  by (auto simp: turns_def next_vm_def split: sum.splits)

abbreviation tuple_path :: "nat \<Rightarrow> nat list \<Rightarrow> vm \<Rightarrow> vm \<Rightarrow> nat \<Rightarrow> bool" where
  "tuple_path \<equiv> frame_run sample_host tuple_module (per_site_native_wcmu []) (external_native_wcmu [])"

abbreviation tuple_run :: "nat \<Rightarrow> vm \<Rightarrow> vm \<Rightarrow> bool" where
  "tuple_run \<equiv> chunk_run sample_host tuple_module (per_site_native_wcmu []) (external_native_wcmu [])"

lemma turn:
  assumes "turns k i vm" "own_bytes (ctl_of (ch_ops (m_chunks tuple_module ! k) ! i))" "ch_ops (m_chunks tuple_module ! k) ! i \<noteq> Reset"
    and "size_declared tuple_module (ch_ops (m_chunks tuple_module ! k) ! i) vm" "tuple_path k tr (next_vm vm) vm' x"
  shows "tuple_path k (i # tr) vm vm' x"
  using turns_step [OF assms(1)] fr_op [OF _ assms(2-4) _ assms(5)] by blast

lemma resume_turn: "resumes vm \<Longrightarrow> tuple_path k tr (resumed_vm vm) vm' x \<Longrightarrow> tuple_path k tr vm vm' x"
  by (rule fr_resume [of _ _ "V_Int 6" "Yielded V_Unit"]) (auto simp: resumes_def resumed_vm_def split: sum.splits)

abbreviation vm2 :: vm where "vm2 \<equiv> next_vm tuple_vm"
abbreviation vm3 :: vm where "vm3 \<equiv> next_vm vm2"
abbreviation vm4 :: vm where "vm4 \<equiv> next_vm vm3"
abbreviation vm5 :: vm where "vm5 \<equiv> next_vm vm4"
abbreviation vm6 :: vm where "vm6 \<equiv> next_vm vm5"
abbreviation vm7 :: vm where "vm7 \<equiv> resumed_vm (next_vm vm6)"
abbreviation tuple_end :: vm where "tuple_end \<equiv> next_vm vm7"

lemma nothing_external: "capped 0 \<le> external_native_wcmu bounds c 0"
  by (simp add: capped_def)

lemma helper_machine_run: "tuple_run 1 vm3 vm6"
proof -
  have "tuple_path 1 [0, 1, 2] vm3 vm6 0" by (intro turn fr_nil) code_simp+
  moreover have "bounded_run (m_chunks tuple_module ! 1) 0 3 [0, 1, 2] Part"
    using tuple_helper_run by (simp add: tuple_chunks)
  moreover have "chunk_span (m_chunks tuple_module ! 1) = Inr (0, 3)" by code_simp
  ultimately show ?thesis by (intro cr_run [of 1 _ 0 3 "[0, 1, 2]" Part _ _ _ _ _ 0]) (simp_all add: tuple_chunks nothing_external)
qed

lemma stream_machine_run: "tuple_run 0 tuple_vm tuple_end"
proof -
  have call: "ch_ops (m_chunks tuple_module ! 0) ! 2 = Call 1 1" by code_simp
  have "tuple_path 0 [4] vm7 (next_vm vm7) 0" by (intro turn fr_nil) code_simp+
  then have "tuple_path 0 [4] (next_vm vm6) (next_vm vm7) 0" by (rule resume_turn [rotated]) code_simp
  then have "tuple_path 0 [3, 4] vm6 (next_vm vm7) 0" by (rule turn [rotated 4]) code_simp+
  moreover have "turns 0 2 vm2" by code_simp
  ultimately have "tuple_path 0 [2, 3, 4] vm2 (next_vm vm7) 0"
    using turns_step [of 0 2 vm2] fr_call [of tuple_module 0 2 vm2 1 1] call helper_machine_run by fastforce
  then have "tuple_path 0 [1, 2, 3, 4] tuple_vm (next_vm vm7) 0" by (rule turn [rotated 4]) code_simp+
  moreover have "chunk_span (m_chunks tuple_module ! 0) = Inr (1, 5)" by code_simp
  ultimately show ?thesis
    using tuple_stream_run by (intro cr_run [of 0 _ 1 5 "[1, 2, 3, 4]" Fall _ _ _ _ _ 0]) (simp_all add: tuple_chunks nothing_external)
qed

lemma stream_machine_takes: "ar_top (vm_arena tuple_vm) - ar_top (vm_arena tuple_end) = 8"
  by code_simp

lemma sample_stacks: "stacks_at_bottom sample_host"
  by (simp add: stacks_at_bottom_def sample_host_def)

section \<open>Sizes that are not declared\<close>

text \<open>
  A stream that packs two words under a declared size of zero, and one that packs its text parameter as a
  flat tuple of a pointer and a length.
\<close>

definition understated_module :: kmodule where
  "understated_module = bare_stream [Stream, PushImmediate 11, PushImmediate 11, NewComposite (NC_Flat CK_Tuple 2 0), Yield, PopN 1, Reset]"

definition text_module :: kmodule where
  "text_module = sample_module [sample_chunk BT_Stream [Stream, GetLocal 0, NewComposite (NC_Flat CK_Tuple 1 16), Yield, PopN 1, Reset]
     \<lparr> ch_param_types := [TT_Text] \<rparr>]"

definition roomy_vm :: "kvalue list \<Rightarrow> vm" where
  "roomy_vm vs = sample_vm \<lparr> vm_arena := arena_over 64 (replicate 32 0) External, vm_stack := vs,
     vm_frames := [\<lparr> cf_chunk = 0, cf_ip = 3, cf_base = 0 \<rparr>] \<rparr>"

text \<open>What one instruction takes from the top end.\<close>

definition taken_by :: "kmodule \<Rightarrow> op \<Rightarrow> vm \<Rightarrow> nat option" where
  "taken_by m x vm =
     (case exec_op sample_host m 0 x vm of
        Inl e \<Rightarrow> None
      | Inr (out, vm') \<Rightarrow> Some (ar_top (vm_arena vm) - ar_top (vm_arena vm')))"

end
