(* ===== verification/Must_Analysis.thy ===== *)
theory Must_Analysis
  imports Control_Flow "HOL-Library.Code_Target_Nat"
begin

text \<open>
  The forward must-analysis of \<open>src/src/verify_init.rs\<close>: sets of slots as vectors of 64-bit words
  (\<open>Bits\<close>), the worklist over a chunk's control-flow edges (\<open>must_analysis\<close>), its termination and the
  fixpoint it reaches.  \<open>bits_set\<close> is the set a vector stands for.  The locale at the end is the contract
  between the analysis and a rule that reads it.
\<close>

unbundle bit_operations_syntax

section \<open>Slot sets\<close>

type_synonym bits = "u64 list"

definition bits_empty :: "nat \<Rightarrow> bits" where
  "bits_empty n = replicate ((n + 63) div 64) 0"

definition bits_has :: "bits \<Rightarrow> nat \<Rightarrow> bool" where
  "bits_has b i = (case nth_opt b (i div 64) of Some w \<Rightarrow> (w AND push_bit (i mod 64) 1) \<noteq> 0 | None \<Rightarrow> False)"

definition bits_insert :: "nat \<Rightarrow> bits \<Rightarrow> bits" where
  "bits_insert i b = (case nth_opt b (i div 64) of Some w \<Rightarrow> b[i div 64 := w OR push_bit (i mod 64) 1] | None \<Rightarrow> b)"

text \<open>\<open>Bits::meet\<close>: the intersection in place, and whether it changed anything.\<close>

fun bits_meet :: "bits \<Rightarrow> bits \<Rightarrow> bits \<times> bool" where
  "bits_meet (a # as) (b # bs) = (let (r, changed) = bits_meet as bs in ((a AND b) # r, (a AND b) \<noteq> a \<or> changed))"
| "bits_meet as bs = (as, False)"

text \<open>The union that \<open>data_transfer\<close> writes out.\<close>

fun bits_join :: "bits \<Rightarrow> bits \<Rightarrow> bits" where
  "bits_join (a # as) (b # bs) = (a OR b) # bits_join as bs"
| "bits_join as bs = as"

definition bits_set :: "bits \<Rightarrow> nat set" where
  "bits_set b = {i. bits_has b i}"

section \<open>The must-analysis\<close>

text \<open>\<open>successors\<close>: the fall-through and the jump, where they stay in the chunk.\<close>

definition init_succs :: "op list \<Rightarrow> nat \<Rightarrow> nat option \<times> nat option" where
  "init_succs ops ip =
     (let inside = (\<lambda>t. if t < length ops then Some t else None) in
      case ctl_of (ops ! ip) of
        C_If t \<Rightarrow> (inside (ip + 1), inside t)
      | C_BreakIf t \<Rightarrow> (inside (ip + 1), inside t)
      | C_Else t \<Rightarrow> (None, inside t)
      | C_EndLoop t \<Rightarrow> (None, inside t)
      | C_Break t \<Rightarrow> (None, inside t)
      | C_Return \<Rightarrow> (None, None)
      | C_Trap \<Rightarrow> (None, None)
      | C_Reset \<Rightarrow> (None, None)
      | _ \<Rightarrow> (inside (ip + 1), None))"

definition flatten_succs :: "nat option \<times> nat option \<Rightarrow> nat list" where
  "flatten_succs p = (case fst p of Some t \<Rightarrow> [t] | None \<Rightarrow> []) @ (case snd p of Some t \<Rightarrow> [t] | None \<Rightarrow> [])"

record must_state =
  mu_state :: "bits option list"
  mu_queued :: "bool list"
  mu_work :: "nat list"

text \<open>
  The set that leaves an instruction arrives at a successor.  The position is inside the chunk, so the
  branch in which the code would panic does not occur.
\<close>

definition must_arrive :: "bits \<Rightarrow> nat \<Rightarrow> must_state \<Rightarrow> must_state" where
  "must_arrive out to st =
     (let (st, changed) =
        (case nth_opt (mu_state st) to of
           Some (Some old) \<Rightarrow>
             (let (new, c) = bits_meet old out in (st \<lparr> mu_state := (mu_state st)[to := Some new] \<rparr>, c))
         | Some None \<Rightarrow> (st \<lparr> mu_state := (mu_state st)[to := Some out] \<rparr>, True)
         | None \<Rightarrow> (st, False))
      in if changed \<and> \<not> mu_queued st ! to
         then st \<lparr> mu_queued := (mu_queued st)[to := True], mu_work := mu_work st @ [to] \<rparr> else st)"

fun must_arrive_all :: "bits \<Rightarrow> nat list \<Rightarrow> must_state \<Rightarrow> must_state" where
  "must_arrive_all out [] st = st"
| "must_arrive_all out (t # ts) st = must_arrive_all out ts (must_arrive out t st)"

definition must_pop :: "must_state \<Rightarrow> must_state" where
  "must_pop st = st \<lparr> mu_work := tl (mu_work st), mu_queued := (mu_queued st)[hd (mu_work st) := False] \<rparr>"

section \<open>The sets as sets\<close>

lemma bits_has_iff: "bits_has b i \<longleftrightarrow> i div 64 < length b \<and> bit (b ! (i div 64)) (i mod 64)"
  by (simp add: bits_has_def nth_opt_def bit_iff_and_push_bit_not_eq_0)

lemma mem_bits_set: "i \<in> bits_set b \<longleftrightarrow> i div 64 < length b \<and> bit (b ! (i div 64)) (i mod 64)"
  by (simp add: bits_set_def bits_has_iff)

lemma finite_bits_set [simp]: "finite (bits_set b)"
proof (rule finite_subset)
  show "bits_set b \<subseteq> {..<64 * length b}" by (auto simp: mem_bits_set)
qed simp

lemma bits_set_empty [simp]: "bits_set (bits_empty n) = {}"
  by (auto simp: mem_bits_set bits_empty_def)

lemma bits_set_insert: "bits_set (bits_insert i b) = (if i < 64 * length b then insert i (bits_set b) else bits_set b)"
proof -
  have eq: "k = i \<longleftrightarrow> k div 64 = i div 64 \<and> k mod 64 = i mod 64" for k :: nat by (metis mult_div_mod_eq)
  have lt: "i < 64 * length b \<longleftrightarrow> i div 64 < length b" by (simp add: less_mult_imp_div_less mult.commute div_less_iff_less_mult)
  show ?thesis
  proof (cases "i div 64 < length b")
    case True
    have bit: "bit (w OR push_bit (i mod 64) 1) (k mod 64) \<longleftrightarrow> bit w (k mod 64) \<or> k mod 64 = i mod 64" for w :: u64 and k
      by (auto simp: bit_simps)
    show ?thesis
      using True by (auto simp: lt bits_insert_def nth_opt_def set_eq_iff mem_bits_set nth_list_update bit eq simp del: push_bit_of_1)
  next
    case False
    then show ?thesis by (simp add: lt bits_insert_def nth_opt_def)
  qed
qed

lemma bits_meet_len [simp]: "length (fst (bits_meet a b)) = length a"
  by (induction a b rule: bits_meet.induct) (simp_all add: Let_def split_def)

lemma bits_meet_nth: "length a \<le> length b \<Longrightarrow> k < length a \<Longrightarrow> fst (bits_meet a b) ! k = (a ! k AND b ! k)"
proof (induction a b arbitrary: k rule: bits_meet.induct)
  case (1 a as b bs)
  then show ?case by (cases k) (simp_all add: Let_def split_def)
qed auto

lemma bits_set_meet: "length a \<le> length b \<Longrightarrow> bits_set (fst (bits_meet a b)) = bits_set a \<inter> bits_set b"
  by (auto simp: mem_bits_set bits_meet_nth bit_simps)

lemma bits_meet_changed: "snd (bits_meet a b) \<longleftrightarrow> fst (bits_meet a b) \<noteq> a"
  by (induction a b rule: bits_meet.induct) (auto simp: Let_def split_def)

lemma bits_meet_subset: "bits_set (fst (bits_meet a b)) \<subseteq> bits_set a"
proof (induction a b rule: bits_meet.induct)
  case (1 a as b bs)
  have "i \<in> bits_set (a # as)" if "i \<in> bits_set (fst (bits_meet (a # as) (b # bs)))" for i
  proof (cases "i div 64")
    case 0
    with that show ?thesis by (auto simp: mem_bits_set Let_def split_def bit_simps)
  next
    case (Suc n)
    have "(i - 64) div 64 = n" "(i - 64) mod 64 = i mod 64" "64 \<le> i" using Suc by (auto simp: le_mod_geq le_div_geq split: if_splits)
    moreover from this Suc that have "i - 64 \<in> bits_set (fst (bits_meet as bs))" by (simp add: mem_bits_set Let_def split_def)
    ultimately have "i - 64 \<in> bits_set as" using 1 by (auto simp: Let_def split_def)
    with Suc \<open>(i - 64) div 64 = n\<close> \<open>(i - 64) mod 64 = i mod 64\<close> show ?thesis by (simp add: mem_bits_set)
  qed
  then show ?case by blast
qed auto

lemma bits_ext: "length a = length b \<Longrightarrow> bits_set a = bits_set b \<Longrightarrow> a = b"
proof (rule nth_equalityI)
  fix k assume len: "length a = length b" and eq: "bits_set a = bits_set b" and k: "k < length a"
  show "a ! k = b ! k"
  proof (rule bit_word_eqI)
    fix n assume "n < LENGTH(64)"
    then have "(64 * k + n) div 64 = k" "(64 * k + n) mod 64 = n" by simp_all
    with eq k len show "bit (a ! k) n = bit (b ! k) n" unfolding set_eq_iff mem_bits_set by metis
  qed
qed

lemma bits_join_len [simp]: "length (bits_join a b) = length a"
  by (induction a b rule: bits_join.induct) simp_all

lemma bits_join_nth: "k < length a \<Longrightarrow> bits_join a b ! k = (if k < length b then (a ! k OR b ! k) else a ! k)"
proof (induction a b arbitrary: k rule: bits_join.induct)
  case (1 a as b bs)
  then show ?case by (cases k) simp_all
qed auto

lemma bits_set_join: "length b = length a \<Longrightarrow> bits_set (bits_join a b) = bits_set a \<union> bits_set b"
  by (auto simp: mem_bits_set bits_join_nth bit_simps)

section \<open>Termination\<close>

text \<open>
  A step of the worklist fills an empty entry, or shrinks a set, or only shortens the list.
\<close>

definition must_order :: "(must_state \<times> must_state) set" where
  "must_order = measures [\<lambda>st. length (filter (\<lambda>s. s = None) (mu_state st)),
     \<lambda>st. sum_list (map (\<lambda>s. case s of Some b \<Rightarrow> card (bits_set b) | None \<Rightarrow> 0) (mu_state st)),
     \<lambda>st. length (mu_work st)]"

lemma bits_meet_smaller: "snd (bits_meet a b) \<Longrightarrow> card (bits_set (fst (bits_meet a b))) < card (bits_set a)"
  using bits_meet_subset [of a b] bits_ext [of "fst (bits_meet a b)" a]
  by (intro psubset_card_mono) (auto simp: bits_meet_changed)


lemma filter_None_update: "i < length xs \<Longrightarrow> xs ! i = None \<Longrightarrow>
    length (filter (\<lambda>s. s = None) (xs[i := Some x])) < length (filter (\<lambda>s. s = None) xs)"
proof (induction xs arbitrary: i)
  case (Cons y ys)
  then show ?case by (cases i) auto
qed simp

lemma filter_None_same: "i < length xs \<Longrightarrow> xs ! i = Some y \<Longrightarrow>
    length (filter (\<lambda>s. s = None) (xs[i := Some x])) = length (filter (\<lambda>s. s = None) xs)"
proof (induction xs arbitrary: i)
  case (Cons y ys)
  then show ?case by (cases i) auto
qed simp

lemma sum_list_update_less: "i < length xs \<Longrightarrow> f y < (f (xs ! i) :: nat) \<Longrightarrow> sum_list (map f (xs[i := y])) < sum_list (map f xs)"
proof (induction xs arbitrary: i)
  case (Cons x xs)
  then show ?case by (cases i) auto
qed simp

lemma must_arrive_order:
  "(must_arrive out to st, st) \<in> must_order \<or> mu_state (must_arrive out to st) = mu_state st \<and> mu_work (must_arrive out to st) = mu_work st"
proof (cases "nth_opt (mu_state st) to")
  case (Some s)
  then have to: "to < length (mu_state st)" "mu_state st ! to = s" by simp_all
  show ?thesis
  proof (cases s)
    case None
    with to filter_None_update [of to "mu_state st" out] show ?thesis by (simp add: must_arrive_def must_order_def nth_opt_def)
  next
    case (Some old)
    obtain new c where m: "bits_meet old out = (new, c)" by fastforce
    show ?thesis
    proof (cases c)
      case True
      then have "card (bits_set new) < card (bits_set old)" using m bits_meet_smaller [of old out] by simp
      with to Some m filter_None_same [of to "mu_state st" old new]
        sum_list_update_less [of to "mu_state st" "\<lambda>s. case s of Some b \<Rightarrow> card (bits_set b) | None \<Rightarrow> 0" "Some new"]
      show ?thesis by (simp add: must_arrive_def must_order_def nth_opt_def)
    next
      case False
      then have "new = old" using m bits_meet_changed [of old out] by simp
      with to Some m False show ?thesis by (simp add: must_arrive_def nth_opt_def list_update_same_conv)
    qed
  qed
qed (simp add: must_arrive_def nth_opt_def)

lemma must_order_trans: "(a, b) \<in> must_order \<Longrightarrow> (b, c) \<in> must_order \<Longrightarrow> (a, c) \<in> must_order"
  by (auto simp: must_order_def)

lemma must_order_same: "mu_state b = mu_state b' \<Longrightarrow> mu_work b = mu_work b' \<Longrightarrow> (a, b) \<in> must_order \<longleftrightarrow> (a, b') \<in> must_order"
  by (simp add: must_order_def)

lemma must_order_same2: "mu_state a = mu_state a' \<Longrightarrow> mu_work a = mu_work a' \<Longrightarrow> (a, b) \<in> must_order \<longleftrightarrow> (a', b) \<in> must_order"
  by (simp add: must_order_def)

lemma must_arrive_all_order:
  "(must_arrive_all out ts st, st) \<in> must_order
   \<or> mu_state (must_arrive_all out ts st) = mu_state st \<and> mu_work (must_arrive_all out ts st) = mu_work st"
proof (induction ts arbitrary: st)
  case (Cons t ts)
  let ?a = "must_arrive out t st"
  show ?case
  proof (cases "(?a, st) \<in> must_order")
    case True
    then show ?thesis using Cons [of ?a] must_order_trans [OF _ True]
      by (metis must_arrive_all.simps(2) must_order_same2)
  next
    case False
    then show ?thesis using Cons [of ?a] must_arrive_order [of out t st] by (simp add: must_order_same [of ?a st])
  qed
qed simp

text \<open>The worklist loop.\<close>

function must_loop :: "op list \<Rightarrow> (op \<Rightarrow> bits \<Rightarrow> bits) \<Rightarrow> must_state \<Rightarrow> must_state" where
  "must_loop ops transfer st =
     (case mu_work st of
        [] \<Rightarrow> st
      | ip # _ \<Rightarrow>
          (case mu_state st ! ip of
             None \<Rightarrow> must_loop ops transfer (must_pop st)
           | Some b \<Rightarrow> must_loop ops transfer
               (must_arrive_all (transfer (ops ! ip) b) (flatten_succs (init_succs ops ip)) (must_pop st))))"
  by pat_completeness auto
termination
proof (relation "inv_image must_order (\<lambda>(ops, transfer, st). st)", goal_cases)
  case 1
  show ?case by (simp add: must_order_def)
next
  case (2 ops transfer st ip work)
  then show ?case by (simp add: must_order_def must_pop_def)
next
  case (3 ops transfer st ip work b)
  then have "(must_pop st, st) \<in> must_order" by (simp add: must_order_def must_pop_def)
  with must_arrive_all_order [of "transfer (ops ! ip) b" "flatten_succs (init_succs ops ip)" "must_pop st"]
  show ?case by (auto intro: must_order_trans simp: must_order_def)
qed

declare must_loop.simps [simp del]

definition must_analysis :: "op list \<Rightarrow> bits \<Rightarrow> (op \<Rightarrow> bits \<Rightarrow> bits) \<Rightarrow> bits option list" where
  "must_analysis ops entry transfer =
     (if ops = [] then []
      else mu_state (must_loop ops transfer
        \<lparr> mu_state = (replicate (length ops) None)[0 := Some entry], mu_queued = (replicate (length ops) False)[0 := True],
          mu_work = [0] \<rparr>))"

section \<open>The fixpoint\<close>

definition edges_closed :: "op list \<Rightarrow> (op \<Rightarrow> bits \<Rightarrow> bits) \<Rightarrow> bits option list \<Rightarrow> nat \<Rightarrow> bool" where
  "edges_closed ops transfer state i \<longleftrightarrow>
     (\<forall>b. state ! i = Some b \<longrightarrow> (\<forall>t \<in> set (flatten_succs (init_succs ops i)).
        \<exists>b'. state ! t = Some b' \<and> bits_set b' \<subseteq> bits_set (transfer (ops ! i) b)))"

definition must_inv :: "op list \<Rightarrow> (op \<Rightarrow> bits \<Rightarrow> bits) \<Rightarrow> nat \<Rightarrow> must_state \<Rightarrow> bool" where
  "must_inv ops transfer n st \<longleftrightarrow> length (mu_state st) = length ops \<and> length (mu_queued st) = length ops
     \<and> (\<forall>i < length ops. mu_queued st ! i \<longrightarrow> i \<in> set (mu_work st))
     \<and> (\<forall>i b. i < length ops \<longrightarrow> mu_state st ! i = Some b \<longrightarrow> length b = n)
     \<and> set (mu_work st) \<subseteq> {..<length ops}"

text \<open>What happens to the entries when sets arrive: they only shrink, and one that changes is queued.\<close>

definition shrunk :: "must_state \<Rightarrow> must_state \<Rightarrow> bool" where
  "shrunk st st' \<longleftrightarrow> set (mu_work st) \<subseteq> set (mu_work st') \<and> length (mu_state st') = length (mu_state st)
     \<and> (\<forall>i < length (mu_state st). (mu_state st' ! i = mu_state st ! i \<or> i \<in> set (mu_work st'))
       \<and> (\<forall>b. mu_state st ! i = Some b \<longrightarrow> (\<exists>b'. mu_state st' ! i = Some b' \<and> bits_set b' \<subseteq> bits_set b)))"

lemma shrunk_refl: "shrunk st st"
  by (auto simp: shrunk_def)

lemma shrunk_trans: "shrunk a b \<Longrightarrow> shrunk b c \<Longrightarrow> shrunk a c"
  unfolding shrunk_def by (fastforce intro: subset_trans)

lemma must_arrive_correct:
  assumes "must_inv ops transfer n st" "to < length ops" "length out = n"
  shows "must_inv ops transfer n (must_arrive out to st)" "shrunk st (must_arrive out to st)"
    "\<exists>b. mu_state (must_arrive out to st) ! to = Some b \<and> bits_set b \<subseteq> bits_set out"
proof -
  have len: "to < length (mu_state st)" "length (mu_state st) = length ops" "length (mu_queued st) = length ops"
    using assms by (simp_all add: must_inv_def)
  have "must_inv ops transfer n (must_arrive out to st) \<and> shrunk st (must_arrive out to st)
    \<and> (\<exists>b. mu_state (must_arrive out to st) ! to = Some b \<and> bits_set b \<subseteq> bits_set out)"
  proof (cases "mu_state st ! to")
    case None
    then show ?thesis using assms len
      by (auto simp: must_arrive_def nth_opt_def must_inv_def shrunk_def nth_list_update)
  next
    case (Some old)
    then have old: "length old = n" using assms by (simp add: must_inv_def)
    obtain new c where m: "bits_meet old out = (new, c)" by fastforce
    have new: "length new = n" "bits_set new = bits_set old \<inter> bits_set out" "c \<longleftrightarrow> new \<noteq> old"
      using m old assms(3) bits_meet_len [of old out] bits_set_meet [of old out] bits_meet_changed [of old out] by simp_all
    show ?thesis using assms len Some m new
      by (auto simp: must_arrive_def nth_opt_def must_inv_def shrunk_def nth_list_update)
  qed
  then show "must_inv ops transfer n (must_arrive out to st)" "shrunk st (must_arrive out to st)"
    "\<exists>b. mu_state (must_arrive out to st) ! to = Some b \<and> bits_set b \<subseteq> bits_set out" by blast+
qed


lemma must_arrive_all_correct:
  "must_inv ops transfer n st \<Longrightarrow> set ts \<subseteq> {..<length ops} \<Longrightarrow> length out = n \<Longrightarrow>
     must_inv ops transfer n (must_arrive_all out ts st) \<and> shrunk st (must_arrive_all out ts st)
     \<and> (\<forall>t \<in> set ts. \<exists>b. mu_state (must_arrive_all out ts st) ! t = Some b \<and> bits_set b \<subseteq> bits_set out)"
proof (induction ts arbitrary: st)
  case (Cons t ts)
  let ?a = "must_arrive out t st"
  have a: "must_inv ops transfer n ?a" "shrunk st ?a" "\<exists>b. mu_state ?a ! t = Some b \<and> bits_set b \<subseteq> bits_set out"
    using must_arrive_correct [OF Cons.prems(1) _ Cons.prems(3)] Cons.prems(2) by simp_all
  have r: "must_inv ops transfer n (must_arrive_all out ts ?a)" "shrunk ?a (must_arrive_all out ts ?a)"
    "\<forall>t \<in> set ts. \<exists>b. mu_state (must_arrive_all out ts ?a) ! t = Some b \<and> bits_set b \<subseteq> bits_set out"
    using Cons.IH [OF a(1)] Cons.prems by simp_all
  have "t < length (mu_state ?a)" using a(1) Cons.prems(2) by (simp add: must_inv_def)
  then have "\<exists>b. mu_state (must_arrive_all out ts ?a) ! t = Some b \<and> bits_set b \<subseteq> bits_set out"
    using a(3) r(2) unfolding shrunk_def by (blast intro: subset_trans)
  with r shrunk_trans [OF a(2) r(2)] show ?case by simp
qed (simp add: shrunk_refl)

lemma init_succs_bound: "set (flatten_succs (init_succs ops ip)) \<subseteq> {..<length ops}"
  by (auto simp: flatten_succs_def init_succs_def Let_def split: ctl.splits)

definition must_closed :: "op list \<Rightarrow> (op \<Rightarrow> bits \<Rightarrow> bits) \<Rightarrow> must_state \<Rightarrow> bool" where
  "must_closed ops transfer st \<longleftrightarrow> (\<forall>i < length ops. i \<notin> set (mu_work st) \<longrightarrow> edges_closed ops transfer (mu_state st) i)"

lemma shrunk_closed:
  assumes "shrunk st st'" "i < length (mu_state st)" "length (mu_state st) = length ops" "i \<notin> set (mu_work st')"
    and "edges_closed ops transfer (mu_state st) i"
  shows "edges_closed ops transfer (mu_state st') i"
  unfolding edges_closed_def
proof (intro allI impI ballI)
  fix b t assume b: "mu_state st' ! i = Some b" and t: "t \<in> set (flatten_succs (init_succs ops i))"
  have "mu_state st ! i = Some b" using assms(1,2,4) b by (auto simp: shrunk_def)
  then obtain b' where "mu_state st ! t = Some b'" "bits_set b' \<subseteq> bits_set (transfer (ops ! i) b)"
    using assms(5) t by (auto simp: edges_closed_def)
  moreover have "t < length (mu_state st)" using init_succs_bound t assms(3) by auto
  ultimately show "\<exists>b'. mu_state st' ! t = Some b' \<and> bits_set b' \<subseteq> bits_set (transfer (ops ! i) b)"
    using assms(1) unfolding shrunk_def by (blast intro: subset_trans)
qed

lemma must_loop_correct:
  "(\<And>x b. length b = n \<Longrightarrow> length (transfer x b) = n) \<Longrightarrow> must_inv ops transfer n st \<Longrightarrow> must_closed ops transfer st \<Longrightarrow>
    must_inv ops transfer n (must_loop ops transfer st) \<and> mu_work (must_loop ops transfer st) = []
    \<and> must_closed ops transfer (must_loop ops transfer st)
    \<and> (\<forall>i < length ops. \<forall>b. mu_state st ! i = Some b \<longrightarrow>
        (\<exists>b'. mu_state (must_loop ops transfer st) ! i = Some b' \<and> bits_set b' \<subseteq> bits_set b))"
proof (induction ops transfer st rule: must_loop.induct)
  case (1 ops transfer st)
  note len = "1.prems"(1)
  show ?case
  proof (cases "mu_work st")
    case Nil
    with 1 show ?thesis by (auto simp: must_loop.simps [of ops transfer st])
  next
    case (Cons ip work)
    let ?p = "must_pop st"
    have ip: "ip < length ops" using Cons "1.prems"(2) by (simp add: must_inv_def)
    have p: "must_inv ops transfer n ?p" "mu_state ?p = mu_state st" "length (mu_state st) = length ops"
      using "1.prems"(2) Cons by (auto simp: must_inv_def must_pop_def nth_list_update split: if_splits)
    show ?thesis
    proof (cases "mu_state st ! ip")
      case None
      have "must_closed ops transfer ?p"
        using "1.prems"(3) None Cons p by (auto simp: must_closed_def must_pop_def edges_closed_def)
      from "1.IH"(1) [OF Cons None len p(1) this] show ?thesis
        using Cons None p(2) by (simp add: must_loop.simps [of ops transfer st])
    next
      case (Some b)
      let ?out = "transfer (ops ! ip) b" and ?ts = "flatten_succs (init_succs ops ip)"
      let ?a = "must_arrive_all ?out ?ts ?p"
      have "length b = n" using "1.prems"(2) ip Some by (simp add: must_inv_def)
      then have out: "length ?out = n" by (rule len)
      have arr: "must_inv ops transfer n ?a \<and> shrunk ?p ?a
          \<and> (\<forall>t \<in> set ?ts. \<exists>b'. mu_state ?a ! t = Some b' \<and> bits_set b' \<subseteq> bits_set ?out)"
        by (rule must_arrive_all_correct [OF p(1) init_succs_bound out])
      then have a: "must_inv ops transfer n ?a" "shrunk ?p ?a"
        "\<forall>t \<in> set ?ts. \<exists>b'. mu_state ?a ! t = Some b' \<and> bits_set b' \<subseteq> bits_set ?out"
        by simp_all
      have "edges_closed ops transfer (mu_state ?a) i" if i: "i < length ops" "i \<notin> set (mu_work ?a)" for i
      proof (cases "i = ip")
        case True
        have "mu_state ?a ! ip = Some b" using a(2) i True p Some by (auto simp: shrunk_def)
        then show ?thesis using a(3) True by (auto simp: edges_closed_def)
      next
        case False
        then have "i \<notin> set (mu_work st)" using i a(2) Cons by (auto simp: shrunk_def must_pop_def)
        then have "edges_closed ops transfer (mu_state ?p) i" using "1.prems"(3) i p(2) by (simp add: must_closed_def)
        then show ?thesis using shrunk_closed [OF a(2)] i p by simp
      qed
      then have "must_closed ops transfer ?a" by (simp add: must_closed_def)
      from "1.IH"(2) [OF Cons Some len a(1) this] have
        r: "must_inv ops transfer n (must_loop ops transfer ?a)" "mu_work (must_loop ops transfer ?a) = []"
          "must_closed ops transfer (must_loop ops transfer ?a)"
        and mono: "\<forall>i < length ops. \<forall>b. mu_state ?a ! i = Some b \<longrightarrow>
          (\<exists>b'. mu_state (must_loop ops transfer ?a) ! i = Some b' \<and> bits_set b' \<subseteq> bits_set b)" by blast+
      have "\<exists>b'. mu_state (must_loop ops transfer ?a) ! i = Some b' \<and> bits_set b' \<subseteq> bits_set c"
        if i: "i < length ops" "mu_state st ! i = Some c" for i c
      proof -
        obtain c' where "mu_state ?a ! i = Some c'" "bits_set c' \<subseteq> bits_set c"
          using a(2) i p(2,3) unfolding shrunk_def by metis
        with mono i(1) show ?thesis by (meson subset_trans)
      qed
      with r show ?thesis using Cons Some by (simp add: must_loop.simps [of ops transfer st])
    qed
  qed
qed

text \<open>The result: at the entry at most the entry set, and along every edge at most what leaves.\<close>

lemma must_analysis_fixpoint:
  assumes "\<And>x b. length b = n \<Longrightarrow> length (transfer x b) = n" and "length entry = n" and "ops \<noteq> []"
  shows "\<exists>b. must_analysis ops entry transfer ! 0 = Some b \<and> bits_set b \<subseteq> bits_set entry"
    and "i < length ops \<Longrightarrow> edges_closed ops transfer (must_analysis ops entry transfer) i"
    and "length (must_analysis ops entry transfer) = length ops"
    and "must_analysis ops entry transfer ! i = Some b \<Longrightarrow> i < length ops \<Longrightarrow> length b = n"
proof -
  let ?st = "\<lparr> mu_state = (replicate (length ops) None)[0 := Some entry], mu_queued = (replicate (length ops) False)[0 := True],
          mu_work = [0] \<rparr>"
  have "must_inv ops transfer n ?st" "must_closed ops transfer ?st"
    using assms(2,3) by (auto simp: must_inv_def must_closed_def edges_closed_def nth_list_update split: if_splits)
  note r = must_loop_correct [OF assms(1) this]
  show "\<exists>b. must_analysis ops entry transfer ! 0 = Some b \<and> bits_set b \<subseteq> bits_set entry"
    using r assms(3) by (simp add: must_analysis_def)
  show "length (must_analysis ops entry transfer) = length ops"
    using r assms(3) by (simp add: must_analysis_def must_inv_def)
  show "must_analysis ops entry transfer ! i = Some b \<Longrightarrow> i < length ops \<Longrightarrow> length b = n"
    using r assms(3) by (simp add: must_analysis_def must_inv_def)
  show "i < length ops \<Longrightarrow> edges_closed ops transfer (must_analysis ops entry transfer) i"
    using r assms(3) by (simp add: must_analysis_def must_closed_def)
qed

lemma must_analysis_Nil [simp]: "must_analysis [] entry transfer = []"
  by (simp add: must_analysis_def)


section \<open>Facts that a set promises\<close>

text \<open>
  The contract of the two rules: what a set says of a machine state, \<open>holds\<close>, only weakens when the set
  shrinks, and \<open>transfer\<close> keeps the width.  The result of the analysis then holds along every edge.
\<close>

locale must_flow =
  fixes ops :: "op list" and transfer :: "op \<Rightarrow> bits \<Rightarrow> bits" and entry :: bits and holds :: "bits \<Rightarrow> 'w \<Rightarrow> bool"
  assumes transfer_len: "length b = length entry \<Longrightarrow> length (transfer x b) = length entry"
    and holds_smaller: "bits_set b' \<subseteq> bits_set b \<Longrightarrow> holds b w \<Longrightarrow> holds b' w"
begin

definition reached :: "nat \<Rightarrow> 'w \<Rightarrow> bool" where
  "reached i w \<longleftrightarrow> (i < length ops \<longrightarrow> (\<exists>b. must_analysis ops entry transfer ! i = Some b \<and> holds b w))"

lemma reached_entry: "holds entry w \<Longrightarrow> reached 0 w"
  using must_analysis_fixpoint(1) [OF transfer_len refl, where ops = ops] holds_smaller by (fastforce simp: reached_def)

lemma reached_edge:
  assumes "reached i w" "i < length ops" "i' \<in> set (frame_succs (ctl_of (ops ! i)) i)"
    and "\<And>b. must_analysis ops entry transfer ! i = Some b \<Longrightarrow> holds b w \<Longrightarrow> holds (transfer (ops ! i) b) w'"
  shows "reached i' w'"
  unfolding reached_def
proof
  assume i': "i' < length ops"
  have succ: "i' \<in> set (flatten_succs (init_succs ops i))"
    using assms(3) i' by (cases "ctl_of (ops ! i)") (auto simp: init_succs_def flatten_succs_def Let_def)
  obtain b where b: "must_analysis ops entry transfer ! i = Some b" "holds b w" using assms(1,2) by (auto simp: reached_def)
  have "edges_closed ops transfer (must_analysis ops entry transfer) i"
    using must_analysis_fixpoint(2) [OF transfer_len refl _ assms(2)] assms(2) by fastforce
  then obtain b' where "must_analysis ops entry transfer ! i' = Some b'" "bits_set b' \<subseteq> bits_set (transfer (ops ! i) b)"
    using b(1) succ by (auto simp: edges_closed_def)
  with holds_smaller assms(4) [OF b] show "\<exists>b. must_analysis ops entry transfer ! i' = Some b \<and> holds b w'" by blast
qed

end

end
