(* ===== verification/Verify_Init.thy ===== *)
theory Verify_Init
  imports Must_Analysis Call_Graph
begin

text \<open>
  Definite initialization (\<open>src/src/verify_init.rs\<close>): rule 1 over the locals of a chunk, rule 2 over the
  private data slots of a module, and the soundness of both over the runs of the machine.
\<close>

unbundle bit_operations_syntax

section \<open>Rule 1: locals\<close>

datatype init_error = IE_Local nat u16 | IE_Data nat u32

fun first_err :: "(nat \<Rightarrow> 'e option) \<Rightarrow> nat list \<Rightarrow> 'e + unit" where
  "first_err f [] = Inr ()"
| "first_err f (i # is) = (case f i of Some e \<Rightarrow> Inl e | None \<Rightarrow> first_err f is)"

lemma first_err_Inr: "first_err f is = Inr u \<longleftrightarrow> (\<forall>i \<in> set is. f i = None)"
  by (induction "is") (auto split: option.splits)

definition local_entry :: "chunk \<Rightarrow> bits" where
  "local_entry c = (let width = unat (ch_local_count c) in
     foldl (\<lambda>b p. bits_insert p b) (bits_empty width) [0..<min (unat (ch_param_count c)) width])"

definition local_transfer :: "chunk \<Rightarrow> op \<Rightarrow> bits \<Rightarrow> bits" where
  "local_transfer c x b =
     (case x of
        SetLocal i \<Rightarrow> bits_insert (unat i) b
      | Stream \<Rightarrow>
          (let e = bits_empty (unat (ch_local_count c)) in
           if ch_param_count c > 0 \<and> unat (ch_local_count c) > 0 then bits_insert 0 e else e)
      | _ \<Rightarrow> b)"

definition local_err :: "chunk \<Rightarrow> bits option list \<Rightarrow> nat \<Rightarrow> init_error option" where
  "local_err c state ip =
     (case state ! ip of
        Some b \<Rightarrow>
          (case ch_ops c ! ip of
             GetLocal i \<Rightarrow> if unat i < unat (ch_local_count c) \<and> \<not> bits_has b (unat i) then Some (IE_Local ip i) else None
           | _ \<Rightarrow> None)
      | None \<Rightarrow> None)"

definition check_locals :: "chunk \<Rightarrow> init_error + unit" where
  "check_locals c =
     (let state = must_analysis (ch_ops c) (local_entry c) (local_transfer c) in
      first_err (local_err c state) [0..<length state])"

text \<open>
  The locals a run has written when it reaches an instruction: the arguments at the entry, the target of
  every \<open>SetLocal\<close>; \<open>Reset\<close> clears all of them and goes on after the first \<open>Stream\<close>, where the resume has
  written the input.
\<close>

fun local_writes :: "op \<Rightarrow> nat set \<Rightarrow> nat set" where
  "local_writes (SetLocal i) W = insert (unat i) W"
| "local_writes _ W = W"

inductive local_run :: "chunk \<Rightarrow> nat \<Rightarrow> nat set \<Rightarrow> bool" for c where
  lr_start: "local_run c 0 {i. i < unat (ch_param_count c)}"
| lr_step: "local_run c i W \<Longrightarrow> i < length (ch_ops c) \<Longrightarrow> i' \<in> set (frame_succs (ctl_of (ch_ops c ! i)) i) \<Longrightarrow>
    local_run c i' (local_writes (ch_ops c ! i) W)"
| lr_reset: "local_run c i W \<Longrightarrow> i < length (ch_ops c) \<Longrightarrow> ch_ops c ! i = Reset \<Longrightarrow>
    position (\<lambda>x. x = Stream) (ch_ops c) = Some s \<Longrightarrow> local_run c (Suc s) (if ch_param_count c > 0 then {0} else {})"

definition local_holds :: "bits \<Rightarrow> nat set \<Rightarrow> bool" where
  "local_holds b W \<longleftrightarrow> bits_set b \<subseteq> W"

lemma bits_insert_len [simp]: "length (bits_insert i b) = length b"
  by (simp add: bits_insert_def split: option.splits)

lemma local_entry_len [simp]: "length (local_entry c) = length (bits_empty (unat (ch_local_count c)))"
proof -
  have "length (foldl (\<lambda>b p. bits_insert p b) b xs) = length b" for xs b by (induction xs arbitrary: b) simp_all
  then show ?thesis by (simp add: local_entry_def Let_def)
qed

lemma local_entry_set: "bits_set (local_entry c) \<subseteq> {i. i < unat (ch_param_count c)}"
proof -
  have "bits_set (foldl (\<lambda>b p. bits_insert p b) b xs) \<subseteq> bits_set b \<union> set xs" for xs b
  proof (induction xs arbitrary: b)
    case (Cons x xs)
    from Cons [of "bits_insert x b"] show ?case by (auto simp: bits_set_insert split: if_splits)
  qed simp
  from this [of "bits_empty (unat (ch_local_count c))"] show ?thesis by (fastforce simp: local_entry_def Let_def)
qed

interpretation locals: must_flow "ch_ops c" "local_transfer c" "local_entry c" local_holds for c
  by unfold_locales (auto simp: local_transfer_def local_holds_def Let_def split: op.splits)

lemma local_transfer_holds:
  assumes "local_holds b W" "ch_param_count c > 0 \<longrightarrow> 0 \<in> W"
  shows "local_holds (local_transfer c x b) (local_writes x W)"
  using assms by (cases x) (auto simp: local_holds_def local_transfer_def Let_def bits_set_insert mem_bits_set split: if_splits)

lemma stream_clears: "bits_set (local_transfer c Stream b) \<subseteq> (if ch_param_count c > 0 then {0} else {})"
  by (auto simp: local_transfer_def Let_def bits_set_insert mem_bits_set)


lemma path_reached:
  assumes "fpath (ch_ops c) i tr j" "locals.reached c i UNIV" "j < length (ch_ops c)"
  shows "locals.reached c j UNIV"
  using assms
proof (induction rule: fpath.induct)
  case (fp_step i i' tr j)
  have "locals.reached c i' UNIV"
    by (rule locals.reached_edge [OF fp_step.prems(1) fp_step.hyps(1,2)]) (simp add: local_holds_def)
  with fp_step show ?case by simp
qed simp_all

lemma local_writes_grow: "W \<subseteq> local_writes x W"
  by (cases x) auto

text \<open>Every run is at a reached instruction whose set holds of it, if control can get to the first \<open>Stream\<close>.\<close>

lemma local_run_reached:
  assumes stream: "\<And>s. position (\<lambda>x. x = Stream) (ch_ops c) = Some s \<Longrightarrow> \<exists>tr. fpath (ch_ops c) 0 tr s"
  shows "local_run c ip W \<Longrightarrow> locals.reached c ip W \<and> (ch_param_count c > 0 \<longrightarrow> 0 \<in> W)"
proof (induction rule: local_run.induct)
  case lr_start
  have "locals.reached c 0 {i. i < unat (ch_param_count c)}"
    by (rule locals.reached_entry) (simp add: local_holds_def local_entry_set)
  then show ?case by (simp add: word_less_nat_alt)
next
  case (lr_step i W i')
  then have "locals.reached c i W" "ch_param_count c > 0 \<longrightarrow> 0 \<in> W" by simp_all
  from locals.reached_edge [OF this(1) lr_step.hyps(2,3) local_transfer_holds [OF _ this(2)]]
  have "locals.reached c i' (local_writes (ch_ops c ! i) W)" .
  with \<open>ch_param_count c > 0 \<longrightarrow> 0 \<in> W\<close> local_writes_grow [of W] show ?case by blast
next
  case (lr_reset i W s)
  have s: "s < length (ch_ops c)" "ch_ops c ! s = Stream" using lr_reset(4) unfolding position_Some by blast+
  have "locals.reached c 0 UNIV" by (rule locals.reached_entry) (simp add: local_holds_def)
  then have "locals.reached c s UNIV" using stream [OF lr_reset(4)] s(1) path_reached by blast
  then have "locals.reached c (Suc s) (if ch_param_count c > 0 then {0} else {})"
  proof (rule locals.reached_edge [OF _ s(1)])
    show "Suc s \<in> set (frame_succs (ctl_of (ch_ops c ! s)) s)" using s(2) by simp
    fix b show "local_holds (local_transfer c (ch_ops c ! s) b) (if ch_param_count c > 0 then {0} else {})"
      unfolding s(2) local_holds_def by (rule stream_clears)
  qed
  then show ?case by simp
qed

lemma check_locals_sound:
  assumes "check_locals c = Inr ()" and "\<And>s. position (\<lambda>x. x = Stream) (ch_ops c) = Some s \<Longrightarrow> \<exists>tr. fpath (ch_ops c) 0 tr s"
    and "local_run c ip W" "ip < length (ch_ops c)" "ch_ops c ! ip = GetLocal i" "unat i < unat (ch_local_count c)"
  shows "unat i \<in> W"
proof -
  have "locals.reached c ip W" using local_run_reached [OF assms(2,3)] by blast
  then obtain b where b: "must_analysis (ch_ops c) (local_entry c) (local_transfer c) ! ip = Some b" "bits_set b \<subseteq> W"
    using assms(4) by (auto simp: locals.reached_def local_holds_def)
  have "length (must_analysis (ch_ops c) (local_entry c) (local_transfer c)) = length (ch_ops c)"
    by (rule must_analysis_fixpoint(3) [OF locals.transfer_len refl]) (use assms(4) in auto)
  then have "local_err c (must_analysis (ch_ops c) (local_entry c) (local_transfer c)) ip = None"
    using assms(1,4) by (simp add: check_locals_def Let_def first_err_Inr)
  with b assms(5,6) show ?thesis by (auto simp: local_err_def bits_set_def split: if_splits)
qed


section \<open>Rule 2: private data\<close>

text \<open>The private slots whose initializer is \<open>Unit\<close> or missing, ascending.\<close>

fun unit_slots_from :: "const_value list \<Rightarrow> data_slot list \<Rightarrow> nat \<Rightarrow> nat \<Rightarrow> u32 list" where
  "unit_slots_from init [] slot k = []"
| "unit_slots_from init (s # ss) slot k =
     (if slot_visibility s = Private
      then (case nth_opt init k of
              None \<Rightarrow> of_nat slot # unit_slots_from init ss (slot + 1) (k + 1)
            | Some CV_Unit \<Rightarrow> of_nat slot # unit_slots_from init ss (slot + 1) (k + 1)
            | Some _ \<Rightarrow> unit_slots_from init ss (slot + 1) (k + 1))
      else unit_slots_from init ss (slot + 1) k)"

definition unit_private_slots :: "kmodule \<Rightarrow> u32 list" where
  "unit_private_slots m =
     (case m_data_layout m of None \<Rightarrow> [] | Some dl \<Rightarrow> unit_slots_from (dl_private_init dl) (dl_slots dl) 0 0)"

text \<open>\<open>partition_point\<close> on a list split by the predicate, and \<open>binary_search\<close> on an ascending one.\<close>

definition partition_point :: "('a \<Rightarrow> bool) \<Rightarrow> 'a list \<Rightarrow> nat" where
  "partition_point p xs = length (takeWhile p xs)"

definition binary_search :: "'a list \<Rightarrow> 'a \<Rightarrow> nat option" where
  "binary_search xs x = position (\<lambda>y. y = x) xs"

definition unit_range :: "u32 list \<Rightarrow> u32 \<Rightarrow> u32 \<Rightarrow> nat list" where
  "unit_range unit base len =
     (let e = sat_add (unat base) (unat len) in
      [partition_point (\<lambda>s. s < base) unit ..< partition_point (\<lambda>s. unat s < e) unit])"

text \<open>\<open>callees_first\<close>: chunks in an order where callees precede callers, without those on a cycle.\<close>

definition distinct_callees :: "kmodule \<Rightarrow> nat \<Rightarrow> nat list" where
  "distinct_callees m c = foldl (\<lambda>seen k. if k \<in> set seen then seen else seen @ [k]) [] (chunk_callees m c)"

definition callers :: "kmodule \<Rightarrow> nat \<Rightarrow> nat list" where
  "callers m k = filter (\<lambda>c. k \<in> set (distinct_callees m c)) [0..<length (m_chunks m)]"

text \<open>One callee of each of \<open>ks\<close> is done; \<open>None\<close> is the panic of an index or of \<open>pending[caller] -= 1\<close>.\<close>

fun release_callers :: "nat list \<Rightarrow> nat list \<Rightarrow> nat list \<Rightarrow> (nat list \<times> nat list) option" where
  "release_callers [] pending ready = Some (pending, ready)"
| "release_callers (k # ks) pending ready =
     (case nth_opt pending k of
        None \<Rightarrow> None
      | Some 0 \<Rightarrow> None
      | Some (Suc p) \<Rightarrow> release_callers ks (pending[k := p]) (if p = 0 then ready @ [k] else ready))"

lemma release_callers_sum:
  "release_callers ks pending ready = Some (pending', ready') \<Longrightarrow>
     sum_list pending' + length ready' \<le> sum_list pending + length ready"
proof (induction ks pending ready rule: release_callers.induct)
  case (2 k ks pending ready)
  then obtain p where k: "k < length pending" "pending ! k = Suc p"
    and r: "release_callers ks (pending[k := p]) (if p = 0 then ready @ [k] else ready) = Some (pending', ready')"
    by (auto split: option.splits nat.splits)
  have "sum_list (pending[k := p]) < sum_list pending" using sum_list_update_less [OF k(1), of id p] k(2) by simp
  moreover have "sum_list pending' + length ready' \<le> sum_list (pending[k := p]) + length (if p = 0 then ready @ [k] else ready)"
    using "2.IH" k r by (simp add: nth_opt_def)
  ultimately show ?case by (simp split: if_splits)
qed simp

function order_loop :: "kmodule \<Rightarrow> nat list \<Rightarrow> nat list \<Rightarrow> nat list \<Rightarrow> nat list option" where
  "order_loop m order pending [] = Some order"
| "order_loop m order pending (c # ready) =
     (case release_callers (callers m c) pending ready of
        None \<Rightarrow> None
      | Some (pending', ready') \<Rightarrow> order_loop m (order @ [c]) pending' ready')"
  by pat_completeness auto
termination
  by (relation "measure (\<lambda>(m, order, pending, ready). sum_list pending + length ready)")
    (auto dest!: release_callers_sum)

definition callees_first :: "kmodule \<Rightarrow> nat list option" where
  "callees_first m =
     (let n = length (m_chunks m); pending = map (\<lambda>c. length (distinct_callees m c)) [0..<n] in
      order_loop m [] pending (filter (\<lambda>c. pending ! c = 0) [0..<n]))"

definition data_transfer :: "u32 list \<Rightarrow> bits list \<Rightarrow> op \<Rightarrow> bits \<Rightarrow> bits" where
  "data_transfer unit summaries x b =
     (case x of
        SetData s \<Rightarrow> (case binary_search unit s of Some i \<Rightarrow> bits_insert i b | None \<Rightarrow> b)
      | Call c _ \<Rightarrow> (case nth_opt summaries (unat c) of Some summary \<Rightarrow> bits_join b summary | None \<Rightarrow> b)
      | _ \<Rightarrow> b)"

definition data_analysis :: "kmodule \<Rightarrow> u32 list \<Rightarrow> bits list \<Rightarrow> chunk \<Rightarrow> bits option list" where
  "data_analysis m unit summaries c =
     must_analysis (ch_ops c) (bits_empty (length unit)) (data_transfer unit summaries)"

text \<open>The meet of the sets at the reached returns.\<close>

definition return_step :: "chunk \<Rightarrow> bits option list \<Rightarrow> bits option \<Rightarrow> nat \<Rightarrow> bits option" where
  "return_step c state acc ip =
     (case state ! ip of
        Some b \<Rightarrow> if ch_ops c ! ip = Return
          then Some (case acc of Some a \<Rightarrow> fst (bits_meet a b) | None \<Rightarrow> b) else acc
      | None \<Rightarrow> acc)"

definition at_return :: "chunk \<Rightarrow> bits option list \<Rightarrow> bits option" where
  "at_return c state = foldl (return_step c state) None [0..<length state]"

definition summary_step :: "kmodule \<Rightarrow> u32 list \<Rightarrow> bits list \<Rightarrow> nat \<Rightarrow> bits list" where
  "summary_step m unit summaries c =
     (let chunk = m_chunks m ! c in
      summaries[c := (case at_return chunk (data_analysis m unit summaries chunk) of
                        Some b \<Rightarrow> b | None \<Rightarrow> bits_empty (length unit))])"

definition data_err :: "u32 list \<Rightarrow> chunk \<Rightarrow> bits option list \<Rightarrow> nat \<Rightarrow> init_error option" where
  "data_err unit c state ip =
     (case state ! ip of
        None \<Rightarrow> None
      | Some b \<Rightarrow>
          (let read = (case ch_ops c ! ip of GetData s \<Rightarrow> unit_range unit s 1
             | GetDataIndexed base len \<Rightarrow> unit_range unit base len | _ \<Rightarrow> []) in
           map_option (\<lambda>i. IE_Data ip (unit ! i)) (List.find (\<lambda>i. \<not> bits_has b i) read)))"

fun check_data_chunks :: "kmodule \<Rightarrow> u32 list \<Rightarrow> bits list \<Rightarrow> chunk list \<Rightarrow> init_error + unit" where
  "check_data_chunks m unit summaries [] = Inr ()"
| "check_data_chunks m unit summaries (c # cs) =
     (let state = data_analysis m unit summaries c in
      bindR (first_err (data_err unit c state) [0..<length state]) (\<lambda>_. check_data_chunks m unit summaries cs))"

definition check_private_data :: "kmodule \<Rightarrow> (init_error + unit) option" where
  "check_private_data m =
     (let unit = unit_private_slots m in
      if unit = [] then Some (Inr ())
      else (case callees_first m of
              None \<Rightarrow> None
            | Some order \<Rightarrow>
                (let summaries = foldl (summary_step m unit) (replicate (length (m_chunks m)) (bits_empty (length unit))) order
                 in Some (check_data_chunks m unit summaries (m_chunks m)))))"

fun check_locals_all :: "chunk list \<Rightarrow> init_error + unit" where
  "check_locals_all [] = Inr ()"
| "check_locals_all (c # cs) = bindR (check_locals c) (\<lambda>_. check_locals_all cs)"

definition verify_definite_initialization :: "kmodule \<Rightarrow> (init_error + unit) option" where
  "verify_definite_initialization m =
     (case check_locals_all (m_chunks m) of Inl e \<Rightarrow> Some (Inl e) | Inr _ \<Rightarrow> check_private_data m)"


section \<open>The order of chunks\<close>

lemma distinct_callees: "set (distinct_callees m c) = set (chunk_callees m c)" "distinct (distinct_callees m c)"
proof -
  have "set (foldl (\<lambda>seen k. if k \<in> set seen then seen else seen @ [k]) s xs) = set s \<union> set xs
    \<and> (distinct s \<longrightarrow> distinct (foldl (\<lambda>seen k. if k \<in> set seen then seen else seen @ [k]) s xs))" for s xs :: "nat list"
    by (induction xs arbitrary: s) auto
  from this [of "[]" "chunk_callees m c"]
  show "set (distinct_callees m c) = set (chunk_callees m c)" "distinct (distinct_callees m c)"
    by (simp_all add: distinct_callees_def)
qed

lemma release_callers_eq:
  "distinct ks \<Longrightarrow> \<forall>k \<in> set ks. k < length pending \<and> 0 < pending ! k \<Longrightarrow>
     \<exists>pending'. release_callers ks pending ready = Some (pending', ready @ filter (\<lambda>k. pending ! k = 1) ks)
       \<and> length pending' = length pending
       \<and> (\<forall>c < length pending. pending' ! c = (if c \<in> set ks then pending ! c - 1 else pending ! c))"
proof (induction ks arbitrary: pending ready)
  case (Cons k ks)
  then obtain p where k: "k < length pending" "pending ! k = Suc p" by (auto simp: gr0_conv_Suc)
  have ks: "\<forall>j \<in> set ks. j < length (pending[k := p]) \<and> 0 < pending[k := p] ! j"
    using Cons.prems by (auto simp: nth_list_update)
  have "filter (\<lambda>j. pending[k := p] ! j = 1) ks = filter (\<lambda>j. pending ! j = 1) ks"
    using Cons.prems(1) by (intro filter_cong refl) (metis distinct.simps(2) nth_list_update_neq)
  with Cons.IH [OF _ ks, of "if p = 0 then ready @ [k] else ready"] Cons.prems(1) k show ?case
    by (auto simp: nth_opt_def nth_list_update)
qed simp

definition order_inv :: "kmodule \<Rightarrow> nat list \<Rightarrow> nat list \<Rightarrow> nat list \<Rightarrow> bool" where
  "order_inv m order pending ready \<longleftrightarrow> length pending = length (m_chunks m) \<and> distinct (order @ ready)
     \<and> set (order @ ready) \<subseteq> {..<length (m_chunks m)} \<and> callees_precede m order
     \<and> (\<forall>c < length (m_chunks m). pending ! c = card (set (chunk_callees m c) - set order)
         \<and> (pending ! c = 0 \<longleftrightarrow> c \<in> set (order @ ready)))"

lemma card_release: "finite S \<Longrightarrow> c \<notin> R \<Longrightarrow> card (S - insert c R) = (if c \<in> S then card (S - R) - 1 else card (S - R))"
proof (cases "c \<in> S")
  case True
  assume "finite S" "c \<notin> R"
  have "card (S - R - {c}) = card (S - R) - 1" using True \<open>c \<notin> R\<close> by (intro card_Diff_singleton) simp
  with True show ?thesis by (simp only: Diff_insert [of S c R] if_True)
next
  case False
  then have "S - insert c R = S - R" by auto
  with False show ?thesis by simp
qed

lemma order_inv_step:
  assumes "order_inv m order pending (c # ready)"
  shows "\<exists>pending' ready'. release_callers (callers m c) pending ready = Some (pending', ready')
    \<and> order_inv m (order @ [c]) pending' ready'"
proof -
  let ?n = "length (m_chunks m)"
  have inv: "length pending = ?n" "distinct (order @ c # ready)" "set (order @ c # ready) \<subseteq> {..<?n}" "callees_precede m order"
    "\<And>k. k < ?n \<Longrightarrow> pending ! k = card (set (chunk_callees m k) - set order)"
    "\<And>k. k < ?n \<Longrightarrow> pending ! k = 0 \<longleftrightarrow> k \<in> set (order @ c # ready)"
    using assms unfolding order_inv_def by blast+
  have calls: "k \<in> set (callers m c) \<longleftrightarrow> k < ?n \<and> c \<in> set (chunk_callees m k)" for k
    by (auto simp: callers_def distinct_callees)
  have pos: "0 < pending ! k" if "k \<in> set (callers m c)" for k
  proof -
    have "c \<in> set (chunk_callees m k) - set order" using that inv(2) calls by auto
    then have "0 < card (set (chunk_callees m k) - set order)" unfolding card_gt_0_iff by auto
    then show ?thesis using that inv(5) calls by auto
  qed
  have "\<forall>k \<in> set (callers m c). k < length pending \<and> 0 < pending ! k" using pos calls inv(1) by simp
  from release_callers_eq [OF _ this, of ready] obtain pending' where
    r: "release_callers (callers m c) pending ready = Some (pending', ready @ filter (\<lambda>k. pending ! k = 1) (callers m c))"
      "length pending' = length pending"
      "\<And>k. k < ?n \<Longrightarrow> pending' ! k = (if k \<in> set (callers m c) then pending ! k - 1 else pending ! k)"
    using inv(1) by (auto simp: callers_def)
  let ?ready = "ready @ filter (\<lambda>k. pending ! k = 1) (callers m c)"
  have fresh: "k \<notin> set (order @ c # ready)" if "k \<in> set (callers m c)" for k
    using pos [OF that] inv(6) [of k] calls that by auto
  have c0: "set (chunk_callees m c) \<subseteq> set order" using inv(3) inv(5,6) [of c] by simp
  have "order_inv m (order @ [c]) pending' ?ready"
    unfolding order_inv_def
  proof (intro conjI allI impI)
    show "length pending' = ?n" using r(2) inv(1) by simp
    show "distinct ((order @ [c]) @ ?ready)" using inv(2) fresh by (auto simp: callers_def)
    show "set ((order @ [c]) @ ?ready) \<subseteq> {..<?n}" using inv(3) calls by auto
    show "callees_precede m (order @ [c])" by (rule callees_precede_snoc [OF inv(4) c0])
    fix k assume k: "k < ?n"
    show "pending' ! k = card (set (chunk_callees m k) - set (order @ [c]))"
      using r(3) [OF k] inv(5) [OF k] calls [of k] k inv(2) card_release [of "set (chunk_callees m k)" c "set order"] by simp
    show "pending' ! k = 0 \<longleftrightarrow> k \<in> set ((order @ [c]) @ ?ready)"
      using r(3) [OF k] inv(6) [OF k] pos [of k] by auto
  qed
  with r(1) show ?thesis by blast
qed

lemma order_loop_correct:
  "order_inv m order pending ready \<Longrightarrow>
     \<exists>result. order_loop m order pending ready = Some result \<and> distinct result \<and> set result \<subseteq> {..<length (m_chunks m)}
       \<and> callees_precede m result"
proof (induction m order pending ready rule: order_loop.induct)
  case (1 m order pending)
  then show ?case by (simp add: order_inv_def)
next
  case (2 m order pending c ready)
  then show ?case using order_inv_step [OF "2.prems"] by auto
qed

lemma callees_first_correct:
  "\<exists>order. callees_first m = Some order \<and> distinct order \<and> set order \<subseteq> {..<length (m_chunks m)} \<and> callees_precede m order"
proof -
  let ?n = "length (m_chunks m)"
  let ?p = "map (\<lambda>c. length (distinct_callees m c)) [0..<?n]"
  have "length (distinct_callees m c) = card (set (chunk_callees m c))" for c
    using distinct_card [OF distinct_callees(2)] distinct_callees(1) by metis
  then have "order_inv m [] ?p (filter (\<lambda>c. ?p ! c = 0) [0..<?n])" by (auto simp: order_inv_def callees_precede_def)
  from order_loop_correct [OF this] show ?thesis by (simp add: callees_first_def Let_def)
qed

lemma verify_definite_initialization_total: "\<exists>r. verify_definite_initialization m = Some r"
  using callees_first_correct [of m]
  by (auto simp: verify_definite_initialization_def check_private_data_def Let_def split: sum.splits)


section \<open>Runs over private data\<close>

text \<open>
  The private slots a run has written.  A call runs its callee to a \<open>Return\<close>; \<open>Reset\<close> goes on after
  the first \<open>Stream\<close>; writes persist over both.  The set at the entry is arbitrary: the host may enter
  any chunk, and a run may follow others.
\<close>

fun data_writes :: "op \<Rightarrow> nat set \<Rightarrow> nat set" where
  "data_writes (SetData s) D = insert (unat s) D"
| "data_writes _ D = D"

inductive data_exec :: "kmodule \<Rightarrow> nat \<Rightarrow> nat \<Rightarrow> nat set \<Rightarrow> nat \<Rightarrow> nat set \<Rightarrow> bool" for m where
  de_here: "data_exec m c i D i D"
| de_step: "i < length (ch_ops (m_chunks m ! c)) \<Longrightarrow> (\<And>k n. ch_ops (m_chunks m ! c) ! i \<noteq> Call k n) \<Longrightarrow>
    i' \<in> set (frame_succs (ctl_of (ch_ops (m_chunks m ! c) ! i)) i) \<Longrightarrow>
    data_exec m c i' (data_writes (ch_ops (m_chunks m ! c) ! i) D) j D' \<Longrightarrow> data_exec m c i D j D'"
| de_call: "i < length (ch_ops (m_chunks m ! c)) \<Longrightarrow> ch_ops (m_chunks m ! c) ! i = Call k n \<Longrightarrow>
    unat k < length (m_chunks m) \<Longrightarrow> data_exec m (unat k) 0 D r D1 \<Longrightarrow>
    r < length (ch_ops (m_chunks m ! unat k)) \<Longrightarrow> ch_ops (m_chunks m ! unat k) ! r = Return \<Longrightarrow>
    data_exec m c (Suc i) D1 j D' \<Longrightarrow> data_exec m c i D j D'"
| de_reset: "i < length (ch_ops (m_chunks m ! c)) \<Longrightarrow> ch_ops (m_chunks m ! c) ! i = Reset \<Longrightarrow>
    position (\<lambda>x. x = Stream) (ch_ops (m_chunks m ! c)) = Some s \<Longrightarrow>
    data_exec m c (Suc s) D j D' \<Longrightarrow> data_exec m c i D j D'"

text \<open>
  \<open>Reset\<close> goes back to an instruction the run has already passed: no path from the entry reaches a
  \<open>Reset\<close> around the first \<open>Stream\<close>.
\<close>

definition restarts_after_stream :: "op list \<Rightarrow> bool" where
  "restarts_after_stream ops \<longleftrightarrow> (\<forall>s tr r. position (\<lambda>x. x = Stream) ops = Some s \<longrightarrow> fpath ops 0 tr r \<longrightarrow>
     r < length ops \<longrightarrow> ops ! r = Reset \<longrightarrow> s \<in> set tr)"

lemma restarts_at_start:
  assumes "position (\<lambda>x. x = Stream) ops = Some 0"
  shows "restarts_after_stream ops"
  unfolding restarts_after_stream_def
proof (intro allI impI)
  fix s tr r
  assume s: "position (\<lambda>x. x = Stream) ops = Some s" and path: "fpath ops 0 tr r" and r: "ops ! r = Reset"
  have "s = 0" "ops ! 0 = Stream" using assms s by (auto simp: position_Some)
  with path r show "s \<in> set tr" by (cases tr) (auto elim: fpath_ConsE)
qed

lemma restarts_without_reset: "Reset \<notin> set ops \<Longrightarrow> restarts_after_stream ops"
  unfolding restarts_after_stream_def by (metis nth_mem)

definition data_holds :: "u32 list \<Rightarrow> bits \<Rightarrow> nat set \<Rightarrow> bool" where
  "data_holds unit b D \<longleftrightarrow> (\<forall>q \<in> bits_set b. q < length unit \<longrightarrow> unat (unit ! q) \<in> D)"

lemma data_transfer_len: "length (data_transfer unit summaries x b) = length b"
  by (auto simp: data_transfer_def split: op.splits option.splits)

interpretation privs: must_flow "ch_ops c" "data_transfer unit summaries" "bits_empty (length unit)" "data_holds unit"
  for c :: chunk and unit summaries
  by unfold_locales (auto simp: data_transfer_len data_holds_def)

lemma bits_join_subset: "bits_set (bits_join a b) \<subseteq> bits_set a \<union> bits_set b"
  by (auto simp: mem_bits_set bits_join_nth bit_or_iff split: if_splits)

lemma data_exec_grow: "data_exec m c i D j D' \<Longrightarrow> D \<subseteq> D'"
proof (induction rule: data_exec.induct)
  case (de_step i c i' D j D')
  have "D \<subseteq> data_writes x D" for x by (cases x) auto
  with de_step show ?case by blast
qed auto

lemma data_transfer_step:
  assumes "data_holds unit b D" "\<And>k n. x \<noteq> Call k n"
  shows "data_holds unit (data_transfer unit summaries x b) (data_writes x D)"
  using assms
  by (cases x) (auto simp: data_holds_def data_transfer_def binary_search_def position_Some bits_set_insert
      split: option.splits if_splits)

definition summaries_sound :: "kmodule \<Rightarrow> u32 list \<Rightarrow> bits list \<Rightarrow> bool" where
  "summaries_sound m unit summaries \<longleftrightarrow>
     (\<forall>k D r D1. k < length summaries \<longrightarrow> data_exec m k 0 D r D1 \<longrightarrow> r < length (ch_ops (m_chunks m ! k)) \<longrightarrow>
        ch_ops (m_chunks m ! k) ! r = Return \<longrightarrow> data_holds unit (summaries ! k) D1)"

lemma data_transfer_call:
  assumes "data_holds unit b D" "D \<subseteq> D1" "unat k < length summaries \<longrightarrow> data_holds unit (summaries ! unat k) D1"
  shows "data_holds unit (data_transfer unit summaries (Call k n) b) D1"
proof (cases "nth_opt summaries (unat k)")
  case None
  then show ?thesis using assms(1,2) by (auto simp: data_holds_def data_transfer_def simp del: nth_opt_None)
next
  case (Some s)
  then have "data_holds unit s D1" using assms(3) by auto
  then show ?thesis using assms(1,2) bits_join_subset [of b s] Some
    by (simp add: data_holds_def data_transfer_def del: nth_opt_Some) blast
qed

text \<open>
  What a run keeps: the analysis covers it where it stands, and either every way on to a \<open>Reset\<close> leads
  through the first \<open>Stream\<close>, or the analysis covers it after that \<open>Stream\<close> too.
\<close>

definition resets_through :: "op list \<Rightarrow> nat \<Rightarrow> nat \<Rightarrow> bool" where
  "resets_through ops s i \<longleftrightarrow> (\<forall>tr r. fpath ops i tr r \<longrightarrow> r < length ops \<longrightarrow> ops ! r = Reset \<longrightarrow> s \<in> set tr)"

lemma resets_through_step:
  assumes "resets_through ops s i" "i \<noteq> s" "i < length ops" "i' \<in> set (frame_succs (ctl_of (ops ! i)) i)"
  shows "resets_through ops s i'"
  unfolding resets_through_def
proof (intro allI impI)
  fix tr r assume "fpath ops i' tr r" "r < length ops" "ops ! r = Reset"
  with assms have "s \<in> set (i # tr)" using fp_step unfolding resets_through_def by metis
  with assms(2) show "s \<in> set tr" by simp
qed

lemma resets_through_here: "resets_through ops s i \<Longrightarrow> i < length ops \<Longrightarrow> ops ! i \<noteq> Reset"
  unfolding resets_through_def using fp_nil by fastforce

definition data_covered :: "u32 list \<Rightarrow> bits list \<Rightarrow> chunk \<Rightarrow> nat \<Rightarrow> nat set \<Rightarrow> bool" where
  "data_covered unit summaries c i D \<longleftrightarrow> privs.reached c unit summaries i D
     \<and> (\<forall>s. position (\<lambda>x. x = Stream) (ch_ops c) = Some s \<longrightarrow>
          resets_through (ch_ops c) s i \<or> privs.reached c unit summaries (Suc s) D)"

lemma reached_grow: "privs.reached c unit summaries i D \<Longrightarrow> D \<subseteq> D' \<Longrightarrow> privs.reached c unit summaries i D'"
  by (fastforce simp: privs.reached_def data_holds_def)

lemma data_covered_step:
  assumes "data_covered unit summaries c i D" "D \<subseteq> D'" "i < length (ch_ops c)"
    and "i' \<in> set (frame_succs (ctl_of (ch_ops c ! i)) i)"
    and "\<And>b. data_holds unit b D \<Longrightarrow> data_holds unit (data_transfer unit summaries (ch_ops c ! i) b) D'"
  shows "data_covered unit summaries c i' D'"
  unfolding data_covered_def
proof (intro conjI allI impI)
  have here: "privs.reached c unit summaries i D" using assms(1) by (simp add: data_covered_def)
  show next': "privs.reached c unit summaries i' D'" by (rule privs.reached_edge [OF here assms(3,4,5)])
  fix s assume s: "position (\<lambda>x. x = Stream) (ch_ops c) = Some s"
  show "resets_through (ch_ops c) s i' \<or> privs.reached c unit summaries (Suc s) D'"
  proof (cases "i = s")
    case True
    then have "i' = Suc s" using s assms(4) by (simp add: position_Some)
    with next' show ?thesis by simp
  next
    case False
    with s assms(1) show ?thesis
      using resets_through_step [OF _ False assms(3,4)] reached_grow [OF _ assms(2)] unfolding data_covered_def by blast
  qed
qed

lemma data_exec_covered:
  assumes "summaries_sound m unit summaries"
  shows "data_exec m c i D j D' \<Longrightarrow> data_covered unit summaries (m_chunks m ! c) i D \<Longrightarrow>
    data_covered unit summaries (m_chunks m ! c) j D'"
proof (induction rule: data_exec.induct)
  case (de_step i c i' D j D')
  have grow: "D \<subseteq> data_writes x D" for x by (cases x) auto
  have "data_covered unit summaries (m_chunks m ! c) i' (data_writes (ch_ops (m_chunks m ! c) ! i) D)"
    by (rule data_covered_step [OF de_step.prems grow de_step.hyps(1,3) data_transfer_step [OF _ de_step.hyps(2)]])
  with de_step.IH show ?case .
next
  case (de_call i c k n D r D1 j D')
  have callee: "unat k < length summaries \<longrightarrow> data_holds unit (summaries ! unat k) D1"
    using assms de_call.hyps(4,5,6) unfolding summaries_sound_def by blast
  note grow = data_exec_grow [OF de_call.hyps(4)]
  have "data_covered unit summaries (m_chunks m ! c) (Suc i) D1"
  proof (rule data_covered_step [OF de_call.prems grow de_call.hyps(1)])
    show "Suc i \<in> set (frame_succs (ctl_of (ch_ops (m_chunks m ! c) ! i)) i)" using de_call.hyps(2) by simp
    fix b assume "data_holds unit b D"
    then show "data_holds unit (data_transfer unit summaries (ch_ops (m_chunks m ! c) ! i) b) D1"
      unfolding de_call.hyps(2) by (rule data_transfer_call [OF _ grow callee])
  qed
  with de_call.IH(2) show ?case .
next
  case (de_reset i c s D j D')
  then have "privs.reached (m_chunks m ! c) unit summaries (Suc s) D"
    using resets_through_here unfolding data_covered_def by blast
  then have "data_covered unit summaries (m_chunks m ! c) (Suc s) D" using de_reset.hyps(3) by (simp add: data_covered_def)
  with de_reset.IH show ?case .
qed simp

lemma data_exec_entry:
  assumes "summaries_sound m unit summaries" "data_exec m c 0 D ip D'" "ip < length (ch_ops (m_chunks m ! c))"
    and "restarts_after_stream (ch_ops (m_chunks m ! c))"
  shows "\<exists>b. data_analysis m unit summaries (m_chunks m ! c) ! ip = Some b \<and> data_holds unit b D'
    \<and> length b = length (bits_empty (length unit))"
proof -
  have "privs.reached (m_chunks m ! c) unit summaries 0 D"
    by (rule privs.reached_entry) (simp add: data_holds_def)
  with assms(4) have "data_covered unit summaries (m_chunks m ! c) 0 D"
    unfolding data_covered_def restarts_after_stream_def resets_through_def by blast
  from data_exec_covered [OF assms(1,2) this] assms(3) obtain b where
    b: "data_analysis m unit summaries (m_chunks m ! c) ! ip = Some b" "data_holds unit b D'"
    by (auto simp: data_covered_def privs.reached_def data_analysis_def)
  have "length b = length (bits_empty (length unit))"
    by (rule must_analysis_fixpoint(4) [OF data_transfer_len [THEN trans] refl _ b(1) [unfolded data_analysis_def] assms(3)])
      (use assms(3) in auto)
  with b show ?thesis by blast
qed


lemma at_return_below:
  assumes "\<And>i b. i < length state \<Longrightarrow> state ! i = Some b \<Longrightarrow> length b = n"
    and "ip < length state" "ch_ops c ! ip = Return" "state ! ip = Some b"
  shows "\<exists>a. at_return c state = Some a \<and> bits_set a \<subseteq> bits_set b"
proof -
  let ?f = "\<lambda>k. foldl (return_step c state) None [0..<k]"
  have "k \<le> length state \<Longrightarrow> (\<forall>a. ?f k = Some a \<longrightarrow> length a = n)
      \<and> (\<forall>i b. i < k \<longrightarrow> ch_ops c ! i = Return \<longrightarrow> state ! i = Some b \<longrightarrow> (\<exists>a. ?f k = Some a \<and> bits_set a \<subseteq> bits_set b))" for k
  proof (induction k)
    case (Suc k)
    then have len: "\<And>a. ?f k = Some a \<Longrightarrow> length a = n" and old: "\<And>i b. i < k \<Longrightarrow> ch_ops c ! i = Return \<Longrightarrow> state ! i = Some b \<Longrightarrow>
        \<exists>a. ?f k = Some a \<and> bits_set a \<subseteq> bits_set b" by auto
    have s: "?f (Suc k) = return_step c state (?f k) k" by simp
    show ?case
    proof (cases "ch_ops c ! k = Return \<and> state ! k \<noteq> None")
      case True
      then obtain d where d: "ch_ops c ! k = Return" "state ! k = Some d" by auto
      have ld: "length d = n" using assms(1) [OF _ d(2)] Suc.prems by simp
      show ?thesis
      proof (cases "?f k")
        case None
        have f: "?f (Suc k) = Some d" unfolding s None by (simp add: return_step_def d)
        show ?thesis unfolding f using d ld old None by (auto simp: less_Suc_eq)
      next
        case (Some a)
        have m: "bits_set (fst (bits_meet a d)) = bits_set a \<inter> bits_set d" "length (fst (bits_meet a d)) = n"
          using len [OF Some] ld by (simp_all add: bits_set_meet)
        have f: "?f (Suc k) = Some (fst (bits_meet a d))" unfolding s Some by (simp add: return_step_def d)
        show ?thesis unfolding f using d m old Some by (fastforce simp: less_Suc_eq)
      qed
    next
      case False
      then have f: "?f (Suc k) = ?f k" unfolding s by (auto simp: return_step_def split: option.splits)
      show ?thesis unfolding f using len old False by (auto simp: less_Suc_eq)
    qed
  qed simp
  then show ?thesis using assms(2-4) unfolding at_return_def by blast
qed

lemma data_holds_smaller: "bits_set b' \<subseteq> bits_set b \<Longrightarrow> data_holds unit b D \<Longrightarrow> data_holds unit b' D"
  by (auto simp: data_holds_def)

lemma data_analysis_len:
  assumes "ch_ops c \<noteq> []"
  shows "length (data_analysis m unit summaries c) = length (ch_ops c)"
    and "data_analysis m unit summaries c ! i = Some b \<Longrightarrow> i < length (ch_ops c) \<Longrightarrow> length b = length (bits_empty (length unit))"
proof -
  have len: "length b = n \<Longrightarrow> length (data_transfer unit summaries x b) = n" for x b n by (simp add: data_transfer_len)
  show "length (data_analysis m unit summaries c) = length (ch_ops c)"
    unfolding data_analysis_def by (rule must_analysis_fixpoint(3) [OF len refl assms])
  show "data_analysis m unit summaries c ! i = Some b \<Longrightarrow> i < length (ch_ops c) \<Longrightarrow> length b = length (bits_empty (length unit))"
    unfolding data_analysis_def by (rule must_analysis_fixpoint(4) [OF len refl assms])
qed

lemma summary_step_sound:
  assumes "summaries_sound m unit summaries" "restarts_after_stream (ch_ops (m_chunks m ! c))"
  shows "summaries_sound m unit (summary_step m unit summaries c)"
  unfolding summaries_sound_def
proof (intro allI impI)
  fix k D r D1
  let ?ops = "ch_ops (m_chunks m ! k)" and ?state = "data_analysis m unit summaries (m_chunks m ! k)"
  assume k: "k < length (summary_step m unit summaries c)" and run: "data_exec m k 0 D r D1"
    and r: "r < length ?ops" "?ops ! r = Return"
  show "data_holds unit (summary_step m unit summaries c ! k) D1"
  proof (cases "k = c")
    case True
    obtain b where b: "?state ! r = Some b" "data_holds unit b D1" using data_exec_entry [OF assms(1) run r(1)] assms(2) True by blast
    have ne: "?ops \<noteq> []" using r(1) by auto
    note len = data_analysis_len [OF ne, of m unit summaries]
    obtain a where "at_return (m_chunks m ! k) ?state = Some a" "bits_set a \<subseteq> bits_set b"
      using at_return_below [of ?state _ r "m_chunks m ! k" b] len r b(1) by metis
    with b(2) k True show ?thesis by (simp add: summary_step_def Let_def data_holds_smaller)
  next
    case False
    then show ?thesis using assms(1) k run r by (simp add: summary_step_def Let_def summaries_sound_def)
  qed
qed

lemma summaries_all_sound:
  "summaries_sound m unit s \<Longrightarrow> \<forall>c \<in> set order. restarts_after_stream (ch_ops (m_chunks m ! c)) \<Longrightarrow>
    summaries_sound m unit (foldl (summary_step m unit) s order)"
  by (induction order arbitrary: s) (simp_all add: summary_step_sound)

text \<open>The slots an instruction reads.\<close>

fun data_reads :: "op \<Rightarrow> nat set" where
  "data_reads (GetData s) = {unat s}"
| "data_reads (GetDataIndexed base len) = {unat base..<unat base + unat len}"
| "data_reads _ = {}"

lemma unit_slots_sorted:
  "slot + length ss \<le> 2 ^ 32 \<Longrightarrow> sorted_wrt (<) (unit_slots_from init ss slot k)
     \<and> (\<forall>s \<in> set (unit_slots_from init ss slot k). slot \<le> unat s \<and> unat s < slot + length ss)"
proof (induction ss arbitrary: slot k)
  case (Cons s ss)
  have w: "unat (of_nat slot :: u32) = slot" using Cons.prems by (simp add: unat_of_nat take_bit_nat_eq_self)
  let ?rest = "\<lambda>k. unit_slots_from init ss (slot + 1) k"
  have ih: "sorted_wrt (<) (?rest k)" "\<forall>t \<in> set (?rest k). slot + 1 \<le> unat t \<and> unat t < slot + 1 + length ss" for k
    using Cons.IH [of "slot + 1" k] Cons.prems by auto
  have "unit_slots_from init (s # ss) slot k \<in> {?rest k, ?rest (k + 1), of_nat slot # ?rest (k + 1)}"
    by (auto split: option.splits const_value.splits)
  moreover have "sorted_wrt (<) (of_nat slot # ?rest (k + 1))" using ih [of "k + 1"] w by (auto simp: word_less_nat_alt)
  ultimately show ?case using ih [of k] ih [of "k + 1"] w by fastforce
qed simp

lemma unit_private_sorted:
  assumes "data_len m \<le> 2 ^ 32"
  shows "sorted_wrt (<) (unit_private_slots m)" and "s \<in> set (unit_private_slots m) \<Longrightarrow> unat s < data_len m"
  using assms unit_slots_sorted [of 0]
  by (auto simp: unit_private_slots_def data_len_def split: option.splits)

lemma takeWhile_below:
  assumes "sorted_wrt (<) xs" "i < length xs" "\<And>x y. x < y \<Longrightarrow> p y \<Longrightarrow> p (x :: u32)"
  shows "i < length (takeWhile p xs) \<longleftrightarrow> p (xs ! i)"
  using assms(1,2)
proof (induction xs arbitrary: i)
  case (Cons x xs)
  show ?case
  proof (cases i)
    case (Suc j)
    then have "x < xs ! j" using Cons.prems by simp
    then have "p (xs ! j) \<longrightarrow> p x" using assms(3) by blast
    with Cons Suc show ?thesis by auto
  qed simp
qed simp

lemma unit_range_mem:
  assumes "sorted_wrt (<) unit" "i < length unit" "unat (unit ! i) < u32_max"
  shows "i \<in> set (unit_range unit base len) \<longleftrightarrow> unat base \<le> unat (unit ! i) \<and> unat (unit ! i) < unat base + unat len"
proof -
  have "i < length (takeWhile (\<lambda>s. s < base) unit) \<longleftrightarrow> unit ! i < base"
    by (rule takeWhile_below [OF assms(1,2)]) auto
  moreover have "i < length (takeWhile (\<lambda>s. unat s < sat_add (unat base) (unat len)) unit)
      \<longleftrightarrow> unat (unit ! i) < sat_add (unat base) (unat len)"
    by (rule takeWhile_below [OF assms(1,2)]) (auto simp: word_less_nat_alt)
  ultimately show ?thesis using assms(3)
    by (auto simp: unit_range_def partition_point_def Let_def sat_add_def word_less_nat_alt)
qed


lemma check_data_chunks_Inr:
  "check_data_chunks m unit summaries cs = Inr u \<longleftrightarrow>
     (\<forall>c \<in> set cs. let state = data_analysis m unit summaries c in \<forall>ip < length state. data_err unit c state ip = None)"
  by (induction cs) (auto simp: Let_def bindR_Inr first_err_Inr)

lemma data_err_read:
  assumes "data_err unit c state ip = None" "state ! ip = Some b" "data_holds unit b D"
    and "sorted_wrt (<) unit" "i < length unit" "unat (unit ! i) < u32_max" "unat (unit ! i) \<in> data_reads (ch_ops c ! ip)"
  shows "unat (unit ! i) \<in> D"
proof -
  have "i \<in> set (case ch_ops c ! ip of GetData s \<Rightarrow> unit_range unit s 1 | GetDataIndexed base len \<Rightarrow> unit_range unit base len | _ \<Rightarrow> [])"
    using assms(7) unit_range_mem [OF assms(4-6)] by (cases "ch_ops c ! ip") auto
  then have "bits_has b i" using assms(1,2) by (auto simp: data_err_def Let_def find_None_iff)
  with assms(3,5) show ?thesis by (auto simp: data_holds_def bits_set_def)
qed

lemma check_private_data_sound:
  assumes "check_private_data m = Some (Inr ())" "data_len m \<le> u32_max" "c < length (m_chunks m)"
    and "data_exec m c 0 D ip D'" "ip < length (ch_ops (m_chunks m ! c))"
    and "s \<in> set (unit_private_slots m)" "unat s \<in> data_reads (ch_ops (m_chunks m ! c) ! ip)"
    and "\<forall>c \<in> set (m_chunks m). restarts_after_stream (ch_ops c)"
  shows "unat s \<in> D'"
proof -
  let ?unit = "unit_private_slots m" and ?c = "m_chunks m ! c"
  obtain order where order: "callees_first m = Some order" "set order \<subseteq> {..<length (m_chunks m)}"
    using callees_first_correct by blast
  let ?sums = "foldl (summary_step m ?unit) (replicate (length (m_chunks m)) (bits_empty (length ?unit))) order"
  have "summaries_sound m ?unit (replicate (length (m_chunks m)) (bits_empty (length ?unit)))"
    by (simp add: summaries_sound_def data_holds_def)
  then have sound: "summaries_sound m ?unit ?sums"
    by (rule summaries_all_sound) (use order(2) assms(8) in \<open>auto intro: nth_mem\<close>)
  have "?unit \<noteq> []" using assms(6) by auto
  then have "check_data_chunks m ?unit ?sums (m_chunks m) = Inr ()"
    using assms(1) order(1) by (simp add: check_private_data_def Let_def)
  then have "\<forall>ip < length (data_analysis m ?unit ?sums ?c). data_err ?unit ?c (data_analysis m ?unit ?sums ?c) ip = None"
    using assms(3) by (simp add: check_data_chunks_Inr Let_def)
  moreover have "ch_ops ?c \<noteq> []" using assms(5) by auto
  ultimately have err: "data_err ?unit ?c (data_analysis m ?unit ?sums ?c) ip = None"
    using assms(5) by (simp add: data_analysis_len)
  obtain b where b: "data_analysis m ?unit ?sums ?c ! ip = Some b" "data_holds ?unit b D'"
    using data_exec_entry [OF sound assms(4,5)] assms(3,8) by (meson nth_mem)
  obtain i where i: "i < length ?unit" "?unit ! i = s" using assms(6) by (auto simp: in_set_conv_nth)
  have len: "data_len m \<le> 2 ^ 32" using assms(2) by (simp add: u32_max_def)
  have "unat s < u32_max" using unit_private_sorted(2) [OF len assms(6)] assms(2) by simp
  with data_err_read [OF err b unit_private_sorted(1) [OF len] i(1)] i(2) assms(7) show ?thesis by simp
qed

lemma verify_definite_initialization_Inr:
  "verify_definite_initialization m = Some (Inr ()) \<longleftrightarrow>
     (\<forall>c \<in> set (m_chunks m). check_locals c = Inr ()) \<and> check_private_data m = Some (Inr ())"
proof -
  have "check_locals_all cs = Inr u \<longleftrightarrow> (\<forall>c \<in> set cs. check_locals c = Inr ())" for cs u
    by (induction cs) (auto simp: bindR_Inr)
  from this [of "m_chunks m"] show ?thesis
    by (cases "check_locals_all (m_chunks m)") (auto simp: verify_definite_initialization_def)
qed

section \<open>The slots the second rule protects\<close>

text \<open>
  A private slot whose load-time initializer is \<open>Unit\<close> or missing: its initializer is looked up by the
  number of private slots before it.
\<close>

definition unit_at_load :: "data_layout \<Rightarrow> nat \<Rightarrow> bool" where
  "unit_at_load dl s \<longleftrightarrow> s < length (dl_slots dl) \<and> slot_visibility (dl_slots dl ! s) = Private
     \<and> nth_opt (dl_private_init dl) (length (filter (\<lambda>d. slot_visibility d = Private) (take s (dl_slots dl)))) \<in> {None, Some CV_Unit}"

lemma unit_slots_mem:
  "slot + length ss \<le> 2 ^ 32 \<Longrightarrow> s \<in> set (unit_slots_from init ss slot k) \<longleftrightarrow>
     (\<exists>i < length ss. unat s = slot + i \<and> slot_visibility (ss ! i) = Private
        \<and> nth_opt init (k + length (filter (\<lambda>d. slot_visibility d = Private) (take i ss))) \<in> {None, Some CV_Unit})"
proof (induction ss arbitrary: slot k)
  case (Cons d ss)
  have w: "s = of_nat slot \<longleftrightarrow> unat s = slot"
    using Cons.prems by (auto simp: unat_of_nat take_bit_nat_eq_self)
  let ?k = "if slot_visibility d = Private then k + 1 else k"
  have step: "s \<in> set (unit_slots_from init (d # ss) slot k) \<longleftrightarrow>
      (unat s = slot \<and> slot_visibility d = Private \<and> nth_opt init k \<in> {None, Some CV_Unit})
      \<or> s \<in> set (unit_slots_from init ss (slot + 1) ?k)"
    unfolding w [symmetric]
    by (cases "nth_opt init k") (auto simp del: nth_opt_Some nth_opt_None split: const_value.splits)
  have k: "?k + n = k + (if slot_visibility d = Private then Suc n else n)" for n by simp
  have ih: "s \<in> set (unit_slots_from init ss (slot + 1) ?k) \<longleftrightarrow>
      (\<exists>i < length ss. unat s = slot + Suc i \<and> slot_visibility (ss ! i) = Private
        \<and> nth_opt init (k + length (filter (\<lambda>d. slot_visibility d = Private) (take (Suc i) (d # ss)))) \<in> {None, Some CV_Unit})"
    using Cons.IH [of "slot + 1" ?k] Cons.prems unfolding k by simp
  show ?case
    unfolding step ih by (simp only: list.size add_Suc_right add_0_right Ex_less_Suc2) simp
qed simp

end
