(* ===== verification/Trap_Analysis.thy ===== *)
theory Trap_Analysis
  imports Certified_Runs
begin

text \<open>
  The classification of language traps (\<open>src/src/trap_analysis.rs\<close>) and what it is worth on the machine: a
  module classified as trap-free never ends a run with a fault of the language.  The verifier the
  classification calls first is an argument, as its typed pass is not modelled.
\<close>

section \<open>The classification\<close>

type_synonym trap_location = "nat \<times> nat"

datatype trap_unsupported = IndexedValue | BoxedField | NativeCall

datatype trap_error =
    TE_InvalidModule | TE_Unsupported trap_location trap_unsupported | TE_Capacity nat nat nat

datatype instruction_class = IC_Clear | IC_MayTrap | IC_Unsupported trap_unsupported

datatype trap_verdict = TrapFree | MayTrap trap_location

fun first_over_cap :: "nat \<Rightarrow> chunk list \<Rightarrow> trap_error + unit" where
  "first_over_cap i [] = Inr ()"
| "first_over_cap i (c # cs) =
     (if length (ch_ops c) > TRAP_OPCODE_CAP then Inl (TE_Capacity i TRAP_OPCODE_CAP (length (ch_ops c)))
      else first_over_cap (Suc i) cs)"

definition preflight :: "kmodule \<Rightarrow> trap_error + unit" where
  "preflight m =
     (if \<not> (3 \<le> m_word_bits_log2 m \<and> m_word_bits_log2 m \<le> 6) \<or> \<not> (3 \<le> m_addr_bits_log2 m \<and> m_addr_bits_log2 m \<le> 6)
        \<or> m_float_bits_log2 m > 6 \<or> (case m_entry_point m of None \<Rightarrow> False | Some e \<Rightarrow> e \<ge> length (m_chunks m))
      then Inl TE_InvalidModule else first_over_cap 0 (m_chunks m))"

fun classify_native :: "u8 \<Rightarrow> instruction_class" where
  "classify_native n = (if and n 0x80 \<noteq> 0 then IC_Clear else IC_Unsupported NativeCall)"

fun classify_instruction :: "op \<Rightarrow> trap_error + instruction_class" where
  "classify_instruction (Trap kind) = (if trap_from_code kind = None then Inl TE_InvalidModule else Inr IC_MayTrap)"
| "classify_instruction (PushImmediate v) = (if v > 19 then Inl TE_InvalidModule else Inr IC_Clear)"
| "classify_instruction (GetIndex elem) = Inr (if has_bounds_outcome elem then IC_Clear else IC_Unsupported IndexedValue)"
| "classify_instruction (GetField f) = Inr (case f of SF_Boxed k \<Rightarrow> IC_Unsupported BoxedField | _ \<Rightarrow> IC_Clear)"
| "classify_instruction (GetTupleField f) = Inr (case f of TF_Boxed k \<Rightarrow> IC_Unsupported BoxedField | _ \<Rightarrow> IC_Clear)"
| "classify_instruction (GetEnumField f) = Inr (case f of EF_Boxed k \<Rightarrow> IC_Unsupported BoxedField | _ \<Rightarrow> IC_Clear)"
| "classify_instruction (CallVerifiedNative idx n) = Inr (classify_native n)"
| "classify_instruction (CallExternalNative idx n) = Inr (classify_native n)"
| "classify_instruction x = Inr IC_Clear"

text \<open>The walk keeps the first trap and the first unsupported instruction; an invalid one ends it.\<close>

type_synonym trap_acc = "trap_location option \<times> (trap_location \<times> trap_unsupported) option"

definition classify_step :: "trap_location \<Rightarrow> op \<Rightarrow> trap_acc \<Rightarrow> trap_error + trap_acc" where
  "classify_step loc x acc =
     (case acc of (first, unsupported) \<Rightarrow>
       bindR (classify_instruction x) (\<lambda>cl. Inr (case cl of
         IC_Clear \<Rightarrow> (first, unsupported)
       | IC_MayTrap \<Rightarrow> (case first of None \<Rightarrow> (Some loc, unsupported) | Some _ \<Rightarrow> (first, unsupported))
       | IC_Unsupported u \<Rightarrow> (case unsupported of None \<Rightarrow> (first, Some (loc, u)) | Some _ \<Rightarrow> (first, unsupported)))))"

fun classify_ops :: "nat \<Rightarrow> nat \<Rightarrow> op list \<Rightarrow> trap_acc \<Rightarrow> trap_error + trap_acc" where
  "classify_ops c i [] acc = Inr acc"
| "classify_ops c i (x # xs) acc = bindR (classify_step (c, i) x acc) (classify_ops c (Suc i) xs)"

fun classify_chunks :: "nat \<Rightarrow> chunk list \<Rightarrow> trap_acc \<Rightarrow> trap_error + trap_acc" where
  "classify_chunks c [] acc = Inr acc"
| "classify_chunks c (ch # chs) acc = bindR (classify_ops c 0 (ch_ops ch) acc) (classify_chunks (Suc c) chs)"

definition classify_traps :: "(kmodule \<Rightarrow> bool) \<Rightarrow> kmodule \<Rightarrow> trap_error + trap_verdict" where
  "classify_traps verified m =
     bindR (preflight m) (\<lambda>_.
     if \<not> verified m then Inl TE_InvalidModule
     else bindR (classify_chunks 0 (m_chunks m) (None, None)) (\<lambda>(first, unsupported).
       case unsupported of
         Some (loc, u) \<Rightarrow> Inl (TE_Unsupported loc u)
       | None \<Rightarrow> Inr (case first of None \<Rightarrow> TrapFree | Some loc \<Rightarrow> MayTrap loc)))"

section \<open>What the verdict says of the instructions\<close>

lemma classify_clear: "classify_instruction x = Inr IC_Clear \<Longrightarrow> clear_op x"
  by (cases x) (auto split: if_splits struct_field.splits tuple_field.splits enum_field.splits)

text \<open>The instructions of a module in order, with their locations.\<close>

definition located_ops :: "nat \<Rightarrow> chunk list \<Rightarrow> (trap_location \<times> op) list" where
  "located_ops c chs = concat (map (\<lambda>(j, ch). map (\<lambda>(i, x). ((c + j, i), x)) (enumerate 0 (ch_ops ch))) (enumerate 0 chs))"

fun classify_located :: "(trap_location \<times> op) list \<Rightarrow> trap_acc \<Rightarrow> trap_error + trap_acc" where
  "classify_located [] acc = Inr acc"
| "classify_located ((loc, x) # xs) acc = bindR (classify_step loc x acc) (classify_located xs)"

lemma classify_located_append:
  "classify_located (xs @ ys) acc = bindR (classify_located xs acc) (classify_located ys)"
proof (induction xs acc rule: classify_located.induct)
  case (2 loc x xs acc)
  then show ?case by (cases "classify_step loc x acc") auto
qed simp

lemma classify_ops_located: "classify_ops c i xs acc = classify_located (map (\<lambda>(j, x). ((c, j), x)) (enumerate i xs)) acc"
  by (induction xs arbitrary: i acc) (auto simp: bindR_def split: sum.split)

lemma located_Cons: "located_ops c (ch # chs) = map (\<lambda>(i, x). ((c, i), x)) (enumerate 0 (ch_ops ch)) @ located_ops (Suc c) chs"
proof -
  have "enumerate (Suc 0) chs = map (\<lambda>(j, x). (Suc j, x)) (enumerate 0 chs)"
    by (simp add: enumerate_Suc_eq apfst_def map_prod_def)
  then show ?thesis by (simp add: located_ops_def split_def comp_def)
qed

lemma classify_chunks_located: "classify_chunks c chs acc = classify_located (located_ops c chs) acc"
proof (induction chs arbitrary: c acc)
  case Nil
  then show ?case by (simp add: located_ops_def)
next
  case (Cons ch chs)
  then show ?case
    by (simp add: located_Cons classify_located_append classify_ops_located bindR_def split: sum.split)
qed

text \<open>The result of the walk, as filters of the sequence of classes.\<close>

definition or_first :: "'a option \<Rightarrow> 'a list \<Rightarrow> 'a option" where
  "or_first a xs = (case a of Some x \<Rightarrow> Some x | None \<Rightarrow> (case xs of [] \<Rightarrow> None | x # _ \<Rightarrow> Some x))"

definition traps_in :: "(trap_location \<times> op) list \<Rightarrow> trap_location list" where
  "traps_in xs = map fst (filter (\<lambda>(loc, x). classify_instruction x = Inr IC_MayTrap) xs)"

definition unsupported_in :: "(trap_location \<times> op) list \<Rightarrow> (trap_location \<times> trap_unsupported) list" where
  "unsupported_in xs = concat (map (\<lambda>(loc, x). case classify_instruction x of Inr (IC_Unsupported u) \<Rightarrow> [(loc, u)] | _ \<Rightarrow> []) xs)"

definition classifiable :: "(trap_location \<times> op) list \<Rightarrow> bool" where
  "classifiable xs \<longleftrightarrow> (\<forall>(loc, x) \<in> set xs. \<forall>e. classify_instruction x \<noteq> Inl e)"

lemma classify_instruction_error: "classify_instruction x = Inl e \<Longrightarrow> e = TE_InvalidModule"
  by (cases x) (auto split: if_splits)

lemma classify_located_result:
  "classify_located xs (a, b) =
     (if classifiable xs then Inr (or_first a (traps_in xs), or_first b (unsupported_in xs)) else Inl TE_InvalidModule)"
proof (induction xs arbitrary: a b)
  case Nil
  then show ?case by (auto simp: classifiable_def or_first_def traps_in_def unsupported_in_def split: option.split)
next
  case (Cons p xs)
  obtain loc x where p: "p = (loc, x)" by (cases p)
  show ?case
  proof (cases "classify_instruction x")
    case (Inl e)
    with p classify_instruction_error [OF Inl] show ?thesis by (auto simp: classify_step_def classifiable_def)
  next
    case (Inr cl)
    with p have *: "classifiable (p # xs) = classifiable xs" by (auto simp: classifiable_def)
    show ?thesis
      unfolding * using p Inr Cons.IH
      by (cases cl; cases a; cases b)
        (auto simp: classify_step_def or_first_def traps_in_def unsupported_in_def)
  qed
qed

lemma located_instructions: "map snd (located_ops c chs) = concat (map ch_ops chs)"
proof (induction chs arbitrary: c)
  case (Cons ch chs)
  have "map snd (map (\<lambda>(i, x). ((c, i), x)) (enumerate 0 (ch_ops ch))) = ch_ops ch"
    by (simp add: split_def comp_def)
  with Cons show ?case by (simp add: located_Cons)
qed (simp add: located_ops_def)

lemma located_all: "(\<forall>(loc, x) \<in> set (located_ops c chs). Q x) \<longleftrightarrow> (\<forall>ch \<in> set chs. \<forall>x \<in> set (ch_ops ch). Q x)"
proof -
  have "(\<forall>(loc, x) \<in> set (located_ops c chs). Q x) \<longleftrightarrow> (\<forall>x \<in> set (map snd (located_ops c chs)). Q x)" by auto
  also have "\<dots> \<longleftrightarrow> (\<forall>ch \<in> set chs. \<forall>x \<in> set (ch_ops ch). Q x)" unfolding located_instructions by auto
  finally show ?thesis .
qed

text \<open>The verdict, exactly: which modules are trap-free, and which trap is reported.\<close>

lemma filter_none: "traps_in xs = [] \<longleftrightarrow> (\<forall>(loc, x) \<in> set xs. classify_instruction x \<noteq> Inr IC_MayTrap)"
  "unsupported_in xs = [] \<longleftrightarrow> (\<forall>(loc, x) \<in> set xs. \<forall>u. classify_instruction x \<noteq> Inr (IC_Unsupported u))"
  by (auto simp: traps_in_def unsupported_in_def filter_empty_conv split: sum.splits instruction_class.splits)

lemma all_clear:
  "classifiable xs \<and> traps_in xs = [] \<and> unsupported_in xs = [] \<longleftrightarrow> (\<forall>(loc, x) \<in> set xs. classify_instruction x = Inr IC_Clear)"
proof -
  have "classify_instruction x = Inr IC_Clear \<longleftrightarrow> (\<forall>e. classify_instruction x \<noteq> Inl e) \<and> classify_instruction x \<noteq> Inr IC_MayTrap
      \<and> (\<forall>u. classify_instruction x \<noteq> Inr (IC_Unsupported u))" for x
    by (cases "classify_instruction x") (auto, metis instruction_class.exhaust)
  then show ?thesis unfolding filter_none classifiable_def by blast
qed

lemma classify_traps_free:
  "classify_traps verified m = Inr TrapFree \<longleftrightarrow>
     preflight m = Inr () \<and> verified m \<and> (\<forall>c \<in> set (m_chunks m). \<forall>x \<in> set (ch_ops c). classify_instruction x = Inr IC_Clear)"
proof -
  let ?xs = "located_ops 0 (m_chunks m)"
  have "classify_traps verified m = Inr TrapFree \<longleftrightarrow>
      preflight m = Inr () \<and> verified m \<and> classifiable ?xs \<and> traps_in ?xs = [] \<and> unsupported_in ?xs = []"
    by (cases "preflight m")
      (auto simp: classify_traps_def classify_chunks_located classify_located_result or_first_def split: list.splits prod.splits)
  also have "\<dots> \<longleftrightarrow> preflight m = Inr () \<and> verified m \<and> (\<forall>(loc, x) \<in> set ?xs. classify_instruction x = Inr IC_Clear)"
    unfolding all_clear ..
  also have "(\<forall>(loc, x) \<in> set ?xs. classify_instruction x = Inr IC_Clear) \<longleftrightarrow>
      (\<forall>c \<in> set (m_chunks m). \<forall>x \<in> set (ch_ops c). classify_instruction x = Inr IC_Clear)" by (rule located_all)
  finally show ?thesis .
qed

section \<open>What the verdict says of the machine\<close>

text \<open>The faults of the language: the soft errors of the script save the guard of types, and codes of host errors.\<close>

definition language_fault :: "vm_error \<Rightarrow> bool" where
  "language_fault e \<longleftrightarrow> error_category e = SoftScript \<and> e \<noteq> VM_TypeError \<or> (\<exists>c. e = VM_NativeErrorCode c)"

abbreviation no_fault :: "vm_error \<Rightarrow> bool" where
  "no_fault \<equiv> \<lambda>e. \<not> language_fault e"

definition all_clear_ops :: "kmodule \<Rightarrow> bool" where
  "all_clear_ops m \<longleftrightarrow> 3 \<le> unat (m_word_bits_log2 m) \<and> (\<forall>c \<in> set (m_chunks m). \<forall>x \<in> set (ch_ops c). clear_op x)"

text \<open>A grade that also holds of the errors of the stack and of the entry points.\<close>

locale run_class = error_class P for P +
  assumes more_guards [simp]: "P VM_StackUnderflow" "P VM_VerifyError" "P VM_NotSuspended"
begin

lemma raises_moves: "moves P k n vm r \<Longrightarrow> raises P r"
  by (cases r) auto

lemma raises_agrees: "agrees P x ip vm r \<Longrightarrow> raises P r"
  by (cases r) (auto simp: agrees_def)

text \<open>The instructions that leave the frame or suspend.\<close>

lemma raises_pop [raises_intros]: "raises P (pop vm)"
  by (simp add: pop_def)

lemma raises_push [raises_intros]: "raises P (push h v vm)"
  by (rule raises_moves [OF moves_push])

lemma raises_push_all [raises_intros]: "raises P (push_all h vs vm)"
  by (rule raises_moves [OF moves_push_all])

lemma raises_push_frame [raises_intros]: "raises P (push_frame h f vm)"
  by (simp add: push_frame_def split: option.split)

lemma raises_operand_start [raises_intros]: "raises P (operand_start n vm)"
  by (simp add: operand_start_simps)

lemma raises_exec_return: "raises P (exec_return h vm)"
  by (auto simp: exec_return_def Let_def intro!: raises_intros split: list.split)

lemma raises_exec_yield: "raises P (exec_yield vm)"
  by (auto simp: exec_yield_def intro!: raises_intros)

lemma raises_exec_reset: "raises P (exec_reset m ci vm)"
  by (auto simp: exec_reset_def Let_def split: option.split)

lemma raises_exec_call: "raises P (exec_call h m idx n vm)"
  by (auto simp: exec_call_def or_invalid_def intro!: raises_intros split: option.split)

lemma raises_end_of_chunk: "raises P (end_of_chunk h vm)"
  by (auto simp: end_of_chunk_def Let_def intro!: raises_intros)

text \<open>One turn, the loop and the entries, on a module of clear instructions.\<close>

lemma raises_step:
  assumes "all_clear_ops m" "native_errors P h" shows "raises P (step h m vm)"
proof (cases "vm_frames vm")
  case (Cons f fs)
  let ?c = "m_chunks m ! cf_chunk f" and ?vm = "fetch vm (cf_chunk f, cf_ip f)"
  have "raises P (exec_op h m (cf_chunk f) (ch_ops ?c ! cf_ip f) ?vm)" if inside: "cf_ip f < chunk_op_count m (cf_chunk f)"
  proof (cases "stays_in_frame (ch_ops ?c ! cf_ip f)")
    case True
    from inside have "cf_chunk f < length (m_chunks m)" "cf_ip f < length (ch_ops ?c)"
      by (auto simp: chunk_op_count_def split: option.splits)
    then have "?c \<in> set (m_chunks m)" "ch_ops ?c ! cf_ip f \<in> set (ch_ops ?c)" by simp_all
    with assms(1) have "clear_op (ch_ops ?c ! cf_ip f)" "3 \<le> unat (m_word_bits_log2 m)"
      unfolding all_clear_ops_def by blast+
    moreover have "vm_frames ?vm = f \<lparr> cf_ip := Suc (cf_ip f) \<rparr> # fs" using Cons by (simp add: fetch_def set_ip_def)
    ultimately show ?thesis
      by (intro raises_agrees [OF exec_op_agrees [OF True _ _ _ _ assms(2)]]) auto
  next
    case False
    then show ?thesis
      by (cases "ch_ops ?c ! cf_ip f")
        (auto simp: go_on_def intro!: raises_intros raises_exec_return raises_exec_yield raises_exec_reset raises_exec_call)
  qed
  with Cons show ?thesis by (simp add: step_def Let_def raises_end_of_chunk)
qed (simp add: step_def)

lemma raises_run_inner:
  assumes "all_clear_ops m" "native_errors P h" "run_inner fuel h m vm = Some r" shows "raises P r"
  using assms(3)
proof (induction fuel arbitrary: vm)
  case (Suc fuel)
  then show ?case using raises_step [OF assms(1,2), of vm]
    by (auto split: sum.splits option.splits prod.splits)
qed simp

lemma raises_run:
  assumes "all_clear_ops m" "native_errors P h" "run fuel h m vm = Some r" shows "raises P r"
proof (cases "vm_proven vm \<and> (\<not> vm_pop_proof vm \<or> vm_proof_state vm \<noteq> PS_Prepared)")
  case False
  let ?vm = "if vm_proven vm then vm \<lparr> vm_proof_state := PS_Poisoned \<rparr> else vm"
  from False assms(3) obtain r' where r': "run_inner fuel h m ?vm = Some r'"
    by (cases "run_inner fuel h m ?vm") (auto simp: run_def)
  from raises_run_inner [OF assms(1,2) r'] False assms(3) r' show ?thesis
    by (cases r') (auto simp: run_def)
qed (use assms(3) in \<open>auto simp: run_def\<close>)

lemma raises_begin_proven [raises_intros]: "raises P (begin_proven_entry allowed vm)"
  by (simp add: begin_proven_entry_def)

lemma raises_check_shape [raises_intros]: "raises P (check_host_composite_shape v shape)"
  by (auto simp: check_host_composite_shape_def split: wire_shape.split option.split)

lemma raises_check_all [raises_intros]: "(\<And>x. raises P (f x)) \<Longrightarrow> raises P (check_all f xs)"
  by (induction xs) (auto intro!: raises_intros)

lemma raises_natives [raises_intros]: "raises P (verify_native_classifications h m)"
  by (auto simp: verify_native_classifications_def check_native_site_def intro!: raises_intros split: prod.split option.split)

lemma raises_import [raises_intros]: "raises P (import_value h v vm)"
  by (auto simp: import_value_def intro!: raises_intros)

lemma raises_push_args [raises_intros]: "raises P (push_args h shapes args vm)"
  by (induction args arbitrary: shapes vm) (auto intro!: raises_intros split: list.split)

lemma raises_enter_function: "raises P (enter_function h m ci args vm)"
  by (auto simp: enter_function_def enter_frame_def Let_def intro!: raises_intros split: option.split)

lemma raises_enter_resume: "raises P (enter_resume h m input vm)"
  by (auto simp: enter_resume_def update_stream_parameter_def intro!: raises_intros split: option.split)

lemma raises_enter_breakpoint: "raises P (enter_from_breakpoint vm)"
  by (auto simp: enter_from_breakpoint_def intro!: raises_intros split: list.split)

lemma raises_entry_run:
  assumes "all_clear_ops m" "native_errors P h" "raises P r" "bindOR (Some r) (run fuel h m) = Some r'"
  shows "raises P r'"
  using assms(3,4) raises_run [OF assms(1,2)] by (cases r) auto

text \<open>No host entry whatever, on whatever state, ends in an error outside the grade.\<close>

lemma raises_after_enter:
  assumes "all_clear_ops m" "native_errors P h"
  shows "call_function_after_enter fuel h m ci args vm = Some r \<Longrightarrow> raises P r"
    and "resume_after_enter fuel h m input vm = Some r \<Longrightarrow> raises P r"
    and "resume_from_breakpoint_after_enter fuel h m vm = Some r \<Longrightarrow> raises P r"
  using raises_entry_run [OF assms] raises_enter_function raises_enter_resume raises_enter_breakpoint
  unfolding call_function_after_enter_def resume_after_enter_def resume_from_breakpoint_after_enter_def by blast+

lemma raises_with_shared:
  assumes "bindOR (Some (enter_shared m shared vm)) (\<lambda>vm. leave_shared (f vm)) = Some r"
    and "\<And>vm1 r0. f vm1 = Some r0 \<Longrightarrow> raises P r0"
  shows "raises P r"
proof (cases "enter_shared m shared vm")
  case (Inl e)
  with assms(1) have "r = Inl VM_NativeError" by (auto simp: enter_shared_def Let_def split: if_splits)
  then show ?thesis by simp
next
  case (Inr vm1)
  with assms(1) obtain r0 where "f vm1 = Some r0" "leave_shared (Some r0) = Some r"
    by (cases "f vm1") (auto simp: leave_shared_def)
  with assms(2) [of vm1 r0] show ?thesis by (cases r0) (auto simp: leave_shared_def)
qed

lemma raises_entries:
  assumes "all_clear_ops m" "native_errors P h"
  shows "call_function fuel h m ci args vm = Some r \<Longrightarrow> raises P r"
    and "call_with_shared fuel h m shared args vm = Some r \<Longrightarrow> raises P r"
    and "resume fuel h m input vm = Some r \<Longrightarrow> raises P r"
    and "resume_with_shared fuel h m shared input vm = Some r \<Longrightarrow> raises P r"
    and "resume_from_breakpoint fuel h m vm = Some r \<Longrightarrow> raises P r"
    and "resume_from_breakpoint_with_shared fuel h m shared vm = Some r \<Longrightarrow> raises P r"
proof -
  note after = raises_after_enter [OF assms]
  show "call_function fuel h m ci args vm = Some r \<Longrightarrow> raises P r" by (simp add: call_function_def after(1))
  have entry: "call_after_enter fuel h m args vm1 = Some r0 \<Longrightarrow> raises P r0" for vm1 r0
    by (auto simp: call_after_enter_def intro: after(1) split: option.splits)
  show "call_with_shared fuel h m shared args vm = Some r \<Longrightarrow> raises P r"
    using raises_with_shared [of m shared vm "call_after_enter fuel h m args" r] entry unfolding call_with_shared_def by blast
  have resumed: "resume_with_shared fuel h m buf input vm = Some r \<Longrightarrow> raises P r" for buf
    using raises_with_shared [of m buf vm "resume_after_enter fuel h m input" r] after(2) unfolding resume_with_shared_def by blast
  then show "resume_with_shared fuel h m shared input vm = Some r \<Longrightarrow> raises P r" .
  show "resume fuel h m input vm = Some r \<Longrightarrow> raises P r" unfolding resume_def by (rule resumed)
  show "resume_from_breakpoint fuel h m vm = Some r \<Longrightarrow> raises P r"
    using after(3) by (auto simp: resume_from_breakpoint_def split: if_splits)
  show "resume_from_breakpoint_with_shared fuel h m shared vm = Some r \<Longrightarrow> raises P r"
    using raises_with_shared [of m shared vm "resume_from_breakpoint_after_enter fuel h m" r] after(3)
    unfolding resume_from_breakpoint_with_shared_def by blast
qed

end

interpretation no_fault: run_class no_fault
  by unfold_locales (simp_all add: language_fault_def)

text \<open>A module that the analysis calls trap-free has only clear instructions.\<close>

lemma trap_free_clear:
  assumes "classify_traps verified m = Inr TrapFree" shows "all_clear_ops m"
proof -
  have "preflight m = Inr ()" and clear: "\<forall>c \<in> set (m_chunks m). \<forall>x \<in> set (ch_ops c). classify_instruction x = Inr IC_Clear"
    using assms by (simp_all add: classify_traps_free)
  then have "3 \<le> m_word_bits_log2 m" by (simp add: preflight_def split: if_splits)
  then have "3 \<le> unat (m_word_bits_log2 m)" by (simp add: word_le_nat_alt)
  with clear show ?thesis by (auto simp: all_clear_ops_def dest: classify_clear)
qed

end
