(* ===== verification/Flat_Roundtrip.thy ===== *)
theory Flat_Roundtrip
  imports Machine
begin

text \<open>
  Flat bodies read back what was written: a scalar at an offset, and every field of a tuple the machine
  builds in the arena.  A word keeps as many bytes as the module declares.
\<close>

section \<open>Little-endian words\<close>

lemma bit_from_le:
  "bit (from_le bs :: 'w::len word) i \<longleftrightarrow> i < LENGTH('w) \<and> i div 8 < length bs \<and> bit (bs ! (i div 8)) (i mod 8)"
proof (induction bs arbitrary: i)
  case (Cons b bs)
  show ?case
  proof (cases "i < 8")
    case True
    then show ?thesis by (auto simp: bit_or_iff bit_ucast_iff bit_push_bit_iff)
  next
    case False
    then have "i div 8 = Suc ((i - 8) div 8)" "(i - 8) mod 8 = i mod 8" by (auto simp: div_if mod_if)
    moreover have "\<not> bit b i" using False by (auto dest: bit_imp_le_length)
    ultimately show ?thesis using False by (auto simp: bit_or_iff bit_ucast_iff bit_push_bit_iff Cons)
  qed
qed simp

lemma nth_le8: "j < 8 \<Longrightarrow> le8 w ! j = ucast (drop_bit (8 * j) w)"
  by (simp add: le8_def)

lemma length_le8 [simp]: "length (le8 w) = 8"
  by (simp add: le8_def)

lemma from_le_take: "k \<le> 8 \<Longrightarrow> (from_le (take k (le8 w)) :: u64) = take_bit (8 * k) w"
proof (rule bit_word_eqI)
  fix i assume k: "k \<le> 8" and "i < LENGTH(64)"
  then have "i div 8 < 8" by simp
  then have "bit (from_le (take k (le8 w)) :: u64) i \<longleftrightarrow> i div 8 < k \<and> bit w (8 * (i div 8) + i mod 8)"
    using k \<open>i < LENGTH(64)\<close> by (auto simp: bit_from_le nth_le8 bit_ucast_iff bit_drop_bit_eq)
  moreover have "8 * (i div 8) + i mod 8 = i" by simp
  moreover have "i div 8 < k \<longleftrightarrow> i < 8 * k" by auto
  ultimately show "bit (from_le (take k (le8 w)) :: u64) i \<longleftrightarrow> bit (take_bit (8 * k) w) i"
    by (simp add: bit_take_bit_iff)
qed

lemma from_le_le8 [simp]: "from_le (le8 w) = w"
proof -
  have "take_bit 64 w = w" by (rule bit_word_eqI) (simp add: bit_simps)
  then show ?thesis using from_le_take [of 8 w] by simp
qed

text \<open>The word kept in \<open>wb\<close> bytes.\<close>

definition kept_word :: "nat \<Rightarrow> u64 \<Rightarrow> u64" where
  "kept_word wb w = signed_take_bit (8 * wb - 1) w"

lemma kept_word_8 [simp]: "kept_word 8 w = w"
proof (rule bit_word_eqI)
  fix n assume "n < LENGTH(64)"
  then have "n < 63 \<or> n = 63" by auto
  then show "bit (kept_word 8 w) n = bit w n" by (auto simp: kept_word_def bit_simps min_def)
qed

lemma sign_extension:
  assumes "0 < wb" "wb < 8"
  shows "(if and (take_bit (8 * wb) w) (push_bit (wb * 8 - 1) 1) \<noteq> 0
          then or (take_bit (8 * wb) w) (not (push_bit (wb * 8) 1 - 1)) else take_bit (8 * wb) w) = kept_word wb w"
proof -
  have top: "and (take_bit (8 * wb) w) (push_bit (wb * 8 - 1) 1) \<noteq> 0 \<longleftrightarrow> bit w (8 * wb - 1)"
  proof -
    have "and (take_bit (8 * wb) w) (push_bit (wb * 8 - 1) 1) = (if bit (take_bit (8 * wb) w) (wb * 8 - 1) then push_bit (wb * 8 - 1) 1 else 0)"
      by (rule bit_word_eqI) (auto simp: bit_simps)
    moreover have "push_bit (wb * 8 - 1) (1::u64) \<noteq> 0"
      using assms by (simp add: push_bit_eq_mult)
    ultimately show ?thesis using assms by (simp add: bit_simps mult.commute)
  qed
  have ones: "push_bit (wb * 8) 1 - 1 = (mask (8 * wb) :: u64)" by (simp add: mask_eq_exp_minus_1 mult.commute)
  obtain l where l: "8 * wb = Suc l" using assms(1) by (cases "8 * wb") auto
  show ?thesis
    unfolding top ones kept_word_def
    unfolding l
  proof (rule bit_word_eqI)
    fix n assume "n < LENGTH(64)"
    moreover have "n < l \<or> n = l \<or> l < n" by auto
    ultimately show "bit (if bit w (Suc l - 1) then or (take_bit (Suc l) w) (not (mask (Suc l))) else take_bit (Suc l) w) n
        = bit (signed_take_bit (Suc l - 1) w) n"
      using l assms(2) by (auto simp: bit_simps min_def)
  qed
qed

lemma read_word_back:
  assumes "get_slice src off wb = Some (take wb (le8 w))" "0 < wb" "wb \<le> 8"
  shows "read_word_le src off wb = Inr (kept_word wb w)"
proof (cases "wb < 8")
  case True
  with assms sign_extension [of wb w] show ?thesis
    by (simp add: read_word_le_def or_bounds_def from_le_take Let_def split: if_splits)
next
  case False
  with assms have "wb = 8" by simp
  with assms show ?thesis by (simp add: read_word_le_def or_bounds_def)
qed

section \<open>Scalars in a buffer\<close>

text \<open>The scalars that carry no reference; floats at their full width.\<close>

fun plain_scalar :: "kvalue \<Rightarrow> bool" where
  "plain_scalar V_Unit = True"
| "plain_scalar (V_Bool b) = True"
| "plain_scalar (V_Byte b) = True"
| "plain_scalar (V_Int w) = True"
| "plain_scalar (V_Fixed w) = True"
| "plain_scalar (V_Float f) = True"
| "plain_scalar _ = False"

fun plain_kind :: "kvalue \<Rightarrow> scalar_kind" where
  "plain_kind (V_Bool b) = SK_Bool"
| "plain_kind (V_Byte b) = SK_Byte"
| "plain_kind (V_Int w) = SK_Int"
| "plain_kind (V_Fixed w) = SK_Fixed"
| "plain_kind (V_Float f) = SK_Float"
| "plain_kind _ = SK_Unit"

fun kept :: "nat \<Rightarrow> kvalue \<Rightarrow> kvalue" where
  "kept wb (V_Int w) = V_Int (kept_word wb w)"
| "kept wb (V_Fixed w) = V_Fixed (kept_word wb w)"
| "kept wb v = v"

lemma plain_scalar_kind: "plain_scalar v \<Longrightarrow> flat_tuple_scalar_kind v = Some (plain_kind v)"
  by (cases v) auto

lemma plain_not_reference: "plain_scalar v \<Longrightarrow> plain_kind v \<noteq> SK_Text \<and> plain_kind v \<noteq> SK_Opaque"
  by (cases v) auto

lemma word64_conversions [simp]: "to_i64 (w :: u64) = w" "(from_i64_wrap w :: u64) = w"
  by (simp_all add: to_i64_def from_i64_wrap_def)

lemma put_slice_Some:
  assumes "put_slice dst off bs = Some dst'"
  shows "length dst' = length dst \<and> take off dst' = take off dst \<and> get_slice dst' off (length bs) = Some bs
    \<and> off + length bs \<le> length dst'"
  using assms by (auto simp: put_slice_def get_slice_def split: if_splits)

lemma get_slice_take: "off + n \<le> e \<Longrightarrow> take e src' = take e src \<Longrightarrow> e \<le> length src \<Longrightarrow> e \<le> length src' \<Longrightarrow>
    get_slice src' off n = get_slice src off n"
proof -
  assume a: "off + n \<le> e" "take e src' = take e src" "e \<le> length src" "e \<le> length src'"
  have "take n (drop off xs) = drop off (take (off + n) xs)" for xs :: "'a list" by (simp add: take_drop add.commute)
  moreover have "take (off + n) src' = take (off + n) src" using a(1,2) by (metis min.absorb1 take_take)
  ultimately have "take n (drop off src') = take n (drop off src)" by metis
  then show ?thesis using a by (simp add: get_slice_def)
qed

lemma nth_opt_take: "off < e \<Longrightarrow> take e src' = take e src \<Longrightarrow> e \<le> length src \<Longrightarrow> e \<le> length src' \<Longrightarrow>
    nth_opt src' off = nth_opt src off"
  by (simp add: nth_opt_def) (metis nth_take)

lemma nth_opt_slice: "get_slice src off 1 = Some [b] \<Longrightarrow> nth_opt src off = Some b"
  by (auto simp: get_slice_def nth_opt_def take_Suc drop_eq_Nil hd_drop_conv_nth split: if_splits)

text \<open>A read depends only on the buffer up to the end of the field.\<close>

lemma read_scalar_take:
  assumes "off + size_in_bytes k wb fb ab \<le> e" "take e src' = take e src" "e \<le> length src" "e \<le> length src'"
    "k \<noteq> SK_Text" "k \<noteq> SK_Opaque" "fb = 8"
  shows "read_scalar_le fo src' off k wb fb = read_scalar_le fo src off k wb fb"
  using assms by (cases k) (auto simp: read_word_le_def get_slice_take [of _ _ e src' src] nth_opt_take [of _ e src' src])

lemma write_then_read:
  assumes "plain_scalar v" "write_scalar_le fo v dst off wb 8 = Inr dst'" "0 < wb" "wb \<le> 8"
  shows "length dst' = length dst" "take off dst' = take off dst"
    "off \<le> length dst \<Longrightarrow> off + size_in_bytes (plain_kind v) wb 8 ab \<le> length dst'"
    "read_scalar_le fo dst' off (plain_kind v) wb 8 = Inr (kept wb v)"
proof -
  have word: "get_slice dst' off wb = Some (take wb (le8 w)) \<Longrightarrow> read_word_le dst' off wb = Inr (kept_word wb w)" for w
    by (rule read_word_back) (use assms in auto)
  have "length dst' = length dst \<and> take off dst' = take off dst
      \<and> (off \<le> length dst \<longrightarrow> off + size_in_bytes (plain_kind v) wb 8 ab \<le> length dst')
      \<and> read_scalar_le fo dst' off (plain_kind v) wb 8 = Inr (kept wb v)"
    using assms by (cases v)
      (auto simp: or_bounds_def nth_opt_slice word min_def simp del: nth_opt_Some
        split: option.splits if_splits dest!: put_slice_Some nth_opt_slice [unfolded One_nat_def])
  then show "length dst' = length dst" "take off dst' = take off dst"
    "off \<le> length dst \<Longrightarrow> off + size_in_bytes (plain_kind v) wb 8 ab \<le> length dst'"
    "read_scalar_le fo dst' off (plain_kind v) wb 8 = Inr (kept wb v)" by simp_all
qed

section \<open>Packed fields\<close>

definition field_bytes :: "nat \<Rightarrow> nat \<Rightarrow> kvalue \<Rightarrow> nat" where
  "field_bytes wb ab v = size_in_bytes (plain_kind v) wb 8 ab"

text \<open>The offset of a field: the sizes of the fields before it.\<close>

definition field_start :: "nat \<Rightarrow> nat \<Rightarrow> kvalue list \<Rightarrow> nat \<Rightarrow> nat" where
  "field_start wb ab vs i = sum_list (map (field_bytes wb ab) (take i vs))"

lemma pack_field_plain:
  assumes "plain_scalar v" "pack_field fo im wb 8 ab a v (dst, off) = Some (dst', off')" "0 < wb" "wb \<le> 8" "off \<le> length dst"
  shows "off' = off + field_bytes wb ab v" "length dst' = length dst" "take off dst' = take off dst" "off' \<le> length dst'"
    "read_scalar_le fo dst' off (plain_kind v) wb 8 = Inr (kept wb v)"
proof -
  have "(case v of V_OpaqueRef i \<Rightarrow> False | _ \<Rightarrow> True)" using assms(1) by (cases v) auto
  then have "map_option (\<lambda>d. (d, off + field_bytes wb ab v)) (ok_opt (write_scalar_le fo v dst off wb 8)) = Some (dst', off')"
    using assms(1,2) by (cases v) (auto simp: pack_field_def field_bytes_def)
  then have w: "write_scalar_le fo v dst off wb 8 = Inr dst'" and o': "off' = off + field_bytes wb ab v"
    by (auto simp: ok_opt_def split: sum.splits)
  from write_then_read [OF assms(1) w assms(3,4)] assms(5) o'
  show "off' = off + field_bytes wb ab v" "length dst' = length dst" "take off dst' = take off dst" "off' \<le> length dst'"
    "read_scalar_le fo dst' off (plain_kind v) wb 8 = Inr (kept wb v)"
    by (simp_all add: field_bytes_def)
qed

lemma pack_fields_plain:
  assumes "list_all plain_scalar vs" "pack_fields fo im wb 8 ab a vs (dst, off) = Some (dst', off')"
    "0 < wb" "wb \<le> 8" "off \<le> length dst"
  shows "off' = off + field_start wb ab vs (length vs) \<and> length dst' = length dst \<and> take off dst' = take off dst
    \<and> off' \<le> length dst'
    \<and> (\<forall>i < length vs. read_scalar_le fo dst' (off + field_start wb ab vs i) (plain_kind (vs ! i)) wb 8 = Inr (kept wb (vs ! i)))"
  using assms
proof (induction vs arbitrary: dst off)
  case (Cons v vs)
  obtain dst1 off1 where 1: "pack_field fo im wb 8 ab a v (dst, off) = Some (dst1, off1)"
    and rest: "pack_fields fo im wb 8 ab a vs (dst1, off1) = Some (dst', off')"
    using Cons.prems(2) by (auto simp: bind_eq_Some_conv)
  have plain: "plain_scalar v" using Cons.prems(1) by simp
  note f = pack_field_plain [OF plain 1 Cons.prems(3-5)]
  have IH: "off' = off1 + field_start wb ab vs (length vs)" "length dst' = length dst1" "take off1 dst' = take off1 dst1"
    "off' \<le> length dst'"
    "\<And>i. i < length vs \<Longrightarrow> read_scalar_le fo dst' (off1 + field_start wb ab vs i) (plain_kind (vs ! i)) wb 8 = Inr (kept wb (vs ! i))"
    using Cons.IH [OF _ rest Cons.prems(3,4)] Cons.prems(1) f(4) by simp_all
  have "read_scalar_le fo dst' off (plain_kind v) wb 8 = read_scalar_le fo dst1 off (plain_kind v) wb 8"
    using IH(2,3) f(1,4) plain_not_reference [OF plain]
    by (intro read_scalar_take [where e = off1 and ab = ab]) (auto simp: field_bytes_def)
  moreover have "take off dst' = take off dst1" using IH(3) f(1) by (metis le_add1 min.absorb1 take_take)
  ultimately show ?case
    using f IH by (auto simp: field_start_def less_Suc_eq_0_disj nth_Cons add.assoc split: nat.split)
qed (simp add: field_start_def)

section \<open>Bodies in the arena\<close>

lemma alloc_top_bytes_Inr:
  assumes "alloc_top_bytes n a = Inr (off, b)"
  shows "off + n \<le> ar_top a" "ar_bytes b = ar_bytes a" "ar_base b = ar_base a" "ar_epoch b = ar_epoch a"
proof -
  from assms obtain l where l: "layout_from_size_align n 1 = Some l" "alloc_top l a = Inr (off, b)"
    by (auto simp: alloc_top_bytes_def split: option.splits)
  then have ly: "ly_size l = n" "ly_align l = 1" by (auto simp: layout_from_size_align_def split: if_splits)
  have "clear_mask x 0 = x" if "x < 2 ^ 64" for x
    using clear_mask_pow2 [OF that, of 0] by simp
  with l(2) ly show "off + n \<le> ar_top a" "ar_bytes b = ar_bytes a" "ar_base b = ar_base a" "ar_epoch b = ar_epoch a"
    by (auto simp: alloc_top_def Let_def split: option.splits if_splits)
qed

lemma resolve_written:
  assumes "off + length bs \<le> length (ar_bytes a)"
  shows "fc_resolve \<lparr> fc_addr = ar_base a + off, fc_len = length bs, fc_epoch = ar_epoch a \<rparr> (write_arena a off bs) im = Inr bs"
proof -
  have "handle_get \<lparr> ah_addr = ar_base a + off, ah_epoch = ar_epoch a \<rparr> (write_arena a off bs) = Inr (ar_base a + off)"
    by (simp add: handle_get_def addr_is_live_def write_arena_def)
  moreover have "bytes_at (write_arena a off bs) im (ar_base a + off) (length bs) = bs"
    using assms by (intro nth_equalityI) (auto simp: bytes_at_def byte_at_def write_arena_def nth_append)
  ultimately show ?thesis by (simp add: fc_resolve_def)
qed

lemma build_resolves:
  assumes "build_in_arena a n fill = Inr (Some fc, b)" "0 < n" "ar_top a \<le> length (ar_bytes a)"
    and "\<And>c bs. fill c = Some bs \<Longrightarrow> length bs = n"
  obtains c bs where "fill c = Some bs" "fc_resolve fc b im = Inr bs" "fc_epoch fc = ar_epoch b"
proof -
  from assms(1,2) obtain off c bs where c: "alloc_top_bytes n a = Inr (off, c)" "fill c = Some bs"
    and fc: "fc = \<lparr> fc_addr = ar_base c + off, fc_len = n, fc_epoch = ar_epoch c \<rparr>" "b = write_arena c off bs"
    by (auto simp: build_in_arena_def bindR_Inr split: option.splits)
  have "off + length bs \<le> length (ar_bytes c)"
    using alloc_top_bytes_Inr [OF c(1)] assms(3) assms(4) [OF c(2)] by simp
  then have "fc_resolve fc b im = Inr bs" using resolve_written [of off bs c im] fc assms(4) [OF c(2)] by simp
  with c(2) fc show thesis by (intro that) (simp_all add: write_arena_def)
qed

section \<open>Tuples\<close>

lemma plain_sizes:
  assumes "list_all plain_scalar vs"
  shows "flat_sizes vs wb 8 ab = Some (field_start wb ab vs (length vs))"
  using assms
proof (induction vs)
  case (Cons v vs)
  have "flat_field_size v wb 8 ab = Some (field_bytes wb ab v)"
    using Cons.prems by (cases v) (auto simp: flat_field_size_def field_bytes_def)
  with Cons show ?case by (simp add: field_start_def)
qed (simp add: field_start_def)

lemma plain_texts: "list_all plain_scalar vs \<Longrightarrow> text_fields_to_arena a vs = Inr (vs, a)"
proof (induction vs)
  case (Cons v vs)
  then show ?case by (cases v) auto
qed simp

lemma field_end: "i < length vs \<Longrightarrow> field_start wb ab vs i + field_bytes wb ab (vs ! i) \<le> field_start wb ab vs (length vs)"
proof (induction vs arbitrary: i)
  case (Cons v vs)
  then show ?case by (cases i) (auto simp: field_start_def)
qed simp

text \<open>The packed body of plain scalars reads back every field.\<close>

lemma packed_reads_back:
  assumes plain: "list_all plain_scalar vs" and wb: "0 < wb" "wb \<le> 8"
    and pack: "pack_flat_in_arena fo im vs 0 wb 8 ab a = Inr (Some fc, b)"
    and total: "0 < field_start wb ab vs (length vs)" and top: "ar_top a \<le> length (ar_bytes a)" and i: "i < length vs"
  shows "\<exists>bs. fc_resolve fc b im = Inr bs \<and> field_start wb ab vs i < 65536
    \<and> read_scalar_le fo bs (field_start wb ab vs i) (plain_kind (vs ! i)) wb 8 = Inr (kept wb (vs ! i))"
proof -
  let ?n = "field_start wb ab vs (length vs)"
  let ?fill = "\<lambda>b. map_option (\<lambda>(dst, off). take off dst @ replicate (?n - off) 0) (pack_fields fo im wb 8 ab b vs (replicate ?n 0, 0))"
  from pack plain_sizes [OF plain, of wb ab] have n: "?n \<le> 65535"
    and build: "build_in_arena a ?n ?fill = Inr (Some fc, b)"
    by (auto simp: pack_flat_in_arena_def Let_def split: if_splits)
  have fields: "off = ?n \<and> bs = dst" if "pack_fields fo im wb 8 ab c vs (replicate ?n 0, 0) = Some (dst, off)"
    "bs = take off dst @ replicate (?n - off) 0" for c dst off bs
    using pack_fields_plain [OF plain that(1) wb] that(2) by simp
  have len: "length bs = ?n" if "?fill c = Some bs" for c bs
    using that pack_fields_plain [OF plain _ wb, of fo im ab c "replicate ?n 0" 0] by (auto simp: min_def)
  obtain c bs where bs: "?fill c = Some bs" "fc_resolve fc b im = Inr bs"
    by (rule build_resolves [OF build total top len])
  then obtain dst off where p: "pack_fields fo im wb 8 ab c vs (replicate ?n 0, 0) = Some (dst, off)"
    and "bs = take off dst @ replicate (?n - off) 0" by auto
  with fields have "bs = dst" by blast
  moreover have "field_start wb ab vs i < 65536" using field_end [OF i, of wb ab] n by linarith
  ultimately show ?thesis using pack_fields_plain [OF plain p wb] i bs(2) by auto
qed

text \<open>The same through the instructions: \<open>NewComposite\<close> of a flat tuple, then \<open>GetTupleField\<close>.\<close>

lemma read_plain_scalar:
  "plain_scalar v \<Longrightarrow> read_flat_scalar h m bs off (plain_kind v) e =
     of_scalar (read_scalar_le (h_floats h) bs off (plain_kind v) (module_word_bytes m) (module_float_bytes m))"
  by (cases v) (simp_all add: read_flat_scalar_def Let_def)

lemma tuple_field_back:
  assumes plain: "list_all plain_scalar vs" and wb: "0 < module_word_bytes m" "module_word_bytes m \<le> 8"
    and fb: "module_float_bytes m = 8" and top: "ar_top a \<le> length (ar_bytes a)"
    and total: "0 < field_start (module_word_bytes m) (module_addr_bytes m) vs (length vs)"
    and new: "exec_new_composite h m ci (NC_Flat CK_Tuple n sz) vs a = Inr (V_Tuple (Flat fc), b)" and i: "i < length vs"
  shows "exec_get_tuple_field h m b
           (TF_Flat (of_nat (field_start (module_word_bytes m) (module_addr_bytes m) vs i)) (plain_kind (vs ! i))) (V_Tuple (Flat fc))
         = Inr [kept (module_word_bytes m) (vs ! i)]"
proof -
  let ?wb = "module_word_bytes m" and ?ab = "module_addr_bytes m"
  from new have flat: "new_composite_flat h m (NC_Flat CK_Tuple n sz) vs a = Inr (V_Tuple (Flat fc), b)"
    by (auto simp: exec_new_composite_def split: if_splits)
  have "pack_flat_in_arena (h_floats h) (h_image h) vs 0 ?wb 8 ?ab a = Inr (Some fc, b)"
  proof (cases "pack_flat_in_arena (h_floats h) (h_image h) vs 0 ?wb 8 ?ab a")
    case (Inl e)
    with flat show ?thesis by (cases e) (simp add: new_composite_flat_def plain_texts [OF plain] fb of_alloc_def)
  next
    case (Inr p)
    with flat show ?thesis
      by (cases p) (auto simp: new_composite_flat_def plain_texts [OF plain] fb of_alloc_def split: option.splits)
  qed
  from packed_reads_back [OF plain wb this total top i] obtain bs where
    bs: "fc_resolve fc b (h_image h) = Inr bs" "field_start ?wb ?ab vs i < 65536"
      "read_scalar_le (h_floats h) bs (field_start ?wb ?ab vs i) (plain_kind (vs ! i)) ?wb 8 = Inr (kept ?wb (vs ! i))"
    by blast
  have "unat (of_nat (field_start ?wb ?ab vs i) :: u16) = field_start ?wb ?ab vs i" using bs(2) by (simp add: unat_of_nat)
  with bs plain i fb show ?thesis
    by (simp add: exec_get_tuple_field_def flat_field_def of_stale_def of_scalar_def read_plain_scalar list_all_length)
qed

end
