(* ===== verification/Machine_Properties.thy ===== *)
theory Machine_Properties
  imports Sample_Machine Trap_Analysis Flat_Roundtrip
begin

text \<open>
  The properties of the virtual machine and of the two analyses that speak about its runs, the execution
  certificate and the trap analysis, each with a concrete instance.
\<close>

section \<open>The execution certificate\<close>

text \<open>
  C7.  No certified module underflows.  Take a module whose chunks the execution verifier certifies and whose
  streams are reached without operands where they restart, and a host whose natives do not themselves report
  an underflow.  In any session of calls, resumes and continuations after breakpoints, in the order the state
  of the machine asks for them and for whatever arguments and inputs, no entry ends in a stack underflow.
\<close>

theorem certified_never_underflows:
  assumes "verify_pop_elision m = Inr ()" and "3 \<le> unat (m_word_bits_log2 m)" and "native_errors not_underflow h"
    and "restarts_empty m" and "answers h m r"
  shows "r \<noteq> Inl VM_StackUnderflow"
  using answers_ok [OF assms] by (auto simp: answer_ok_def)

lemma plain_restarts: "restarts_empty plain_stream"
proof -
  have "cert_reach (ch_ops c) 1 0" if "c \<in> set (m_chunks plain_stream)" for c
  proof -
    have c: "length (ch_ops c) = 5" "ch_ops c ! 0 = Stream" "after_stream (ch_ops c) = Some 1"
      using that by (simp_all add: plain_stream_def bare_stream_def sample_module_def sample_chunk_def after_stream_def)
    show ?thesis by (rule cr_step [OF cr_entry, where es = "[(1, 0)]"]) (simp_all add: c)
  qed
  moreover have "after_stream (ch_ops c) = Some 1" if "c \<in> set (m_chunks plain_stream)" for c
    using that by (simp add: plain_stream_def bare_stream_def sample_module_def sample_chunk_def after_stream_def)
  ultimately show ?thesis by (auto simp: restarts_empty_def)
qed

theorem certified_never_underflows_witness: "after_call plain_stream \<noteq> Some (Inl VM_StackUnderflow)"
proof (cases "after_call plain_stream")
  case (Some r)
  have "r \<noteq> Inl VM_StackUnderflow"
  proof (rule certified_never_underflows [OF _ _ _ plain_restarts])
    show "verify_pop_elision plain_stream = Inr ()" "3 \<le> unat (m_word_bits_log2 plain_stream)" by code_simp+
    show "native_errors not_underflow sample_host" by (simp add: native_errors_def sample_host_def)
    show "answers sample_host plain_stream r"
      using Some unfolding after_call_def by (intro an_call [OF _ _ disjI1]) (simp_all add: sample_vm_def soft_reified_def)
  qed
  with Some show ?thesis by simp
qed simp

text \<open>
  C10.  The certificate is exact.  The worklist always converges within its bound, and it certifies a chunk
  exactly when the chunk is small enough, its parameters fit its locals, and no path of the depth table, taken
  from the entry with no operands, ends in front of an instruction that lacks operands or at a position
  without one.
\<close>

theorem certificate_exact:
  "prove_chunk c \<noteq> Inl CE_NotConverged \<and>
   (prove_chunk c = Inr () \<longleftrightarrow>
      length (ch_ops c) \<le> TRAP_OPCODE_CAP \<and> unat (ch_param_count c) \<le> unat (ch_local_count c) \<and> \<not> refuted (ch_ops c))"
  using prove_chunk_converges prove_chunk_decides by blast

text \<open>
  C40.  The certificate does not cover the restart of a stream.  It gives the instruction after \<open>Stream\<close> one
  operand on the edge from \<open>Reset\<close>, but a resume after a reset pushes nothing.  A verified and certified
  stream, called and resumed twice, ends its second iteration with an underflow.
\<close>

theorem reset_reentry_underflows:
  "verify_structural prefixed_stream = Some (Inr ()) \<and> verify_pop_elision prefixed_stream = Inr ()
   \<and> after_resume prefixed_stream (after_resume prefixed_stream (after_call prefixed_stream)) = Some (Inl VM_StackUnderflow)"
  using prefixed_verified prefixed_certified prefixed_underflows(3) by blast

text \<open>
  C8.  The depth table agrees with the machine.  An instruction other than a call, a return, a yield or a reset
  underflows only when it finds fewer operands than the table says it needs; otherwise it leaves as many values
  as the table says, in the same frame, at one of the positions the control table lists.
\<close>

theorem operand_table_exact:
  assumes "stays_in_frame x" and "vm_frames vm = f # fs" and "cf_ip f = Suc ip"
    and "3 \<le> unat (m_word_bits_log2 m)" and "native_errors not_underflow h" and "soft_reified (vm_reified_host_error vm)"
  shows "case exec_op h m ci x vm of
      Inl e \<Rightarrow> e = VM_StackUnderflow \<longrightarrow> int (length (vm_stack vm)) < fst (op_depth_effect x)
    | Inr (st, vm') \<Rightarrow> st = None \<and> fst (op_depth_effect x) \<le> int (length (vm_stack vm))
        \<and> int (length (vm_stack vm')) = int (length (vm_stack vm)) + snd (op_depth_effect x)
        \<and> (\<exists>t \<in> set (frame_succs (ctl_of x) ip). vm_frames vm' = vm_frames (set_ip t vm))"
proof -
  have "lenient not_underflow" by (simp add: lenient_def)
  with underflow.exec_op_agrees [OF assms(1) _ assms(2-5), of ci] assms(6) show ?thesis
    by (auto simp: agrees_def continues_at_def split: sum.splits prod.splits)
qed

definition adding_vm :: vm where
  "adding_vm = sample_vm \<lparr> vm_stack := [V_Int 2, V_Int 3],
     vm_frames := [\<lparr> cf_chunk = 0, cf_ip = 1, cf_base = 0 \<rparr>] \<rparr>"

theorem operand_table_exact_witness:
  "case exec_op sample_host plain_stream 0 Add adding_vm of
      Inl e \<Rightarrow> e = VM_StackUnderflow \<longrightarrow> int (length (vm_stack adding_vm)) < fst (op_depth_effect Add)
    | Inr (st, vm') \<Rightarrow> st = None \<and> fst (op_depth_effect Add) \<le> int (length (vm_stack adding_vm))
        \<and> int (length (vm_stack vm')) = int (length (vm_stack adding_vm)) + snd (op_depth_effect Add)
        \<and> (\<exists>t \<in> set (frame_succs (ctl_of Add) 0). vm_frames vm' = vm_frames (set_ip t adding_vm))"
proof (rule operand_table_exact [where f = "\<lparr> cf_chunk = 0, cf_ip = 1, cf_base = 0 \<rparr>" and fs = "[]"])
  show "3 \<le> unat (m_word_bits_log2 plain_stream)" by code_simp
  show "native_errors not_underflow sample_host" by (simp add: native_errors_def sample_host_def)
qed (simp_all add: adding_vm_def sample_vm_def soft_reified_def)

section \<open>Trap freedom\<close>

text \<open>
  C9.  A trap-free verdict holds at run time.  If the trap analysis calls a module trap-free and the natives of
  the host report no language fault, no call, resume or continuation on any state of the machine ends in one:
  neither in a soft error of the script other than a type error nor in an error code of a native.
\<close>

theorem trap_free_sound:
  assumes "classify_traps verified m = Inr TrapFree" and "native_errors no_fault h"
    and "Some (Inl e) \<in> {call_function fuel h m ci args vm, call_with_shared fuel h m shared args vm,
      resume fuel h m input vm, resume_with_shared fuel h m shared input vm,
      resume_from_breakpoint fuel h m vm, resume_from_breakpoint_with_shared fuel h m shared vm}"
  shows "\<not> language_fault e"
proof -
  note entries = no_fault.raises_entries [OF trap_free_clear [OF assms(1)] assms(2)]
  from assms(3) consider "call_function fuel h m ci args vm = Some (Inl e)" | "call_with_shared fuel h m shared args vm = Some (Inl e)"
    | "resume fuel h m input vm = Some (Inl e)" | "resume_with_shared fuel h m shared input vm = Some (Inl e)"
    | "resume_from_breakpoint fuel h m vm = Some (Inl e)" | "resume_from_breakpoint_with_shared fuel h m shared vm = Some (Inl e)"
    by (auto dest: sym)
  then have "raises no_fault (Inl e :: vm_error + vm_state \<times> vm)" by cases (rule entries; assumption)+
  then show ?thesis by simp
qed

theorem trap_free_sound_witness: "\<not> language_fault VM_InvalidBytecode"
proof (rule trap_free_sound)
  show "classify_traps (\<lambda>m. verify_structural m = Some (Inr ())) plain_stream = Inr TrapFree" by code_simp
  show "native_errors no_fault sample_host" by (simp add: native_errors_def sample_host_def)
  have "call_function 20 sample_host plain_stream 7 [] sample_vm = Some (Inl VM_InvalidBytecode)" by code_simp
  then show "Some (Inl VM_InvalidBytecode) \<in> {call_function 20 sample_host plain_stream 7 [] sample_vm,
      call_with_shared 20 sample_host plain_stream [] [] sample_vm, resume 20 sample_host plain_stream V_Unit sample_vm,
      resume_with_shared 20 sample_host plain_stream [] V_Unit sample_vm, resume_from_breakpoint 20 sample_host plain_stream sample_vm,
      resume_from_breakpoint_with_shared 20 sample_host plain_stream [] sample_vm}" by simp
qed

text \<open>
  C39.  The trap-free verdict is exact: it is given to the modules that pass the size checks and the verifier and
  in which every instruction is one that cannot trap.
\<close>

theorem trap_verdict_exact:
  "classify_traps verified m = Inr TrapFree \<longleftrightarrow>
     preflight m = Inr () \<and> verified m
     \<and> list_all (\<lambda>c. list_all (\<lambda>x. classify_instruction x = Inr IC_Clear) (ch_ops c)) (m_chunks m)"
  by (simp add: classify_traps_free list_all_iff)

section \<open>Values\<close>

text \<open>The exact result \<open>n\<close>, as the three words a checked instruction pushes for it.\<close>

definition exact_outputs :: "nat \<Rightarrow> int \<Rightarrow> pushed \<Rightarrow> bool" where
  "exact_outputs d n p \<longleftrightarrow> (\<exists>low high flag. p = Inr [V_Int low, V_Int high, V_Int flag]
     \<and> n = sint high * 2 ^ d + low_value d low
     \<and> flag = (if n < - (2 ^ (d - 1)) then 2 else if 2 ^ (d - 1) - 1 < n then 1 else 0))"

lemma int_outputs_exact:
  assumes "1 \<le> unat (m_word_bits_log2 m)" "unat (m_word_bits_log2 m) \<le> 6"
    and "sint r = n" "\<bar>n\<bar> \<le> 2 ^ (2 * 2 ^ unat (m_word_bits_log2 m) - 2)"
  shows "exact_outputs (2 ^ unat (m_word_bits_log2 m)) n (Inr (int_outputs m r))"
proof -
  obtain low high flag where out: "checked_arith_outputs TYPE(64) r (m_word_bits_log2 m) = (low, high, flag)"
    by (cases "checked_arith_outputs TYPE(64) r (m_word_bits_log2 m)") auto
  have "(2::nat) ^ 1 \<le> 2 ^ unat (m_word_bits_log2 m)" "(2::nat) ^ unat (m_word_bits_log2 m) \<le> 2 ^ 6"
    using assms(1,2) by (intro power_increasing; simp)+
  with checked_outputs_exact [OF _ _ _ _ _ out] assms(3,4) out show ?thesis
    by (simp add: exact_outputs_def int_outputs_def from_i64_wrap_def)
qed

text \<open>
  C11.  The checked instructions lose nothing.  For words in the declared range of the module, addition,
  subtraction, multiplication and negation push a low and a high word that together are the exact result, and a
  flag that says whether the result is in range, above it or below it.
\<close>

theorem checked_words_exact:
  assumes "1 \<le> unat (m_word_bits_log2 m)" and "unat (m_word_bits_log2 m) \<le> 6" and "d = 2 ^ unat (m_word_bits_log2 m)"
    and "- (2 ^ (d - 1)) \<le> sint x" "sint x < 2 ^ (d - 1)" "- (2 ^ (d - 1)) \<le> sint y" "sint y < 2 ^ (d - 1)"
  shows "exact_outputs d (sint x + sint y) (exec_checked_add fo m (V_Int x) (V_Int y))
    \<and> exact_outputs d (sint x - sint y) (exec_checked_sub fo m (V_Int x) (V_Int y))
    \<and> exact_outputs d (sint x * sint y) (exec_checked_mul fo m fb (V_Int x) (V_Int y))
    \<and> exact_outputs d (- sint x) (exec_checked_neg m (V_Int x))"
proof -
  have "(2::nat) ^ 1 \<le> d" unfolding assms(3) using assms(1) by (intro power_increasing) auto
  then have d: "2 \<le> d" by simp
  let ?h = "2 ^ (d - 1) :: int"
  have "2 * d - 2 = (d - 1) + (d - 1)" using d by simp
  then have p: "(2::int) ^ (2 * d - 2) = ?h * ?h" by (simp only: power_add)
  have "(2::int) ^ 1 \<le> ?h" using d by (intro power_increasing) auto
  then have h: "2 * ?h \<le> ?h * ?h" by (intro mult_right_mono) auto
  have abs: "\<bar>sint x\<bar> \<le> ?h" "\<bar>sint y\<bar> \<le> ?h" using assms(4-7) by linarith+
  have mul: "\<bar>sint x * sint y\<bar> \<le> ?h * ?h" unfolding abs_mult using abs by (intro mult_mono) auto
  note exact = int_outputs_exact [OF assms(1,2) _, folded assms(3), unfolded p]
  note wide = wide_exact [where 'v = 128 and 'w = 64, simplified]
  show ?thesis
    unfolding exec_checked_add_def exec_checked_sub_def exec_checked_mul_def prod.case kvalue.case exec_checked_neg.simps
    by (intro conjI exact; (simp only: wide)?; use abs h mul in linarith)
qed

theorem checked_words_exact_witness:
  "exact_outputs 64 (sint (word_max :: u64) * sint (word_max :: u64))
     (exec_checked_mul sample_floats plain_stream 0 (V_Int word_max) (V_Int word_max))"
proof -
  have m: "unat (m_word_bits_log2 plain_stream) = 6" by code_simp
  show ?thesis
    using checked_words_exact [where m = plain_stream and d = 64 and x = word_max and y = word_max]
    by (simp add: m sint_word_max)
qed

text \<open>
  C12.  Flat tuples read back.  Where words have at most eight bytes and floats eight, a flat tuple of words,
  bytes, booleans, fixed-point numbers, floats and units that \<open>NewComposite\<close> packs into the arena is read field by field
  as it was, each word narrowed to the width of the module: \<open>GetTupleField\<close> at the offset and kind of the
  \<open>i\<close>-th field gives the \<open>i\<close>-th value.
\<close>

theorem tuple_reads_back:
  assumes "list_all plain_scalar vs" and "0 < module_word_bytes m" "module_word_bytes m \<le> 8"
    and "module_float_bytes m = 8" and "ar_top a \<le> length (ar_bytes a)"
    and "0 < field_start (module_word_bytes m) (module_addr_bytes m) vs (length vs)"
    and "exec_new_composite h m ci (NC_Flat CK_Tuple n sz) vs a = Inr (V_Tuple (Flat fc), b)" and "i < length vs"
  shows "exec_get_tuple_field h m b
           (TF_Flat (of_nat (field_start (module_word_bytes m) (module_addr_bytes m) vs i)) (plain_kind (vs ! i))) (V_Tuple (Flat fc))
         = Inr [kept (module_word_bytes m) (vs ! i)]"
  using assms by (rule tuple_field_back)

definition packed_pair :: "(vm_error + kvalue \<times> arena)" where
  "packed_pair = exec_new_composite sample_host plain_stream 0 (NC_Flat CK_Tuple 2 9) [V_Bool True, V_Int 5] (arena_over 64 (replicate 16 0) External)"

theorem tuple_reads_back_witness:
  "\<exists>fc b. packed_pair = Inr (V_Tuple (Flat fc), b)
     \<and> exec_get_tuple_field sample_host plain_stream b (TF_Flat 1 SK_Int) (V_Tuple (Flat fc)) = Inr [V_Int 5]"
proof -
  let ?vs = "[V_Bool True, V_Int 5]"
  have "case packed_pair of Inr (V_Tuple (Flat fc), b) \<Rightarrow> True | _ \<Rightarrow> False" by code_simp
  then obtain fc b where p: "packed_pair = Inr (V_Tuple (Flat fc), b)"
    by (auto split: sum.splits prod.splits kvalue.splits value_body.splits)
  have m: "module_word_bytes plain_stream = 8" "module_addr_bytes plain_stream = 8" "module_float_bytes plain_stream = 8" by code_simp+
  have f: "field_start 8 8 ?vs (length ?vs) = 9" "field_start 8 8 ?vs 1 = 1" "plain_kind (?vs ! 1) = SK_Int" "kept 8 (?vs ! 1) = V_Int 5" by code_simp+
  have "exec_get_tuple_field sample_host plain_stream b
      (TF_Flat (of_nat (field_start (module_word_bytes plain_stream) (module_addr_bytes plain_stream) ?vs 1)) (plain_kind (?vs ! 1))) (V_Tuple (Flat fc))
      = Inr [kept (module_word_bytes plain_stream) (?vs ! 1)]"
    by (rule tuple_reads_back [OF _ _ _ _ _ _ p [unfolded packed_pair_def]])
      (simp_all only: m f, simp_all add: arena_over_def)
  with p show ?thesis by (simp only: m f of_nat_1) blast
qed

end
