(* ===== verification/Spec2Isabelle.thy ===== *)
theory Spec2Isabelle
  imports Sample_Modules Sample_Artifacts Sample_Wcmu Verify_Init Text_Size Call_Graph Arena_Safety
    Machine_Properties
begin

text \<open>
  Keleusma is an embeddable bytecode language for hosts that need statically bounded programs: a
  compiler produces modules of chunks, a verifier admits a module only if every stream iteration yields
  and its execution time and memory are bounded, and a stack machine runs it out of a fixed arena.  This
  library models the parts that carry those guarantees and proves them.

  \<^bold>\<open>The instruction set and the verifier.\<close>  \<open>Bytecode\<close> holds the data of \<open>src/src/bytecode.rs\<close>: the
  66 instructions, chunks, data layouts and modules, as records and datatypes with the constructors of
  the source.  \<open>Op_Tables\<close> holds its cost and stack tables (\<open>CostModel\<close>, \<open>nominal_op_cycles\<close>,
  \<open>stack_growth\<close>, \<open>op_depth_effect\<close>).  \<open>Control_Flow\<close> is the effect of an instruction on the instruction
  pointer (\<open>src/src/vm.rs\<close>); its \<open>fpath\<close> are the control paths inside a frame, with conditions left
  open.  \<open>Region_Walks\<close> holds the recursive walks of \<open>src/src/verify.rs\<close> over structured regions
  (yield coverage, execution time, operand depth) and \<open>Verify_Chunk\<close> the three passes and \<open>verify\<close>.
  The walks take fuel, one unit per instruction of the chunk and nesting level; \<open>Walk_Termination\<close>
  shows that the fuel given (\<open>walk_fuel\<close>) always suffices, so the verdicts are those of the code.
  \<open>Structured\<close> gives the regions a semantics (\<open>rexec\<close>) that \<open>fpath\<close> splits into, \<open>Chunk_Structure\<close>
  shows that pass 1 accepts only such regions, \<open>Productivity\<close>, \<open>Verifier_Safety\<close> and \<open>Wcet\<close> prove the
  three analyses sound over them.

  \<^bold>\<open>Analyses over a module.\<close>  \<open>Call_Graph\<close> is the topological order and the call depth; \<open>Text_Size\<close>
  (\<open>src/src/text_size.rs\<close>) the bounds on the length of texts and the time of text operations;
  \<open>Must_Analysis\<close> and \<open>Verify_Init\<close> (\<open>src/src/verify_init.rs\<close>) the worklist analysis for definite
  initialization.  The worklist is a total function with a lexicographic measure; the locale
  \<open>must_flow\<close> is the contract between it and a rule, interpreted once for locals and once for private
  data.

  \<^bold>\<open>The artifact container\<close> (\<open>src/keleusma-wire/src\<close>).  \<open>Wire_Scalar\<close>, \<open>Wire_Ecc\<close> and \<open>Wire_Layout\<close>
  hold the codecs, the checksum, the (72,64) code and the format; \<open>Wire_Build\<close> the builder with its
  invariant, \<open>Wire_View\<close> the parser, \<open>Wire_Roundtrip\<close> that the parser reads what the builder wrote and
  outvotes damage to the header, \<open>Wire_Scrub\<close> the repair of flipped bits.

  \<^bold>\<open>The arena\<close> (\<open>src/keleusma-arena/src/lib.rs\<close>).  \<open>Arena\<close> holds the state, one record field per
  field of the struct, and every operation; \<open>Usize\<close> the 64-bit address arithmetic.  \<open>Arena_Safety\<close> states
  the contract of an allocating end as the locale \<open>gap_allocator\<close>, interpreted for both ends, and proves
  the invariant over runs that also record the blocks still held.

  \<^bold>\<open>Memory bounds\<close> (\<open>src/src/verify.rs\<close>).  \<open>Run_Charges\<close> is the part of the soundness of a resource walk
  that time and memory share.  \<open>Wcmu\<close> holds the walk over operand stack and arena bytes, with offsets that
  wrap at 32 bits, and its soundness for arena bytes; \<open>Wcmu_Stack\<close> its soundness for the stack, for codes
  whose heights agree along every edge; \<open>Wcmu_Module\<close> the tables over a module with attestations of
  natives, and the resource check; \<open>Admission\<close> draws them together for accepted modules.  \<open>Machine_Heap\<close>
  compares the charges with the virtual machine: what each instruction takes from the top end of the
  arena, and what a run of a chunk does with everything it calls.

  \<^bold>\<open>The virtual machine\<close> (\<open>src/src/vm.rs\<close>).  \<open>Word_Arith\<close> holds the words at every width (\<open>src/src/word.rs\<close>) and
  the checked outputs; \<open>Machine_Values\<close> the values, flat bodies in the arena and their codecs
  (\<open>src/src/flat_value.rs\<close>, \<open>src/src/kstring.rs\<close>); \<open>Machine_State\<close> errors, state, constants and data slots;
  \<open>Machine_Ops\<close> what every instruction computes; \<open>Machine\<close> the stack traffic, calls, suspension, the loop and
  the entry points, with and without a lent buffer of shared data.  The loop takes fuel and answers \<open>None\<close>
  when it runs out; the theorems about runs hold for every fuel, and what they say of errors is said of
  the answers that occur.  Floats, registered natives, the import of host values, pooled constants and
  the reservation of the stacks are parameters in the record \<open>host\<close>.  \<open>Machine_Errors\<close> and \<open>Machine_Stack\<close>
  give, for every instruction, the errors it can raise and the operands it moves, for any class of
  errors (the locale \<open>error_class\<close>); \<open>Flat_Roundtrip\<close> shows that packed fields are read back.

  \<^bold>\<open>Certificate and traps.\<close>  \<open>Verify_Execution\<close> (\<open>src/src/verify_execution.rs\<close>) is the certificate for
  proven execution, with convergence, soundness and completeness of its worklist; \<open>Certified_Runs\<close> carries
  it over to whole sessions of the machine.  \<open>Trap_Analysis\<close> (\<open>src/src/trap_analysis.rs\<close>) is the
  classification of traps, and its soundness on the machine.  \<open>Machine_Properties\<close> states the
  properties of the machine.

  \<open>Sample_Modules\<close>, \<open>Sample_Artifacts\<close>, \<open>Sample_Machine\<close> and \<open>Sample_Wcmu\<close> hold the concrete inputs at
  which the properties are applied.

  \<^bold>\<open>Conditions that recur.\<close>  The passes accept some jumps that leave a block for a place the compiler would
  not emit, so properties of paths ask for linked blocks (\<open>top_level\<close>, \<open>span_linked\<close>), and properties of
  streams over several iterations for a \<open>Stream\<close> that no \<open>Break\<close> steps over.  Bounds ask for loops that
  respect the iteration bounds extracted for them (\<open>within_bound\<close>).  Each such condition is shown necessary by a
  theorem next to the property that has it.  Totals of the analyses are capped at \<open>u32::MAX\<close>.

  \<^bold>\<open>Not modelled.\<close>  The typed operand-stack pass (\<open>src/src/verify_typed.rs\<close>), so \<open>verify_structural\<close> is the
  verifier without its last two passes and the definite-initialization pass is stated separately; the
  serialised forms (\<open>wire_format.rs\<close>, \<open>wire_schema.rs\<close>, \<open>wire_aux.rs\<close>); the front end (lexer, parser, type
  checker, monomorphiser, code generator with its intervals and confinement); construction and loading of the machine, hot
  swap, registration of natives and the conversion of host values; encryption; the native-code back end,
  the self-hosted pipeline, the standard natives, the derive macros, and the command line, language
  server, WebAssembly and benchmark programs.  Messages of errors are reduced to their cause.
\<close>

section \<open>The structural verifier\<close>

text \<open>
  C1.  Productive divergence.  In a module the structural verifier accepts, take a stream chunk whose
  \<open>Stream\<close> and \<open>Reset\<close> instructions lie outside every block and whose blocks between them are linked.
  Every control path of the machine from the instruction after \<open>Stream\<close> that dispatches \<open>Reset\<close> has
  before dispatched a \<open>Yield\<close>, or a call of a chunk the verifier classified as always yielding.
\<close>

theorem stream_productive:
  assumes "verify_structural m = Some (Inr ())" and "compute_always_yielding m = Some always"
    and "c \<in> set (m_chunks m)" and "ch_block_type c = BT_Stream"
    and "stream_pos (ch_ops c) = Some s" and "reset_pos (ch_ops c) = Some r" and "s < r"
    and "top_level (ch_ops c) (Suc s)" and "top_level (ch_ops c) r"
    and "fpath (ch_ops c) (Suc s) (tr @ r # tr') j"
  shows "yields_on (ch_ops c) always tr"
  using assms by (rule stream_paths_yield)

theorem stream_productive_witness:
  "yields_on (ch_ops branching_stream) {0} [1, 2, 3, 4, 5, 8, 9]"
proof (rule stream_productive [where m = "sample_module [branching_stream]" and s = 0 and r = 10 and tr' = "[]" and j = 11])
  show "verify_structural (sample_module [branching_stream]) = Some (Inr ())" by code_simp
  show "compute_always_yielding (sample_module [branching_stream]) = Some {0}" by code_simp
  show "branching_stream \<in> set (m_chunks (sample_module [branching_stream]))" by (simp add: sample_module_def)
  show "ch_block_type branching_stream = BT_Stream" by code_simp
  show "stream_pos (ch_ops branching_stream) = Some 0" by code_simp
  show "reset_pos (ch_ops branching_stream) = Some 10" by code_simp
  show "top_level (ch_ops branching_stream) (Suc 0)" by code_simp
  show "top_level (ch_ops branching_stream) 10" by code_simp
  have "is_fpath (ch_ops branching_stream) 1 [1, 2, 3, 4, 5, 8, 9, 10] 11" by code_simp
  then show "fpath (ch_ops branching_stream) (Suc 0) ([1, 2, 3, 4, 5, 8, 9] @ 10 # []) 11"
    by (simp add: is_fpath_iff)
qed simp

text \<open>
  C2.  Worst-case execution time.  For a chunk accepted by the nesting pass whose blocks are linked,
  the cost the analysis reports for its whole code bounds, in saturating arithmetic, what any run of
  the chunk is charged, whichever branches are taken and wherever the run is observed or ends,
  provided that each loop with an extracted iteration bound makes at most that many passes and then at
  most its header.
\<close>

theorem wcet_sound:
  assumes "pass1 m c = Inr ()" and "top_level (ch_ops c) (length (ch_ops c))"
    and "wcet_region c 0 (length (ch_ops c)) [] cm False wcet_extra = Some (Inr (out, breaks))"
    and "bounded_run c 0 (length (ch_ops c)) tr oc"
  shows "min (path_charge c cm wcet_extra tr) u32_max \<le> wo_cost out"
proof -
  have "region (ch_ops c) None 0 0 (length (ch_ops c))"
    using assms(2) by (intro pass1_region [OF assms(1)]) (auto simp: top_level_def)
  from wcet_region_bounds_runs [OF this assms(3,4)] show ?thesis by (simp add: capped_def)
qed

theorem wcet_sound_witness:
  "min (path_charge counted_loop NOMINAL_COST_MODEL [] counted_loop_trace) u32_max \<le> 49"
proof -
  have n: "length (ch_ops counted_loop) = 17" by code_simp
  have "min (path_charge counted_loop NOMINAL_COST_MODEL [] counted_loop_trace) u32_max
      \<le> wo_cost \<lparr> wo_cost = 49, wo_falls_through = False \<rparr>"
  proof (rule wcet_sound [where m = "sample_module [counted_loop]" and breaks = "[]" and oc = Part])
    show "pass1 (sample_module [counted_loop]) counted_loop = Inr ()" by code_simp
    show "top_level (ch_ops counted_loop) (length (ch_ops counted_loop))" by code_simp
    show "wcet_region counted_loop 0 (length (ch_ops counted_loop)) [] NOMINAL_COST_MODEL False []
        = Some (Inr (\<lparr> wo_cost = 49, wo_falls_through = False \<rparr>, []))" by code_simp
    show "bounded_run counted_loop 0 (length (ch_ops counted_loop)) counted_loop_trace Part"
      using counted_loop_run n by simp
  qed
  then show ?thesis by simp
qed

text \<open>
  C3.  The verifier always answers: on every module, hostile ones included, its walks end within the
  fuel of one step per instruction and the classification within one round per chunk.
\<close>

theorem verify_structural_returns: "\<exists>r. verify_structural m = Some r"
  by (rule verify_structural_total)

text \<open>
  C4.  Control stays inside an accepted chunk: no control path from inside it, however long, jumps past
  the position after its last instruction.
\<close>

theorem accepted_control_in_bounds:
  assumes "pass1 m c = Inr ()" and "fpath (ch_ops c) i tr j" and "i \<le> length (ch_ops c)"
  shows "j \<le> length (ch_ops c)"
  using assms by (rule control_in_bounds)

theorem accepted_control_in_bounds_witness:
  "length (ch_ops branching_stream) \<le> length (ch_ops branching_stream)"
proof (rule accepted_control_in_bounds [where m = "sample_module [branching_stream]" and i = 1])
  show "pass1 (sample_module [branching_stream]) branching_stream = Inr ()" by code_simp
  have "is_fpath (ch_ops branching_stream) 1 [1, 2, 3, 4, 5, 8, 9, 10] (length (ch_ops branching_stream))" by code_simp
  then show "fpath (ch_ops branching_stream) 1 [1, 2, 3, 4, 5, 8, 9, 10] (length (ch_ops branching_stream))"
    by (simp add: is_fpath_iff)
  show "1 \<le> length (ch_ops branching_stream)" by code_simp
qed

text \<open>
  C5.  Operands of an accepted chunk index existing entries: locals, constants, data slots and slot
  ranges, callees with room for their arguments, natives and templates.
\<close>

theorem accepted_operands:
  assumes "pass1 m c = Inr ()" and "ip < length (ch_ops c)"
  shows "operands_in_range m c (ch_ops c ! ip)"
  using assms by (rule accepted_operands_in_range)

theorem accepted_operands_witness:
  "operands_in_range (sample_module [delegating_stream, yielding_helper]) delegating_stream (Call 1 1)"
proof -
  have "operands_in_range (sample_module [delegating_stream, yielding_helper]) delegating_stream
      (ch_ops delegating_stream ! 2)"
    by (rule accepted_operands) code_simp+
  then show ?thesis by (simp add: delegating_stream_def sample_chunk_def)
qed

text \<open>
  C6.  Always-yielding chunks.  A chunk the verifier classifies as always yielding, accepted by the
  nesting pass, whose blocks are linked and which ends with an instruction that leaves the frame:
  every control path from its entry to that last instruction yields, directly or through a chunk that
  is itself classified.
\<close>

theorem always_yielding_sound:
  assumes "compute_always_yielding m = Some A" and "i \<in> A" and "c = m_chunks m ! i" and "pass1 m c = Inr ()"
    and "length (ch_ops c) = Suc n" and "ctl_exits (ctl_of (ch_ops c ! n))" and "top_level (ch_ops c) n"
    and "fpath (ch_ops c) 0 (tr @ n # tr') j"
  shows "yields_on (ch_ops c) A tr"
  using assms by (rule always_yielding_paths)

theorem always_yielding_sound_witness:
  "yields_on (ch_ops yielding_helper) {0, 1} [0, 1]"
proof (rule always_yielding_sound
    [where m = "sample_module [delegating_stream, yielding_helper]" and i = 1 and n = 2 and tr' = "[]" and j = 3])
  let ?m = "sample_module [delegating_stream, yielding_helper]"
  show "compute_always_yielding ?m = Some {0, 1}" by code_simp
  show "yielding_helper = m_chunks ?m ! 1" by (simp add: sample_module_def)
  show "pass1 ?m yielding_helper = Inr ()" by code_simp
  show "length (ch_ops yielding_helper) = Suc 2" by code_simp
  show "ctl_exits (ctl_of (ch_ops yielding_helper ! 2))" by code_simp
  show "top_level (ch_ops yielding_helper) 2" by code_simp
  have "is_fpath (ch_ops yielding_helper) 0 [0, 1, 2] 3" by code_simp
  then show "fpath (ch_ops yielding_helper) 0 ([0, 1] @ 2 # []) 3" by (simp add: is_fpath_iff)
qed simp

text \<open>
  C13.  The classification does not see an early return: a helper that returns on one branch before it
  yields is classified as always yielding and a stream that delegates its yield to it is accepted,
  although control can run through the helper to a \<open>Return\<close> without a yield.
\<close>

theorem early_return_accepted:
  "verify_structural (sample_module [delegating_stream, early_return_helper]) = Some (Inr ())
   \<and> compute_always_yielding (sample_module [delegating_stream, early_return_helper]) = Some {0, 1}
   \<and> fpath (ch_ops early_return_helper) 0 [0, 1, 2, 3] (length (ch_ops early_return_helper))
   \<and> \<not> yields_on (ch_ops early_return_helper) {0, 1} [0, 1, 2, 3]"
proof (intro conjI)
  show "fpath (ch_ops early_return_helper) 0 [0, 1, 2, 3] (length (ch_ops early_return_helper))"
    unfolding is_fpath_iff [symmetric] by code_simp
qed code_simp+

text \<open>
  An \<open>Else\<close> is only required to target some \<open>EndIf\<close>: a stream in which it leaves an enclosing loop
  for an \<open>EndIf\<close> beyond it is accepted, although a path from \<open>Stream\<close> reaches \<open>Reset\<close> without a
  yield.  The linking condition of the productivity theorem excludes exactly this.
\<close>

theorem skewed_else_accepted:
  "verify_structural (sample_module [skewed_else_stream]) = Some (Inr ())
   \<and> fpath (ch_ops skewed_else_stream) 1 [1, 2, 3, 4, 13, 14] (length (ch_ops skewed_else_stream))
   \<and> \<not> yields_on (ch_ops skewed_else_stream) {0} [1, 2, 3, 4, 13, 14]
   \<and> \<not> top_level (ch_ops skewed_else_stream) 14"
proof (intro conjI)
  show "fpath (ch_ops skewed_else_stream) 1 [1, 2, 3, 4, 13, 14] (length (ch_ops skewed_else_stream))"
    unfolding is_fpath_iff [symmetric] by code_simp
qed code_simp+

section \<open>Definite initialization\<close>

text \<open>
  C21.  No read of an empty local.  In an accepted module, whenever a run of a chunk, over any number of
  iterations, dispatches a \<open>GetLocal\<close>, the local holds an argument, the resumed input or a value the run
  has stored since \<open>Reset\<close> last cleared the locals, provided control can get from the entry of the
  chunk to its \<open>Stream\<close>, if it has one.
\<close>

theorem locals_initialized:
  assumes "verify_definite_initialization m = Some (Inr ())" and "c \<in> set (m_chunks m)"
    and "\<And>s. position (\<lambda>x. x = Stream) (ch_ops c) = Some s \<Longrightarrow> \<exists>tr. fpath (ch_ops c) 0 tr s"
    and "local_run c ip W" and "ip < length (ch_ops c)" and "ch_ops c ! ip = GetLocal i" and "unat i < unat (ch_local_count c)"
  shows "unat i \<in> W"
proof -
  have "check_locals c = Inr ()" using assms(1,2) by (simp add: verify_definite_initialization_Inr)
  then show ?thesis using assms(3-7) by (rule check_locals_sound)
qed

lemma delegating_stream_run: "local_run delegating_stream 1 {0}"
proof -
  let ?c = delegating_stream
  have len: "length (ch_ops ?c) = 5" and reset: "ch_ops ?c ! 4 = Reset"
    and ops: "ctl_of (ch_ops ?c ! 0) = C_Stream" "ctl_of (ch_ops ?c ! 1) = C_Other" "ctl_of (ch_ops ?c ! 2) = C_Call 1 1" "ctl_of (ch_ops ?c ! 3) = C_Other"
    and pos: "position (\<lambda>x. x = Stream) (ch_ops ?c) = Some 0" and pc: "ch_param_count ?c > 0" by code_simp+
  have "\<exists>W. local_run ?c 1 W" using lr_step [OF lr_start, of ?c 1] len ops by fastforce
  then have "\<exists>W. local_run ?c 2 W" using lr_step [of ?c 1 _ 2] len ops by fastforce
  then have "\<exists>W. local_run ?c 3 W" using lr_step [of ?c 2 _ 3] len ops by fastforce
  then have "\<exists>W. local_run ?c 4 W" using lr_step [of ?c 3 _ 4] len ops by fastforce
  then show ?thesis using lr_reset [of ?c 4 _ 0] reset len pos pc by fastforce
qed

theorem locals_initialized_witness:
  "verify_definite_initialization (sample_module [delegating_stream, yielding_helper]) = Some (Inr ())
   \<and> local_run delegating_stream 1 {0} \<and> unat (0 :: u16) \<in> ({0} :: nat set)"
proof (intro conjI)
  let ?m = "sample_module [delegating_stream, yielding_helper]"
  show ok: "verify_definite_initialization ?m = Some (Inr ())" by code_simp
  show run: "local_run delegating_stream 1 {0}" by (rule delegating_stream_run)
  show "unat (0 :: u16) \<in> ({0} :: nat set)"
  proof (rule locals_initialized [OF ok _ _ run])
    show "delegating_stream \<in> set (m_chunks ?m)" by (simp add: sample_module_def)
    fix s assume "position (\<lambda>x. x = Stream) (ch_ops delegating_stream) = Some s"
    moreover have "position (\<lambda>x. x = Stream) (ch_ops delegating_stream) = Some 0" by code_simp
    ultimately show "\<exists>tr. fpath (ch_ops delegating_stream) 0 tr s" by (intro exI [of _ "[]"]) simp
  qed code_simp+
qed

text \<open>
  C24.  The reachability of \<open>Stream\<close> is needed: a stream in which a \<open>Break\<close> steps over \<open>Stream\<close> is accepted
  by the structural passes and by this one, although the iteration after the first reads a local that
  \<open>Reset\<close> has cleared.
\<close>

theorem skipped_stream_accepted:
  "verify_structural (sample_module [skipped_stream]) = Some (Inr ())
   \<and> verify_definite_initialization (sample_module [skipped_stream]) = Some (Inr ())
   \<and> ch_ops skipped_stream ! 6 = GetLocal 1 \<and> local_run skipped_stream 6 {0}"
proof (intro conjI)
  show "verify_structural (sample_module [skipped_stream]) = Some (Inr ())" by code_simp
  show "verify_definite_initialization (sample_module [skipped_stream]) = Some (Inr ())" by code_simp
  show "ch_ops skipped_stream ! 6 = GetLocal 1" by code_simp
  let ?c = skipped_stream
  have len: "length (ch_ops ?c) = 10" and reset: "ch_ops ?c ! 9 = Reset"
    and ops: "ctl_of (ch_ops ?c ! 0) = C_Other" "ctl_of (ch_ops ?c ! 1) = C_Other" "ctl_of (ch_ops ?c ! 2) = C_Loop 6"
      "ctl_of (ch_ops ?c ! 3) = C_Break 6" "ctl_of (ch_ops ?c ! 5) = C_EndLoop 3" "ctl_of (ch_ops ?c ! 6) = C_Other"
      "ctl_of (ch_ops ?c ! 7) = C_Yield" "ctl_of (ch_ops ?c ! 8) = C_Other"
    and nowrite: "ch_ops ?c ! 5 = EndLoop 3" "ch_ops ?c ! 3 = Break 6"
    and pos: "position (\<lambda>x. x = Stream) (ch_ops ?c) = Some 4" and pc: "ch_param_count ?c > 0" by code_simp+
  have "\<exists>W. local_run ?c 1 W" using lr_step [OF lr_start, of ?c 1] len ops by fastforce
  then have "\<exists>W. local_run ?c 2 W" using lr_step [of ?c 1 _ 2] len ops by fastforce
  then have "\<exists>W. local_run ?c 3 W" using lr_step [of ?c 2 _ 3] len ops by fastforce
  then have "\<exists>W. local_run ?c 6 W" using lr_step [of ?c 3 _ 6] len ops by fastforce
  then have "\<exists>W. local_run ?c 7 W" using lr_step [of ?c 6 _ 7] len ops by fastforce
  then have "\<exists>W. local_run ?c 8 W" using lr_step [of ?c 7 _ 8] len ops by fastforce
  then have "\<exists>W. local_run ?c 9 W" using lr_step [of ?c 8 _ 9] len ops by fastforce
  then have "local_run ?c 5 {0}" using lr_reset [of ?c 9 _ 4] reset len pos pc by fastforce
  then have "local_run ?c 3 {0}" using lr_step [of ?c 5 _ 3] len ops nowrite by fastforce
  then show "local_run ?c 6 {0}" using lr_step [of ?c 3 _ 6] len ops nowrite by fastforce
qed



text \<open>
  The condition on \<open>Reset\<close> is needed: a stream in which a \<open>Break\<close> steps over \<open>Stream\<close> is accepted by the
  structural passes and by this one, although its second iteration reads a private slot that nothing has
  written.
\<close>

theorem skipped_stream_reads_data:
  "verify_structural skipped_data_module = Some (Inr ()) \<and> verify_definite_initialization skipped_data_module = Some (Inr ())
   \<and> ch_ops (m_chunks skipped_data_module ! 0) ! 3 = GetData 0 \<and> data_exec skipped_data_module 0 0 {} 3 {}"
proof (intro conjI)
  let ?ops = "ch_ops (m_chunks skipped_data_module ! 0)"
  have ops: "?ops = [Loop 6, Break 6, Stream, GetData 0, PopN 1, EndLoop 1, GetLocal 0, Yield, PopN 1, Reset]" by code_simp
  have pos: "position (\<lambda>x. x = Stream) ?ops = Some 2" unfolding ops by code_simp
  have "data_exec skipped_data_module 0 (Suc 2) {} 3 {}" using de_here [of skipped_data_module 0 3] by simp
  then have "data_exec skipped_data_module 0 9 {} 3 {}" by (intro de_reset [of 9, OF _ _ pos]) (simp_all add: ops)
  then have "data_exec skipped_data_module 0 8 {} 3 {}" by (intro de_step [of 8 _ _ 9]) (simp_all add: ops)
  then have "data_exec skipped_data_module 0 7 {} 3 {}" by (intro de_step [of 7 _ _ 8]) (simp_all add: ops)
  then have "data_exec skipped_data_module 0 6 {} 3 {}" by (intro de_step [of 6 _ _ 7]) (simp_all add: ops)
  then have "data_exec skipped_data_module 0 1 {} 3 {}" by (intro de_step [of 1 _ _ 6]) (simp_all add: ops)
  then show "data_exec skipped_data_module 0 0 {} 3 {}" by (intro de_step [of 0 _ _ 1]) (simp_all add: ops)
qed code_simp+

text \<open>
  C23.  The pass always answers: the worklist of every chunk runs dry, whatever its code, and the ordering
  of the chunks never decrements a count that is zero.
\<close>

theorem definite_initialization_returns: "\<exists>r. verify_definite_initialization m = Some r"
  by (rule verify_definite_initialization_total)

text \<open>
  A vector of words refines a finite set: the empty vector, insertion below the width, intersection
  and union of vectors of one width are those of the sets they stand for, membership is membership, and
  \<open>meet\<close> reports a change exactly if the set shrinks.
\<close>

theorem bits_refine_sets:
  "bits_set (bits_empty n) = {} \<and> (bits_has a i \<longleftrightarrow> i \<in> bits_set a)
   \<and> (i < 64 * length a \<longrightarrow> bits_set (bits_insert i a) = insert i (bits_set a))
   \<and> (length a = length b \<longrightarrow> bits_set (fst (bits_meet a b)) = bits_set a \<inter> bits_set b
      \<and> bits_set (bits_join a b) = bits_set a \<union> bits_set b
      \<and> (snd (bits_meet a b) \<longleftrightarrow> bits_set a \<inter> bits_set b \<noteq> bits_set a))"
proof (intro conjI impI)
  assume len: "length a = length b"
  show meet: "bits_set (fst (bits_meet a b)) = bits_set a \<inter> bits_set b" by (rule bits_set_meet) (simp add: len)
  show "bits_set (bits_join a b) = bits_set a \<union> bits_set b" by (rule bits_set_join) (simp add: len)
  show "snd (bits_meet a b) \<longleftrightarrow> bits_set a \<inter> bits_set b \<noteq> bits_set a"
    unfolding bits_meet_changed meet [symmetric] using bits_ext [of "fst (bits_meet a b)" a] by auto
qed (simp_all add: bits_set_insert, simp add: bits_set_def)

theorem bits_refine_sets_witness:
  "bits_set (fst (bits_meet [3, 4] [6, 4])) = bits_set [3, 4] \<inter> bits_set [6, 4]"
  using bits_refine_sets [where a = "[3, 4]" and b = "[6, 4]" and i = 0 and n = 0] by simp

section \<open>The call graph\<close>

text \<open>
  C25.  The order of analysis.  It is computed exactly if no chunk can reach itself through calls; it
  then lists every chunk once, each after all chunks it calls.  Otherwise the error names a chunk on a
  cycle.  The search always ends within as many levels as there are chunks.
\<close>

theorem call_order_correct:
  "case topological_call_order m of
     None \<Rightarrow> False
   | Some (Inr order) \<Rightarrow> acyclic (call_rel m) \<and> distinct order \<and> set order = {..<length (m_chunks m)}
       \<and> (\<forall>k < length order. set (chunk_callees m (order ! k)) \<subseteq> set (take k order))
   | Some (Inl e) \<Rightarrow> (\<exists>k. e = VE_RecursiveCall k \<and> (k, k) \<in> (call_rel m)\<^sup>+)"
proof -
  from topo_order_correct [of m] show ?thesis
  proof (elim disjE exE conjE)
    fix order assume "topological_call_order m = Some (Inr order)" "distinct order"
      "set order = {..<length (m_chunks m)}" "callees_precede m order"
    then show ?thesis using topo_order_iff_acyclic [of m] by (auto simp: callees_precede_def)
  qed simp
qed

theorem call_order_correct_witness:
  "topological_call_order (sample_module [delegating_stream, yielding_helper]) = Some (Inr [1, 0])
   \<and> acyclic (call_rel (sample_module [delegating_stream, yielding_helper]))"
proof
  let ?m = "sample_module [delegating_stream, yielding_helper]"
  show o: "topological_call_order ?m = Some (Inr [1, 0])" by code_simp
  from call_order_correct [of ?m] show "acyclic (call_rel ?m)" by (simp add: o)
qed

text \<open>
  C26.  The call depth.  The reported depth bounds the length of every chain of calls of the module and,
  when the module has a chunk, is the length of one, both up to saturation at \<open>u32::MAX\<close>.
\<close>

theorem call_depth_exact:
  assumes "module_call_depth m = Some (Inr d)"
  shows "(\<forall>js. call_chain m js \<longrightarrow> min (length js) u32_max \<le> d)
    \<and> (m_chunks m \<noteq> [] \<longrightarrow> (\<exists>js. call_chain m js \<and> d = min (length js) u32_max))"
  using assms by (rule call_depth_correct)

theorem call_depth_exact_witness:
  "module_call_depth (sample_module [delegating_stream, yielding_helper]) = Some (Inr 2)
   \<and> min (length [0, 1 :: nat]) u32_max \<le> 2"
proof
  let ?m = "sample_module [delegating_stream, yielding_helper]"
  show d: "module_call_depth ?m = Some (Inr 2)" by code_simp
  have callees: "chunk_callees ?m 0 = [1]" and chunks: "length (m_chunks ?m) = 2" by code_simp+
  have "call_chain ?m [0, 1]" by (simp add: call_rel_def callees chunks)
  with call_depth_exact [OF d] show "min (length [0, 1 :: nat]) u32_max \<le> 2" by blast
qed

section \<open>Text operations\<close>

text \<open>
  C27.  Text operations are paid for.  On a chunk of straight-line code, executed with text values of any
  length in the results of its calls, each instruction's term of the analysis covers the bytes the
  instruction reads, at \<open>per_byte\<close> cycles each, and is \<open>u32::MAX\<close> where no bound is known.  The locals
  start without texts: the analysis says nothing of a chunk with text parameters.
\<close>

theorem text_time_covered:
  assumes "text_run c callees per_byte (ch_ops c) ([], replicate (unat (ch_local_count c)) None) ts"
  shows "list_all2 (\<lambda>t e. min t u32_max \<le> e) ts (chunk_text_wcet_cycles_with_callees c per_byte callees)"
  using assms by (rule chunk_text_wcet_sound)

theorem text_time_covered_witness:
  "chunk_text_wcet_cycles_with_callees literal_compare 1 [] = [0, 0, 0, 0, 5]
   \<and> list_all2 (\<lambda>t e. min t u32_max \<le> e) [0, 0, 0, 0, 5] (chunk_text_wcet_cycles_with_callees literal_compare 1 [])"
proof
  show "chunk_text_wcet_cycles_with_callees literal_compare 1 [] = [0, 0, 0, 0, 5]" by code_simp
  let ?c = literal_compare
  have ops: "ch_ops ?c = [Const 0, SetLocal 0, GetLocal 0, Const 1, CmpEq]" and lc: "unat (ch_local_count ?c) = 1"
    and cs: "ch_constants ?c = [CV_StaticStr ''seconds'', CV_StaticStr ''hours'', CV_Int 1]"
    by (simp_all add: literal_compare_def text_chunk_def)
  have len: "length ''seconds'' = 7" "length ''hours'' = 5" by simp_all
  have s1: "text_step ?c [] (Const 0) ([], [None]) ([Some 7], [None])"
    unfolding len [symmetric] by (rule tx_const_text) (simp_all add: cs nth_opt_def u32_max_def)
  have s2: "text_step ?c [] (SetLocal 0) ([Some 7], [None]) ([], [Some 7])"
    using tx_set [of 0 "[None]"] by simp
  have s3: "text_step ?c [] (GetLocal 0) ([], [Some 7]) ([Some 7], [Some 7])"
    using tx_get [of 0 "[Some 7]"] by simp
  have s4: "text_step ?c [] (Const 1) ([Some 7], [Some 7]) ([Some 5, Some 7], [Some 7])"
    unfolding len(2) [symmetric] by (rule tx_const_text) (simp_all add: cs nth_opt_def u32_max_def)
  have s5: "text_step ?c [] CmpEq ([Some 5, Some 7], [Some 7]) ([None], [Some 7])"
    by (rule tx_cmp_eq) simp
  have "text_run ?c [] 1 (ch_ops ?c) ([], replicate (unat (ch_local_count ?c)) None) [0, 0, 0, 0, 5]"
    unfolding ops lc using s1 s2 s3 s4 s5 by (fastforce simp: text_time_def)
  then show "list_all2 (\<lambda>t e. min t u32_max \<le> e) [0, 0, 0, 0, 5] (chunk_text_wcet_cycles_with_callees ?c 1 [])"
    by (rule text_time_covered)
qed

text \<open>
  C28.  A comparison of two text parameters is not paid for: the analysis charges the chunk nothing
  for it, whatever the lengths of the texts it is called with.
\<close>

theorem parameter_compare_free:
  "chunk_text_wcet_cycles parameter_compare 1 = [0, 0, 0, 0]
   \<and> text_run parameter_compare [] 1 (take 3 (ch_ops parameter_compare)) ([], [Some n, Some n]) [0, 0, n]"
proof
  show "chunk_text_wcet_cycles parameter_compare 1 = [0, 0, 0, 0]" by code_simp
  have ops: "take 3 (ch_ops parameter_compare) = [GetLocal 0, GetLocal 1, CmpEq]"
    by (simp add: parameter_compare_def text_chunk_def)
  have "text_step parameter_compare [] (GetLocal 0) ([], [Some n, Some n]) ([Some n], [Some n, Some n])"
    using tx_get [of 0 "[Some n, Some n]"] by simp
  moreover have "text_step parameter_compare [] (GetLocal 1) ([Some n], [Some n, Some n]) ([Some n, Some n], [Some n, Some n])"
    using tx_get [of 1 "[Some n, Some n]"] by simp
  moreover have "text_step parameter_compare [] CmpEq ([Some n, Some n], [Some n, Some n]) ([None], [Some n, Some n])"
    by (rule tx_cmp_eq) simp
  ultimately show "text_run parameter_compare [] 1 (take 3 (ch_ops parameter_compare)) ([], [Some n, Some n]) [0, 0, n]"
    unfolding ops by (fastforce simp: text_time_def)
qed

text \<open>
  The same comparison is charged when a call's argument is a plain literal, and not charged when
  the argument is the value of a conditional expression: the walk over the code keeps the value of both
  branches on its stack, and takes one of them for the text beneath.
\<close>

theorem branch_argument_free:
  "chunk_text_wcet_cycles branch_argument_compare 1 = replicate 10 0
   \<and> chunk_text_wcet_cycles (text_chunk 1 [Const 0, Const 2, Call 0 1, CmpEq, Return]) 1 = [0, 0, 0, 7, 0]"
  by (intro conjI) code_simp+

text \<open>
  The lattice of text bounds: the join is the maximum of a linear order, and the bound of a
  concatenation is a commutative, associative and monotone operation with unit \<open>NotText\<close>, which
  covers the sum of the lengths it is given bounds for.
\<close>

theorem text_lattice:
  "ts_join a b = max a b \<and> ts_add a b = ts_add b a \<and> ts_add (ts_add a b) c = ts_add a (ts_add b c)
   \<and> ts_add NotText a = a \<and> ts_add a b \<le> ts_add (ts_join a c) b
   \<and> (text_covers a (Some x) \<longrightarrow> text_covers b (Some y) \<longrightarrow> text_covers (ts_add a b) (Some (x + y)))"
proof (intro conjI)
  show "ts_add a b \<le> ts_add (ts_join a c) b" by (simp add: ts_join_max ts_add_mono)
  show "ts_add a b = ts_add b a" by (rule ts_add_commute)
qed (simp_all add: ts_join_max ts_add_assoc covers_add)

theorem text_lattice_witness: "text_covers (ts_add (Known 7) (Known 5)) (Some (6 + 5))"
  using text_lattice [of "Known 7" "Known 5" NotText 6 5] by simp

section \<open>Memory bounds\<close>



text \<open>
  Both conditions on packed values are needed.  A stream that declares no bytes for a tuple of two words passes
  the structural passes and its table has no heap bytes, yet its instruction takes sixteen; the typed pass, which
  is not modelled, compares the sizes it can reconstruct.  A text parameter packs into the sixteen declared
  bytes, but a string the host owns is copied into the arena first, whatever its length.
\<close>

theorem undeclared_bytes_taken:
  "verify_structural understated_module = Some (Inr ())
   \<and> map_option (map_sum id (map snd)) (module_wcmu_with_bounds understated_module [] 32) = Some (Inr [0])
   \<and> taken_by understated_module (NewComposite (NC_Flat CK_Tuple 2 0)) (roomy_vm [V_Int 7, V_Int 7]) = Some 16
   \<and> verify_structural text_module = Some (Inr ())
   \<and> map_option (map_sum id (map snd)) (module_wcmu_with_bounds text_module [] 32) = Some (Inr [16])
   \<and> taken_by text_module (NewComposite (NC_Flat CK_Tuple 1 16)) (roomy_vm [V_StaticStr ''abc'']) = Some 19"
  by (intro conjI) code_simp+



text \<open>
  C37.  The results of \<open>match\<close> are not counted.  The compiler lowers a \<open>match\<close> to a loop whose arms leave
  their value on the stack and break; the memory walk goes on after a loop at the height of its entry.  For
  an addition of two such operands the accepted chunk's bound is its four locals and one slot, although
  its only path to the addition has two operands on the stack.
\<close>

theorem match_results_uncounted:
  "verify_structural (sample_module [match_operands]) = Some (Inr ())
   \<and> module_wcmu_with_value_slot_bytes (sample_module [match_operands]) [] 1 = Some (Inr [(4 + 1, 0)])
   \<and> fpath (ch_ops match_operands) 0 [0, 1, 2, 5, 6, 7, 10, 11] (length (ch_ops match_operands))
   \<and> path_net match_operands [0, 1, 2, 5, 6, 7] = 2"
proof (intro conjI)
  show "verify_structural (sample_module [match_operands]) = Some (Inr ())" by code_simp
  show "module_wcmu_with_value_slot_bytes (sample_module [match_operands]) [] 1 = Some (Inr [(4 + 1, 0)])" by code_simp
  have "is_fpath (ch_ops match_operands) 0 [0, 1, 2, 5, 6, 7, 10, 11] (length (ch_ops match_operands))" by code_simp
  then show "fpath (ch_ops match_operands) 0 [0, 1, 2, 5, 6, 7, 10, 11] (length (ch_ops match_operands))"
    by (simp add: is_fpath_iff)
  show "path_net match_operands [0, 1, 2, 5, 6, 7] = 2" by code_simp
qed

text \<open>
  C38.  Verifier and arena.  Take a stream of an accepted module with linked blocks that the resource check
  admits for a capacity, and what some run of its body takes from the top end on the machine, under the
  conditions of the previous bound.  In an arena with that capacity beside its persistent region, after a
  reset, byte requests at the top end that stay within what the run takes, interleaved in any way with
  requests at the bottom end that stay within the table's stack bytes, all succeed.
\<close>

theorem admitted_stream_served:
  assumes "verify_structural m = Some (Inr ())" and "list_all span_linked (m_chunks m)"
    and "verify_resource_bounds_with_bounds m capacity bounds vsb = Some (Inr ())" and "capacity < u32_max"
    and "module_wcmu_with_bounds m bounds vsb = Some (Inr table)"
    and "k < length (m_chunks m)" and "ch_block_type (m_chunks m ! k) = BT_Stream"
    and "stacks_at_bottom h" and "chunk_run h m (per_site_native_wcmu bounds) (external_native_wcmu bounds) k vm vm'"
    and "arena_ok a" and "arena_reset a = Inr a'" and "capacity \<le> ar_capacity a - ar_persistent a"
    and "requested False rs \<le> ar_top (vm_arena vm) - ar_top (vm_arena vm')" and "requested True rs \<le> fst (table ! k)"
  shows "\<exists>a''. run_requests rs a' = Inr a''"
proof (rule served_by_budget [OF machine_heap_covered [OF assms(1,2,5,8,9)] _ assms(4,10,11,12,13,14)])
  have "enforce_arena_capacity (m_chunks m) capacity table = Inr ()"
    using assms(3,5) by (simp add: verify_resource_bounds_with_bounds_def)
  from enforce_capacity_each [OF this module_table_length [OF assms(5)] assms(6,7)]
  show "budget_total (chunk_budget (table ! k)) \<le> capacity" .
qed

theorem admitted_stream_served_witness:
  "\<exists>a''. run_requests [(True, 192), (False, 8), (True, 128)] (arena_over 4096 (replicate 512 0) Owned \<lparr> ar_epoch := 1 \<rparr>) = Inr a''"
proof (rule admitted_stream_served [where m = tuple_module and capacity = 512 and bounds = "[]" and vsb = 32 and k = 0
      and table = "[(320, 8), (192, 8)]" and a = "arena_over 4096 (replicate 512 0) Owned" and h = sample_host
      and vm = tuple_vm and vm' = tuple_end])
  show "verify_structural tuple_module = Some (Inr ())" by code_simp
  show "list_all span_linked (m_chunks tuple_module)" by code_simp
  show "verify_resource_bounds_with_bounds tuple_module 512 [] 32 = Some (Inr ())" by code_simp
  show "module_wcmu_with_bounds tuple_module [] 32 = Some (Inr [(320, 8), (192, 8)])" by code_simp
  show "ch_block_type (m_chunks tuple_module ! 0) = BT_Stream" by code_simp
  show "arena_ok (arena_over 4096 (replicate 512 0) Owned)" by (rule arena_over_ok) simp_all
  show "arena_reset (arena_over 4096 (replicate 512 0) Owned) = Inr (arena_over 4096 (replicate 512 0) Owned \<lparr> ar_epoch := 1 \<rparr>)"
    by (simp add: arena_reset_def arena_over_def next_epoch_def checked_add_def)
  show "tuple_run 0 tuple_vm tuple_end" by (rule stream_machine_run)
  show "requested False [(True, 192), (False, 8), (True, 128)] \<le> ar_top (vm_arena tuple_vm) - ar_top (vm_arena tuple_end)"
    unfolding stream_machine_takes by (simp add: requested_def)
qed (simp_all add: u32_max_def requested_def arena_over_def tuple_chunks sample_stacks)

section \<open>The arena\<close>

text \<open>
  C29.  Live blocks.  Over any sequence of operations in which those on an exclusive reference are called
  with no block held, the unsafe ones leave no held block in the part they reclaim, as their safety
  sections require, and a mark given to \<open>rewind_bottom\<close> is not below the persistent boundary of the moment
  nor one given to \<open>rewind_top\<close> above the capacity: every block still held lies above the persistent
  region and on the side of the end that gave it out, no two of them overlap, and the readings of the
  arena never underflow.
\<close>

theorem arena_blocks_safe:
  assumes "arena_run a L"
  shows "(\<forall>p n. (p, n) \<in> L \<longrightarrow> ar_persistent a \<le> p \<and> p + n \<le> ar_bottom a \<or> ar_top a \<le> p \<and> p + n \<le> ar_capacity a)
    \<and> (\<forall>p n q m. (p, n) \<in> L \<longrightarrow> (q, m) \<in> L \<longrightarrow> (p, n) \<noteq> (q, m) \<longrightarrow> p + n \<le> q \<or> q + m \<le> p)
    \<and> ar_persistent a \<le> ar_bottom a \<and> ar_bottom a \<le> ar_top a \<and> ar_top a \<le> ar_capacity a
    \<and> bottom_used a \<noteq> None \<and> top_used a \<noteq> None \<and> bottom_peak a \<noteq> None \<and> top_peak a \<noteq> None"
  using arena_run_ok [OF assms]
  by (auto simp: live_ok_def block_ok_def blocks_apart_def arena_ok_def bottom_used_def top_used_def bottom_peak_def
      top_peak_def checked_sub_def)

theorem arena_blocks_safe_witness:
  "\<exists>a p q. arena_run a {(p, 8), (q, 8)} \<and> ar_bottom a \<le> ar_top a \<and> bottom_used a \<noteq> None \<and> p \<noteq> q"
proof -
  have "arena_run sample_arena {}" unfolding sample_arena_def by (rule ar_new) simp_all
  moreover have l: "layout_ok \<lparr> ly_size = 8, ly_align = 8 \<rparr>" by (auto simp: layout_ok_def intro!: exI [of _ 3])
  moreover obtain a where a: "alloc_bottom \<lparr> ly_size = 8, ly_align = 8 \<rparr> sample_arena = Inr (0, a)"
    and b: "\<exists>a'. alloc_top \<lparr> ly_size = 8, ly_align = 8 \<rparr> a = Inr (56, a')"
  proof -
    have "\<exists>a'. alloc_top \<lparr> ly_size = 8, ly_align = 8 \<rparr> (sample_arena \<lparr> ar_bottom := 8, ar_bottom_peak := 8 \<rparr>) = Inr (56, a')"
      by (rule exI [of _ "sample_arena \<lparr> ar_bottom := 8, ar_bottom_peak := 8, ar_top := 56, ar_top_low := 56 \<rparr>"]) code_simp
    moreover have "alloc_bottom \<lparr> ly_size = 8, ly_align = 8 \<rparr> sample_arena = Inr (0, sample_arena \<lparr> ar_bottom := 8, ar_bottom_peak := 8 \<rparr>)"
      by code_simp
    ultimately show thesis using that by blast
  qed
  ultimately obtain a' where "arena_run a' {(56, 8), (0, 8)}"
    using ar_alloc_bottom ar_alloc_top by (metis mem_layout.select_convs(1))
  moreover from arena_blocks_safe [OF this] have "ar_bottom a' \<le> ar_top a' \<and> bottom_used a' \<noteq> None" by blast
  ultimately show ?thesis by (intro exI [of _ a'] exI [of _ 56] exI [of _ 0]) simp
qed

text \<open>
  C30.  Each end implements the abstract allocator of the gap: it gives out a block exactly if some block
  of the requested size and alignment lies between the ends; the bottom end takes the lowest such block
  and the top end the highest, no byte is written, and the block is outside the gap that is left.
\<close>

theorem arena_alloc_refines:
  assumes "arena_ok a" and "layout_ok l"
  shows "(case alloc_bottom l a of Inl e \<Rightarrow> \<forall>p. \<not> fits_at l a p
      | Inr (p, a') \<Rightarrow> fits_at l a p \<and> (\<forall>q. fits_at l a q \<longrightarrow> p \<le> q) \<and> p + ly_size l \<le> ar_bottom a' \<and> ar_bytes a' = ar_bytes a)
    \<and> (case alloc_top l a of Inl e \<Rightarrow> \<forall>p. \<not> fits_at l a p
      | Inr (p, a') \<Rightarrow> fits_at l a p \<and> (\<forall>q. fits_at l a q \<longrightarrow> q \<le> p) \<and> ar_top a' \<le> p \<and> ar_bytes a' = ar_bytes a)"
proof
  show "case alloc_bottom l a of Inl e \<Rightarrow> \<forall>p. \<not> fits_at l a p
      | Inr (p, a') \<Rightarrow> fits_at l a p \<and> (\<forall>q. fits_at l a q \<longrightarrow> p \<le> q) \<and> p + ly_size l \<le> ar_bottom a' \<and> ar_bytes a' = ar_bytes a"
    using bottom_end.complete [OF assms] alloc_bottom_takes [OF assms] by (cases "alloc_bottom l a") auto
  show "case alloc_top l a of Inl e \<Rightarrow> \<forall>p. \<not> fits_at l a p
      | Inr (p, a') \<Rightarrow> fits_at l a p \<and> (\<forall>q. fits_at l a q \<longrightarrow> q \<le> p) \<and> ar_top a' \<le> p \<and> ar_bytes a' = ar_bytes a"
    using top_end.complete [OF assms] alloc_top_takes [OF assms] by (cases "alloc_top l a") auto
qed

theorem arena_alloc_refines_witness:
  "fits_at \<lparr> ly_size = 8, ly_align = 8 \<rparr> sample_arena 0 \<and> fits_at \<lparr> ly_size = 8, ly_align = 8 \<rparr> sample_arena 56"
proof -
  let ?l = "\<lparr> ly_size = 8, ly_align = 8 \<rparr>"
  have ok: "arena_ok sample_arena" "layout_ok ?l"
    by (auto simp: sample_arena_def layout_ok_def intro!: arena_over_ok exI [of _ 3])
  have "alloc_bottom ?l sample_arena = Inr (0, sample_arena \<lparr> ar_bottom := 8, ar_bottom_peak := 8 \<rparr>)"
    "alloc_top ?l sample_arena = Inr (56, sample_arena \<lparr> ar_top := 56, ar_top_low := 56 \<rparr>)" by code_simp+
  with arena_alloc_refines [OF ok] show ?thesis by simp
qed

text \<open>
  C31.  A budget is honoured.  After a reset the arena serves a budget, that is, every sequence of byte
  allocations at both ends, in any interleaving, that stays within the two halves of the budget succeeds
  to the end, exactly if \<open>fits_budget\<close> admits the budget with the persistent region counted in its bottom
  half.
\<close>

theorem arena_budget_honoured:
  assumes "arena_ok a" and "arena_reset a = Inr a'"
  shows "serves_budget a' b \<longleftrightarrow> fits_budget a (with_persistent a b)"
proof -
  have "arena_ok a'" by (rule exclusive_ok(1) [OF assms])
  moreover have "ar_persistent a \<le> ar_capacity a" using assms(1) by (auto simp: arena_ok_def)
  ultimately show ?thesis
    using serves_budget_iff fits_budget_iff [OF assms(1)] reset_free [OF assms(2)] by (auto simp: with_persistent_def)
qed

theorem arena_budget_honoured_witness:
  "serves_budget (reserved_arena \<lparr> ar_epoch := 1 \<rparr>) \<lparr> bottom_bytes = 8, top_bytes = 24 \<rparr>
   \<and> \<not> serves_budget (reserved_arena \<lparr> ar_epoch := 1 \<rparr>) \<lparr> bottom_bytes = 8, top_bytes = 25 \<rparr>"
proof -
  have "arena_ok reserved_arena" by (simp add: arena_ok_def reserved_arena_def sample_arena_def arena_over_def)
  moreover have "arena_reset reserved_arena = Inr (reserved_arena \<lparr> ar_epoch := 1 \<rparr>)" by code_simp
  ultimately have "serves_budget (reserved_arena \<lparr> ar_epoch := 1 \<rparr>) b \<longleftrightarrow> fits_budget reserved_arena (with_persistent reserved_arena b)" for b
    by (rule arena_budget_honoured)
  moreover have "fits_budget reserved_arena (with_persistent reserved_arena \<lparr> bottom_bytes = 8, top_bytes = 24 \<rparr>)"
    and "\<not> fits_budget reserved_arena (with_persistent reserved_arena \<lparr> bottom_bytes = 8, top_bytes = 25 \<rparr>)" by code_simp+
  ultimately show ?thesis by blast
qed

text \<open>
  \<open>fits_budget\<close> by itself compares with the whole capacity: an arena with a persistent region admits a
  budget it does not serve.
\<close>

theorem admitted_budget_fails:
  "fits_budget reserved_arena \<lparr> bottom_bytes = 8, top_bytes = 56 \<rparr>
   \<and> arena_reset reserved_arena = Inr (reserved_arena \<lparr> ar_epoch := 1 \<rparr>)
   \<and> alloc_top_bytes 56 (reserved_arena \<lparr> ar_epoch := 1 \<rparr>) = Inl AllocError"
  by (intro conjI) code_simp+

text \<open>
  C32.  No stale read.  Take a handle issued no later than the present epoch.  After any operations of the
  arena, a reset of either kind and any further operations, resizes of the persistent region included
  and only \<open>force_reset_epoch\<close> excluded, the handle is refused unless its address lies outside the region
  that the arena of that moment reclaims on a reset; an address outside it resolves to itself.
\<close>

theorem arena_handles_stale:
  assumes "arena_next\<^sup>*\<^sup>* a a1"
    and "arena_reset a1 = Inr a2 \<or> reset_unchecked a1 = Inr a2 \<or> reset_top_unchecked a1 = Inr a2"
    and "arena_next\<^sup>*\<^sup>* a2 a3" and "ah_epoch h \<le> ar_epoch a"
  shows "handle_get h a3 = (if addr_is_ephemeral a3 (ah_addr h) then Inl Stale else Inr (ah_addr h))"
  using assms by (rule reset_stale)

theorem arena_handles_stale_witness:
  "handle_get \<lparr> ah_addr = 4096 + 56, ah_epoch = 0 \<rparr>
     (sample_arena \<lparr> ar_persistent := 16, ar_bottom := 16, ar_bottom_peak := 16, ar_epoch := 2 \<rparr>) = Inl Stale"
proof -
  let ?a3 = "sample_arena \<lparr> ar_persistent := 16, ar_bottom := 16, ar_bottom_peak := 16, ar_epoch := 2 \<rparr>"
  have r: "reset_top_unchecked sample_arena = Inr (sample_arena \<lparr> ar_epoch := 1 \<rparr>)" by code_simp
  have "resize_persistent 16 (sample_arena \<lparr> ar_epoch := 1 \<rparr>) = Inr ?a3" by code_simp
  then have n: "arena_next\<^sup>*\<^sup>* (sample_arena \<lparr> ar_epoch := 1 \<rparr>) ?a3" by (intro r_into_rtranclp arena_next.intros(15))
  have e: "addr_is_ephemeral ?a3 (4096 + 56)" by code_simp
  show ?thesis
    using arena_handles_stale [of sample_arena sample_arena "sample_arena \<lparr> ar_epoch := 1 \<rparr>" ?a3
        "\<lparr> ah_addr = 4096 + 56, ah_epoch = 0 \<rparr>"] r n e by simp
qed

text \<open>
  C34.  Resizing the persistent region does not make every handle stale, as its documentation says it
  does: a handle to a block that the grown region now covers resolves, whatever its epoch.
\<close>

theorem resize_keeps_handles:
  assumes "arena_ok a" and "resize_persistent n a = Inr a'" and "p < n"
  shows "handle_get \<lparr> ah_addr = ar_base a + p, ah_epoch = e \<rparr> a' = Inr (ar_base a + p) \<and> ar_epoch a' = ar_epoch a + 1"
  using resized_over_live [OF assms] assms(2) by (auto simp: resize_persistent_def split: if_splits option.splits)

theorem resize_keeps_handles_witness:
  "alloc_top \<lparr> ly_size = 8, ly_align = 8 \<rparr> sample_arena = Inr (56, sample_arena \<lparr> ar_top := 56, ar_top_low := 56 \<rparr>)
   \<and> handle_get \<lparr> ah_addr = 4096 + 56, ah_epoch = 0 \<rparr>
       (sample_arena \<lparr> ar_persistent := 64, ar_bottom := 64, ar_bottom_peak := 64, ar_epoch := 1 \<rparr>) = Inr (4096 + 56)"
proof
  show "alloc_top \<lparr> ly_size = 8, ly_align = 8 \<rparr> sample_arena = Inr (56, sample_arena \<lparr> ar_top := 56, ar_top_low := 56 \<rparr>)"
    by code_simp
  have "arena_ok (sample_arena \<lparr> ar_top := 56, ar_top_low := 56 \<rparr>)"
    by (simp add: arena_ok_def sample_arena_def arena_over_def)
  moreover have "resize_persistent 64 (sample_arena \<lparr> ar_top := 56, ar_top_low := 56 \<rparr>)
      = Inr (sample_arena \<lparr> ar_persistent := 64, ar_bottom := 64, ar_bottom_peak := 64, ar_epoch := 1 \<rparr>)" by code_simp
  moreover have "ar_base sample_arena = 4096" by code_simp
  ultimately show "handle_get \<lparr> ah_addr = 4096 + 56, ah_epoch = 0 \<rparr>
       (sample_arena \<lparr> ar_persistent := 64, ar_bottom := 64, ar_bottom_peak := 64, ar_epoch := 1 \<rparr>) = Inr (4096 + 56)"
    using resize_keeps_handles [of "sample_arena \<lparr> ar_top := 56, ar_top_low := 56 \<rparr>" 64 _ 56 0] by simp
qed

text \<open>
  A mark outlives the boundary it was taken at: after the persistent region has grown, rewinding to
  an older mark puts the bottom end inside it, and the next allocation returns persistent bytes.
\<close>

theorem old_mark_enters_persistent:
  "bottom_mark sample_arena = 0
   \<and> resize_persistent 32 sample_arena
       = Inr (sample_arena \<lparr> ar_persistent := 32, ar_bottom := 32, ar_bottom_peak := 32, ar_epoch := 1 \<rparr>)
   \<and> (\<exists>a. alloc_bottom_bytes 8 (rewind_bottom 0 (sample_arena \<lparr> ar_persistent := 32, ar_bottom := 32, ar_bottom_peak := 32, ar_epoch := 1 \<rparr>))
       = Inr (0, a) \<and> ar_persistent a = 32 \<and> bottom_used a = None)"
proof (intro conjI)
  show "bottom_mark sample_arena = 0" by code_simp
  show "resize_persistent 32 sample_arena
       = Inr (sample_arena \<lparr> ar_persistent := 32, ar_bottom := 32, ar_bottom_peak := 32, ar_epoch := 1 \<rparr>)" by code_simp
  let ?a = "sample_arena \<lparr> ar_persistent := 32, ar_bottom := 8, ar_bottom_peak := 32, ar_epoch := 1 \<rparr>"
  have "alloc_bottom_bytes 8 (rewind_bottom 0 (sample_arena \<lparr> ar_persistent := 32, ar_bottom := 32, ar_bottom_peak := 32, ar_epoch := 1 \<rparr>))
      = Inr (0, ?a)" "ar_persistent ?a = 32" "bottom_used ?a = None" by code_simp+
  then show "\<exists>a. alloc_bottom_bytes 8 (rewind_bottom 0 (sample_arena \<lparr> ar_persistent := 32, ar_bottom := 32, ar_bottom_peak := 32, ar_epoch := 1 \<rparr>))
       = Inr (0, a) \<and> ar_persistent a = 32 \<and> bottom_used a = None" by blast
qed

text \<open>
  C33.  Resizing in place keeps data: the persistent bytes both sizes share stay, the bytes of the bottom
  end move behind the new boundary unchanged, and the top end and its bytes stay.
\<close>

theorem resize_capacity_keeps_data:
  assumes "arena_ok a" and "resize_persistent_capacity n a = Some (Inr a')"
  shows "take (min n (ar_persistent a)) (ar_bytes a') = take (min n (ar_persistent a)) (ar_bytes a)
    \<and> take (ar_bottom a' - n) (drop n (ar_bytes a')) = take (ar_bottom a - ar_persistent a) (drop (ar_persistent a) (ar_bytes a))
    \<and> ar_top a' = ar_top a \<and> drop (ar_top a) (ar_bytes a') = drop (ar_top a) (ar_bytes a) \<and> arena_ok a'"
  using resize_capacity_bytes [OF assms] resize_capacity_ok [OF assms] by simp

theorem resize_capacity_keeps_data_witness:
  "take 2 (drop 3 [1, 2, 3, 2, 3, 6 :: u8]) = take 2 (drop 1 [1, 2, 3, 4, 5, 6])"
proof -
  let ?a = "(arena_over 4096 [1, 2, 3, 4, 5, 6] External) \<lparr> ar_persistent := 1, ar_bottom := 3, ar_bottom_peak := 3, ar_top := 5, ar_top_low := 5 \<rparr>"
  let ?a' = "(arena_over 4096 [1, 2, 3, 2, 3, 6] External) \<lparr> ar_persistent := 3, ar_bottom := 5, ar_bottom_peak := 5, ar_top := 5, ar_top_low := 5, ar_epoch := 1 \<rparr>"
  have "arena_ok ?a" by (simp add: arena_ok_def arena_over_def)
  moreover have "resize_persistent_capacity 3 ?a = Some (Inr ?a')" by code_simp
  ultimately show ?thesis using resize_capacity_keeps_data [of ?a 3 ?a'] by (simp add: arena_over_def)
qed

section \<open>The artifact container\<close>

text \<open>
  C14.  What the encoder writes, the reader reads.  A builder reached by any sequence of its operations
  whose \<open>finish\<close> succeeds yields bytes that parse; the view needs no scrub, and finds every declared
  region by its kind, with its flags and its payload padded with zeros to a whole word.
\<close>

theorem finish_then_parse:
  assumes "built b" and "finish b = Inr out"
  shows "\<exists>v. parse out = Some (Inr v) \<and> \<not> view_needs_scrub v \<and>
    (\<forall>r \<in> set (wb_regions b). \<exists>e. find_region v (rb_kind r) = Some (Some e) \<and> rg_flags e = rb_flags r
       \<and> region_bytes v e = Inr (pad_word (rb_bytes r)))"
proof -
  have "one_copy_damaged (length (emitted b)) out out" by (auto simp: one_copy_damaged_def intro!: exI [of _ 0])
  from damaged_header_read [OF assms this refl] show ?thesis by simp
qed

theorem finish_then_parse_witness:
  "\<exists>v. parse (artifact (emitted sample_builder)) = Some (Inr v) \<and> \<not> view_needs_scrub v \<and>
    (\<forall>r \<in> set (wb_regions sample_builder). \<exists>e. find_region v (rb_kind r) = Some (Some e) \<and> rg_flags e = rb_flags r
       \<and> region_bytes v e = Inr (pad_word (rb_bytes r)))"
  by (rule finish_then_parse [OF sample_built sample_finish])

text \<open>
  C15.  One damaged copy is outvoted.  If of the three copies of every prologue and directory byte at
  most one has changed, in whatever way and not necessarily the same one for every byte, the artifact
  still parses to the same regions and payloads, and the view asks for a scrub exactly if a byte has
  changed.
\<close>

theorem one_damaged_copy_outvoted:
  assumes "built b" and "finish b = Inr out" and "one_copy_damaged (length (emitted b)) out out'"
    and "drop (length (emitted b) * 48 + 48) out' = drop (length (emitted b) * 48 + 48) out"
  shows "\<exists>v. parse out' = Some (Inr v) \<and> (view_needs_scrub v \<longleftrightarrow> out' \<noteq> out) \<and>
    (\<forall>r \<in> set (wb_regions b). \<exists>e. find_region v (rb_kind r) = Some (Some e) \<and> rg_flags e = rb_flags r
       \<and> region_bytes v e = Inr (pad_word (rb_bytes r)))"
  using assms by (rule damaged_header_read)

theorem one_damaged_copy_outvoted_witness:
  "\<exists>v. parse ((artifact (emitted sample_builder)) [20 := 0xFF]) = Some (Inr v) \<and>
    (\<forall>r \<in> set (wb_regions sample_builder). \<exists>e. find_region v (rb_kind r) = Some (Some e)
       \<and> region_bytes v e = Inr (pad_word (rb_bytes r)))"
proof -
  let ?out = "artifact (emitted sample_builder)"
  have n: "length (emitted sample_builder) = 2" by (simp add: sample_emitted)
  have "one_copy_damaged 2 ?out (?out [20 := 0xFF])"
    unfolding one_copy_damaged_def
  proof (intro conjI ballI, simp, clarify)
    fix base m k assume h: "(base, m, k) \<in> header_copies 2"
    then have "copy_at base m d k \<noteq> 20" if "d < 3" "d \<noteq> 1" for d
      using that by (auto simp: header_copies_def copy_at_def less_Suc_eq numeral_3_eq_3)
    then show "\<exists>c < 3. \<forall>d < 3. d \<noteq> c \<longrightarrow> ?out [20 := 0xFF] ! copy_at base m d k = ?out ! copy_at base m d k"
      by (intro exI [of _ 1]) simp
  qed
  then have "\<exists>v. parse (?out [20 := 0xFF]) = Some (Inr v) \<and> (view_needs_scrub v \<longleftrightarrow> ?out [20 := 0xFF] \<noteq> ?out) \<and>
    (\<forall>r \<in> set (wb_regions sample_builder). \<exists>e. find_region v (rb_kind r) = Some (Some e) \<and> rg_flags e = rb_flags r
       \<and> region_bytes v e = Inr (pad_word (rb_bytes r)))"
    by (intro one_damaged_copy_outvoted [OF sample_built sample_finish]) (simp_all add: n)
  then show ?thesis by blast
qed

text \<open>
  C16.  Scrubbing restores the artifact.  Where every damaged byte lies in a protected payload and no
  64-bit word has more than one flipped bit, \<open>scrub\<close> returns exactly the bytes \<open>finish\<close> wrote, reports
  as many corrections as there are damaged words, and nothing uncorrectable.
\<close>

theorem scrub_restores:
  assumes "built b" and "finish b = Inr out" and "\<forall>r \<in> set (wb_regions b). plain_flags r"
    and "r \<in> set (wb_regions b)" and "rb_ecc_kind r \<noteq> None"
    and "light_damage (emitted b) [0..<length (emitted b)] out'"
  shows "\<exists>rep. scrub out' = Some (out, Some rep) \<and> er_uncorrectable rep = 0
    \<and> er_corrected rep = sum_list (map (dirty_words (emitted b) out') (filter (guarded (emitted b)) [0..<length (emitted b)]))"
  using assms by (rule scrub_built)

theorem scrub_restores_witness:
  "\<exists>rep. scrub (write_word (artifact (emitted sample_builder)) 144
      (xor (word_at (artifact (emitted sample_builder)) 144) (push_bit 5 1))) = Some (artifact (emitted sample_builder), Some rep)"
proof -
  let ?out = "artifact (emitted sample_builder)"
  let ?b = "write_word ?out 144 (xor (word_at ?out 144) (push_bit 5 1))"
  have d: "light_damage (emitted sample_builder) [0..<length (emitted sample_builder)] ?b"
    by (rule sample_light_damage) simp
  have "\<exists>rep. scrub ?b = Some (?out, Some rep) \<and> er_uncorrectable rep = 0
    \<and> er_corrected rep = sum_list (map (dirty_words (emitted sample_builder) ?b)
        (filter (guarded (emitted sample_builder)) [0..<length (emitted sample_builder)]))"
    by (rule scrub_restores [OF sample_built sample_finish _ _ _ d, of "hd (wb_regions sample_builder)"])
       (simp_all add: sample_builder_def plain_flags_def FLAG_IS_ECC_def)
  then show ?thesis by blast
qed

text \<open>
  C17.  The parser never panics, on any bytes, and what it accepts is safe to read: it is a view of the
  same bytes, with at most 1024 regions of distinct kinds, every entry decodes, and every payload lies
  inside the buffer.
\<close>

theorem parse_safe:
  "\<exists>r. parse b = Some r \<and> (case r of Inl _ \<Rightarrow> True | Inr v \<Rightarrow>
     vw_bytes v = b \<and> unat (vw_region_count v) \<le> MAX_REGIONS
     \<and> distinct (map (rg_kind \<circ> entry_of v) [0..<unat (vw_region_count v)])
     \<and> (\<forall>i. region_at v i = Some (if i < unat (vw_region_count v) then Some (entry_of v i) else None))
     \<and> (\<forall>i < unat (vw_region_count v). \<exists>payload. region_bytes v (entry_of v i) = Inr payload))"
proof -
  obtain r where r: "parse b = Some r" using parse_total by blast
  show ?thesis
  proof (cases r)
    case (Inr v)
    with r have ok: "view_ok v" "vw_bytes v = b" using parse_Inr [of b v] by simp_all
    then have "\<exists>payload. region_bytes v (entry_of v i) = Inr payload" if "i < unat (vw_region_count v)" for i
      using view_ok_entry [OF ok(1) that] by (simp add: region_bytes_eq)
    with r Inr ok view_ok_region_at [OF ok(1)] show ?thesis by (simp add: view_ok_def regions_ok_def)
  qed (use r in simp)
qed

theorem parse_safe_witness: "\<exists>r. parse [0x58, 0x55, 0x41, 0x4B] = Some r"
  using parse_safe [of "[0x58, 0x55, 0x41, 0x4B]"] by blast

text \<open>
  C18.  The outcome of \<open>finish\<close> on a builder reached by its operations: the artifact of its emit list if
  every offset and length fits a directory field, otherwise \<open>TooLarge\<close> or \<open>Overflow\<close>, and never
  another error.
\<close>

theorem finish_result:
  assumes "built b"
  shows "(fields_fit (emitted b) \<longrightarrow> finish b = Inr (artifact (emitted b)))
    \<and> (\<not> fields_fit (emitted b) \<longrightarrow> finish b \<in> {Inl TooLarge, Inl Overflow})"
  using finish_outcome [OF built_ok [OF assms]] by auto

theorem finish_result_witness: "finish sample_builder = Inr (artifact (emitted sample_builder))"
  using finish_result [OF sample_built] sample_fits by blast

text \<open>
  C19.  The builder's invariant: whatever operations are performed, the kinds that will be emitted,
  parity planes included, are distinct and at most 1024, and every region with a plane carries the flag
  that says so.
\<close>

theorem builder_invariant:
  assumes "built b"
  shows "distinct (emitted_kinds (wb_regions b)) \<and> emit_count b \<le> MAX_REGIONS
    \<and> (\<forall>r \<in> set (wb_regions b). rb_ecc_kind r \<noteq> None \<longrightarrow> and (rb_flags r) FLAG_ECC_PRESENT \<noteq> 0)"
  using built_ok [OF assms] by (simp add: builder_ok_def emit_count_kinds list_all_iff)

theorem builder_invariant_witness:
  "distinct (emitted_kinds (wb_regions sample_builder)) \<and> emit_count sample_builder \<le> MAX_REGIONS"
  using builder_invariant [OF sample_built] by blast

text \<open>
  C20.  The (72,64) code corrects: a codeword with any one of its 72 bits flipped decodes to the data
  it encodes.
\<close>

theorem ecc_corrects_single:
  assumes "k < 72"
  shows "decode_code (flip_code_bit k (codeword d)) = Corrected d"
  using assms by (rule ecc_single)

theorem ecc_corrects_single_witness: "decode_code (flip_code_bit 70 (codeword 0xDEADBEEF)) = Corrected 0xDEADBEEF"
  by (rule ecc_corrects_single) simp

text \<open>
  The (72,64) code detects: a codeword with any two different bits flipped is uncorrectable, never
  silently repaired to other data.
\<close>

theorem ecc_detects_double:
  assumes "j < 72" and "k < 72" and "j \<noteq> k"
  shows "decode_code (flip_code_bit j (flip_code_bit k (codeword d))) = Uncorrectable"
  using assms by (rule ecc_double)

theorem ecc_detects_double_witness: "decode_code (flip_code_bit 3 (flip_code_bit 71 (codeword 42))) = Uncorrectable"
  by (rule ecc_detects_double) simp_all

text \<open>
  The checksum notices every change confined to one byte, at any position of a message of any
  length.
\<close>

theorem crc32_one_byte: "crc32 (xs @ x # ys) = crc32 (xs @ y # ys) \<longleftrightarrow> x = y"
  by (rule crc32_byte_change)

text \<open>
  The scalar codecs are little-endian: the writers emit the base-256 digits of the value, and
  each reader returns what its writer put at any offset of any buffer.
\<close>

theorem scalar_codecs:
  "u16_bytes a = le_bytes 2 (unat a) \<and> u16_at (xs @ u16_bytes a @ ys) (length xs) = Some a
   \<and> u32_bytes b = le_bytes 4 (unat b) \<and> u32_at (xs @ u32_bytes b @ ys) (length xs) = Some b
   \<and> u64_bytes c = le_bytes 8 (unat c) \<and> u64_at (xs @ u64_bytes c @ ys) (length xs) = Some c"
  by (intro conjI u16c.get_put u32c.get_put u64c.get_put u16c.put_ref u32c.put_ref u64c.put_ref)

end
